(* ===== verification/Prelude.thy ===== *)
theory Prelude
  imports Main "HOL-Library.Word" "HOL-Library.FSet" "HOL-Library.Finite_Map"
    "HOL-Library.Monad_Syntax" "HOL-Library.Product_Lexorder" "HOL-Library.Multiset"
begin

text \<open>
  The shared part of the development.

  \<^item> Rust panics (\<open>assert!\<close>, \<open>expect\<close>, \<open>unwrap\<close>, an index out of range) are the value
    \<open>None\<close> of the option type, so a function that may panic returns \<open>'a option\<close> and its calls
    are sequenced with the do-notation of the option monad. \<open>rust_assert\<close>, \<open>vec_get\<close> and
    \<open>vec_set\<close> are the primitive panicking operations; \<open>try_fold\<close> and \<open>try_map\<close> are the loops
    over a \<open>Vec\<close> whose body may panic.
  \<^item> \<open>BTreeMap\<close> and \<open>HashMap\<close> are finite maps (\<open>fmap\<close>) and \<open>BTreeSet\<close>/\<open>HashSet\<close> are finite sets
    (\<open>fset\<close>). Iteration over a \<open>BTreeMap\<close>, a \<open>BTreeSet\<close> or a key range of one goes in ascending
    key order: \<open>fm_range\<close> and \<open>fs_range\<close> list the entries whose key satisfies the range.
  \<^item> \<open>u64\<close> stakes are 64-bit words, whose addition wraps around as Rust's does in a release
    build; digests \<open>[u8; 32]\<close> are 256-bit words, whose order is the lexicographic order of the
    bytes. Rounds, commit indices and authority indices are natural numbers; \<open>saturating_sub\<close> is
    subtraction on them, \<open>u32_saturating_add\<close> stops at \<open>u32::MAX\<close>.
\<close>

section \<open>Panicking operations\<close>

named_theorems panic_simps \<open>how the panicking operations reduce\<close>

definition rust_assert :: "bool \<Rightarrow> unit option" where
  "rust_assert b = (if b then Some () else None)"

definition vec_get :: "'a list \<Rightarrow> nat \<Rightarrow> 'a option" where
  "vec_get xs i = (if i < length xs then Some (xs ! i) else None)"

definition vec_set :: "'a list \<Rightarrow> nat \<Rightarrow> 'a \<Rightarrow> 'a list option" where
  "vec_set xs i v = (if i < length xs then Some (xs[i := v]) else None)"

fun try_fold :: "('a \<Rightarrow> 's \<Rightarrow> 's option) \<Rightarrow> 'a list \<Rightarrow> 's \<Rightarrow> 's option" where
  "try_fold f [] s = Some s"
| "try_fold f (x # xs) s = do { s' \<leftarrow> f x s; try_fold f xs s' }"

fun try_map :: "('a \<Rightarrow> 'b option) \<Rightarrow> 'a list \<Rightarrow> 'b list option" where
  "try_map f [] = Some []"
| "try_map f (x # xs) = do { y \<leftarrow> f x; ys \<leftarrow> try_map f xs; Some (y # ys) }"

text \<open>\<open>iter().any\<close> and \<open>iter().filter\<close> with a predicate that may panic.\<close>

fun try_filter :: "('a \<Rightarrow> bool option) \<Rightarrow> 'a list \<Rightarrow> 'a list option" where
  "try_filter p [] = Some []"
| "try_filter p (x # xs) =
     do { b \<leftarrow> p x; ys \<leftarrow> try_filter p xs; Some (if b then x # ys else ys) }"

lemma rust_assert_simps [simp, panic_simps]:
  "rust_assert True = Some ()" "rust_assert False = None"
  "rust_assert b = Some u \<longleftrightarrow> b" "rust_assert b = None \<longleftrightarrow> \<not> b"
  by (simp_all add: rust_assert_def)

lemma bind_rust_assert [panic_simps]:
  "(rust_assert b \<bind> f) = (if b then f () else None)"
  by (simp add: rust_assert_def)

lemma vec_get_Some_iff [panic_simps]: "vec_get xs i = Some x \<longleftrightarrow> i < length xs \<and> x = xs ! i"
  by (auto simp: vec_get_def)

lemma vec_get_in [simp]: "i < length xs \<Longrightarrow> vec_get xs i = Some (xs ! i)"
  by (simp add: vec_get_def)

lemma vec_set_in [simp]: "i < length xs \<Longrightarrow> vec_set xs i v = Some (xs[i := v])"
  by (simp add: vec_set_def)

lemma vec_set_Some_iff [panic_simps]:
  "vec_set xs i v = Some ys \<longleftrightarrow> i < length xs \<and> ys = xs[i := v]"
  by (auto simp: vec_set_def)

lemma try_fold_append [simp]:
  "try_fold f (xs @ ys) s = do { s' \<leftarrow> try_fold f xs s; try_fold f ys s' }"
  by (induction xs arbitrary: s) (auto split: bind_splits)

text \<open>An invariant of the body that also rules out its panics is an invariant of the loop.\<close>

lemma try_fold_total:
  assumes "I s" and "\<And>x s. x \<in> set xs \<Longrightarrow> I s \<Longrightarrow> \<exists>s'. f x s = Some s' \<and> I s'"
  shows "\<exists>s'. try_fold f xs s = Some s' \<and> I s'"
  using assms
proof (induction xs arbitrary: s)
  case Nil
  then show ?case by simp
next
  case (Cons x xs)
  obtain s' where s': "f x s = Some s'" "I s'"
    using Cons.prems(1) Cons.prems(2)[of x s] by auto
  have "\<exists>s''. try_fold f xs s' = Some s'' \<and> I s''"
    using s'(2) Cons.prems(2) by (intro Cons.IH) auto
  then show ?case using s'(1) by simp
qed

text \<open>An invariant that the body keeps whenever it returns.\<close>

lemma try_fold_inv:
  assumes "try_fold f xs s = Some s'" and "I s"
    and "\<And>x s t. x \<in> set xs \<Longrightarrow> I s \<Longrightarrow> f x s = Some t \<Longrightarrow> I t"
  shows "I s'"
  using assms
proof (induction xs arbitrary: s)
  case Nil
  then show ?case by simp
next
  case (Cons x xs)
  then obtain t where "f x s = Some t" "try_fold f xs t = Some s'"
    by (auto simp: bind_eq_Some_conv)
  with Cons show ?case by (metis list.set_intros(1) list.set_intros(2))
qed

lemma try_fold_pure [simp]: "try_fold (\<lambda>x s. Some (g x s)) xs s = Some (fold g xs s)"
  by (induction xs arbitrary: s) simp_all

lemma try_fold_cong:
  "(\<And>x s. x \<in> set xs \<Longrightarrow> f x s = g x s) \<Longrightarrow> try_fold f xs s = try_fold g xs s"
  by (induction xs arbitrary: s) (auto split: bind_splits)

lemma try_map_Some_iff:
  "try_map f xs = Some ys \<longleftrightarrow> map f xs = map Some ys"
proof (induction xs arbitrary: ys)
  case (Cons x xs)
  then show ?case by (cases ys) (auto simp: bind_eq_Some_conv)
qed auto

lemma try_map_total:
  "(\<And>x. x \<in> set xs \<Longrightarrow> f x = Some (g x)) \<Longrightarrow> try_map f xs = Some (map g xs)"
  by (induction xs) auto

lemma try_filter_total:
  "(\<And>x. x \<in> set xs \<Longrightarrow> p x = Some (q x)) \<Longrightarrow> try_filter p xs = Some (filter q xs)"
  by (induction xs) auto

section \<open>Machine integers\<close>

definition u32_max :: nat where
  "u32_max = 2 ^ 32 - 1"

definition u32_saturating_add :: "nat \<Rightarrow> nat \<Rightarrow> nat" where
  "u32_saturating_add a b = min (a + b) u32_max"

lemma unat_plus_no_wrap:
  fixes a b :: "'a::len word"
  assumes "unat a + unat b < 2 ^ LENGTH('a)"
  shows "unat (a + b) = unat a + unat b"
  using assms by (simp add: unat_word_ariths)

lemma unat_sum_list_no_wrap:
  fixes ws :: "'a::len word list"
  assumes "sum_list (map unat ws) < 2 ^ LENGTH('a)"
  shows "unat (sum_list ws) = sum_list (map unat ws)"
  using assms
proof (induction ws)
  case (Cons w ws)
  then have "unat (sum_list ws) = sum_list (map unat ws)" by simp
  with Cons.prems show ?case by (simp add: unat_plus_no_wrap)
qed simp

section \<open>Ordered iteration over finite sets and maps\<close>

definition fs_range :: "('k::linorder \<Rightarrow> bool) \<Rightarrow> 'k fset \<Rightarrow> 'k list" where
  "fs_range P s = sorted_list_of_fset (ffilter P s)"

definition fm_range :: "('k::linorder \<Rightarrow> bool) \<Rightarrow> ('k, 'v) fmap \<Rightarrow> ('k \<times> 'v) list" where
  "fm_range P m = map (\<lambda>k. (k, the (fmlookup m k))) (fs_range P (fmdom m))"

definition fs_last :: "'k::linorder fset \<Rightarrow> 'k option" where
  "fs_last s = (if s = {||} then None else Some (fMax s))"

definition fs_first :: "'k::linorder fset \<Rightarrow> 'k option" where
  "fs_first s = (if s = {||} then None else Some (fMin s))"

lemma set_fs_range [simp]: "set (fs_range P s) = {k. k |\<in>| s \<and> P k}"
  by (auto simp: fs_range_def)

lemma sorted_fs_range: "sorted_wrt (<) (fs_range P s)"
  by (simp add: fs_range_def sorted_list_of_fset.rep_eq)

lemma distinct_fs_range [simp]: "distinct (fs_range P s)"
  by (simp add: fs_range_def sorted_list_of_fset.rep_eq)

lemma set_fm_range: "set (fm_range P m) = {(k, v). fmlookup m k = Some v \<and> P k}"
  by (auto simp: fm_range_def fmdom_notI fmlookup_dom_iff image_iff)

lemma map_fst_fm_range [simp]: "map fst (fm_range P m) = fs_range P (fmdom m)"
  by (simp add: fm_range_def comp_def)

lemma fm_range_cong:
  assumes "\<And>k. P k \<Longrightarrow> fmlookup m k = fmlookup m' k"
  shows "fm_range P m = fm_range P m'"
proof -
  have "ffilter P (fmdom m) = ffilter P (fmdom m')"
    using assms by (auto simp: fmlookup_dom_iff fset_eq_iff)
  then have "fs_range P (fmdom m) = fs_range P (fmdom m')" by (simp add: fs_range_def)
  moreover have "fmlookup m k = fmlookup m' k" if "k \<in> set (fs_range P (fmdom m))" for k
    using that assms by simp
  ultimately show ?thesis by (simp add: fm_range_def)
qed

lemma fs_last_None [simp]: "fs_last s = None \<longleftrightarrow> s = {||}"
  by (simp add: fs_last_def)

lemma fs_first_None [simp]: "fs_first s = None \<longleftrightarrow> s = {||}"
  by (simp add: fs_first_def)

lemma fs_last_empty [simp]: "fs_last {||} = None" "fs_first {||} = None"
  by simp_all

lemma fs_last_SomeD: "fs_last s = Some x \<Longrightarrow> x |\<in>| s \<and> (\<forall>y. y |\<in>| s \<longrightarrow> y \<le> x)"
  by (auto simp: fs_last_def intro: fMax_in split: if_splits)

lemma fs_first_SomeD: "fs_first s = Some x \<Longrightarrow> x |\<in>| s \<and> (\<forall>y. y |\<in>| s \<longrightarrow> x \<le> y)"
  by (auto simp: fs_first_def intro: fMin_in split: if_splits)

section \<open>Two-phase reads\<close>

text \<open>
  A batched lookup: a first pass fills the positions it can answer (\<open>f r = Some v\<close>) and collects the
  others with their index, a second pass fills those.
\<close>

lemma enumerate_snoc: "List.enumerate n (xs @ [x]) = List.enumerate n xs @ [(n + length xs, x)]"
  by (induction xs arbitrary: n) simp_all

lemma fill_phase:
  assumes step: "\<And>i r bs ms. i < length bs \<Longrightarrow> bs ! i = d \<Longrightarrow> step (i, r) (bs, ms) =
      (case f r of Some v \<Rightarrow> (bs[i := v], ms) | None \<Rightarrow> (bs, ms @ [(i, r)]))"
    and "length xs \<le> m"
  shows "fold step (List.enumerate 0 xs) (replicate m d, []) =
      (map (\<lambda>r. case f r of Some v \<Rightarrow> v | None \<Rightarrow> d) xs @ replicate (m - length xs) d,
       filter (\<lambda>(i, r). f r = None) (List.enumerate 0 xs))"
  using assms(2)
proof (induction xs rule: rev_induct)
  case (snoc x xs)
  obtain k where k: "m - length xs = Suc k" using snoc.prems by (cases "m - length xs") auto
  then have k': "m - Suc (length xs) = k" by simp
  let ?g = "\<lambda>r. case f r of Some v \<Rightarrow> v | None \<Rightarrow> d"
  have "fold step (List.enumerate 0 (xs @ [x])) (replicate m d, []) =
      step (length xs, x) (map ?g xs @ replicate (Suc k) d, filter (\<lambda>(i, r). f r = None) (List.enumerate 0 xs))"
    using snoc k by (simp add: enumerate_snoc)
  also have "\<dots> = (map ?g (xs @ [x]) @ replicate k d,
      filter (\<lambda>(i, r). f r = None) (List.enumerate 0 (xs @ [x])))"
    by (subst step) (auto simp: nth_append enumerate_snoc list_update_append split: option.split)
  finally show ?case using k' by simp
qed simp

lemma refill_phase:
  "fold (\<lambda>((i, _), res) bs. bs[i := res])
     (map (\<lambda>m. (m, h (snd m))) (filter (\<lambda>(i, r). P r) (List.enumerate 0 xs))) (map g xs @ ys) =
   map (\<lambda>r. if P r then h r else g r) xs @ ys"
proof (induction xs arbitrary: ys rule: rev_induct)
  case (snoc x xs)
  show ?case using snoc[of "g x # ys"] by (simp add: enumerate_snoc list_update_append)
qed simp

lemma zip_map_self: "zip xs (map f xs) = map (\<lambda>x. (x, f x)) xs"
  by (induction xs) simp_all

end
