(* ===== verification/Committee.thy ===== *)
theory Committee
  imports Prelude
begin

text \<open>
  The committee of an epoch (\<open>config/src/committee.rs\<close>): its authorities with their stakes, the
  quorum and validity thresholds \<open>Committee::new\<close> computes from the total stake, and the threshold
  tests every other component uses.

  Stakes are \<open>u64\<close>, so the sum and the threshold arithmetic are done on 64-bit words. The
  invariant \<open>committee_wf\<close> says that the sum did not wrap around and that the thresholds are the
  exact natural-number ones; \<open>committee_new_wf\<close> shows that \<open>Committee::new\<close> establishes it. The
  locale \<open>quorum_system\<close> is the contract the consensus components rely on (two quorums share
  validity-many stake), interpreted here on the committee.
\<close>

type_synonym stake = "64 word"
type_synonym epoch = nat
type_synonym authority_index = nat
type_synonym bytes = "8 word list"

record authority =
  a_stake :: stake
  a_address :: string
  a_hostname :: string
  a_authority_key :: bytes
  a_protocol_key :: bytes
  a_network_key :: bytes

record committee =
  c_epoch :: epoch
  c_total_stake :: stake
  c_quorum_threshold :: stake
  c_validity_threshold :: stake
  c_authorities :: "authority list"

definition committee_new :: "epoch \<Rightarrow> authority list \<Rightarrow> committee option" where
  "committee_new epoch authorities = do {
     rust_assert (authorities \<noteq> []);
     rust_assert (length authorities < u32_max);
     let total_stake = sum_list (map a_stake authorities);
     rust_assert (total_stake \<noteq> 0);
     let fault_tolerance = (total_stake - 1) div 3;
     let quorum_threshold = total_stake - fault_tolerance;
     let validity_threshold = fault_tolerance + 1;
     rust_assert (2 * quorum_threshold - fault_tolerance > total_stake);
     Some \<lparr>c_epoch = epoch, c_total_stake = total_stake, c_quorum_threshold = quorum_threshold,
           c_validity_threshold = validity_threshold, c_authorities = authorities\<rparr>
   }"

definition committee_size :: "committee \<Rightarrow> nat" where
  "committee_size c = length (c_authorities c)"

definition committee_stake :: "committee \<Rightarrow> authority_index \<Rightarrow> stake option" where
  "committee_stake c i = map_option a_stake (vec_get (c_authorities c) i)"

definition committee_authority :: "committee \<Rightarrow> authority_index \<Rightarrow> authority option" where
  "committee_authority c i = vec_get (c_authorities c) i"

definition committee_authorities :: "committee \<Rightarrow> (authority_index \<times> authority) list" where
  "committee_authorities c = enumerate 0 (c_authorities c)"

definition reached_quorum :: "committee \<Rightarrow> stake \<Rightarrow> bool" where
  "reached_quorum c s \<longleftrightarrow> s \<ge> c_quorum_threshold c"

definition reached_validity :: "committee \<Rightarrow> stake \<Rightarrow> bool" where
  "reached_validity c s \<longleftrightarrow> s \<ge> c_validity_threshold c"

definition to_authority_index :: "committee \<Rightarrow> nat \<Rightarrow> authority_index option" where
  "to_authority_index c i = (if i < committee_size c then Some i else None)"

definition is_valid_index :: "committee \<Rightarrow> authority_index \<Rightarrow> bool" where
  "is_valid_index c i \<longleftrightarrow> i < committee_size c"

section \<open>Well-formed committees\<close>

text \<open>The stake of an authority and of a set of authorities, as natural numbers.\<close>

definition weight :: "committee \<Rightarrow> authority_index \<Rightarrow> nat" where
  "weight c i = unat (a_stake (c_authorities c ! i))"

definition stake_of :: "committee \<Rightarrow> authority_index set \<Rightarrow> nat" where
  "stake_of c A = sum (weight c) A"

definition members :: "committee \<Rightarrow> authority_index set" where
  "members c = {..<committee_size c}"

definition quorum :: "committee \<Rightarrow> nat" where
  "quorum c = unat (c_quorum_threshold c)"

definition validity :: "committee \<Rightarrow> nat" where
  "validity c = unat (c_validity_threshold c)"

definition committee_wf :: "committee \<Rightarrow> bool" where
  "committee_wf c \<longleftrightarrow>
     unat (c_total_stake c) = stake_of c (members c) \<and>
     stake_of c (members c) > 0 \<and>
     quorum c = stake_of c (members c) - (stake_of c (members c) - 1) div 3 \<and>
     validity c = (stake_of c (members c) - 1) div 3 + 1"

lemma finite_members [simp]: "finite (members c)"
  by (simp add: members_def)

lemma sum_stakes_eq_stake_of:
  "sum_list (map (unat \<circ> a_stake) (c_authorities c)) = stake_of c (members c)"
  by (simp add: stake_of_def weight_def members_def committee_size_def
      sum_list_sum_nth atLeast0LessThan)

text \<open>The threshold arithmetic on words agrees with the one on natural numbers.\<close>

lemma committee_thresholds:
  fixes t :: stake
  assumes "t \<noteq> 0"
  defines "f \<equiv> (t - 1) div 3"
  shows "unat f = (unat t - 1) div 3" "unat (t - f) = unat t - (unat t - 1) div 3"
    "unat (f + 1) = (unat t - 1) div 3 + 1"
proof -
  have t: "0 < unat t" using assms by (simp add: unat_gt_0)
  have t1: "unat (t - 1) = unat t - 1"
    using assms by (simp add: unat_minus_one)
  show f: "unat f = (unat t - 1) div 3" unfolding f_def by (simp add: unat_div t1)
  then have "f \<le> t" using t by (simp add: word_le_nat_alt)
  then show "unat (t - f) = unat t - (unat t - 1) div 3" using f by (simp add: unat_sub)
  have "unat t < 2 ^ 64" using unsigned_less[of t] by simp
  then show "unat (f + 1) = (unat t - 1) div 3 + 1"
    using f by (subst unat_plus_no_wrap) auto
qed

text \<open>
  The assertion on quorum intersection: on words \<open>2 * quorum - fault_tolerance\<close> is the total plus
  one, two or three, whether or not the doubling wraps around.
\<close>

lemma quorum_assertion_holds:
  fixes t :: stake
  assumes "t \<noteq> 0" and "unat t < 2 ^ 64 - 3"
  defines "f \<equiv> (t - 1) div 3"
  shows "2 * (t - f) - f > t"
proof -
  define r where "r = (unat t - 1) mod 3"
  have r: "r < 3" by (simp add: r_def)
  have f: "unat f = (unat t - 1) div 3"
    using committee_thresholds(1)[OF assms(1)] by (simp add: f_def)
  have "0 < unat t" using assms(1) by (simp add: unat_gt_0)
  then have "unat t = 3 * unat f + 1 + r"
    using div_mult_mod_eq[of "unat t - 1" 3] unfolding f r_def by linarith
  then have "of_nat (unat t) = (of_nat (3 * unat f + 1 + r) :: stake)" by (rule arg_cong)
  then have t: "t = 3 * f + 1 + of_nat r" by simp
  have "2 * (t - f) - f = t + of_nat (Suc r)"
    unfolding t by (simp add: algebra_simps)
  moreover have "unat (of_nat (Suc r) :: stake) = Suc r"
    using r by (simp add: unsigned_of_nat take_bit_nat_eq_self_iff del: of_nat_Suc)
  then have "unat (t + of_nat (Suc r)) = unat t + Suc r"
    using r assms(2) by (subst unat_plus_no_wrap) auto
  ultimately show ?thesis unfolding word_less_nat_alt by (simp only: less_add_Suc1)
qed

lemma committee_new_ok:
  assumes "authorities \<noteq> []" "length authorities < u32_max"
    and sum: "0 < sum_list (map (unat \<circ> a_stake) authorities)"
      "sum_list (map (unat \<circ> a_stake) authorities) < 2 ^ 64 - 3"
  shows "\<exists>c. committee_new epoch authorities = Some c \<and> committee_wf c \<and>
           c_authorities c = authorities \<and> c_epoch c = epoch"
proof -
  define t where "t = sum_list (map a_stake authorities)"
  have ut: "unat t = sum_list (map (unat \<circ> a_stake) authorities)"
    using sum(2) unfolding t_def by (subst unat_sum_list_no_wrap) (auto simp: o_def)
  have t0: "t \<noteq> 0" using sum(1) ut by (metis less_numeral_extra(3) unat_0)
  define f where "f = (t - 1) div 3"
  define c where "c = \<lparr>c_epoch = epoch, c_total_stake = t, c_quorum_threshold = t - f,
           c_validity_threshold = f + 1, c_authorities = authorities\<rparr>"
  have "2 * (t - f) - f > t"
    unfolding f_def using t0 sum(2) ut by (intro quorum_assertion_holds) auto
  then have "committee_new epoch authorities = Some c"
    using assms(1,2) t0
    by (simp add: committee_new_def c_def f_def t_def Let_def bind_rust_assert)
  moreover have "stake_of c (members c) = unat t"
    using ut sum_stakes_eq_stake_of[of c] by (simp add: c_def)
  then have "committee_wf c"
    using committee_thresholds[OF t0] t0
    by (simp add: committee_wf_def quorum_def validity_def c_def f_def unat_gt_0)
  ultimately show ?thesis by (auto simp: c_def)
qed

section \<open>Quorum intersection\<close>

text \<open>
  The contract of a weighted quorum system. \<open>valid\<close> is the invariant of the provider; the one law
  is the arithmetic relation of the thresholds to the total weight.
\<close>

locale quorum_system =
  fixes valid :: "'c \<Rightarrow> bool"
    and mem :: "'c \<Rightarrow> nat set"
    and wt :: "'c \<Rightarrow> nat \<Rightarrow> nat"
    and qu :: "'c \<Rightarrow> nat"
    and va :: "'c \<Rightarrow> nat"
  assumes fin: "valid c \<Longrightarrow> finite (mem c)"
    and thresholds: "valid c \<Longrightarrow> qu c + va c = Suc (sum (wt c) (mem c))"
    and fault_bound: "valid c \<Longrightarrow> 3 * va c \<le> sum (wt c) (mem c) + 2"
    and validity_pos: "valid c \<Longrightarrow> 0 < va c"
begin

lemma intersection:
  assumes v: "valid c" and AB: "A \<subseteq> mem c" "B \<subseteq> mem c"
    and q: "qu c \<le> sum (wt c) A" "qu c \<le> sum (wt c) B"
  shows "va c \<le> sum (wt c) (A \<inter> B)"
proof -
  have fin': "finite A" "finite B" using fin[OF v] AB by (auto intro: finite_subset)
  have "sum (wt c) (A \<union> B) + sum (wt c) (A \<inter> B) = sum (wt c) A + sum (wt c) B"
    using fin' by (rule sum.union_inter)
  moreover have "sum (wt c) (A \<union> B) \<le> sum (wt c) (mem c)"
    using fin[OF v] AB by (intro sum_mono2) auto
  ultimately show ?thesis using thresholds[OF v] fault_bound[OF v] q by linarith
qed

text \<open>Two quorums share a member outside any set whose weight is below the validity threshold.\<close>

lemma intersection_honest:
  assumes v: "valid c" and AB: "A \<subseteq> mem c" "B \<subseteq> mem c"
    and q: "qu c \<le> sum (wt c) A" "qu c \<le> sum (wt c) B"
    and bad: "F \<subseteq> mem c" "sum (wt c) F < va c"
  shows "\<exists>i. i \<in> A \<and> i \<in> B \<and> i \<notin> F"
proof (rule ccontr)
  assume "\<not> ?thesis"
  then have "A \<inter> B \<subseteq> F" by blast
  then have "sum (wt c) (A \<inter> B) \<le> sum (wt c) F"
    using fin[OF v] bad(1) by (intro sum_mono2) (auto intro: finite_subset)
  then show False using intersection[OF v AB q] bad(2) by linarith
qed

text \<open>The members outside such a set form a quorum by themselves.\<close>

lemma honest_quorum:
  assumes v: "valid c" and bad: "F \<subseteq> mem c" "sum (wt c) F < va c"
  shows "qu c \<le> sum (wt c) (mem c - F)"
proof -
  have "sum (wt c) (mem c - F) + sum (wt c) F = sum (wt c) (mem c)"
    using fin[OF v] bad(1) by (metis add.commute sum.subset_diff)
  then show ?thesis using thresholds[OF v] bad(2) by linarith
qed

end

interpretation cq: quorum_system committee_wf members weight quorum validity
proof
  fix c assume wf: "committee_wf c"
  define t where "t = sum (weight c) (members c)"
  have t: "0 < t" "quorum c = t - (t - 1) div 3" "validity c = (t - 1) div 3 + 1"
    using wf by (auto simp: committee_wf_def stake_of_def t_def)
  show "finite (members c)" by simp
  show "quorum c + validity c = Suc (sum (weight c) (members c))"
    using t unfolding t_def[symmetric] by simp
  show "3 * validity c \<le> sum (weight c) (members c) + 2"
    using t unfolding t_def[symmetric] by simp
  show "0 < validity c" using t by simp
qed

lemma committee_stake_in:
  "i \<in> members c \<Longrightarrow> committee_stake c i = Some (a_stake (c_authorities c ! i))"
  by (simp add: committee_stake_def members_def committee_size_def)

lemma committee_stake_out: "i \<notin> members c \<Longrightarrow> committee_stake c i = None"
  by (simp add: committee_stake_def members_def committee_size_def vec_get_def)

lemma stake_of_le_total:
  assumes "committee_wf c" "A \<subseteq> members c"
  shows "stake_of c A \<le> unat (c_total_stake c)"
  using assms by (auto simp: committee_wf_def stake_of_def intro: sum_mono2)

lemma stake_of_mono: "A \<subseteq> B \<Longrightarrow> B \<subseteq> members c \<Longrightarrow> stake_of c A \<le> stake_of c B"
  unfolding stake_of_def by (intro sum_mono2) (auto intro: finite_subset[OF _ finite_members])

text \<open>The stakes of a list of authorities, summed in 64 bits as the code does.\<close>

definition total_stake_of :: "committee \<Rightarrow> authority_index list \<Rightarrow> stake option" where
  "total_stake_of c xs = map_option sum_list (try_map (committee_stake c) xs)"

lemma total_stake_of_ok:
  assumes wf: "committee_wf c" and m: "set xs \<subseteq> members c" and d: "distinct xs"
  shows "\<exists>s. total_stake_of c xs = Some s \<and> unat s = stake_of c (set xs)"
proof -
  let ?s = "sum_list (map (\<lambda>i. a_stake (c_authorities c ! i)) xs)"
  have "try_map (committee_stake c) xs = Some (map (\<lambda>i. a_stake (c_authorities c ! i)) xs)"
    using m by (intro try_map_total) (auto simp: committee_stake_in)
  moreover have sum: "sum_list (map unat (map (\<lambda>i. a_stake (c_authorities c ! i)) xs)) = stake_of c (set xs)"
    using sum_list_distinct_conv_sum_set[OF d, of "weight c"] by (simp add: stake_of_def weight_def[abs_def] comp_def)
  have "stake_of c (set xs) < 2 ^ 64"
    using stake_of_le_total[OF wf m] unsigned_less[where 'a = nat and w = "c_total_stake c"] by simp
  then have "unat ?s = stake_of c (set xs)"
    using unat_sum_list_no_wrap[of "map (\<lambda>i. a_stake (c_authorities c ! i)) xs"] sum by simp
  ultimately show ?thesis by (simp add: total_stake_of_def)
qed

lemma committee_new_wf:
  assumes "committee_new epoch authorities = Some c" and "sum_list (map (unat \<circ> a_stake) authorities) < 2 ^ 64 - 3"
  shows "committee_wf c" "c_authorities c = authorities"
proof -
  have a: "authorities \<noteq> []" "length authorities < u32_max" "sum_list (map a_stake authorities) \<noteq> 0"
    using assms(1) by (auto simp: committee_new_def bind_rust_assert Let_def split: if_splits)
  have "unat (sum_list (map a_stake authorities)) = sum_list (map (unat \<circ> a_stake) authorities)"
    using assms(2) by (subst unat_sum_list_no_wrap) (auto simp: o_def)
  then have "0 < sum_list (map (unat \<circ> a_stake) authorities)" using a(3) by (metis bot_nat_0.not_eq_extremum unat_eq_zero)
  then obtain c' where "committee_new epoch authorities = Some c'" "committee_wf c'" "c_authorities c' = authorities"
    using committee_new_ok[OF a(1,2) _ assms(2)] by blast
  then show "committee_wf c" "c_authorities c = authorities" using assms(1) by auto
qed

section \<open>Properties\<close>

text \<open>A committee of four authorities of equal stake, and one with a dominant authority.\<close>

definition test_authority :: "stake \<Rightarrow> authority" where
  "test_authority s = \<lparr>a_stake = s, a_address = [], a_hostname = [], a_authority_key = [],
     a_protocol_key = [], a_network_key = []\<rparr>"

definition committee4 :: committee where
  "committee4 = \<lparr>c_epoch = 0, c_total_stake = 4, c_quorum_threshold = 3,
     c_validity_threshold = 2, c_authorities = map test_authority [1, 1, 1, 1]\<rparr>"

definition committee_skewed :: committee where
  "committee_skewed = \<lparr>c_epoch = 0, c_total_stake = 7, c_quorum_threshold = 5,
     c_validity_threshold = 3, c_authorities = map test_authority [5, 1, 1]\<rparr>"

lemma committee4_new: "committee_new 0 (map test_authority [1, 1, 1, 1]) = Some committee4"
  by (simp add: committee_new_def committee4_def test_authority_def bind_rust_assert u32_max_def)

lemma committee_skewed_new: "committee_new 0 (map test_authority [5, 1, 1]) = Some committee_skewed"
  by (simp add: committee_new_def committee_skewed_def test_authority_def bind_rust_assert
      u32_max_def)

lemma committee_skewed_wf: "committee_wf committee_skewed"
  by (rule committee_new_wf(1)[OF committee_skewed_new]) (simp add: test_authority_def)

lemma committee4_members: "members committee4 = {0, 1, 2, 3}"
  by (auto simp: members_def committee_size_def committee4_def)

lemma committee4_weight: "i < 4 \<Longrightarrow> weight committee4 i = 1"
  by (auto simp: weight_def committee4_def test_authority_def less_Suc_eq numeral_eq_Suc)

lemma committee4_wf: "committee_wf committee4"
  by (simp add: committee_wf_def stake_of_def committee4_members committee4_weight
      quorum_def validity_def) (simp add: committee4_def)

text \<open>
  \<open>Committee::new\<close> returns for every non-empty list of fewer than \<open>u32::MAX\<close> authorities whose
  stakes sum to a positive number below \<open>2^64 - 3\<close>: none of its assertions fails (the quorum
  intersection assertion holds although its doubling may wrap around), and with total stake \<open>t\<close>
  the quorum threshold is \<open>t - (t - 1) div 3\<close> and the validity threshold \<open>(t - 1) div 3 + 1\<close>.
\<close>

theorem committee_new_correct:
  assumes "authorities \<noteq> []" and "length authorities < u32_max"
    and "0 < sum_list (map (unat \<circ> a_stake) authorities)"
    and "sum_list (map (unat \<circ> a_stake) authorities) < 2 ^ 64 - 3"
  shows "\<exists>c. committee_new epoch authorities = Some c \<and> committee_wf c \<and>
           c_authorities c = authorities \<and> c_epoch c = epoch"
  using assms by (rule committee_new_ok)

theorem committee_new_correct_witness:
  "\<exists>c. committee_new 3 (map test_authority [2 ^ 62, 2 ^ 63, 7]) = Some c \<and> committee_wf c \<and>
     c_authorities c = map test_authority [2 ^ 62, 2 ^ 63, 7] \<and> c_epoch c = 3"
  by (rule committee_new_correct) (simp_all add: u32_max_def test_authority_def)

text \<open>
  C17. Quorum intersection, over the code's own construction and tests: in a committee built by
  \<open>committee_new\<close>, take three lists of distinct authorities whose stakes are summed in 64 bits. If
  \<open>reached_quorum\<close> holds for the first two sums and \<open>reached_validity\<close> does not hold for the third
  (the faulty authorities), then some authority is in both of the first lists and not faulty, and
  the sum over all the authorities that are not faulty passes \<open>reached_quorum\<close>.
\<close>

theorem quorums_share_honest:
  assumes "committee_new epoch authorities = Some c" and "sum_list (map (unat \<circ> a_stake) authorities) < 2 ^ 64 - 3"
    and "distinct as" "distinct bs" "distinct fs" "set as \<union> set bs \<union> set fs \<subseteq> {..<length authorities}"
    and "total_stake_of c as = Some sa" "reached_quorum c sa" and "total_stake_of c bs = Some sb" "reached_quorum c sb"
    and "total_stake_of c fs = Some sf" "\<not> reached_validity c sf"
  shows "(\<exists>i. i \<in> set as \<and> i \<in> set bs \<and> i \<notin> set fs) \<and>
     (\<exists>s. total_stake_of c (filter (\<lambda>i. i \<notin> set fs) [0..<length authorities]) = Some s \<and> reached_quorum c s)"
proof -
  note wf = committee_new_wf[OF assms(1,2)]
  have mem: "members c = {..<length authorities}" using wf(2) by (simp add: members_def committee_size_def)
  then have sub: "set as \<subseteq> members c" "set bs \<subseteq> members c" "set fs \<subseteq> members c" using assms(6) by auto
  have st: "unat sa = stake_of c (set as)" "unat sb = stake_of c (set bs)" "unat sf = stake_of c (set fs)"
    using total_stake_of_ok[OF wf(1) sub(1) assms(3)] total_stake_of_ok[OF wf(1) sub(2) assms(4)]
      total_stake_of_ok[OF wf(1) sub(3) assms(5)] assms(7,9,11) by auto
  have q: "reached_quorum c s \<longleftrightarrow> quorum c \<le> unat s" "reached_validity c s \<longleftrightarrow> validity c \<le> unat s" for s
    by (simp_all add: reached_quorum_def reached_validity_def quorum_def validity_def word_le_nat_alt)
  have qs: "quorum c \<le> stake_of c (set as)" "quorum c \<le> stake_of c (set bs)" "stake_of c (set fs) < validity c"
    using assms(8,10,12) st q by auto
  let ?hs = "filter (\<lambda>i. i \<notin> set fs) [0..<length authorities]"
  have hs: "set ?hs = members c - set fs" "distinct ?hs" by (auto simp: mem)
  obtain s where "total_stake_of c ?hs = Some s" "unat s = stake_of c (members c - set fs)"
    using total_stake_of_ok[OF wf(1) _ hs(2)] hs(1) by auto
  moreover have "quorum c \<le> stake_of c (members c - set fs)"
    using cq.honest_quorum[OF wf(1) sub(3)] qs(3) by (simp add: stake_of_def)
  moreover have "\<exists>i. i \<in> set as \<and> i \<in> set bs \<and> i \<notin> set fs"
    using cq.intersection_honest[OF wf(1) sub(1,2) _ _ sub(3)] qs by (simp add: stake_of_def)
  ultimately show ?thesis using q by auto
qed

theorem quorums_share_honest_witness:
  "(\<exists>i. i \<in> set [0, 1, 2::nat] \<and> i \<in> set [1, 2, 3] \<and> i \<notin> set [1]) \<and>
   (\<exists>s. total_stake_of committee4 (filter (\<lambda>i. i \<notin> set [1]) [0..<length (map test_authority [1, 1, 1, 1])]) = Some s \<and> reached_quorum committee4 s)"
  by (rule quorums_share_honest[OF committee4_new, where sa = 3 and sb = 3 and sf = 1])
    (auto simp: test_authority_def total_stake_of_def committee_stake_def committee4_def vec_get_def reached_quorum_def reached_validity_def word_le_nat_alt)

end
