(* ===== verification/StakeAggregator.thy ===== *)
theory StakeAggregator
  imports Committee
begin

text \<open>
  The vote counter of \<open>core/src/stake_aggregator.rs\<close>: a set of authorities that voted and the sum
  of their stakes, which counts every authority once. The type parameter of \<open>StakeAggregator<T>\<close>
  is the argument \<open>T\<close> of the operations.

  The locale \<open>vote_counter\<close> is what clients rely on: an abstraction of the counter to its set of
  voters, and an \<open>add\<close> that inserts into it and reports whether the voters reach the threshold.
  Proved in it once, for every client: adding a list of votes reports exactly whether the distinct
  voters of the list reach the threshold, in any order and with any repetition.
\<close>

datatype committee_threshold = QuorumThreshold | ValidityThreshold

fun is_threshold :: "committee_threshold \<Rightarrow> committee \<Rightarrow> stake \<Rightarrow> bool" where
  "is_threshold QuorumThreshold c amount = reached_quorum c amount"
| "is_threshold ValidityThreshold c amount = reached_validity c amount"

fun threshold :: "committee_threshold \<Rightarrow> committee \<Rightarrow> stake" where
  "threshold QuorumThreshold c = c_quorum_threshold c"
| "threshold ValidityThreshold c = c_validity_threshold c"

record stake_aggregator =
  sa_votes :: "authority_index fset"
  sa_stake :: stake

definition aggregator_new :: stake_aggregator where
  "aggregator_new = \<lparr>sa_votes = {||}, sa_stake = 0\<rparr>"

definition aggregator_add_unique ::
    "stake_aggregator \<Rightarrow> authority_index \<Rightarrow> committee \<Rightarrow> (stake_aggregator \<times> bool) option" where
  "aggregator_add_unique a vote c =
     (if vote |\<in>| sa_votes a then Some (a, False)
      else do {
        s \<leftarrow> committee_stake c vote;
        Some (a\<lparr>sa_votes := finsert vote (sa_votes a), sa_stake := sa_stake a + s\<rparr>, True)
      })"

definition aggregator_add :: "committee_threshold \<Rightarrow>
    stake_aggregator \<Rightarrow> authority_index \<Rightarrow> committee \<Rightarrow> (stake_aggregator \<times> bool) option" where
  "aggregator_add T a vote c = do {
     a' \<leftarrow> (if vote |\<in>| sa_votes a then Some a
           else do {
             s \<leftarrow> committee_stake c vote;
             Some (a\<lparr>sa_votes := finsert vote (sa_votes a), sa_stake := sa_stake a + s\<rparr>)
           });
     Some (a', is_threshold T c (sa_stake a'))
   }"

definition aggregator_reached_threshold ::
    "committee_threshold \<Rightarrow> stake_aggregator \<Rightarrow> committee \<Rightarrow> bool" where
  "aggregator_reached_threshold T a c = is_threshold T c (sa_stake a)"

definition aggregator_clear :: "stake_aggregator \<Rightarrow> stake_aggregator" where
  "aggregator_clear a = a\<lparr>sa_votes := {||}, sa_stake := 0\<rparr>"

section \<open>Invariant and functional behaviour\<close>

text \<open>The stake kept is the sum of the stakes of the voters, without wrap-around.\<close>

definition aggregator_inv :: "committee \<Rightarrow> stake_aggregator \<Rightarrow> bool" where
  "aggregator_inv c a \<longleftrightarrow>
     fset (sa_votes a) \<subseteq> members c \<and> unat (sa_stake a) = stake_of c (fset (sa_votes a))"

lemma aggregator_inv_new [simp, intro]: "aggregator_inv c aggregator_new"
  by (simp add: aggregator_inv_def aggregator_new_def stake_of_def)

lemma aggregator_clear_eq_new [simp]: "aggregator_clear a = aggregator_new"
  by (simp add: aggregator_clear_def aggregator_new_def)

lemma is_threshold_unat: "is_threshold T c s \<longleftrightarrow> unat (threshold T c) \<le> unat s"
  by (cases T) (simp_all add: reached_quorum_def reached_validity_def word_le_nat_alt)

lemma add_voter_inv:
  assumes wf: "committee_wf c" and inv: "aggregator_inv c a"
    and v: "v \<in> members c" "v |\<notin>| sa_votes a" and s: "committee_stake c v = Some s"
  shows "aggregator_inv c (a\<lparr>sa_votes := finsert v (sa_votes a), sa_stake := sa_stake a + s\<rparr>)"
proof -
  have s': "unat s = weight c v" using s v by (simp add: committee_stake_in weight_def)
  have "stake_of c (insert v (fset (sa_votes a))) = weight c v + stake_of c (fset (sa_votes a))"
    using v by (simp add: stake_of_def)
  moreover have "stake_of c (insert v (fset (sa_votes a))) \<le> unat (c_total_stake c)"
    using wf inv v by (intro stake_of_le_total) (auto simp: aggregator_inv_def)
  moreover have "unat (c_total_stake c) < 2 ^ 64"
    using unsigned_less[of "c_total_stake c"] by simp
  ultimately have "unat (sa_stake a + s) = stake_of c (insert v (fset (sa_votes a)))"
    using inv s' by (subst unat_plus_no_wrap) (auto simp: aggregator_inv_def)
  then show ?thesis using inv v by (auto simp: aggregator_inv_def)
qed

lemma aggregator_add_spec:
  assumes "committee_wf c" "aggregator_inv c a" "v \<in> members c"
  shows "\<exists>a'. aggregator_add T a v c = Some (a', unat (threshold T c) \<le> stake_of c (fset (sa_votes a')))
           \<and> aggregator_inv c a' \<and> fset (sa_votes a') = insert v (fset (sa_votes a))"
proof (cases "v |\<in>| sa_votes a")
  case True
  with assms show ?thesis
    by (intro exI[of _ a])
      (auto simp: aggregator_add_def is_threshold_unat aggregator_inv_def insert_absorb)
next
  case False
  let ?s = "a_stake (c_authorities c ! v)"
  let ?a = "a\<lparr>sa_votes := finsert v (sa_votes a), sa_stake := sa_stake a + ?s\<rparr>"
  have s: "committee_stake c v = Some ?s" using assms(3) by (rule committee_stake_in)
  have inv: "aggregator_inv c ?a" using assms False s by (intro add_voter_inv) auto
  have "aggregator_add T a v c = Some (?a, is_threshold T c (sa_stake ?a))"
    using False s by (simp add: aggregator_add_def)
  with inv show ?thesis
    by (intro exI[of _ ?a]) (auto simp: is_threshold_unat aggregator_inv_def)
qed

section \<open>The contract of a vote counter\<close>

text \<open>
  The loop shape of every client: go through the items, count the author of each item that passes
  a test (the test may read and update a cache \<open>s\<close>), and return as soon as \<open>add\<close> reports the
  threshold.
\<close>

fun scan_votes :: "('a \<Rightarrow> nat \<Rightarrow> 'c \<Rightarrow> ('a \<times> bool) option) \<Rightarrow>
    'c \<Rightarrow> ('x \<Rightarrow> 's \<Rightarrow> (bool \<times> 's) option) \<Rightarrow> ('x \<Rightarrow> nat) \<Rightarrow> 'x list \<Rightarrow> 'a \<Rightarrow> 's
    \<Rightarrow> (bool \<times> 's) option" where
  "scan_votes add c p author [] a s = Some (False, s)"
| "scan_votes add c p author (x # xs) a s = do {
     (b, s') \<leftarrow> p x s;
     if b then do {
       (a', reached) \<leftarrow> add a (author x) c;
       if reached then Some (True, s') else scan_votes add c p author xs a' s'
     } else scan_votes add c p author xs a s'
   }"

locale vote_counter =
  fixes valid :: "'c \<Rightarrow> bool"
    and inv :: "'c \<Rightarrow> 'a \<Rightarrow> bool"
    and mem :: "'c \<Rightarrow> nat set"
    and wt :: "'c \<Rightarrow> nat set \<Rightarrow> nat"
    and thr :: "'c \<Rightarrow> nat"
    and empty :: 'a
    and add :: "'a \<Rightarrow> nat \<Rightarrow> 'c \<Rightarrow> ('a \<times> bool) option"
    and voters :: "'a \<Rightarrow> nat set"
  assumes inv_empty: "valid c \<Longrightarrow> inv c empty"
    and voters_empty: "voters empty = {}"
    and add_ok: "valid c \<Longrightarrow> inv c a \<Longrightarrow> v \<in> mem c \<Longrightarrow>
      \<exists>a'. add a v c = Some (a', thr c \<le> wt c (voters a')) \<and> inv c a' \<and>
           voters a' = insert v (voters a)"
    and wt_mono: "valid c \<Longrightarrow> A \<subseteq> B \<Longrightarrow> B \<subseteq> mem c \<Longrightarrow> wt c A \<le> wt c B"
    and thr_pos: "valid c \<Longrightarrow> wt c {} < thr c"
begin

text \<open>
  With a test that never panics on states satisfying \<open>J\<close> and whose verdict \<open>P\<close> does not depend on
  the state, the loop returns true exactly when the authors of the passing items, together with the
  voters counted before, reach the threshold.
\<close>

lemma scan_spec:
  assumes v: "valid c"
    and p: "\<And>x s. x \<in> set xs \<Longrightarrow> J s \<Longrightarrow> \<exists>s'. p x s = Some (P x, s') \<and> J s'"
    and auth: "\<And>x. x \<in> set xs \<Longrightarrow> P x \<Longrightarrow> author x \<in> mem c"
    and a: "inv c a" "voters a \<subseteq> mem c" "wt c (voters a) < thr c" and s: "J s"
  shows "\<exists>s'. scan_votes add c p author xs a s =
           Some (thr c \<le> wt c (voters a \<union> author ` {x \<in> set xs. P x}), s') \<and> J s'"
  using p auth a s
proof (induction xs arbitrary: a s)
  case Nil
  then show ?case by simp
next
  case (Cons x xs)
  obtain s' where s': "p x s = Some (P x, s')" "J s'"
    using Cons.prems(1)[of x s] Cons.prems(6) by auto
  have IH: "\<exists>s''. scan_votes add c p author xs b s' =
      Some (thr c \<le> wt c (voters b \<union> author ` {x \<in> set xs. P x}), s'') \<and> J s''"
    if "inv c b" "voters b \<subseteq> mem c" "wt c (voters b) < thr c" for b
    using Cons.prems(1,2) s' that by (intro Cons.IH) auto
  show ?case
  proof (cases "P x")
    case False
    have "{y \<in> set (x # xs). P y} = {y \<in> set xs. P y}" using False by auto
    with False IH[OF Cons.prems(3-5)] s' show ?thesis by simp
  next
    case True
    have m: "author x \<in> mem c" using Cons.prems(2) True by simp
    obtain a' where a': "add a (author x) c = Some (a', thr c \<le> wt c (voters a'))" "inv c a'"
        "voters a' = insert (author x) (voters a)"
      using add_ok[OF v Cons.prems(3) m] by blast
    have sub: "voters a' \<subseteq> mem c" using a'(3) Cons.prems(4) m by simp
    have eq: "voters a \<union> author ` {y \<in> set (x # xs). P y} =
        voters a' \<union> author ` {x \<in> set xs. P x}"
      using True a'(3) by auto
    show ?thesis
    proof (cases "thr c \<le> wt c (voters a')")
      case True
      have "wt c (voters a') \<le> wt c (voters a' \<union> author ` {x \<in> set xs. P x})"
        using v sub Cons.prems(2) by (intro wt_mono) auto
      with True \<open>P x\<close> s' a' show ?thesis unfolding eq by auto
    next
      case False
      with IH[OF a'(2) sub] \<open>P x\<close> s' a'(1) show ?thesis unfolding eq by auto
    qed
  qed
qed

lemma scan_from_empty:
  assumes "valid c"
    and "\<And>x s. x \<in> set xs \<Longrightarrow> J s \<Longrightarrow> \<exists>s'. p x s = Some (P x, s') \<and> J s'"
    and "\<And>x. x \<in> set xs \<Longrightarrow> P x \<Longrightarrow> author x \<in> mem c" and "J s"
  shows "\<exists>s'. scan_votes add c p author xs empty s =
           Some (thr c \<le> wt c (author ` {x \<in> set xs. P x}), s') \<and> J s'"
  using scan_spec[OF assms(1-3), where a = empty and s = s] assms(1,4) inv_empty voters_empty
    thr_pos by auto

end

text \<open>The aggregator is a vote counter for the quorum threshold.\<close>

lemma quorum_pos: "committee_wf c \<Longrightarrow> 0 < quorum c"
  by (auto simp: committee_wf_def)

interpretation qc: vote_counter committee_wf aggregator_inv members stake_of quorum aggregator_new
  "aggregator_add QuorumThreshold" "\<lambda>a. fset (sa_votes a)"
proof
  fix c a v and A B
  show "aggregator_inv c aggregator_new" by simp
  show "fset (sa_votes aggregator_new) = {}" by (simp add: aggregator_new_def)
  show "\<exists>a'. aggregator_add QuorumThreshold a v c = Some (a', quorum c \<le> stake_of c (fset (sa_votes a')))
      \<and> aggregator_inv c a' \<and> fset (sa_votes a') = insert v (fset (sa_votes a))"
    if "committee_wf c" "aggregator_inv c a" "v \<in> members c"
    using aggregator_add_spec[OF that, of QuorumThreshold] by (simp add: quorum_def)
  show "A \<subseteq> B \<Longrightarrow> B \<subseteq> members c \<Longrightarrow> stake_of c A \<le> stake_of c B" by (rule stake_of_mono)
  show "stake_of c {} < quorum c" if "committee_wf c"
    using that by (simp add: stake_of_def quorum_pos)
qed

text \<open>A list of votes, added one after the other, with the answer of every \<open>add\<close> kept.\<close>

definition add_vote :: "committee_threshold \<Rightarrow> committee \<Rightarrow> authority_index \<Rightarrow> stake_aggregator \<times> bool list
    \<Rightarrow> (stake_aggregator \<times> bool list) option" where
  "add_vote T c v = (\<lambda>(a, reports). do {
     (a', reached) \<leftarrow> aggregator_add T a v c;
     Some (a', reports @ [reached])
   })"

lemma add_votes_spec:
  assumes wf: "committee_wf c" and m: "set vs \<subseteq> members c"
  shows "\<exists>a. try_fold (add_vote T c) vs (aggregator_new, []) = Some (a, map (\<lambda>k. unat (threshold T c) \<le> stake_of c (set (take (Suc k) vs))) [0..<length vs]) \<and>
     aggregator_inv c a \<and> fset (sa_votes a) = set vs"
  using m
proof (induction vs rule: rev_induct)
  case Nil
  then show ?case by (simp add: aggregator_new_def aggregator_inv_def stake_of_def)
next
  case (snoc v vs)
  let ?R = "\<lambda>ws. map (\<lambda>k. unat (threshold T c) \<le> stake_of c (set (take (Suc k) ws))) [0..<length ws]"
  obtain a where a: "try_fold (add_vote T c) vs (aggregator_new, []) = Some (a, ?R vs)" "aggregator_inv c a"
      "fset (sa_votes a) = set vs" using snoc by auto
  obtain a' where a': "aggregator_add T a v c = Some (a', unat (threshold T c) \<le> stake_of c (fset (sa_votes a')))"
      "aggregator_inv c a'" "fset (sa_votes a') = insert v (fset (sa_votes a))"
    using aggregator_add_spec[OF wf a(2), of v T] snoc.prems by auto
  have R: "?R (vs @ [v]) = ?R vs @ [unat (threshold T c) \<le> stake_of c (set (vs @ [v]))]" by simp
  have "try_fold (add_vote T c) (vs @ [v]) (aggregator_new, []) = add_vote T c v (a, ?R vs)"
    using a(1) by (cases "add_vote T c v (a, ?R vs)") simp_all
  also have "\<dots> = Some (a', ?R (vs @ [v]))" unfolding R using a a' by (simp add: add_vote_def)
  finally show ?case using a a' by (intro exI[of _ a'] conjI) simp_all
qed

section \<open>Properties\<close>

text \<open>
  C16. Counting any list of votes of committee members, with repetitions and in any order, never
  panics, and every single \<open>add\<close> answers correctly: the answer to the k-th vote is true exactly when
  the distinct voters among the first k votes hold the threshold. In the end the aggregator has
  exactly the distinct voters and the sum of their stakes (no vote is counted twice and the 64-bit
  sum does not wrap around), and \<open>reached_threshold\<close> agrees with it.
\<close>

theorem aggregator_counts_once:
  assumes "committee_wf c" and "set vs \<subseteq> members c"
  shows "\<exists>a reports. try_fold (add_vote T c) vs (aggregator_new, []) = Some (a, reports) \<and> length reports = length vs \<and>
     (\<forall>k < length vs. reports ! k \<longleftrightarrow> unat (threshold T c) \<le> stake_of c (set (take (Suc k) vs))) \<and>
     fset (sa_votes a) = set vs \<and> unat (sa_stake a) = stake_of c (set vs) \<and>
     (aggregator_reached_threshold T a c \<longleftrightarrow> unat (threshold T c) \<le> stake_of c (set vs))"
proof -
  obtain a where "try_fold (add_vote T c) vs (aggregator_new, []) =
      Some (a, map (\<lambda>k. unat (threshold T c) \<le> stake_of c (set (take (Suc k) vs))) [0..<length vs])"
      "aggregator_inv c a" "fset (sa_votes a) = set vs" using add_votes_spec[OF assms] by blast
  then show ?thesis by (auto simp: aggregator_inv_def aggregator_reached_threshold_def is_threshold_unat)
qed

theorem aggregator_counts_once_witness:
  "\<exists>a. try_fold (add_vote QuorumThreshold committee4) [2, 0, 2, 3] (aggregator_new, []) = Some (a, [False, False, False, True]) \<and>
     fset (sa_votes a) = {0, 2, 3} \<and> unat (sa_stake a) = 3"
proof -
  have s: "stake_of committee4 {2} = 1" "stake_of committee4 {0, 2} = 2" "stake_of committee4 {0, 2, 3} = 3"
    by (simp_all add: stake_of_def committee4_weight)
  have t: "unat (threshold QuorumThreshold committee4) = 3" by (simp add: committee4_def)
  have m: "set [2, 0, 2, 3] \<subseteq> members committee4" using committee4_members by auto
  have v: "set [2, 0, 2, 3 :: nat] = {0, 2, 3}" by auto
  obtain a reports where r: "try_fold (add_vote QuorumThreshold committee4) [2, 0, 2, 3] (aggregator_new, []) = Some (a, reports)"
      "length reports = length [2, 0, 2, 3 :: nat]"
      "\<forall>k < length [2, 0, 2, 3 :: nat]. reports ! k \<longleftrightarrow> 3 \<le> stake_of committee4 (set (take (Suc k) [2, 0, 2, 3]))"
      "fset (sa_votes a) = {0, 2, 3}" "unat (sa_stake a) = stake_of committee4 {0, 2, 3}"
    using aggregator_counts_once[OF committee4_wf m, of QuorumThreshold, unfolded t v] by blast
  have "reports ! 0 \<longleftrightarrow> False" "reports ! 1 \<longleftrightarrow> False" "reports ! 2 \<longleftrightarrow> False" "reports ! 3 \<longleftrightarrow> True"
    using r(3)[rule_format, of 0] r(3)[rule_format, of 1] r(3)[rule_format, of 2] r(3)[rule_format, of 3] s
    by (simp_all add: insert_commute)
  then have "reports = [False, False, False, True]"
    using r(2) by (auto intro!: nth_equalityI simp: less_Suc_eq numeral_2_eq_2 numeral_3_eq_3)
  then show ?thesis using r s by auto
qed

end
