(* ===== verification/Block.thy ===== *)
theory Block
  imports Committee
begin

text \<open>
  Blocks, their references and the context of an authority: \<open>types/src/block.rs\<close>,
  \<open>core/src/block.rs\<close>, \<open>core/src/context.rs\<close>, \<open>config/src/parameters.rs\<close>.

  A \<open>BlockRef\<close> is ordered lexicographically by round, author and digest, as its derived \<open>Ord\<close> is.
  \<open>Block\<close> is the tagged union of its two versions and the \<open>BlockAPI\<close> accessors dispatch on it.
  Serialization (\<open>bcs\<close>), hashing and signatures (\<open>fastcrypto\<close>) are external crates: they are the
  arguments \<open>ser\<close>, \<open>hash\<close>, \<open>sign\<close>, \<open>verify\<close> of the operations that call them.
\<close>

type_synonym round = nat
type_synonym block_timestamp_ms = nat
type_synonym transaction_index = nat
type_synonym commit_index = nat
type_synonym digest = "256 word"

section \<open>References\<close>

datatype block_ref = BlockRef (br_round: round) (br_author: authority_index) (br_digest: digest)

definition br_key :: "block_ref \<Rightarrow> round \<times> authority_index \<times> digest" where
  "br_key r = (br_round r, br_author r, br_digest r)"

instantiation block_ref :: linorder
begin

definition less_eq_block_ref :: "block_ref \<Rightarrow> block_ref \<Rightarrow> bool" where
  "less_eq_block_ref a b \<longleftrightarrow> br_key a \<le> br_key b"

definition less_block_ref :: "block_ref \<Rightarrow> block_ref \<Rightarrow> bool" where
  "less_block_ref a b \<longleftrightarrow> br_key a < br_key b"

instance
  by standard
    (auto simp: less_eq_block_ref_def less_block_ref_def br_key_def block_ref.expand)

end

definition digest_min :: digest where
  "digest_min = 0"

definition digest_max :: digest where
  "digest_max = -1"

datatype slot = Slot (slot_round: round) (slot_authority: authority_index)

definition slot_of_ref :: "block_ref \<Rightarrow> slot" where
  "slot_of_ref r = Slot (br_round r) (br_author r)"

datatype commit_ref = CommitRef (cr_index: commit_index) (cr_digest: digest)

type_synonym commit_vote = commit_ref

lemma block_ref_le_iff:
  "a \<le> b \<longleftrightarrow> br_round a < br_round b \<or> (br_round a = br_round b \<and>
     (br_author a < br_author b \<or> (br_author a = br_author b \<and> br_digest a \<le> br_digest b)))"
  by (auto simp: less_eq_block_ref_def br_key_def)

lemma block_ref_less_iff:
  "a < b \<longleftrightarrow> br_round a < br_round b \<or> (br_round a = br_round b \<and>
     (br_author a < br_author b \<or> (br_author a = br_author b \<and> br_digest a < br_digest b)))"
  by (auto simp: less_block_ref_def br_key_def)

lemma block_ref_le_round: "a \<le> b \<Longrightarrow> br_round a \<le> br_round b"
  by (auto simp: block_ref_le_iff)

lemma digest_bounds [simp]: "digest_min \<le> d" "d \<le> digest_max"
  by (simp_all add: digest_min_def digest_max_def)

text \<open>The key ranges the DAG state scans: a slot, and a round.\<close>

lemma ref_in_slot_range:
  "BlockRef r a digest_min \<le> x \<and> x \<le> BlockRef r a digest_max \<longleftrightarrow> slot_of_ref x = Slot r a"
  by (auto simp: block_ref_le_iff slot_of_ref_def)

lemma ref_in_round_range:
  "BlockRef r 0 digest_min \<le> x \<and> x < BlockRef (r + 1) 0 digest_min \<longleftrightarrow> br_round x = r"
proof -
  have "\<not> br_digest x < digest_min" by (simp add: not_less)
  then show ?thesis by (auto simp: block_ref_le_iff block_ref_less_iff)
qed

lemma ref_ge_round: "BlockRef r 0 digest_min \<le> x \<longleftrightarrow> r \<le> br_round x"
  by (auto simp: block_ref_le_iff)

lemma ref_lt_round: "x < BlockRef r 0 digest_min \<longleftrightarrow> br_round x < r"
proof -
  have "\<not> br_digest x < digest_min" by (simp add: not_less)
  then show ?thesis by (auto simp: block_ref_less_iff)
qed

section \<open>Blocks\<close>

definition GENESIS_ROUND :: round where
  "GENESIS_ROUND = 0"

type_synonym transaction = bytes

record block_transaction_votes =
  btv_block_ref :: block_ref
  btv_rejects :: "transaction_index list"

datatype misbehavior_proof = InvalidBlock block_ref

record misbehavior_report =
  mr_target :: authority_index
  mr_proof :: misbehavior_proof

record block_v1 =
  v1_epoch :: epoch
  v1_round :: round
  v1_author :: authority_index
  v1_timestamp_ms :: block_timestamp_ms
  v1_ancestors :: "block_ref list"
  v1_transactions :: "transaction list"
  v1_commit_votes :: "commit_vote list"
  v1_misbehavior_reports :: "misbehavior_report list"
  v1_epoch_change_proposal :: "bytes option"
  v1_epoch_change_votes :: "bytes list"

record block_v2 =
  v2_epoch :: epoch
  v2_round :: round
  v2_author :: authority_index
  v2_timestamp_ms :: block_timestamp_ms
  v2_ancestors :: "block_ref list"
  v2_transactions :: "transaction list"
  v2_transaction_votes :: "block_transaction_votes list"
  v2_commit_votes :: "commit_vote list"
  v2_misbehavior_reports :: "misbehavior_report list"
  v2_epoch_change_proposal :: "bytes option"
  v2_epoch_change_votes :: "bytes list"

datatype block = V1 block_v1 | V2 block_v2

definition block_v1_new :: "epoch \<Rightarrow> round \<Rightarrow> authority_index \<Rightarrow> block_timestamp_ms \<Rightarrow> block_ref list
    \<Rightarrow> transaction list \<Rightarrow> commit_vote list \<Rightarrow> misbehavior_report list \<Rightarrow> block_v1" where
  "block_v1_new epoch rnd author timestamp_ms ancestors transactions commit_votes reports =
     \<lparr>v1_epoch = epoch, v1_round = rnd, v1_author = author, v1_timestamp_ms = timestamp_ms,
      v1_ancestors = ancestors, v1_transactions = transactions, v1_commit_votes = commit_votes,
      v1_misbehavior_reports = reports, v1_epoch_change_proposal = None,
      v1_epoch_change_votes = []\<rparr>"

definition block_v2_new :: "epoch \<Rightarrow> round \<Rightarrow> authority_index \<Rightarrow> block_timestamp_ms \<Rightarrow> block_ref list
    \<Rightarrow> transaction list \<Rightarrow> commit_vote list \<Rightarrow> block_transaction_votes list
    \<Rightarrow> misbehavior_report list \<Rightarrow> block_v2" where
  "block_v2_new epoch rnd author timestamp_ms ancestors transactions commit_votes
       transaction_votes reports =
     \<lparr>v2_epoch = epoch, v2_round = rnd, v2_author = author, v2_timestamp_ms = timestamp_ms,
      v2_ancestors = ancestors, v2_transactions = transactions,
      v2_transaction_votes = transaction_votes, v2_commit_votes = commit_votes,
      v2_misbehavior_reports = reports, v2_epoch_change_proposal = None,
      v2_epoch_change_votes = []\<rparr>"

fun block_epoch :: "block \<Rightarrow> epoch" where
  "block_epoch (V1 b) = v1_epoch b"
| "block_epoch (V2 b) = v2_epoch b"

fun block_round :: "block \<Rightarrow> round" where
  "block_round (V1 b) = v1_round b"
| "block_round (V2 b) = v2_round b"

fun block_author :: "block \<Rightarrow> authority_index" where
  "block_author (V1 b) = v1_author b"
| "block_author (V2 b) = v2_author b"

definition block_slot :: "block \<Rightarrow> slot" where
  "block_slot b = Slot (block_round b) (block_author b)"

fun block_timestamp :: "block \<Rightarrow> block_timestamp_ms" where
  "block_timestamp (V1 b) = v1_timestamp_ms b"
| "block_timestamp (V2 b) = v2_timestamp_ms b"

fun block_ancestors :: "block \<Rightarrow> block_ref list" where
  "block_ancestors (V1 b) = v1_ancestors b"
| "block_ancestors (V2 b) = v2_ancestors b"

fun block_transactions :: "block \<Rightarrow> transaction list" where
  "block_transactions (V1 b) = v1_transactions b"
| "block_transactions (V2 b) = v2_transactions b"

fun block_commit_votes :: "block \<Rightarrow> commit_vote list" where
  "block_commit_votes (V1 b) = v1_commit_votes b"
| "block_commit_votes (V2 b) = v2_commit_votes b"

fun block_transaction_votes_of :: "block \<Rightarrow> block_transaction_votes list" where
  "block_transaction_votes_of (V1 b) = []"
| "block_transaction_votes_of (V2 b) = v2_transaction_votes b"

fun block_misbehavior_reports :: "block \<Rightarrow> misbehavior_report list" where
  "block_misbehavior_reports (V1 b) = v1_misbehavior_reports b"
| "block_misbehavior_reports (V2 b) = v2_misbehavior_reports b"

fun epoch_change_proposal :: "block \<Rightarrow> bytes option" where
  "epoch_change_proposal (V1 b) = v1_epoch_change_proposal b"
| "epoch_change_proposal (V2 b) = v2_epoch_change_proposal b"

fun epoch_change_votes :: "block \<Rightarrow> bytes list" where
  "epoch_change_votes (V1 b) = v1_epoch_change_votes b"
| "epoch_change_votes (V2 b) = v2_epoch_change_votes b"

fun set_epoch_change_proposal :: "bytes option \<Rightarrow> block \<Rightarrow> block" where
  "set_epoch_change_proposal p (V1 b) = V1 (b\<lparr>v1_epoch_change_proposal := p\<rparr>)"
| "set_epoch_change_proposal p (V2 b) = V2 (b\<lparr>v2_epoch_change_proposal := p\<rparr>)"

fun set_epoch_change_votes :: "bytes list \<Rightarrow> block \<Rightarrow> block" where
  "set_epoch_change_votes vs (V1 b) = V1 (b\<lparr>v1_epoch_change_votes := vs\<rparr>)"
| "set_epoch_change_votes vs (V2 b) = V2 (b\<lparr>v2_epoch_change_votes := vs\<rparr>)"

text \<open>The rest of \<open>Block\<close>, the context, signed and verified blocks.\<close>

record tonic_parameters =
  tp_keepalive_interval_ms :: nat
  tp_connection_buffer_size :: nat
  tp_excessive_message_size :: nat
  tp_message_size_limit :: nat

definition tonic_parameters_default :: tonic_parameters where
  "tonic_parameters_default =
     \<lparr>tp_keepalive_interval_ms = 10 * 1000, tp_connection_buffer_size = 32 * 2 ^ 20,
      tp_excessive_message_size = 16 * 2 ^ 20, tp_message_size_limit = 64 * 2 ^ 20\<rparr>"

record parameters =
  p_db_path :: string
  p_leader_timeout_ms :: nat
  p_min_round_delay_ms :: nat
  p_max_forward_time_drift_ms :: nat
  p_max_blocks_per_sync :: nat
  p_max_blocks_per_fetch :: nat
  p_sync_last_known_own_block_timeout_ms :: nat
  p_round_prober_interval_ms :: nat
  p_round_prober_request_timeout_ms :: nat
  p_propagation_delay_stop_proposal_threshold :: nat
  p_dag_state_cached_rounds :: nat
  p_commit_sync_parallel_fetches :: nat
  p_commit_sync_batch_size :: nat
  p_commit_sync_batches_ahead :: nat
  p_tonic :: tonic_parameters

text \<open>The defaults of a production build (neither \<open>msim\<close> nor \<open>test\<close>).\<close>

definition parameters_default :: parameters where
  "parameters_default =
     \<lparr>p_db_path = [], p_leader_timeout_ms = 200, p_min_round_delay_ms = 50,
      p_max_forward_time_drift_ms = 500, p_max_blocks_per_sync = 32, p_max_blocks_per_fetch = 1000,
      p_sync_last_known_own_block_timeout_ms = 5 * 1000, p_round_prober_interval_ms = 5000,
      p_round_prober_request_timeout_ms = 4000, p_propagation_delay_stop_proposal_threshold = 5,
      p_dag_state_cached_rounds = 500, p_commit_sync_parallel_fetches = 8,
      p_commit_sync_batch_size = 100, p_commit_sync_batches_ahead = 32,
      p_tonic = tonic_parameters_default\<rparr>"

text \<open>
  The protocol configuration values the consensus core reads. A missing value is \<open>None\<close>, and the
  getters supply the fallback of a production build.
\<close>

record protocol_config =
  pc_consensus_gc_depth :: "nat option"
  pc_consensus_bad_nodes_stake_threshold :: "nat option"
  pc_consensus_max_transactions_in_block_bytes :: "nat option"
  pc_consensus_max_num_transactions_in_block :: "nat option"
  pc_consensus_max_transaction_size_bytes :: "nat option"
  pc_mysticeti_num_leaders_per_round :: "nat option"
  pc_mysticeti_fastpath :: bool

definition gc_depth :: "protocol_config \<Rightarrow> nat" where
  "gc_depth pc = (case pc_consensus_gc_depth pc of Some d \<Rightarrow> d | None \<Rightarrow> 0)"

definition max_transactions_in_block_bytes :: "protocol_config \<Rightarrow> nat" where
  "max_transactions_in_block_bytes pc =
     (case pc_consensus_max_transactions_in_block_bytes pc of Some n \<Rightarrow> n | None \<Rightarrow> 512 * 1024)"

definition max_num_transactions_in_block :: "protocol_config \<Rightarrow> nat" where
  "max_num_transactions_in_block pc =
     (case pc_consensus_max_num_transactions_in_block pc of Some n \<Rightarrow> n | None \<Rightarrow> 512)"

record node_context =
  ctx_epoch_start_timestamp_ms :: nat
  ctx_own_index :: authority_index
  ctx_committee :: committee
  ctx_parameters :: parameters
  ctx_protocol_config :: protocol_config

record signed_block =
  sb_inner :: block
  sb_signature :: bytes

record verified_block =
  vb_block :: signed_block
  vb_digest :: digest
  vb_serialized :: bytes

definition inner :: "verified_block \<Rightarrow> block" where
  "inner b = sb_inner (vb_block b)"

definition vb_round :: "verified_block \<Rightarrow> round" where
  "vb_round b = block_round (inner b)"

definition vb_author :: "verified_block \<Rightarrow> authority_index" where
  "vb_author b = block_author (inner b)"

definition vb_timestamp_ms :: "verified_block \<Rightarrow> block_timestamp_ms" where
  "vb_timestamp_ms b = block_timestamp (inner b)"

definition vb_ancestors :: "verified_block \<Rightarrow> block_ref list" where
  "vb_ancestors b = block_ancestors (inner b)"

definition reference :: "verified_block \<Rightarrow> block_ref" where
  "reference b = BlockRef (vb_round b) (vb_author b) (vb_digest b)"

definition signed_block_new_genesis :: "block \<Rightarrow> signed_block" where
  "signed_block_new_genesis b = \<lparr>sb_inner = b, sb_signature = []\<rparr>"

definition new_verified :: "(bytes \<Rightarrow> digest) \<Rightarrow> signed_block \<Rightarrow> bytes \<Rightarrow> verified_block" where
  "new_verified hash sb serialized =
     \<lparr>vb_block = sb, vb_digest = hash serialized, vb_serialized = serialized\<rparr>"

definition genesis_block_v1 :: "node_context \<Rightarrow> authority_index \<Rightarrow> block_v1" where
  "genesis_block_v1 ctx author =
     block_v1_new (c_epoch (ctx_committee ctx)) GENESIS_ROUND author
       (ctx_epoch_start_timestamp_ms ctx) [] [] [] []"

definition genesis_block_v2 :: "node_context \<Rightarrow> authority_index \<Rightarrow> block_v2" where
  "genesis_block_v2 ctx author =
     block_v2_new (c_epoch (ctx_committee ctx)) GENESIS_ROUND author
       (ctx_epoch_start_timestamp_ms ctx) [] [] [] [] []"

text \<open>Serialization may fail, and the caller then panics.\<close>

definition genesis_blocks :: "(signed_block \<Rightarrow> bytes option) \<Rightarrow> (bytes \<Rightarrow> digest) \<Rightarrow> node_context
    \<Rightarrow> verified_block list option" where
  "genesis_blocks ser hash ctx =
     try_map (\<lambda>(authority_index, _). do {
         let blk = (if pc_mysticeti_fastpath (ctx_protocol_config ctx)
                    then V2 (genesis_block_v2 ctx authority_index)
                    else V1 (genesis_block_v1 ctx authority_index));
         let sb = signed_block_new_genesis blk;
         serialized \<leftarrow> ser sb;
         Some (new_verified hash sb serialized)
       })
       (committee_authorities (ctx_committee ctx))"

lemma reference_simps [simp]:
  "br_round (reference b) = vb_round b" "br_author (reference b) = vb_author b"
  "br_digest (reference b) = vb_digest b"
  by (simp_all add: reference_def)

lemma slot_of_reference [simp]: "slot_of_ref (reference b) = Slot (vb_round b) (vb_author b)"
  by (simp add: slot_of_ref_def)

text \<open>The genesis blocks are one per authority, in index order, at round 0, without ancestors.\<close>

lemma genesis_blocks_shape:
  assumes "genesis_blocks ser hash ctx = Some gs"
  shows "length gs = committee_size (ctx_committee ctx)"
    and "\<And>i. i < length gs \<Longrightarrow> vb_author (gs ! i) = i \<and> vb_round (gs ! i) = 0 \<and> vb_ancestors (gs ! i) = []
           \<and> vb_timestamp_ms (gs ! i) = ctx_epoch_start_timestamp_ms ctx"
proof -
  let ?f = "\<lambda>(authority_index, _). do {
         let blk = (if pc_mysticeti_fastpath (ctx_protocol_config ctx)
                    then V2 (genesis_block_v2 ctx authority_index)
                    else V1 (genesis_block_v1 ctx authority_index));
         let sb = signed_block_new_genesis blk;
         serialized \<leftarrow> ser sb;
         Some (new_verified hash sb serialized)
       }"
  have eq: "map ?f (committee_authorities (ctx_committee ctx)) = map Some gs"
    using assms unfolding genesis_blocks_def by (simp only: try_map_Some_iff)
  have len: "length (committee_authorities (ctx_committee ctx)) = length gs"
    using arg_cong[OF eq, of length] by simp
  then show "length gs = committee_size (ctx_committee ctx)"
    by (simp add: committee_authorities_def committee_size_def)
  fix i assume i: "i < length gs"
  have "?f (committee_authorities (ctx_committee ctx) ! i) = Some (gs ! i)"
    using arg_cong[OF eq, of "\<lambda>l. l ! i"] i len by simp
  then obtain y where "gs ! i = new_verified hash (signed_block_new_genesis
      (if pc_mysticeti_fastpath (ctx_protocol_config ctx)
       then V2 (genesis_block_v2 ctx i) else V1 (genesis_block_v1 ctx i))) y"
    using i len
    by (auto simp: committee_authorities_def nth_enumerate_eq bind_eq_Some_conv Let_def dest: sym)
  then show "vb_author (gs ! i) = i \<and> vb_round (gs ! i) = 0 \<and> vb_ancestors (gs ! i) = []
      \<and> vb_timestamp_ms (gs ! i) = ctx_epoch_start_timestamp_ms ctx"
    by (simp add: new_verified_def signed_block_new_genesis_def vb_author_def vb_round_def
        vb_ancestors_def vb_timestamp_ms_def inner_def genesis_block_v1_def genesis_block_v2_def
        block_v1_new_def block_v2_new_def GENESIS_ROUND_def)
qed

section \<open>Example blocks\<close>

text \<open>Blocks for concrete runs: digest \<open>d\<close>, timestamp \<open>t\<close>, ancestors \<open>as\<close>, no transactions.\<close>

definition mk_block :: "round \<Rightarrow> authority_index \<Rightarrow> digest \<Rightarrow> block_timestamp_ms \<Rightarrow> block_ref list
    \<Rightarrow> verified_block" where
  "mk_block r a d t as =
     \<lparr>vb_block = \<lparr>sb_inner = V1 (block_v1_new 0 r a t as [] [] []), sb_signature = []\<rparr>,
      vb_digest = d, vb_serialized = []\<rparr>"

lemma mk_block_simps [simp]:
  "vb_round (mk_block r a d t as) = r" "vb_author (mk_block r a d t as) = a"
  "vb_digest (mk_block r a d t as) = d" "vb_timestamp_ms (mk_block r a d t as) = t"
  "vb_ancestors (mk_block r a d t as) = as"
  "reference (mk_block r a d t as) = BlockRef r a d"
  by (simp_all add: mk_block_def vb_round_def vb_author_def vb_timestamp_ms_def vb_ancestors_def
      inner_def block_v1_new_def reference_def)

end
