(* ===== verification/ThresholdClock.thy ===== *)
theory ThresholdClock
  imports StakeAggregator Block
begin

text \<open>
  The threshold clock of \<open>core/src/threshold_clock.rs\<close>: the round in which this authority builds
  its next block. It moves to round \<open>r + 1\<close> when blocks of a quorum of authorities at round \<open>r\<close>
  are accepted, and jumps to the round of any accepted block above it.

  \<open>Instant::now()\<close> is the argument \<open>now\<close>. The reference definition \<open>clock_spec\<close> gives the round
  from the set of accepted references alone; \<open>clock_run_spec\<close> shows that the clock computes it for
  every arrival order.
\<close>

record threshold_clock =
  tc_aggregator :: stake_aggregator
  tc_round :: round
  tc_quorum_ts :: nat

definition clock_new :: "round \<Rightarrow> nat \<Rightarrow> threshold_clock" where
  "clock_new r now = \<lparr>tc_aggregator = aggregator_new, tc_round = r, tc_quorum_ts = now\<rparr>"

definition clock_add_block ::
    "committee \<Rightarrow> nat \<Rightarrow> threshold_clock \<Rightarrow> block_ref \<Rightarrow> (threshold_clock \<times> bool) option" where
  "clock_add_block c now clk b =
     (if br_round b < tc_round clk then Some (clk, False)
      else if br_round b = tc_round clk then do {
        (a, reached) \<leftarrow> aggregator_add QuorumThreshold (tc_aggregator clk) (br_author b) c;
        if reached then
          Some (clk\<lparr>tc_aggregator := aggregator_clear a, tc_round := br_round b + 1,
                    tc_quorum_ts := now\<rparr>, True)
        else do {
          _ \<leftarrow> committee_authority c (br_author b);
          Some (clk\<lparr>tc_aggregator := a\<rparr>, False)
        }
      }
      else do {
        (a, reached) \<leftarrow>
          aggregator_add QuorumThreshold (aggregator_clear (tc_aggregator clk)) (br_author b) c;
        Some (clk\<lparr>tc_aggregator := a,
                  tc_round := (if reached then br_round b + 1 else br_round b),
                  tc_quorum_ts := now\<rparr>, True)
      })"

text \<open>The blocks of a list are added in order, at the times \<open>now\<close> gives.\<close>

fun clock_run :: "committee \<Rightarrow> (block_ref \<Rightarrow> nat) \<Rightarrow> threshold_clock \<Rightarrow> block_ref list
    \<Rightarrow> threshold_clock option" where
  "clock_run c now clk [] = Some clk"
| "clock_run c now clk (b # bs) = do {
     (clk', _) \<leftarrow> clock_add_block c (now b) clk b;
     clock_run c now clk' bs
   }"

section \<open>The reference definition\<close>

definition authors_at :: "block_ref set \<Rightarrow> round \<Rightarrow> authority_index set" where
  "authors_at S r = br_author ` {b \<in> S. br_round b = r}"

definition clock_spec :: "committee \<Rightarrow> round \<Rightarrow> block_ref set \<Rightarrow> round" where
  "clock_spec c r0 S =
     (if \<exists>b\<in>S. r0 \<le> br_round b then
        let m = Max (br_round ` S) in if quorum c \<le> stake_of c (authors_at S m) then m + 1 else m
      else r0)"

text \<open>
  The invariant: the clock is at or above every block seen, its aggregator holds the authors seen
  at its round (a set below quorum), and it is above its start only because of a block at its
  round or a quorum just below.
\<close>

definition clock_inv :: "committee \<Rightarrow> round \<Rightarrow> block_ref set \<Rightarrow> threshold_clock \<Rightarrow> bool" where
  "clock_inv c r0 S clk \<longleftrightarrow>
     r0 \<le> tc_round clk \<and> br_author ` S \<subseteq> members c \<and>
     (\<forall>b\<in>S. br_round b \<le> tc_round clk) \<and>
     aggregator_inv c (tc_aggregator clk) \<and>
     fset (sa_votes (tc_aggregator clk)) = authors_at S (tc_round clk) \<and>
     stake_of c (authors_at S (tc_round clk)) < quorum c \<and>
     (r0 < tc_round clk \<longrightarrow> authors_at S (tc_round clk) \<noteq> {} \<or>
        quorum c \<le> stake_of c (authors_at S (tc_round clk - 1)))"

text \<open>
  No authority alone is a quorum. The hypothesis is needed: when the first block of a higher round
  already completes a quorum, the \<open>Greater\<close> branch advances past that round without clearing the
  aggregator, see \<open>clock_stale_vote\<close> below.
\<close>

definition no_single_quorum :: "committee \<Rightarrow> bool" where
  "no_single_quorum c \<longleftrightarrow> (\<forall>i\<in>members c. weight c i < quorum c)"

lemma authors_at_insert:
  "authors_at (insert b S) r =
     (if br_round b = r then insert (br_author b) (authors_at S r) else authors_at S r)"
  by (auto simp: authors_at_def)

lemma authors_at_above: "\<forall>b\<in>S. br_round b \<le> r \<Longrightarrow> r < r' \<Longrightarrow> authors_at S r' = {}"
  by (auto simp: authors_at_def)

lemma clock_new_round [simp]: "tc_round (clock_new r now) = r"
  by (simp add: clock_new_def)

lemma clock_inv_new: "committee_wf c \<Longrightarrow> clock_inv c r0 {} (clock_new r0 now)"
  by (auto simp: clock_inv_def clock_new_def authors_at_def aggregator_new_def stake_of_def
      aggregator_inv_def quorum_pos)

lemma clock_add_block_inv:
  assumes wf: "committee_wf c" and ns: "no_single_quorum c"
    and inv: "clock_inv c r0 S clk" and m: "br_author b \<in> members c"
  shows "\<exists>clk'. clock_add_block c now clk b = Some (clk', tc_round clk < tc_round clk') \<and>
           clock_inv c r0 (insert b S) clk' \<and> tc_round clk \<le> tc_round clk'"
proof -
  let ?r = "tc_round clk"
  note I = inv[unfolded clock_inv_def]
  consider "br_round b < ?r" | "br_round b = ?r" | "?r < br_round b" by linarith
  then show ?thesis
  proof cases
    case 1
    have "stake_of c (authors_at S (?r - 1)) \<le> stake_of c (insert (br_author b) (authors_at S (?r - 1)))"
      using m I by (intro stake_of_mono) (auto simp: authors_at_def)
    with 1 I m show ?thesis
      by (auto simp: clock_add_block_def clock_inv_def authors_at_insert)
  next
    case 2
    obtain a' where a': "aggregator_add QuorumThreshold (tc_aggregator clk) (br_author b) c =
          Some (a', quorum c \<le> stake_of c (fset (sa_votes a')))" "aggregator_inv c a'"
        "fset (sa_votes a') = insert (br_author b) (authors_at S ?r)"
      using qc.add_ok[OF wf, of "tc_aggregator clk" "br_author b"] I m by auto
    have au: "committee_authority c (br_author b) = Some (c_authorities c ! br_author b)"
      using m by (simp add: committee_authority_def members_def committee_size_def)
    have above: "authors_at S (Suc ?r) = {}" using I by (intro authors_at_above[of S ?r]) auto
    show ?thesis
    proof (cases "quorum c \<le> stake_of c (fset (sa_votes a'))")
      case True
      with 2 a' I above m show ?thesis
        by (auto simp: clock_add_block_def clock_inv_def authors_at_insert aggregator_new_def
            stake_of_def quorum_pos[OF wf] aggregator_inv_def)
    next
      case False
      with 2 a' I au m show ?thesis
        by (auto simp: clock_add_block_def clock_inv_def authors_at_insert)
    qed
  next
    case 3
    obtain a' where a': "aggregator_add QuorumThreshold aggregator_new (br_author b) c =
          Some (a', quorum c \<le> stake_of c (fset (sa_votes a')))" "aggregator_inv c a'"
        "fset (sa_votes a') = {br_author b}"
      using qc.add_ok[OF wf aggregator_inv_new m] qc.voters_empty by auto
    have "\<not> quorum c \<le> stake_of c {br_author b}"
      using ns m by (simp add: no_single_quorum_def stake_of_def not_le)
    moreover have "authors_at S (br_round b) = {}"
      using I 3 by (intro authors_at_above[of S ?r]) auto
    ultimately show ?thesis
      using 3 a' I m by (auto simp: clock_add_block_def clock_inv_def authors_at_insert)
  qed
qed

lemma clock_run_inv:
  assumes "committee_wf c" "no_single_quorum c" "clock_inv c r0 S clk"
    and "\<forall>b\<in>set bs. br_author b \<in> members c"
  shows "\<exists>clk'. clock_run c now clk bs = Some clk' \<and> clock_inv c r0 (S \<union> set bs) clk' \<and>
           tc_round clk \<le> tc_round clk'"
  using assms(3,4)
proof (induction bs arbitrary: S clk)
  case (Cons b bs)
  obtain clk' adv where 1: "clock_add_block c (now b) clk b = Some (clk', adv)"
      "clock_inv c r0 (insert b S) clk'" "tc_round clk \<le> tc_round clk'"
    using clock_add_block_inv[OF assms(1,2) Cons.prems(1), of b "now b"] Cons.prems(2) by auto
  with Cons.IH[OF 1(2)] Cons.prems(2) show ?case by auto
qed auto

text \<open>The invariant determines the round.\<close>

lemma clock_inv_spec:
  assumes inv: "clock_inv c r0 S clk" and wf: "committee_wf c" and fin: "finite S"
  shows "tc_round clk = clock_spec c r0 S"
proof -
  let ?r = "tc_round clk"
  note I = inv[unfolded clock_inv_def]
  show ?thesis
  proof (cases "\<exists>b\<in>S. r0 \<le> br_round b")
    case False
    then have "\<forall>b\<in>S. br_round b < r0" by auto
    then have "authors_at S x = {}" if "r0 \<le> x" for x using that by (auto simp: authors_at_def)
    moreover have "r0 \<le> ?r - 1" if "r0 < ?r" using that by simp
    ultimately have "\<not> r0 < ?r"
      using I quorum_pos[OF wf] by (auto simp: stake_of_def)
    with False I show ?thesis by (simp add: clock_spec_def)
  next
    case True
    define m where "m = Max (br_round ` S)"
    have m: "m \<in> br_round ` S" "\<And>b. b \<in> S \<Longrightarrow> br_round b \<le> m"
      unfolding m_def using True fin by (auto intro: Max_in)
    have "r0 \<le> m" using True m(2) le_trans by blast
    have mr: "m \<le> ?r" using I m(1) by auto
    show ?thesis
    proof (cases "m = ?r")
      case True
      with I \<open>\<exists>b\<in>S. r0 \<le> br_round b\<close> show ?thesis
        by (simp add: clock_spec_def m_def[symmetric] Let_def not_le)
    next
      case False
      with mr have "m < ?r" by simp
      then have "authors_at S ?r = {}" using m(2) by (intro authors_at_above[of S m]) auto
      with I \<open>m < ?r\<close> \<open>r0 \<le> m\<close> have q: "quorum c \<le> stake_of c (authors_at S (?r - 1))" by auto
      then have "authors_at S (?r - 1) \<noteq> {}" using quorum_pos[OF wf] by (auto simp: stake_of_def)
      then have "?r - 1 \<le> m" using m(2) by (force simp: authors_at_def)
      then have "?r - 1 = m" using \<open>m < ?r\<close> by simp
      with q \<open>m < ?r\<close> \<open>\<exists>b\<in>S. r0 \<le> br_round b\<close> show ?thesis
        by (simp add: clock_spec_def m_def[symmetric] Let_def)
    qed
  qed
qed

section \<open>Properties\<close>

text \<open>
  C15. Started at round \<open>r0\<close> and given any sequence of accepted block references of committee
  members, the threshold clock never panics, never moves backwards, and ends at the round the
  set of references determines: one above the highest round if a quorum of authorities has a
  block there, that round otherwise. Arrival order and repetitions do not matter. (No authority
  alone is a quorum.)
\<close>

theorem clock_run_spec:
  assumes "committee_wf c" and "no_single_quorum c" and "\<forall>b\<in>set bs. br_author b \<in> members c"
  shows "\<exists>clk. clock_run c now (clock_new r0 t0) bs = Some clk \<and>
           tc_round clk = clock_spec c r0 (set bs) \<and> r0 \<le> tc_round clk"
proof -
  obtain clk where clk: "clock_run c now (clock_new r0 t0) bs = Some clk"
      "clock_inv c r0 (set bs) clk" "r0 \<le> tc_round clk"
    using clock_run_inv[OF assms(1,2) clock_inv_new[OF assms(1), of r0 t0] assms(3), of now]
    unfolding clock_new_round by auto
  with clock_inv_spec[OF clk(2) assms(1)] show ?thesis by auto
qed

lemma committee4_no_single: "no_single_quorum committee4"
  by (simp add: no_single_quorum_def committee4_members committee4_weight quorum_def)
    (simp add: committee4_def)

theorem clock_run_spec_witness:
  "\<exists>clk. clock_run committee4 (\<lambda>_. 9) (clock_new 1 0)
       [BlockRef 5 0 0, BlockRef 5 1 0, BlockRef 4 1 0, BlockRef 5 2 0] = Some clk \<and>
     tc_round clk = clock_spec committee4 1
       (set [BlockRef 5 0 0, BlockRef 5 1 0, BlockRef 4 1 0, BlockRef 5 2 0]) \<and> 1 \<le> tc_round clk"
  by (rule clock_run_spec[OF committee4_wf committee4_no_single])
    (simp add: committee4_members)

text \<open>
  C23. The hypothesis is needed: when one authority alone has a quorum, its block of any round
  above the clock's completes the quorum in the \<open>Greater\<close> branch, which moves the clock past that
  round but leaves the author counted. The next block, of any authority without a quorum of its
  own, then advances the clock once more although the authors of its round are not a quorum: the
  clock is one round ahead of its specification.
\<close>

theorem clock_stale_vote:
  assumes "committee_wf c" and "br_author r \<in> members c" "quorum c \<le> weight c (br_author r)" and "r0 < br_round r"
    and "br_author x \<in> members c" "br_round x = Suc (br_round r)" "weight c (br_author x) < quorum c"
  shows "\<exists>clk. clock_run c now (clock_new r0 t0) [r, x] = Some clk \<and> tc_round clk = br_round r + 2 \<and>
     clock_spec c r0 {r, x} = br_round r + 1"
proof -
  obtain a where a: "aggregator_add QuorumThreshold aggregator_new (br_author r) c = Some (a, True)" "aggregator_inv c a"
      "fset (sa_votes a) = {br_author r}"
    using qc.add_ok[OF assms(1) aggregator_inv_new assms(2)] qc.voters_empty assms(3) by (auto simp: stake_of_def)
  obtain a' where a': "aggregator_add QuorumThreshold a (br_author x) c = Some (a', True)"
  proof -
    obtain a' where 1: "aggregator_add QuorumThreshold a (br_author x) c = Some (a', quorum c \<le> stake_of c (fset (sa_votes a')))"
        "fset (sa_votes a') = {br_author x, br_author r}"
      using qc.add_ok[OF assms(1) a(2) assms(5)] a(3) by auto
    have "stake_of c {br_author r} \<le> stake_of c {br_author x, br_author r}" using assms(2,5) by (intro stake_of_mono) auto
    then have "quorum c \<le> stake_of c (fset (sa_votes a'))" using assms(3) 1(2) by (simp add: stake_of_def)
    then show ?thesis using 1(1) that by simp
  qed
  have run: "\<exists>clk. clock_run c now (clock_new r0 t0) [r, x] = Some clk \<and> tc_round clk = br_round r + 2"
    using a(1) a' assms(4,6) by (simp add: clock_add_block_def clock_new_def)
  have "Max (br_round ` {r, x}) = br_round r + 1" using assms(6) by simp
  moreover have "authors_at {r, x} (br_round r + 1) = {br_author x}" using assms(6) by (auto simp: authors_at_def)
  ultimately have "clock_spec c r0 {r, x} = br_round r + 1"
    using assms(4,7) by (simp add: clock_spec_def stake_of_def Let_def)
  then show ?thesis using run by blast
qed

theorem clock_stale_vote_witness:
  "\<exists>clk. clock_run committee_skewed (\<lambda>_. 0) (clock_new 1 0) [BlockRef 2 0 0, BlockRef 3 1 0] = Some clk \<and> tc_round clk = 4 \<and>
     clock_spec committee_skewed 1 {BlockRef 2 0 0, BlockRef 3 1 0} = 3"
  using clock_stale_vote[OF committee_skewed_wf, of "BlockRef 2 0 0" 1 "BlockRef 3 1 0" "\<lambda>_. 0" 0]
  by (simp add: members_def committee_size_def weight_def quorum_def committee_skewed_def test_authority_def)

end
