(* ===== verification/Commit.thy ===== *)
theory Commit
  imports Block
begin

text \<open>
  Commits, committed sub-dags, leader decisions and commit ranges: \<open>core/src/commit.rs\<close>, with the
  \<open>ReputationScores\<close> of \<open>core/src/leader_scoring.rs\<close> that \<open>CommitInfo\<close> carries.

  \<open>CommitRange\<close> keeps the half-open range of the source, built from inclusive bounds with an
  addition that saturates at \<open>u32::MAX\<close>.
\<close>

section \<open>Commits\<close>

definition GENESIS_COMMIT_INDEX :: commit_index where
  "GENESIS_COMMIT_INDEX = 0"

definition MINIMUM_WAVE_LENGTH :: round where
  "MINIMUM_WAVE_LENGTH = 3"

definition DEFAULT_WAVE_LENGTH :: round where
  "DEFAULT_WAVE_LENGTH = MINIMUM_WAVE_LENGTH"

record commit_v1 =
  c1_index :: commit_index
  c1_previous_digest :: digest
  c1_timestamp_ms :: block_timestamp_ms
  c1_leader :: block_ref
  c1_blocks :: "block_ref list"

datatype commit = CommitV1 commit_v1

definition commit_new :: "commit_index \<Rightarrow> digest \<Rightarrow> block_timestamp_ms \<Rightarrow> block_ref \<Rightarrow> block_ref list
    \<Rightarrow> commit" where
  "commit_new idx previous_digest timestamp_ms leader blocks =
     CommitV1 \<lparr>c1_index = idx, c1_previous_digest = previous_digest, c1_timestamp_ms = timestamp_ms,
       c1_leader = leader, c1_blocks = blocks\<rparr>"

fun commit_round :: "commit \<Rightarrow> round" where
  "commit_round (CommitV1 c) = br_round (c1_leader c)"

fun commit_index_of :: "commit \<Rightarrow> commit_index" where
  "commit_index_of (CommitV1 c) = c1_index c"

fun commit_previous_digest :: "commit \<Rightarrow> digest" where
  "commit_previous_digest (CommitV1 c) = c1_previous_digest c"

fun commit_timestamp_ms :: "commit \<Rightarrow> block_timestamp_ms" where
  "commit_timestamp_ms (CommitV1 c) = c1_timestamp_ms c"

fun commit_leader :: "commit \<Rightarrow> block_ref" where
  "commit_leader (CommitV1 c) = c1_leader c"

fun commit_blocks :: "commit \<Rightarrow> block_ref list" where
  "commit_blocks (CommitV1 c) = c1_blocks c"

lemma commit_new_simps [simp]:
  "commit_round (commit_new i p t l bs) = br_round l"
  "commit_index_of (commit_new i p t l bs) = i"
  "commit_previous_digest (commit_new i p t l bs) = p"
  "commit_timestamp_ms (commit_new i p t l bs) = t"
  "commit_leader (commit_new i p t l bs) = l"
  "commit_blocks (commit_new i p t l bs) = bs"
  by (simp_all add: commit_new_def)

lemma commit_round_leader: "commit_round c = br_round (commit_leader c)"
  by (cases c) simp

record trusted_commit =
  tc_inner :: commit
  tc_digest :: digest
  tc_serialized :: bytes

definition new_trusted :: "(bytes \<Rightarrow> digest) \<Rightarrow> commit \<Rightarrow> bytes \<Rightarrow> trusted_commit" where
  "new_trusted hash c serialized =
     \<lparr>tc_inner = c, tc_digest = hash serialized, tc_serialized = serialized\<rparr>"

definition tc_reference :: "trusted_commit \<Rightarrow> commit_ref" where
  "tc_reference c = CommitRef (commit_index_of (tc_inner c)) (tc_digest c)"

text \<open>\<open>Deref\<close> of a trusted commit gives the accessors of the commit.\<close>

definition tc_index :: "trusted_commit \<Rightarrow> commit_index" where
  "tc_index c = commit_index_of (tc_inner c)"

definition tc_timestamp_ms :: "trusted_commit \<Rightarrow> block_timestamp_ms" where
  "tc_timestamp_ms c = commit_timestamp_ms (tc_inner c)"

definition tc_leader :: "trusted_commit \<Rightarrow> block_ref" where
  "tc_leader c = commit_leader (tc_inner c)"

definition tc_commit_round :: "trusted_commit \<Rightarrow> round" where
  "tc_commit_round c = commit_round (tc_inner c)"

definition tc_blocks :: "trusted_commit \<Rightarrow> block_ref list" where
  "tc_blocks c = commit_blocks (tc_inner c)"

lemma new_trusted_simps [simp]:
  "tc_inner (new_trusted h c s) = c" "tc_digest (new_trusted h c s) = h s"
  "tc_serialized (new_trusted h c s) = s"
  by (simp_all add: new_trusted_def)

lemma tc_commit_round_leader: "tc_commit_round c = br_round (tc_leader c)"
  by (simp add: tc_commit_round_def tc_leader_def commit_round_leader)

record certified_commit =
  cc_commit :: trusted_commit
  cc_blocks :: "verified_block list"

record certified_commits =
  ccs_commits :: "certified_commit list"
  ccs_votes :: "verified_block list"

definition new_certified :: "trusted_commit \<Rightarrow> verified_block list \<Rightarrow> certified_commit" where
  "new_certified c bs = \<lparr>cc_commit = c, cc_blocks = bs\<rparr>"

section \<open>Committed sub-dags\<close>

type_synonym rejected_map = "(block_ref, transaction_index list) fmap"

record committed_sub_dag =
  sd_leader :: block_ref
  sd_blocks :: "verified_block list"
  sd_timestamp_ms :: block_timestamp_ms
  sd_commit_ref :: commit_ref
  sd_decided_with_local_blocks :: bool
  sd_recovered_rejected_transactions :: bool
  sd_reputation_scores_desc :: "(authority_index \<times> 64 word) list"
  sd_rejected_transactions_by_block :: rejected_map

definition committed_sub_dag_new :: "block_ref \<Rightarrow> verified_block list \<Rightarrow> block_timestamp_ms
    \<Rightarrow> commit_ref \<Rightarrow> committed_sub_dag" where
  "committed_sub_dag_new leader blocks timestamp_ms cref =
     \<lparr>sd_leader = leader, sd_blocks = blocks, sd_timestamp_ms = timestamp_ms,
      sd_commit_ref = cref, sd_decided_with_local_blocks = True,
      sd_recovered_rejected_transactions = False, sd_reputation_scores_desc = [],
      sd_rejected_transactions_by_block = fmempty\<rparr>"

text \<open>\<open>sort_by\<close> is a stable sort; the comparison is by round, then author.\<close>

definition sort_sub_dag_blocks :: "verified_block list \<Rightarrow> verified_block list" where
  "sort_sub_dag_blocks blocks = sort_key (\<lambda>b. (vb_round b, vb_author b)) blocks"

lemma set_sort_sub_dag_blocks [simp]: "set (sort_sub_dag_blocks bs) = set bs"
  by (simp add: sort_sub_dag_blocks_def)

lemma mset_sort_sub_dag_blocks [simp]: "mset (sort_sub_dag_blocks bs) = mset bs"
  by (simp add: sort_sub_dag_blocks_def)

lemma sorted_sort_sub_dag_blocks:
  "sorted_wrt (\<lambda>a b. vb_round a \<le> vb_round b) (sort_sub_dag_blocks bs)"
proof -
  have "sorted (map (\<lambda>b. (vb_round b, vb_author b)) (sort_sub_dag_blocks bs))"
    by (simp add: sort_sub_dag_blocks_def)
  then have "sorted_wrt (\<lambda>a b. (vb_round a, vb_author a) \<le> (vb_round b, vb_author b))
      (sort_sub_dag_blocks bs)"
    by (simp add: sorted_map)
  then show ?thesis
    by (rule sorted_wrt_mono_rel[rotated]) auto
qed

text \<open>
  Two orders of the same blocks, one per slot, are sorted into the same list: the committed order
  does not depend on the order of the traversal that found the blocks.
\<close>

lemma sort_sub_dag_blocks_unique:
  assumes "mset bs = mset bs'" and "inj_on (\<lambda>b. (vb_round b, vb_author b)) (set bs)"
  shows "sort_sub_dag_blocks bs = sort_sub_dag_blocks bs'"
proof -
  let ?k = "\<lambda>b. (vb_round b, vb_author b)"
  have k: "map ?k (sort_key ?k cs) = sort (map ?k cs)" for cs
    by (rule properties_for_sort[symmetric]) simp_all
  have "map ?k (sort_key ?k bs) = map ?k (sort_key ?k bs')"
    unfolding k by (rule properties_for_sort) (use assms(1) in \<open>simp_all add: mset_map\<close>)
  moreover have "set bs' = set bs" using assms(1) by (metis set_mset_mset)
  ultimately show ?thesis
    unfolding sort_sub_dag_blocks_def
    using assms(2) by (intro map_inj_on[where f = ?k]) simp_all
qed

section \<open>Leader decisions\<close>

datatype decision = Direct | Indirect | Certified

datatype leader_status = Commit verified_block | Skip slot | Undecided slot

fun status_round :: "leader_status \<Rightarrow> round" where
  "status_round (Commit b) = vb_round b"
| "status_round (Skip s) = slot_round s"
| "status_round (Undecided s) = slot_round s"

fun is_decided :: "leader_status \<Rightarrow> bool" where
  "is_decided (Commit _) = True"
| "is_decided (Skip _) = True"
| "is_decided (Undecided _) = False"

datatype decided_leader = DCommit verified_block bool | DSkip slot

fun into_decided_leader :: "leader_status \<Rightarrow> bool \<Rightarrow> decided_leader option" where
  "into_decided_leader (Commit b) direct = Some (DCommit b direct)"
| "into_decided_leader (Skip s) direct = Some (DSkip s)"
| "into_decided_leader (Undecided s) direct = None"

fun decided_slot :: "decided_leader \<Rightarrow> slot" where
  "decided_slot (DCommit b _) = slot_of_ref (reference b)"
| "decided_slot (DSkip s) = s"

fun into_committed_block :: "decided_leader \<Rightarrow> verified_block option" where
  "into_committed_block (DCommit b _) = Some b"
| "into_committed_block (DSkip _) = None"

lemma into_decided_leader_iff:
  "into_decided_leader s d \<noteq> None \<longleftrightarrow> is_decided s"
  by (cases s) simp_all

section \<open>Commit ranges\<close>

datatype commit_range = CommitRange (cr_lo: commit_index) (cr_hi: commit_index)

definition commit_range_default :: commit_range where
  "commit_range_default = CommitRange 0 0"

definition range_new :: "commit_index \<Rightarrow> commit_index \<Rightarrow> commit_range" where
  "range_new s e = CommitRange s (u32_saturating_add e 1)"

definition range_start :: "commit_range \<Rightarrow> commit_index" where
  "range_start r = cr_lo r"

definition range_end :: "commit_range \<Rightarrow> commit_index" where
  "range_end r = cr_hi r - 1"

definition range_extend_to :: "commit_index \<Rightarrow> commit_range \<Rightarrow> commit_range option" where
  "range_extend_to other r =
     (let new_end = u32_saturating_add other 1
      in do { rust_assert (cr_hi r \<le> new_end); Some (CommitRange (cr_lo r) new_end) })"

definition range_size :: "commit_range \<Rightarrow> nat option" where
  "range_size r = (if cr_lo r \<le> cr_hi r then Some (cr_hi r - cr_lo r) else None)"

definition range_is_equal_size :: "commit_range \<Rightarrow> commit_range \<Rightarrow> bool option" where
  "range_is_equal_size r s = do { a \<leftarrow> range_size r; b \<leftarrow> range_size s; Some (a = b) }"

definition range_is_next :: "commit_range \<Rightarrow> commit_range \<Rightarrow> bool" where
  "range_is_next r other \<longleftrightarrow> cr_hi r = cr_lo other"

text \<open>The indices of a range, as its inclusive bounds describe them.\<close>

definition range_indices :: "commit_range \<Rightarrow> commit_index set" where
  "range_indices r = {cr_lo r ..< cr_hi r}"

record reputation_scores =
  rs_scores_per_authority :: "64 word list"
  rs_commit_range :: commit_range

definition reputation_scores_default :: reputation_scores where
  "reputation_scores_default = \<lparr>rs_scores_per_authority = [], rs_commit_range = commit_range_default\<rparr>"

definition highest_score :: "reputation_scores \<Rightarrow> 64 word" where
  "highest_score rs = (case rs_scores_per_authority rs of [] \<Rightarrow> 0 | xs \<Rightarrow> Max (set xs))"

definition authorities_by_score :: "reputation_scores \<Rightarrow> node_context
    \<Rightarrow> (authority_index \<times> 64 word) list option" where
  "authorities_by_score rs ctx =
     try_map (\<lambda>(i, score). do { a \<leftarrow> to_authority_index (ctx_committee ctx) i; Some (a, score) })
       (List.enumerate 0 (rs_scores_per_authority rs))"

record commit_info =
  ci_committed_rounds :: "round list"
  ci_reputation_scores :: reputation_scores

lemma u32_saturating_add_less [simp]: "e < u32_max \<Longrightarrow> u32_saturating_add e (Suc 0) = Suc e"
  by (simp add: u32_saturating_add_def)

lemma range_new_bounds:
  "e < u32_max \<Longrightarrow> range_start (range_new s e) = s \<and> range_end (range_new s e) = e"
  by (simp add: range_new_def range_start_def range_end_def)

lemma range_new_indices: "e < u32_max \<Longrightarrow> range_indices (range_new s e) = {s..e}"
  by (auto simp: range_indices_def range_new_def)

end
