(* ===== verification/LeaderScoring.thy ===== *)
theory LeaderScoring
  imports StakeAggregator Commit
begin

text \<open>
  The scoring sub-dag of \<open>core/src/leader_scoring.rs\<close>: it collects the votes for committed leaders
  (blocks strongly linked to a leader) and, for each vote, the stake of the blocks strongly linked to
  it; an authority's reputation score is the stake its votes collected.
\<close>

record scoring_subdag =
  ss_commit_range :: "commit_range option"
  ss_leaders :: "block_ref fset"
  ss_votes :: "(block_ref, stake_aggregator) fmap"

definition scoring_new :: scoring_subdag where
  "scoring_new = \<lparr>ss_commit_range = None, ss_leaders = {||}, ss_votes = fmempty\<rparr>"

text \<open>The body of the loop over the ancestors of a block, on the map of votes.\<close>

definition score_ancestor :: "committee \<Rightarrow> block_ref fset \<Rightarrow> verified_block \<Rightarrow> block_ref
    \<Rightarrow> (block_ref, stake_aggregator) fmap \<Rightarrow> (block_ref, stake_aggregator) fmap option" where
  "score_ancestor c leaders b ancestor votes =
     (if br_round ancestor \<noteq> vb_round b - 1 then Some votes
      else do {
        votes' \<leftarrow> (if ancestor |\<in>| leaders then do {
                    rust_assert (fmlookup votes (reference b) = None);
                    Some (fmupd (reference b) aggregator_new votes)
                  } else Some votes);
        (case fmlookup votes' ancestor of
           None \<Rightarrow> Some votes'
         | Some agg \<Rightarrow> do {
             (agg', _) \<leftarrow> aggregator_add QuorumThreshold agg (vb_author b) c;
             Some (fmupd ancestor agg' votes')
           })
      })"

definition score_block :: "committee \<Rightarrow> block_ref fset \<Rightarrow> verified_block
    \<Rightarrow> (block_ref, stake_aggregator) fmap \<Rightarrow> (block_ref, stake_aggregator) fmap option" where
  "score_block c leaders b votes = try_fold (score_ancestor c leaders b) (vb_ancestors b) votes"

definition add_subdag :: "committee \<Rightarrow> committed_sub_dag \<Rightarrow> scoring_subdag \<Rightarrow> scoring_subdag option" where
  "add_subdag c sd s = do {
     let i = cr_index (sd_commit_ref sd);
     r \<leftarrow> (case ss_commit_range s of
             None \<Rightarrow> Some (range_new i i)
           | Some r \<Rightarrow> range_extend_to i r);
     let leaders = finsert (sd_leader sd) (ss_leaders s);
     votes \<leftarrow> try_fold (score_block c leaders) (sd_blocks sd) (ss_votes s);
     Some (s\<lparr>ss_commit_range := Some r, ss_leaders := leaders, ss_votes := votes\<rparr>)
   }"

definition add_subdags :: "committee \<Rightarrow> committed_sub_dag list \<Rightarrow> scoring_subdag
    \<Rightarrow> scoring_subdag option" where
  "add_subdags c sds s = try_fold (add_subdag c) sds s"

text \<open>The votes are visited in key order; every score is a 64-bit sum.\<close>

definition distributed_votes_scores :: "committee \<Rightarrow> scoring_subdag \<Rightarrow> 64 word list option" where
  "distributed_votes_scores c s =
     try_fold (\<lambda>(vote, agg) scores. do {
         x \<leftarrow> vec_get scores (br_author vote);
         vec_set scores (br_author vote) (x + sa_stake agg)
       })
       (fm_range (\<lambda>_. True) (ss_votes s)) (replicate (committee_size c) 0)"

definition calculate_distributed_vote_scores :: "committee \<Rightarrow> scoring_subdag
    \<Rightarrow> reputation_scores option" where
  "calculate_distributed_vote_scores c s = do {
     scores \<leftarrow> distributed_votes_scores c s;
     r \<leftarrow> ss_commit_range s;
     Some \<lparr>rs_scores_per_authority = scores, rs_commit_range = r\<rparr>
   }"

definition scored_subdags_count :: "scoring_subdag \<Rightarrow> nat option" where
  "scored_subdags_count s =
     (case ss_commit_range s of Some r \<Rightarrow> range_size r | None \<Rightarrow> Some 0)"

definition scoring_is_empty :: "scoring_subdag \<Rightarrow> bool" where
  "scoring_is_empty s \<longleftrightarrow>
     ss_leaders s = {||} \<and> ss_votes s = fmempty \<and> ss_commit_range s = None"

definition scoring_clear :: "scoring_subdag \<Rightarrow> scoring_subdag" where
  "scoring_clear s = s\<lparr>ss_leaders := {||}, ss_votes := fmempty, ss_commit_range := None\<rparr>"

lemma scoring_clear_eq_new [simp]: "scoring_clear s = scoring_new"
  by (simp add: scoring_clear_def scoring_new_def)

lemma scoring_is_empty_iff: "scoring_is_empty s \<longleftrightarrow> s = scoring_new"
  by (cases s) (auto simp: scoring_is_empty_def scoring_new_def)

section \<open>What the scoring computes\<close>

text \<open>
  A block votes for the leaders it is strongly linked to. \<open>voters_of\<close> is the abstract view of the
  map of votes: the set of authors counted for each vote.
\<close>

definition strong_link :: "verified_block \<Rightarrow> block_ref \<Rightarrow> bool" where
  "strong_link b r \<longleftrightarrow> r \<in> set (vb_ancestors b) \<and> br_round r = vb_round b - 1"

definition linkers :: "verified_block set \<Rightarrow> block_ref \<Rightarrow> authority_index set" where
  "linkers B v = vb_author ` {b \<in> B. strong_link b v}"

definition voters_of :: "(block_ref, stake_aggregator) fmap \<Rightarrow> block_ref \<Rightarrow> authority_index set option" where
  "voters_of votes v = map_option (\<lambda>agg. fset (sa_votes agg)) (fmlookup votes v)"

definition aggs_inv :: "committee \<Rightarrow> (block_ref, stake_aggregator) fmap \<Rightarrow> bool" where
  "aggs_inv c votes \<longleftrightarrow> (\<forall>v agg. fmlookup votes v = Some agg \<longrightarrow> aggregator_inv c agg)"

lemma aggs_inv_upd: "aggs_inv c votes \<Longrightarrow> aggregator_inv c agg \<Longrightarrow> aggs_inv c (fmupd v agg votes)"
  by (simp add: aggs_inv_def)

lemma voters_of_upd:
  "voters_of (fmupd v agg votes) = (voters_of votes)(v \<mapsto> fset (sa_votes agg))"
  by (auto simp: voters_of_def)

lemma voters_of_new [simp]: "fset (sa_votes aggregator_new) = {}"
  by (simp add: aggregator_new_def)

text \<open>The abstract effect of a block whose ancestor list is \<open>as\<close>.\<close>

definition leader_votes :: "block_ref fset \<Rightarrow> verified_block \<Rightarrow> block_ref list \<Rightarrow> block_ref list" where
  "leader_votes leaders b as = filter (\<lambda>a. a |\<in>| leaders \<and> br_round a = vb_round b - 1) as"

lemma leader_votes_append [simp]:
  "leader_votes leaders b (xs @ ys) = leader_votes leaders b xs @ leader_votes leaders b ys"
  by (simp add: leader_votes_def)

definition view_block :: "block_ref fset \<Rightarrow> verified_block \<Rightarrow> block_ref list
    \<Rightarrow> (block_ref \<Rightarrow> authority_index set option) \<Rightarrow> block_ref \<Rightarrow> authority_index set option" where
  "view_block leaders b as V v =
     (if v = reference b then (if leader_votes leaders b as \<noteq> [] then Some {} else V v)
      else map_option (\<lambda>S. if v \<in> set as \<and> br_round v = vb_round b - 1
                           then insert (vb_author b) S else S) (V v))"

lemma score_ancestor_step:
  assumes wf: "committee_wf c" and m: "vb_author b \<in> members c" and rnd: "0 < vb_round b"
    and inv: "aggs_inv c votes"
    and once: "a |\<in>| leaders \<Longrightarrow> br_round a = vb_round b - 1 \<Longrightarrow> fmlookup votes (reference b) = None"
  shows "\<exists>votes'. score_ancestor c leaders b a votes = Some votes' \<and> aggs_inv c votes' \<and>
           voters_of votes' = view_block leaders b [a] (voters_of votes)"
proof (cases "br_round a = vb_round b - 1")
  case False
  then have "view_block leaders b [a] (voters_of votes) = voters_of votes"
    by (auto simp: view_block_def leader_votes_def fun_eq_iff intro!: option.map_ident_strong
        split: if_splits)
  with False inv show ?thesis by (simp add: score_ancestor_def)
next
  case True
  define votes1 where "votes1 = (if a |\<in>| leaders then fmupd (reference b) aggregator_new votes
     else votes)"
  have inv1: "aggs_inv c votes1" using inv by (simp add: votes1_def aggs_inv_upd)
  have ne: "a \<noteq> reference b" using True rnd by auto
  have v1: "voters_of votes1 = (if a |\<in>| leaders then (voters_of votes)(reference b \<mapsto> {})
      else voters_of votes)"
    by (simp add: votes1_def voters_of_upd)
  have step: "score_ancestor c leaders b a votes = (case fmlookup votes1 a of
        None \<Rightarrow> Some votes1
      | Some agg \<Rightarrow> do { (agg', _) \<leftarrow> aggregator_add QuorumThreshold agg (vb_author b) c;
                       Some (fmupd a agg' votes1) })"
    using True once unfolding votes1_def score_ancestor_def by simp
  show ?thesis
  proof (cases "fmlookup votes1 a")
    case None
    then have "voters_of votes a = None" using ne by (auto simp: votes1_def voters_of_def split: if_splits)
    then have "voters_of votes1 = view_block leaders b [a] (voters_of votes)"
      using True by (auto simp: v1 view_block_def leader_votes_def fun_eq_iff
          intro!: option.map_ident_strong[symmetric] split: if_splits)
    with None inv1 step show ?thesis by simp
  next
    case (Some agg)
    then have agg: "aggregator_inv c agg" using inv1 by (simp add: aggs_inv_def)
    obtain agg' r where agg': "aggregator_add QuorumThreshold agg (vb_author b) c = Some (agg', r)"
        "aggregator_inv c agg'" "fset (sa_votes agg') = insert (vb_author b) (fset (sa_votes agg))"
      using aggregator_add_spec[OF wf agg m, of QuorumThreshold] by blast
    have "voters_of votes a = Some (fset (sa_votes agg))"
      using Some ne by (auto simp: votes1_def voters_of_def split: if_splits)
    then have "voters_of (fmupd a agg' votes1) = view_block leaders b [a] (voters_of votes)"
      using True ne
      by (auto simp: voters_of_upd v1 agg'(3) view_block_def leader_votes_def fun_eq_iff option.map_ident)
    with Some agg' inv1 step show ?thesis by (simp add: aggs_inv_upd)
  qed
qed

lemma view_block_append:
  assumes "0 < vb_round b" "leader_votes leaders b as = [] \<or> leader_votes leaders b [a] = []"
  shows "view_block leaders b [a] (view_block leaders b as V) = view_block leaders b (as @ [a]) V"
proof (rule ext)
  fix v
  show "view_block leaders b [a] (view_block leaders b as V) v = view_block leaders b (as @ [a]) V v"
    using assms
    by (cases "v = reference b"; cases "V v") (auto simp: view_block_def leader_votes_append)
qed

lemma score_block_exact:
  assumes wf: "committee_wf c" and m: "vb_author b \<in> members c" and rnd: "0 < vb_round b"
    and inv: "aggs_inv c votes" and none: "fmlookup votes (reference b) = None"
    and one: "length (leader_votes leaders b (vb_ancestors b)) \<le> 1"
  shows "\<exists>votes'. score_block c leaders b votes = Some votes' \<and> aggs_inv c votes' \<and>
           voters_of votes' = view_block leaders b (vb_ancestors b) (voters_of votes)"
proof -
  have "\<exists>votes'. try_fold (score_ancestor c leaders b) as votes = Some votes' \<and> aggs_inv c votes' \<and>
      voters_of votes' = view_block leaders b as (voters_of votes)"
    if "length (leader_votes leaders b as) \<le> 1" for as
    using that
  proof (induction as rule: rev_induct)
    case Nil
    then show ?case
      using inv by (auto simp: view_block_def leader_votes_def fun_eq_iff option.map_ident)
  next
    case (snoc a as)
    have one': "leader_votes leaders b as = [] \<or> leader_votes leaders b [a] = []"
      using snoc.prems by (cases "leader_votes leaders b as") (auto simp: leader_votes_def)
    obtain votes1 where v1: "try_fold (score_ancestor c leaders b) as votes = Some votes1"
        "aggs_inv c votes1" "voters_of votes1 = view_block leaders b as (voters_of votes)"
      using snoc by (auto simp: leader_votes_def)
    have "fmlookup votes1 (reference b) = None" if "a |\<in>| leaders" "br_round a = vb_round b - 1"
    proof -
      have "leader_votes leaders b as = []" using one' that by (simp add: leader_votes_def)
      then have "voters_of votes1 (reference b) = None"
        using v1(3) none by (simp add: view_block_def voters_of_def)
      then show ?thesis by (simp add: voters_of_def)
    qed
    then obtain votes2 where "score_ancestor c leaders b a votes1 = Some votes2" "aggs_inv c votes2"
        "voters_of votes2 = view_block leaders b [a] (voters_of votes1)"
      using score_ancestor_step[OF wf m rnd v1(2), of a leaders] by blast
    with v1 view_block_append[OF rnd one'] show ?case by simp
  qed
  from this[OF one] show ?thesis by (simp add: score_block_def)
qed

section \<open>Sequences of sub-dags\<close>

text \<open>
  The blocks of a sequence of sub-dags, in commit order, each with the leaders scored when it is
  processed.
\<close>

fun scoring_events :: "block_ref fset \<Rightarrow> committed_sub_dag list \<Rightarrow> (block_ref fset \<times> verified_block) list"
  where
  "scoring_events L [] = []"
| "scoring_events L (sd # sds) =
     map (\<lambda>b. (finsert (sd_leader sd) L, b)) (sd_blocks sd) @
     scoring_events (finsert (sd_leader sd) L) sds"

text \<open>
  What the linearizer and the block verifier give: authors in the committee, no genesis block, no
  block twice, at most one leader among the strong links of a block, and no block before a block it
  is strongly linked to.
\<close>

fun events_ok :: "committee \<Rightarrow> verified_block list \<Rightarrow> (block_ref fset \<times> verified_block) list \<Rightarrow> bool"
  where
  "events_ok c prev [] = True"
| "events_ok c prev ((L, b) # es) \<longleftrightarrow>
     vb_author b \<in> members c \<and> 0 < vb_round b \<and> reference b \<notin> reference ` set prev \<and>
     length (leader_votes L b (vb_ancestors b)) \<le> 1 \<and>
     (\<forall>d \<in> set prev. \<not> strong_link d (reference b)) \<and> events_ok c (prev @ [b]) es"

text \<open>The votes that result: blocks linked to a scored leader, with everyone who linked to them.\<close>

definition votes_spec :: "(block_ref fset \<times> verified_block) list \<Rightarrow> block_ref
    \<Rightarrow> authority_index set option" where
  "votes_spec es v =
     (if \<exists>(L, b) \<in> set es. reference b = v \<and> leader_votes L b (vb_ancestors b) \<noteq> []
      then Some (linkers (snd ` set es) v) else None)"

lemma votes_spec_step:
  assumes "reference b \<notin> reference ` snd ` set pre" "0 < vb_round b"
    and "\<forall>d \<in> snd ` set pre. \<not> strong_link d (reference b)"
  shows "view_block L b (vb_ancestors b) (votes_spec pre) = votes_spec (pre @ [(L, b)])"
proof (rule ext)
  fix v
  let ?h = "\<lambda>es. \<exists>(L, b) \<in> set es. reference b = v \<and> leader_votes L b (vb_ancestors b) \<noteq> []"
  show "view_block L b (vb_ancestors b) (votes_spec pre) v = votes_spec (pre @ [(L, b)]) v"
  proof (cases "v = reference b")
    case True
    have "\<not> strong_link b (reference b)" using assms(2) by (auto simp: strong_link_def)
    then have "linkers (snd ` set (pre @ [(L, b)])) v = {}"
      using assms(3) True by (auto simp: linkers_def)
    moreover have "\<not> ?h pre" using assms(1) True by (auto simp: image_iff)
    ultimately show ?thesis using True by (auto simp: view_block_def votes_spec_def)
  next
    case False
    then have "?h (pre @ [(L, b)]) = ?h pre" by auto
    moreover have "linkers (snd ` set (pre @ [(L, b)])) v =
        (if v \<in> set (vb_ancestors b) \<and> br_round v = vb_round b - 1
         then insert (vb_author b) (linkers (snd ` set pre) v) else linkers (snd ` set pre) v)"
      by (auto simp: linkers_def strong_link_def)
    ultimately show ?thesis using False by (simp add: view_block_def votes_spec_def)
  qed
qed

lemma score_events_exact:
  assumes "committee_wf c" "events_ok c (map snd pre) es" "aggs_inv c votes"
    and "voters_of votes = votes_spec pre"
  shows "\<exists>votes'. try_fold (\<lambda>(L, b). score_block c L b) es votes = Some votes' \<and>
           aggs_inv c votes' \<and> voters_of votes' = votes_spec (pre @ es)"
  using assms(2-4)
proof (induction es arbitrary: pre votes)
  case Nil
  then show ?case by simp
next
  case (Cons e es)
  obtain L b where e: "e = (L, b)" by (cases e)
  have ok: "vb_author b \<in> members c" "0 < vb_round b" "reference b \<notin> reference ` snd ` set pre"
      "length (leader_votes L b (vb_ancestors b)) \<le> 1"
      "\<forall>d \<in> snd ` set pre. \<not> strong_link d (reference b)" "events_ok c (map snd (pre @ [(L, b)])) es"
    using Cons.prems(1) by (simp_all add: e image_image)
  have "votes_spec pre (reference b) = None" using ok(3) by (auto simp: votes_spec_def image_iff)
  then have "fmlookup votes (reference b) = None"
    using Cons.prems(3) by (metis voters_of_def option.map_disc_iff)
  from score_block_exact[OF assms(1) ok(1,2) Cons.prems(2) this ok(4)]
  obtain votes1 where v1: "score_block c L b votes = Some votes1" "aggs_inv c votes1"
      "voters_of votes1 = votes_spec (pre @ [(L, b)])"
    using votes_spec_step[OF ok(3,2,5)] Cons.prems(3) by auto
  with Cons.IH[OF ok(6) v1(2,3)] show ?case by (simp add: e)
qed

text \<open>The commit range grows with the index of every sub-dag.\<close>

definition sd_index :: "committed_sub_dag \<Rightarrow> commit_index" where
  "sd_index sd = cr_index (sd_commit_ref sd)"

definition next_range :: "commit_range option \<Rightarrow> commit_index \<Rightarrow> commit_range" where
  "next_range r i = CommitRange (case r of None \<Rightarrow> i | Some q \<Rightarrow> cr_lo q) (u32_saturating_add i 1)"

definition range_before :: "commit_range option \<Rightarrow> commit_index \<Rightarrow> bool" where
  "range_before r i \<longleftrightarrow> (case r of None \<Rightarrow> True | Some q \<Rightarrow> cr_hi q \<le> u32_saturating_add i 1)"

lemma range_before_next: "i \<le> j \<Longrightarrow> range_before (Some (next_range r i)) j"
  by (auto simp: range_before_def next_range_def u32_saturating_add_def)

lemma add_subdag_eq:
  assumes "range_before (ss_commit_range s) (sd_index sd)"
  shows "add_subdag c sd s = do {
     votes \<leftarrow> try_fold (\<lambda>(L, b). score_block c L b)
       (map (\<lambda>b. (finsert (sd_leader sd) (ss_leaders s), b)) (sd_blocks sd)) (ss_votes s);
     Some (s\<lparr>ss_commit_range := Some (next_range (ss_commit_range s) (sd_index sd)),
             ss_leaders := finsert (sd_leader sd) (ss_leaders s), ss_votes := votes\<rparr>) }"
proof -
  have "try_fold (\<lambda>(L, b). score_block c L b) (map (\<lambda>b. (L, b)) bs) votes =
      try_fold (score_block c L) bs votes" for L bs votes
    by (induction bs arbitrary: votes) (auto split: bind_splits)
  with assms show ?thesis
    by (auto simp: add_subdag_def sd_index_def range_before_def next_range_def range_new_def
        range_extend_to_def Let_def split: option.splits)
qed

lemma add_subdags_exact:
  assumes wf: "committee_wf c"
    and "events_ok c (map snd pre) (scoring_events (ss_leaders s) sds)"
    and "aggs_inv c (ss_votes s)" "voters_of (ss_votes s) = votes_spec pre"
    and "sorted (map sd_index sds)" "\<forall>sd \<in> set sds. range_before (ss_commit_range s) (sd_index sd)"
  shows "\<exists>s'. add_subdags c sds s = Some s' \<and> aggs_inv c (ss_votes s') \<and>
           voters_of (ss_votes s') = votes_spec (pre @ scoring_events (ss_leaders s) sds) \<and>
           (sds \<noteq> [] \<longrightarrow> ss_commit_range s' =
              Some (next_range (case ss_commit_range s of None \<Rightarrow> Some (next_range None (sd_index (hd sds))) | Some r \<Rightarrow> Some r)
                (sd_index (last sds))))"
  using assms(2-6)
proof (induction sds arbitrary: s pre)
  case Nil
  then show ?case by (simp add: add_subdags_def)
next
  case (Cons sd sds)
  let ?L = "finsert (sd_leader sd) (ss_leaders s)"
  let ?es = "map (\<lambda>b. (?L, b)) (sd_blocks sd)"
  have split: "events_ok c prev (xs @ ys) \<longleftrightarrow>
      events_ok c prev xs \<and> events_ok c (prev @ map snd xs) ys" for prev xs ys
    by (induction c prev xs rule: events_ok.induct) auto
  have ok: "events_ok c (map snd pre) ?es" "events_ok c (map snd (pre @ ?es)) (scoring_events ?L sds)"
    using Cons.prems(1) by (simp_all add: split)
  obtain votes where v: "try_fold (\<lambda>(L, b). score_block c L b) ?es (ss_votes s) = Some votes"
      "aggs_inv c votes" "voters_of votes = votes_spec (pre @ ?es)"
    using score_events_exact[OF wf ok(1) Cons.prems(2,3)] by blast
  define s1 where "s1 = s\<lparr>ss_commit_range := Some (next_range (ss_commit_range s) (sd_index sd)),
      ss_leaders := ?L, ss_votes := votes\<rparr>"
  have step: "add_subdag c sd s = Some s1"
    using v(1) Cons.prems(5) by (simp add: add_subdag_eq s1_def)
  have "\<forall>sd' \<in> set sds. range_before (ss_commit_range s1) (sd_index sd')"
    using Cons.prems(4) by (auto simp: s1_def intro: range_before_next)
  then obtain s' where s': "add_subdags c sds s1 = Some s'" "aggs_inv c (ss_votes s')"
      "voters_of (ss_votes s') = votes_spec ((pre @ ?es) @ scoring_events ?L sds)"
      "sds \<noteq> [] \<longrightarrow> ss_commit_range s' = Some (next_range (ss_commit_range s1) (sd_index (last sds)))"
    using Cons.IH[of "pre @ ?es" s1] ok(2) v Cons.prems(4) by (auto simp: s1_def)
  have "ss_commit_range s' = Some (next_range (ss_commit_range s1) (sd_index sd))" if "sds = []"
    using that s'(1) by (auto simp: add_subdags_def s1_def next_range_def)
  with s' step show ?case
    by (cases "ss_commit_range s") (auto simp: add_subdags_def s1_def next_range_def)
qed

section \<open>The scores\<close>

lemma scores_fold:
  assumes "\<forall>(v, agg) \<in> set kvs. br_author v < length scores"
  shows "\<exists>out. try_fold (\<lambda>(vote, agg) scores. do {
             x \<leftarrow> vec_get scores (br_author vote);
             vec_set scores (br_author vote) (x + sa_stake agg)
           }) kvs scores = Some out \<and> length out = length scores \<and>
           (\<forall>i < length scores. out ! i =
              scores ! i + sum_list (map (sa_stake \<circ> snd) (filter (\<lambda>(v, _). br_author v = i) kvs)))"
  using assms
proof (induction kvs arbitrary: scores)
  case (Cons kv kvs)
  obtain v agg where kv: "kv = (v, agg)" by (cases kv)
  let ?s = "scores[br_author v := scores ! br_author v + sa_stake agg]"
  have "\<forall>(v, agg) \<in> set kvs. br_author v < length ?s" using Cons.prems by auto
  from Cons.IH[OF this] Cons.prems show ?case
    by (auto simp: kv nth_list_update add.assoc)
qed simp

definition vote_refs :: "(block_ref fset \<times> verified_block) list \<Rightarrow> authority_index \<Rightarrow> block_ref set" where
  "vote_refs es i =
     {reference b |L b. (L, b) \<in> set es \<and> vb_author b = i \<and> leader_votes L b (vb_ancestors b) \<noteq> []}"

definition score_spec :: "committee \<Rightarrow> (block_ref fset \<times> verified_block) list \<Rightarrow> authority_index \<Rightarrow> nat" where
  "score_spec c es i = (\<Sum>v \<in> vote_refs es i. stake_of c (linkers (snd ` set es) v))"

lemma events_ok_members:
  "events_ok c prev es \<Longrightarrow> (L, b) \<in> set es \<Longrightarrow> vb_author b \<in> members c"
  by (induction c prev es rule: events_ok.induct) auto

lemma finite_voters:
  assumes "aggs_inv c votes" "fmlookup votes v = Some agg" "voters_of votes = votes_spec es"
  shows "unat (sa_stake agg) = stake_of c (linkers (snd ` set es) v)"
    and "\<exists>(L, b) \<in> set es. reference b = v \<and> leader_votes L b (vb_ancestors b) \<noteq> []"
proof -
  have "votes_spec es v = Some (fset (sa_votes agg))"
    using assms(2,3) by (metis voters_of_def option.map(2))
  then have "fset (sa_votes agg) = linkers (snd ` set es) v"
    "\<exists>(L, b) \<in> set es. reference b = v \<and> leader_votes L b (vb_ancestors b) \<noteq> []"
    by (auto simp: votes_spec_def split: if_splits)
  with assms(1,2) show "unat (sa_stake agg) = stake_of c (linkers (snd ` set es) v)"
      "\<exists>(L, b) \<in> set es. reference b = v \<and> leader_votes L b (vb_ancestors b) \<noteq> []"
    by (auto simp: aggs_inv_def aggregator_inv_def)
qed

lemma score_sum:
  assumes inv: "aggs_inv c votes" and spec: "voters_of votes = votes_spec es"
  shows "sum_list (map unat (map (sa_stake \<circ> snd)
           (filter (\<lambda>(v, _). br_author v = i) (fm_range (\<lambda>_. True) votes)))) = score_spec c es i"
proof -
  let ?keys = "filter (\<lambda>v. br_author v = i) (fs_range (\<lambda>_. True) (fmdom votes))"
  have dom: "v |\<in>| fmdom votes \<longleftrightarrow>
      (\<exists>(L, b) \<in> set es. reference b = v \<and> leader_votes L b (vb_ancestors b) \<noteq> [])" for v
  proof -
    have "v |\<in>| fmdom votes \<longleftrightarrow> votes_spec es v \<noteq> None"
      using spec by (metis voters_of_def fmdom_notI fmdom_notD option.map_disc_iff)
    then show ?thesis by (simp add: votes_spec_def)
  qed
  have "filter (\<lambda>(v, _). br_author v = i) (fm_range (\<lambda>_. True) votes) =
      map (\<lambda>v. (v, the (fmlookup votes v))) ?keys"
    by (simp add: fm_range_def filter_map comp_def)
  then have "sum_list (map unat (map (sa_stake \<circ> snd)
      (filter (\<lambda>(v, _). br_author v = i) (fm_range (\<lambda>_. True) votes)))) =
      sum_list (map (\<lambda>v. unat (sa_stake (the (fmlookup votes v)))) ?keys)"
    by (simp add: comp_def)
  also have "\<dots> = (\<Sum>v \<in> set ?keys. unat (sa_stake (the (fmlookup votes v))))"
    by (rule sum_list_distinct_conv_sum_set) simp
  also have "set ?keys = vote_refs es i"
    using dom by (force simp: vote_refs_def)
  also have "(\<Sum>v \<in> vote_refs es i. unat (sa_stake (the (fmlookup votes v)))) = score_spec c es i"
    unfolding score_spec_def
  proof (rule sum.cong[OF refl])
    fix v assume "v \<in> vote_refs es i"
    then have "v |\<in>| fmdom votes" using dom by (force simp: vote_refs_def)
    then obtain agg where "fmlookup votes v = Some agg" by (auto simp: fmlookup_dom_iff)
    with finite_voters(1)[OF inv this spec]
    show "unat (sa_stake (the (fmlookup votes v))) = stake_of c (linkers (snd ` set es) v)" by simp
  qed
  finally show ?thesis .
qed

section \<open>Properties\<close>

text \<open>
  C19. Scoring a sequence of committed sub-dags never panics, covers the range of their commit
  indices, and gives every authority exactly the stake that linked to its votes: for each of its
  blocks strongly linked to a leader scored by then, the total stake of the distinct authorities
  with a block strongly linked to that block. The 64-bit sums do not wrap around as long as the
  exact scores fit.
\<close>

theorem scoring_exact:
  assumes "committee_wf c" and "sds \<noteq> []"
    and "events_ok c [] (scoring_events {||} sds)"
    and "sorted (map sd_index sds)"
    and "\<forall>i \<in> members c. score_spec c (scoring_events {||} sds) i < 2 ^ 64"
  shows "\<exists>s rs. add_subdags c sds scoring_new = Some s \<and>
           calculate_distributed_vote_scores c s = Some rs \<and>
           rs_commit_range rs = range_new (sd_index (hd sds)) (sd_index (last sds)) \<and>
           map unat (rs_scores_per_authority rs) =
             map (score_spec c (scoring_events {||} sds)) [0..<committee_size c]"
proof -
  let ?es = "scoring_events {||} sds"
  have new: "ss_leaders scoring_new = {||}" "ss_votes scoring_new = fmempty"
      "ss_commit_range scoring_new = None"
    by (simp_all add: scoring_new_def)
  obtain s where s: "add_subdags c sds scoring_new = Some s" "aggs_inv c (ss_votes s)"
      "voters_of (ss_votes s) = votes_spec ?es"
      "ss_commit_range s = Some (range_new (sd_index (hd sds)) (sd_index (last sds)))"
    using add_subdags_exact[OF assms(1), of "[]" scoring_new sds] assms(2-4)
    by (auto simp: new aggs_inv_def voters_of_def votes_spec_def fun_eq_iff range_before_def
        next_range_def range_new_def)
  let ?kvs = "fm_range (\<lambda>_. True) (ss_votes s)"
  let ?w = "\<lambda>i. sum_list (map (sa_stake \<circ> snd) (filter (\<lambda>(v, _). br_author v = i) ?kvs))"
  have auth: "br_author v < committee_size c" if "(v, agg) \<in> set ?kvs" for v agg
    using finite_voters(2)[OF s(2) _ s(3), of v agg] that events_ok_members[OF assms(3)]
    by (auto simp: set_fm_range members_def)
  obtain out where out: "distributed_votes_scores c s = Some out" "length out = committee_size c"
      "\<forall>i < committee_size c. out ! i = ?w i"
    using scores_fold[of ?kvs "replicate (committee_size c) 0"] auth
    unfolding distributed_votes_scores_def by auto
  have "unat (out ! i) = score_spec c ?es i" if "i < committee_size c" for i
    using out(3) that assms(5) score_sum[OF s(2,3), of i]
    by (auto simp: members_def unat_sum_list_no_wrap)
  then have "map unat out = map (score_spec c ?es) [0..<committee_size c]"
    using out(2) by (auto intro!: nth_equalityI)
  with s out show ?thesis
    by (simp add: calculate_distributed_vote_scores_def)
qed

definition scoring_example :: "committed_sub_dag list" where
  "scoring_example =
     [committed_sub_dag_new (BlockRef 1 0 7) [mk_block 1 0 7 0 []] 0 (CommitRef 1 1),
      committed_sub_dag_new (BlockRef 3 2 9)
        [mk_block 2 1 8 0 [BlockRef 1 0 7], mk_block 3 2 9 0 [BlockRef 2 1 8]] 0 (CommitRef 2 2)]"

theorem scoring_exact_witness:
  "\<exists>s rs. add_subdags committee4 scoring_example scoring_new = Some s \<and>
     calculate_distributed_vote_scores committee4 s = Some rs \<and>
     rs_commit_range rs = range_new (sd_index (hd scoring_example)) (sd_index (last scoring_example)) \<and>
     map unat (rs_scores_per_authority rs) =
       map (score_spec committee4 (scoring_events {||} scoring_example)) [0..<committee_size committee4]"
proof (rule scoring_exact[OF committee4_wf])
  show "scoring_example \<noteq> []" by (simp add: scoring_example_def)
  show "events_ok committee4 [] (scoring_events {||} scoring_example)"
    by (simp add: scoring_example_def committed_sub_dag_new_def committee4_members leader_votes_def
        strong_link_def)
  show "sorted (map sd_index scoring_example)"
    by (simp add: scoring_example_def committed_sub_dag_new_def sd_index_def)
  let ?es = "scoring_events {||} scoring_example"
  let ?R = "{BlockRef 1 0 7, BlockRef 2 1 8, BlockRef 3 2 9}"
  have "linkers (snd ` set ?es) v \<subseteq> members committee4" for v
    by (auto simp: linkers_def scoring_example_def committed_sub_dag_new_def committee4_members)
  then have le: "stake_of committee4 (linkers (snd ` set ?es) v) \<le> 4" for v
    using stake_of_le_total[OF committee4_wf, of "linkers (snd ` set ?es) v"]
    by (simp add: committee4_def)
  have "score_spec committee4 ?es i \<le> 12" for i
  proof -
    have sub: "vote_refs ?es i \<subseteq> ?R"
      by (auto simp: vote_refs_def scoring_example_def committed_sub_dag_new_def)
    have "score_spec committee4 ?es i \<le> of_nat (card (vote_refs ?es i)) * 4"
      unfolding score_spec_def by (rule sum_bounded_above) (rule le)
    moreover have "card (vote_refs ?es i) \<le> card ?R" by (rule card_mono[OF _ sub]) simp
    moreover have "card ?R = 3" by simp
    ultimately show ?thesis by simp
  qed
  then show "\<forall>i \<in> members committee4. score_spec committee4 (scoring_events {||} scoring_example) i < 2 ^ 64"
    by (intro ballI) (rule le_less_trans[of _ 12], simp_all)
qed

end
