(* ===== verification/Store.thy ===== *)
theory Store
  imports Commit
begin

text \<open>
  The storage interface and the in-memory store: \<open>storage/mod.rs\<close>, \<open>storage/mem_store.rs\<close>.

  Every read of \<open>MemStore\<close> returns \<open>Ok\<close>, so the reads give their value directly; \<open>None\<close> is a
  panic. \<open>Round::MAX\<close> and \<open>CommitDigest::MAX\<close> are bounds that no key exceeds. The locale
  \<open>block_store\<close> is the part of the \<open>Store\<close> trait that recovery and the DAG state rely on.
\<close>

record mem_store =
  ms_blocks :: "(round \<times> authority_index \<times> digest, verified_block) fmap"
  ms_digests_by_authorities :: "(authority_index \<times> round \<times> digest) fset"
  ms_commits :: "(commit_index \<times> digest, trusted_commit) fmap"
  ms_commit_votes :: "(commit_index \<times> digest \<times> block_ref) fset"
  ms_commit_info :: "(commit_index \<times> digest, commit_info) fmap"
  ms_finalized_commits :: "(commit_index \<times> digest, rejected_map) fmap"

record write_batch =
  wb_blocks :: "verified_block list"
  wb_commits :: "trusted_commit list"
  wb_commit_info :: "(commit_ref \<times> commit_info) list"
  wb_finalized_commits :: "(commit_ref \<times> rejected_map) list"

definition mem_store_new :: mem_store where
  "mem_store_new = \<lparr>ms_blocks = fmempty, ms_digests_by_authorities = {||}, ms_commits = fmempty,
     ms_commit_votes = {||}, ms_commit_info = fmempty, ms_finalized_commits = fmempty\<rparr>"

definition write_block :: "verified_block \<Rightarrow> mem_store \<Rightarrow> mem_store" where
  "write_block b s =
     (let r = reference b in
      s\<lparr>ms_blocks := fmupd (br_key r) b (ms_blocks s),
        ms_digests_by_authorities :=
          finsert (br_author r, br_round r, br_digest r) (ms_digests_by_authorities s),
        ms_commit_votes := fold (\<lambda>v. finsert (cr_index v, cr_digest v, r))
          (block_commit_votes (inner b)) (ms_commit_votes s)\<rparr>)"

definition write_commit :: "trusted_commit \<Rightarrow> mem_store \<Rightarrow> mem_store" where
  "write_commit c s = s\<lparr>ms_commits := fmupd (tc_index c, tc_digest c) c (ms_commits s)\<rparr>"

definition write_commit_info :: "commit_ref \<times> commit_info \<Rightarrow> mem_store \<Rightarrow> mem_store" where
  "write_commit_info p s = (case p of (r, i) \<Rightarrow>
     s\<lparr>ms_commit_info := fmupd (cr_index r, cr_digest r) i (ms_commit_info s)\<rparr>)"

definition write_finalized_commit :: "commit_ref \<times> rejected_map \<Rightarrow> mem_store \<Rightarrow> mem_store" where
  "write_finalized_commit p s = (case p of (r, t) \<Rightarrow>
     s\<lparr>ms_finalized_commits := fmupd (cr_index r, cr_digest r) t (ms_finalized_commits s)\<rparr>)"

definition store_write :: "write_batch \<Rightarrow> mem_store \<Rightarrow> mem_store" where
  "store_write wb s =
     (let s1 = fold write_block (wb_blocks wb) s;
          s2 = fold write_commit (wb_commits wb) s1;
          s3 = fold write_commit_info (wb_commit_info wb) s2
      in fold write_finalized_commit (wb_finalized_commits wb) s3)"

definition store_read_blocks :: "mem_store \<Rightarrow> block_ref list \<Rightarrow> verified_block option list" where
  "store_read_blocks s refs = map (\<lambda>r. fmlookup (ms_blocks s) (br_key r)) refs"

definition store_contains_blocks :: "mem_store \<Rightarrow> block_ref list \<Rightarrow> bool list" where
  "store_contains_blocks s refs = map (\<lambda>r. br_key r |\<in>| fmdom (ms_blocks s)) refs"

definition scan_blocks_by_author :: "mem_store \<Rightarrow> authority_index \<Rightarrow> round
    \<Rightarrow> verified_block list option" where
  "scan_blocks_by_author s author start_round = do {
     let refs = map (\<lambda>(a, r, d). BlockRef r a d)
       (fs_range (\<lambda>k. (author, start_round, digest_min) \<le> k \<and> fst k = author)
          (ms_digests_by_authorities s));
     try_map id (store_read_blocks s refs)
   }"

text \<open>
  \<open>scan_last_blocks_by_author\<close> collects the references with \<open>VecDeque::push_front\<close> and reads only
  the first of the two slices \<open>as_slices()\<close> returns. The deque is a ring buffer: capacity, index of
  the first element and number of elements decide where that slice ends. The buffer starts empty,
  grows to 4 and then doubles; growing moves the part at its end, or the part that wrapped around.
\<close>

fun vd_grow :: "nat \<times> nat \<times> nat \<Rightarrow> nat \<times> nat \<times> nat" where
  "vd_grow (cap, h, len) =
     (let cap' = max 4 (2 * cap) in
      if h \<le> cap - len then (cap', h, len)
      else let head_len = cap - h; tail_len = len - head_len in
        if tail_len < head_len \<and> tail_len \<le> cap' - cap then (cap', h, len)
        else (cap', cap' - head_len, len))"

fun vd_push_front :: "nat \<times> nat \<times> nat \<Rightarrow> nat \<times> nat \<times> nat" where
  "vd_push_front (cap, h, len) =
     (let (cap', h', _) = (if len = cap then vd_grow (cap, h, len) else (cap, h, len))
      in (cap', if h' = 0 then cap' - 1 else h' - 1, len + 1))"

definition vd_first_slice :: "nat \<Rightarrow> nat" where
  "vd_first_slice n = (let (cap, h, len) = (vd_push_front ^^ n) (0, 0, 0) in min len (cap - h))"

definition scan_last_blocks_by_author :: "mem_store \<Rightarrow> authority_index \<Rightarrow> nat \<Rightarrow> round option
    \<Rightarrow> verified_block list option" where
  "scan_last_blocks_by_author s author num_of_rounds before_round = do {
     let ks = fs_range (\<lambda>(a, r, d). a = author \<and> (case before_round of None \<Rightarrow> True | Some m \<Rightarrow> r \<le> m))
       (ms_digests_by_authorities s);
     let refs = map (\<lambda>(a, r, d). BlockRef r a d) (rev (take num_of_rounds (rev ks)));
     let results = store_read_blocks s (take (vd_first_slice (length refs)) refs);
     try_map (\<lambda>(r, b). b) (zip refs results)
   }"

definition fm_last :: "('k::linorder, 'v) fmap \<Rightarrow> ('k \<times> 'v) option" where
  "fm_last m = map_option (\<lambda>k. (k, the (fmlookup m k))) (fs_last (fmdom m))"

definition read_last_commit :: "mem_store \<Rightarrow> trusted_commit option" where
  "read_last_commit s = map_option snd (fm_last (ms_commits s))"

text \<open>\<open>BTreeMap::range\<close> panics when its start is after its end, unless the map is empty.\<close>

definition scan_commits :: "mem_store \<Rightarrow> commit_range \<Rightarrow> trusted_commit list option" where
  "scan_commits s r = do {
     rust_assert (fmdom (ms_commits s) = {||} \<or> (range_start r, digest_min) \<le> (range_end r, digest_max));
     Some (map snd (fm_range
       (\<lambda>k. (range_start r, digest_min) \<le> k \<and> k \<le> (range_end r, digest_max)) (ms_commits s)))
   }"

definition read_commit_votes :: "mem_store \<Rightarrow> commit_index \<Rightarrow> block_ref list" where
  "read_commit_votes s i =
     map (\<lambda>(_, _, r). r) (fs_range (\<lambda>(j, _, _). j = i) (ms_commit_votes s))"

definition read_last_commit_info :: "mem_store \<Rightarrow> (commit_ref \<times> commit_info) option" where
  "read_last_commit_info s =
     map_option (\<lambda>((i, d), info). (CommitRef i d, info)) (fm_last (ms_commit_info s))"

definition read_last_finalized_commit :: "mem_store \<Rightarrow> commit_ref option" where
  "read_last_finalized_commit s =
     map_option (\<lambda>((i, d), _). CommitRef i d) (fm_last (ms_finalized_commits s))"

definition read_rejected_transactions :: "mem_store \<Rightarrow> commit_ref \<Rightarrow> rejected_map option" where
  "read_rejected_transactions s r = fmlookup (ms_finalized_commits s) (cr_index r, cr_digest r)"

text \<open>
  \<open>load_committed_subdag_from_store\<close> of \<open>commit.rs\<close>: the blocks of the commit must be in the store
  and the leader must be one of them.
\<close>

definition load_committed_subdag_from_store :: "mem_store \<Rightarrow> trusted_commit
    \<Rightarrow> (authority_index \<times> 64 word) list \<Rightarrow> committed_sub_dag option" where
  "load_committed_subdag_from_store s c scores = do {
     blocks \<leftarrow> try_map id (store_read_blocks s (tc_blocks c));
     rust_assert (\<exists>b \<in> set blocks. reference b = tc_leader c);
     let sd = (committed_sub_dag_new (tc_leader c) blocks (tc_timestamp_ms c) (tc_reference c))
                \<lparr>sd_reputation_scores_desc := scores\<rparr>;
     Some (case read_rejected_transactions s (tc_reference c) of
         Some rejected \<Rightarrow> sd\<lparr>sd_decided_with_local_blocks := True,
           sd_recovered_rejected_transactions := True, sd_rejected_transactions_by_block := rejected\<rparr>
       | None \<Rightarrow> sd\<lparr>sd_decided_with_local_blocks := False,
           sd_recovered_rejected_transactions := False\<rparr>)
   }"

section \<open>Components of a written store\<close>

lemma br_key_eq_iff [simp]: "br_key a = br_key b \<longleftrightarrow> a = b"
  by (cases a; cases b) (auto simp: br_key_def)

lemma write_block_simps [simp]:
  "ms_blocks (write_block b s) = fmupd (br_key (reference b)) b (ms_blocks s)"
  "ms_digests_by_authorities (write_block b s) =
     finsert (vb_author b, vb_round b, vb_digest b) (ms_digests_by_authorities s)"
  "ms_commits (write_block b s) = ms_commits s"
  "ms_commit_info (write_block b s) = ms_commit_info s"
  "ms_finalized_commits (write_block b s) = ms_finalized_commits s"
  by (simp_all add: write_block_def Let_def)

lemma fold_commit_fields [simp]:
  "ms_blocks (fold write_commit xs s) = ms_blocks s"
  "ms_digests_by_authorities (fold write_commit xs s) = ms_digests_by_authorities s"
  "ms_commit_votes (fold write_commit xs s) = ms_commit_votes s"
  "ms_commits (fold write_commit xs s) = fold (\<lambda>c. fmupd (tc_index c, tc_digest c) c) xs (ms_commits s)"
  "ms_commit_info (fold write_commit xs s) = ms_commit_info s"
  "ms_finalized_commits (fold write_commit xs s) = ms_finalized_commits s"
  by (induction xs arbitrary: s) (auto simp: write_commit_def split_beta)

lemma fold_info_fields [simp]:
  "ms_blocks (fold write_commit_info xs s) = ms_blocks s"
  "ms_digests_by_authorities (fold write_commit_info xs s) = ms_digests_by_authorities s"
  "ms_commit_votes (fold write_commit_info xs s) = ms_commit_votes s"
  "ms_commits (fold write_commit_info xs s) = ms_commits s"
  "ms_commit_info (fold write_commit_info xs s) = fold (\<lambda>(r, i). fmupd (cr_index r, cr_digest r) i) xs (ms_commit_info s)"
  "ms_finalized_commits (fold write_commit_info xs s) = ms_finalized_commits s"
  by (induction xs arbitrary: s) (auto simp: write_commit_info_def split_beta)

lemma fold_finalized_fields [simp]:
  "ms_blocks (fold write_finalized_commit xs s) = ms_blocks s"
  "ms_digests_by_authorities (fold write_finalized_commit xs s) = ms_digests_by_authorities s"
  "ms_commit_votes (fold write_finalized_commit xs s) = ms_commit_votes s"
  "ms_commits (fold write_finalized_commit xs s) = ms_commits s"
  "ms_commit_info (fold write_finalized_commit xs s) = ms_commit_info s"
  "ms_finalized_commits (fold write_finalized_commit xs s) = fold (\<lambda>(r, t). fmupd (cr_index r, cr_digest r) t) xs (ms_finalized_commits s)"
  by (induction xs arbitrary: s) (auto simp: write_finalized_commit_def split_beta)

lemma fold_block_fields [simp]:
  "ms_blocks (fold write_block bs s) = fold (\<lambda>b. fmupd (br_key (reference b)) b) bs (ms_blocks s)"
  "ms_digests_by_authorities (fold write_block bs s) =
     fold (\<lambda>b. finsert (vb_author b, vb_round b, vb_digest b)) bs (ms_digests_by_authorities s)"
  "ms_commits (fold write_block bs s) = ms_commits s"
  "ms_commit_info (fold write_block bs s) = ms_commit_info s"
  "ms_finalized_commits (fold write_block bs s) = ms_finalized_commits s"
  by (induction bs arbitrary: s) simp_all

lemma store_write_simps [simp]:
  "ms_blocks (store_write wb s) = fold (\<lambda>b. fmupd (br_key (reference b)) b) (wb_blocks wb) (ms_blocks s)"
  "ms_digests_by_authorities (store_write wb s) =
     fold (\<lambda>b. finsert (vb_author b, vb_round b, vb_digest b)) (wb_blocks wb) (ms_digests_by_authorities s)"
  "ms_commits (store_write wb s) = fold (\<lambda>c. fmupd (tc_index c, tc_digest c) c) (wb_commits wb) (ms_commits s)"
  "ms_commit_info (store_write wb s) =
     fold (\<lambda>(r, i). fmupd (cr_index r, cr_digest r) i) (wb_commit_info wb) (ms_commit_info s)"
  "ms_finalized_commits (store_write wb s) =
     fold (\<lambda>(r, t). fmupd (cr_index r, cr_digest r) t) (wb_finalized_commits wb) (ms_finalized_commits s)"
  by (simp_all add: store_write_def Let_def)

section \<open>The contract of a block store\<close>

definition batch_lookup :: "verified_block list \<Rightarrow> block_ref \<Rightarrow> verified_block option" where
  "batch_lookup bs r = find (\<lambda>b. reference b = r) (rev bs)"

lemma batch_lookup_Nil [simp]: "batch_lookup [] r = None"
  by (simp add: batch_lookup_def)

lemma batch_lookup_SomeD: "batch_lookup bs r = Some b \<Longrightarrow> b \<in> set bs \<and> reference b = r"
  unfolding batch_lookup_def find_Some_iff by (metis length_rev nth_mem set_rev)

lemma batch_lookup_None: "batch_lookup bs r = None \<longleftrightarrow> r \<notin> reference ` set bs"
  by (auto simp: batch_lookup_def find_None_iff)

text \<open>No two blocks of a set share a reference: the digest in it is a hash of the block.\<close>

definition unique_refs :: "verified_block set \<Rightarrow> bool" where
  "unique_refs B \<longleftrightarrow> inj_on reference B"

lemma batch_lookup_unique:
  assumes "unique_refs (set bs)" "b \<in> set bs"
  shows "batch_lookup bs (reference b) = Some b"
proof -
  have "batch_lookup bs (reference b) \<noteq> None" using assms(2) by (simp add: batch_lookup_None)
  then obtain d where "batch_lookup bs (reference b) = Some d" by blast
  moreover from this have "d \<in> set bs" "reference d = reference b" by (auto dest: batch_lookup_SomeD)
  ultimately show ?thesis using assms by (auto simp: unique_refs_def dest: inj_onD)
qed

locale block_store =
  fixes inv :: "'s \<Rightarrow> bool"
    and empty :: 's
    and wr :: "write_batch \<Rightarrow> 's \<Rightarrow> 's"
    and lookup :: "'s \<Rightarrow> block_ref \<Rightarrow> verified_block option"
    and contains :: "'s \<Rightarrow> block_ref list \<Rightarrow> bool list"
    and scan :: "'s \<Rightarrow> authority_index \<Rightarrow> round \<Rightarrow> verified_block list option"
  assumes inv_empty: "inv empty"
    and lookup_empty: "lookup empty r = None"
    and inv_write: "inv s \<Longrightarrow> inv (wr wb s)"
    and lookup_write: "inv s \<Longrightarrow> lookup (wr wb s) r =
      (case batch_lookup (wb_blocks wb) r of Some b \<Rightarrow> Some b | None \<Rightarrow> lookup s r)"
    and lookup_ref: "inv s \<Longrightarrow> lookup s r = Some b \<Longrightarrow> reference b = r"
    and contains_ok: "inv s \<Longrightarrow> contains s rs = map (\<lambda>r. lookup s r \<noteq> None) rs"
    and scan_ok: "inv s \<Longrightarrow> \<exists>bs. scan s a r0 = Some bs \<and>
      set bs = {b. lookup s (reference b) = Some b \<and> vb_author b = a \<and> r0 \<le> vb_round b} \<and>
      sorted_wrt (\<lambda>x y. reference x < reference y) bs"
begin

lemma inv_writes: "inv s \<Longrightarrow> inv (fold wr wbs s)"
  by (induction wbs arbitrary: s) (auto simp: inv_write)

text \<open>Nothing written is lost: any number of batches later every block is found under its reference.\<close>

lemma lookup_writes:
  assumes "inv s" and "unique_refs ({b. lookup s (reference b) = Some b} \<union> (\<Union>wb\<in>set wbs. set (wb_blocks wb)))"
  shows "lookup (fold wr wbs s) (reference b) = Some b \<longleftrightarrow>
           lookup s (reference b) = Some b \<or> (\<exists>wb\<in>set wbs. b \<in> set (wb_blocks wb))"
  using assms
proof (induction wbs arbitrary: s)
  case (Cons wb wbs)
  let ?W = "\<lambda>s. {b. lookup s (reference b) = Some b}"
  have iff: "lookup (wr wb s) (reference d) = Some d \<longleftrightarrow>
      lookup s (reference d) = Some d \<or> d \<in> set (wb_blocks wb)" for d
  proof (cases "batch_lookup (wb_blocks wb) (reference d)")
    case None
    then have "d \<notin> set (wb_blocks wb)" by (auto simp: batch_lookup_None)
    with None Cons.prems(1) show ?thesis by (simp add: lookup_write)
  next
    case (Some e)
    then have e: "e \<in> set (wb_blocks wb)" "reference e = reference d"
      by (auto dest: batch_lookup_SomeD)
    have "d = e" if "lookup s (reference d) = Some d \<or> d \<in> set (wb_blocks wb)"
      using Cons.prems(2) that e by (auto simp: unique_refs_def dest: inj_onD)
    with Some e Cons.prems(1) show ?thesis by (auto simp: lookup_write)
  qed
  then have "?W (wr wb s) = ?W s \<union> set (wb_blocks wb)" by auto
  then have "unique_refs (?W (wr wb s) \<union> (\<Union>wb\<in>set wbs. set (wb_blocks wb)))"
    using Cons.prems(2) by (simp add: Un_assoc)
  from Cons.IH[OF inv_write[OF Cons.prems(1)] this] show ?case by (auto simp: iff)
qed simp

text \<open>A scan after any number of batches returns all blocks of the author from the start round.\<close>

lemma scan_writes:
  assumes "unique_refs (\<Union>wb\<in>set wbs. set (wb_blocks wb))"
  shows "\<exists>bs. scan (fold wr wbs empty) a r0 = Some bs \<and>
      set bs = {b. (\<exists>wb\<in>set wbs. b \<in> set (wb_blocks wb)) \<and> vb_author b = a \<and> r0 \<le> vb_round b} \<and>
      sorted_wrt (\<lambda>x y. reference x < reference y) bs"
  using scan_ok[OF inv_writes[OF inv_empty], of wbs a r0] lookup_writes[OF inv_empty, of wbs] assms
  by (simp add: lookup_empty)

end

section \<open>The in-memory store meets the contract\<close>

definition mem_lookup :: "mem_store \<Rightarrow> block_ref \<Rightarrow> verified_block option" where
  "mem_lookup s r = fmlookup (ms_blocks s) (br_key r)"

text \<open>The key of a block is its reference, and the secondary index holds the same references.\<close>

definition mem_inv :: "mem_store \<Rightarrow> bool" where
  "mem_inv s \<longleftrightarrow>
     (\<forall>k b. fmlookup (ms_blocks s) k = Some b \<longrightarrow> k = br_key (reference b)) \<and>
     (\<forall>a r d. (a, r, d) |\<in>| ms_digests_by_authorities s \<longleftrightarrow> (r, a, d) |\<in>| fmdom (ms_blocks s))"

lemma mem_inv_new: "mem_inv mem_store_new"
  by (simp add: mem_inv_def mem_store_new_def)

lemma mem_inv_write_block: "mem_inv s \<Longrightarrow> mem_inv (write_block b s)"
  unfolding mem_inv_def by (auto simp: br_key_def)

lemma mem_inv_cong:
  "ms_blocks s' = ms_blocks s \<Longrightarrow> ms_digests_by_authorities s' = ms_digests_by_authorities s \<Longrightarrow>
   mem_inv s' = mem_inv s"
  by (simp add: mem_inv_def)

lemma mem_inv_write: "mem_inv s \<Longrightarrow> mem_inv (store_write wb s)"
proof -
  assume "mem_inv s"
  then have "mem_inv (fold write_block bs s)" for bs
    by (induction bs arbitrary: s) (auto simp: mem_inv_write_block)
  then show ?thesis
    by (subst mem_inv_cong[of _ "fold write_block (wb_blocks wb) s"]) simp_all
qed

lemma fmlookup_fold_upd:
  "fmlookup (fold (\<lambda>b. fmupd (br_key (reference b)) b) bs m) (br_key r) =
     (case batch_lookup bs r of Some b \<Rightarrow> Some b | None \<Rightarrow> fmlookup m (br_key r))"
  by (induction bs rule: rev_induct) (auto simp: batch_lookup_def)

lemma store_read_blocks_lookup: "store_read_blocks s rs = map (mem_lookup s) rs"
  by (simp add: store_read_blocks_def mem_lookup_def)

lemma mem_lookup_write:
  "mem_lookup (store_write wb s) r =
     (case batch_lookup (wb_blocks wb) r of Some b \<Rightarrow> Some b | None \<Rightarrow> mem_lookup s r)"
  unfolding mem_lookup_def by (simp add: fmlookup_fold_upd)

lemma mem_lookup_ref: "mem_inv s \<Longrightarrow> mem_lookup s r = Some b \<Longrightarrow> reference b = r"
  unfolding mem_inv_def mem_lookup_def by (metis br_key_eq_iff)

lemma mem_contains: "store_contains_blocks s rs = map (\<lambda>r. mem_lookup s r \<noteq> None) rs"
  by (simp add: store_contains_blocks_def mem_lookup_def fmlookup_dom_iff)

text \<open>The references a scan visits: the index entries of the author, in round order.\<close>

definition author_refs :: "mem_store \<Rightarrow> authority_index \<Rightarrow> round \<Rightarrow> block_ref list" where
  "author_refs s a r0 = map (\<lambda>(a, r, d). BlockRef r a d)
     (fs_range (\<lambda>k. (a, r0, digest_min) \<le> k \<and> fst k = a) (ms_digests_by_authorities s))"

lemma set_author_refs:
  assumes "mem_inv s"
  shows "set (author_refs s a r0) = {r. mem_lookup s r \<noteq> None \<and> br_author r = a \<and> r0 \<le> br_round r}"
proof -
  have "r \<in> set (author_refs s a r0) \<longleftrightarrow>
      mem_lookup s r \<noteq> None \<and> br_author r = a \<and> r0 \<le> br_round r" for r
    using assms
    by (cases r) (force simp: author_refs_def mem_inv_def mem_lookup_def br_key_def fmlookup_dom_iff
        image_iff)
  then show ?thesis by blast
qed

lemma sorted_author_refs: "sorted_wrt (<) (author_refs s a r0)"
  unfolding author_refs_def sorted_wrt_map
  by (rule sorted_wrt_mono_rel[OF _ sorted_fs_range]) (auto simp: block_ref_less_iff)

lemma scan_blocks_ok:
  assumes "mem_inv s"
  shows "\<exists>bs. scan_blocks_by_author s a r0 = Some bs \<and>
      set bs = {b. mem_lookup s (reference b) = Some b \<and> vb_author b = a \<and> r0 \<le> vb_round b} \<and>
      sorted_wrt (\<lambda>x y. reference x < reference y) bs"
proof -
  let ?rs = "author_refs s a r0"
  define bs where "bs = map (\<lambda>r. the (mem_lookup s r)) ?rs"
  have look: "mem_lookup s r = Some (the (mem_lookup s r))" "reference (the (mem_lookup s r)) = r"
    if "r \<in> set ?rs" for r
    using that set_author_refs[OF assms, of a r0] mem_lookup_ref[OF assms] by auto
  have "scan_blocks_by_author s a r0 = try_map id (map (mem_lookup s) ?rs)"
    by (simp add: scan_blocks_by_author_def author_refs_def store_read_blocks_lookup)
  also have "\<dots> = Some bs"
    using look(1) by (simp add: try_map_Some_iff bs_def)
  finally have "scan_blocks_by_author s a r0 = Some bs" .
  moreover have "map reference bs = ?rs" using look(2) by (auto simp: bs_def intro: map_idI)
  then have "sorted_wrt (\<lambda>x y. reference x < reference y) bs"
    using sorted_author_refs[of s a r0] by (metis sorted_wrt_map)
  moreover have "set bs = {b. mem_lookup s (reference b) = Some b \<and> vb_author b = a \<and> r0 \<le> vb_round b}"
    using look set_author_refs[OF assms, of a r0] by (force simp: bs_def image_iff)
  ultimately show ?thesis by blast
qed

interpretation ms: block_store mem_inv mem_store_new store_write mem_lookup store_contains_blocks
  scan_blocks_by_author
  by unfold_locales
    (auto simp: mem_inv_new mem_inv_write mem_lookup_write mem_lookup_ref mem_contains scan_blocks_ok,
     simp add: mem_lookup_def mem_store_new_def)

section \<open>Reading back what was written\<close>

text \<open>The last entry written under a key wins.\<close>

lemma fmlookup_fold_refs:
  "fmlookup (fold (\<lambda>(r, x). fmupd (cr_index r, cr_digest r) x) xs m) (cr_index r, cr_digest r) =
     (case map_of (rev xs) r of Some x \<Rightarrow> Some x | None \<Rightarrow> fmlookup m (cr_index r, cr_digest r))"
proof (induction xs rule: rev_induct)
  case (snoc x xs)
  obtain q y where x: "x = (q, y)" by (cases x)
  have "cr_index q = cr_index r \<and> cr_digest q = cr_digest r \<longleftrightarrow> q = r" by (cases q; cases r) auto
  then show ?case using snoc by (auto simp: x split: option.splits)
qed simp

lemma commits_written:
  "fmlookup (ms_commits (store_write wb s)) (i, d) =
     (case find (\<lambda>c. tc_index c = i \<and> tc_digest c = d) (rev (wb_commits wb)) of
        Some c \<Rightarrow> Some c | None \<Rightarrow> fmlookup (ms_commits s) (i, d))"
proof -
  have "fmlookup (fold (\<lambda>c. fmupd (tc_index c, tc_digest c) c) cs m) (i, d) =
      (case find (\<lambda>c. tc_index c = i \<and> tc_digest c = d) (rev cs) of Some c \<Rightarrow> Some c | None \<Rightarrow> fmlookup m (i, d))" for cs m
    by (induction cs rule: rev_induct) (auto split: option.split)
  then show ?thesis by simp
qed

lemma commit_info_written:
  "fmlookup (ms_commit_info (store_write wb s)) (cr_index r, cr_digest r) =
     (case map_of (rev (wb_commit_info wb)) r of Some x \<Rightarrow> Some x | None \<Rightarrow> fmlookup (ms_commit_info s) (cr_index r, cr_digest r))"
  by (simp add: fmlookup_fold_refs)

lemma votes_written:
  "set (read_commit_votes (store_write wb s) i) = set (read_commit_votes s i) \<union>
     {reference b |b. b \<in> set (wb_blocks wb) \<and> (\<exists>v \<in> set (block_commit_votes (inner b)). cr_index v = i)}"
proof -
  have fins: "x |\<in>| fold (\<lambda>v. finsert (f v)) vs A \<longleftrightarrow> x |\<in>| A \<or> x \<in> f ` set vs" for x f vs and A :: "(nat \<times> digest \<times> block_ref) fset"
    by (induction vs arbitrary: A) auto
  have "x |\<in>| ms_commit_votes (fold write_block bs t) \<longleftrightarrow> x |\<in>| ms_commit_votes t \<or>
      (\<exists>b \<in> set bs. x \<in> (\<lambda>v. (cr_index v, cr_digest v, reference b)) ` set (block_commit_votes (inner b)))" for x bs t
    by (induction bs arbitrary: t) (auto simp: write_block_def Let_def fins)
  then have "x |\<in>| ms_commit_votes (store_write wb s) \<longleftrightarrow> x |\<in>| ms_commit_votes s \<or>
      (\<exists>b \<in> set (wb_blocks wb). x \<in> (\<lambda>v. (cr_index v, cr_digest v, reference b)) ` set (block_commit_votes (inner b)))" for x
    by (simp add: store_write_def Let_def)
  then show ?thesis unfolding read_commit_votes_def by (force simp: image_iff)
qed

lemma rejected_written:
  "read_rejected_transactions (store_write wb s) r =
     (case map_of (rev (wb_finalized_commits wb)) r of Some m \<Rightarrow> Some m | None \<Rightarrow> read_rejected_transactions s r)"
  by (simp add: read_rejected_transactions_def fmlookup_fold_refs split: option.split)

lemma rejected_writes:
  "read_rejected_transactions (fold store_write wbs mem_store_new) r = map_of (rev (concat (map wb_finalized_commits wbs))) r"
proof (induction wbs rule: rev_induct)
  case Nil
  then show ?case by (simp add: read_rejected_transactions_def mem_store_new_def)
next
  case (snoc wb wbs)
  then show ?case by (simp add: rejected_written map_add_def split: option.split)
qed

lemma try_map_id_None: "try_map id xs = None \<longleftrightarrow> None \<in> set xs"
proof (induction xs)
  case (Cons x xs)
  then show ?case by (cases x; cases "try_map id xs") auto
qed simp

lemma read_written:
  assumes "unique_refs (\<Union>wb\<in>set wbs. set (wb_blocks wb))"
  shows "mem_lookup (fold store_write wbs mem_store_new) r = Some b \<longleftrightarrow> (\<exists>wb\<in>set wbs. b \<in> set (wb_blocks wb)) \<and> reference b = r"
  using ms.lookup_writes[OF ms.inv_empty, of wbs b] assms ms.lookup_ref[OF ms.inv_writes[OF ms.inv_empty], of wbs r b]
  by (auto simp: ms.lookup_empty)

text \<open>The references of an author whose round meets a condition, in ascending order.\<close>

definition last_refs :: "mem_store \<Rightarrow> authority_index \<Rightarrow> (round \<Rightarrow> bool) \<Rightarrow> block_ref list" where
  "last_refs s a P = map (\<lambda>(a, r, d). BlockRef r a d) (fs_range (\<lambda>(a', r, d). a' = a \<and> P r) (ms_digests_by_authorities s))"

lemma set_last_refs:
  assumes "mem_inv s"
  shows "set (last_refs s a P) = {r. mem_lookup s r \<noteq> None \<and> br_author r = a \<and> P (br_round r)}"
proof -
  have "r \<in> set (last_refs s a P) \<longleftrightarrow> mem_lookup s r \<noteq> None \<and> br_author r = a \<and> P (br_round r)" for r
    using assms
    by (cases r) (force simp: last_refs_def mem_inv_def mem_lookup_def br_key_def fmlookup_dom_iff image_iff)
  then show ?thesis by blast
qed

lemma sorted_last_refs: "sorted_wrt (<) (last_refs s a P)"
  unfolding last_refs_def sorted_wrt_map
  by (rule sorted_wrt_mono_rel[OF _ sorted_fs_range]) (auto simp: block_ref_less_iff)

lemma try_map_zip_snd: "length refs \<ge> length rs \<Longrightarrow> try_map (\<lambda>(r, b). b) (zip refs rs) = try_map id rs"
proof (induction rs arbitrary: refs)
  case (Cons x rs)
  then show ?case by (cases refs) simp_all
qed simp

lemma scan_last_ok:
  assumes inv: "mem_inv s"
  shows "\<exists>bs. set bs = {b. mem_lookup s (reference b) = Some b \<and> vb_author b = a \<and>
        (case before of None \<Rightarrow> True | Some m \<Rightarrow> vb_round b \<le> m)} \<and>
      sorted_wrt (\<lambda>x y. reference x < reference y) bs \<and>
      scan_last_blocks_by_author s a n before =
        Some (take (vd_first_slice (min n (length bs))) (drop (length bs - n) bs))"
proof -
  define P where "P r \<longleftrightarrow> (case before of None \<Rightarrow> True | Some m \<Rightarrow> r \<le> m)" for r :: round
  let ?rs = "last_refs s a P"
  define bs where "bs = map (\<lambda>r. the (mem_lookup s r)) ?rs"
  have look: "mem_lookup s r = Some (the (mem_lookup s r))" "reference (the (mem_lookup s r)) = r" if "r \<in> set ?rs" for r
    using that set_last_refs[OF inv, of a P] mem_lookup_ref[OF inv] by auto
  define k where "k = vd_first_slice (min n (length bs))"
  have len: "length ?rs = length bs" by (simp add: bs_def)
  have refs: "map (\<lambda>(a, r, d). BlockRef r a d) (rev (take n (rev (fs_range (\<lambda>(a', r, d). a' = a \<and> P r) (ms_digests_by_authorities s))))) = drop (length bs - n) ?rs"
    unfolding len[symmetric] last_refs_def by (simp only: take_rev rev_rev_ident length_map drop_map)
  have take: "length (drop (length bs - n) ?rs) = min n (length bs)" by (simp add: len min_def)
  have "scan_last_blocks_by_author s a n before = try_map id (map (mem_lookup s) (take k (drop (length bs - n) ?rs)))"
    unfolding scan_last_blocks_by_author_def Let_def P_def[symmetric] refs k_def store_read_blocks_lookup take
    by (rule try_map_zip_snd) (simp only: length_map length_take min.cobounded1)
  also have "\<dots> = Some (take k (drop (length bs - n) bs))"
    using look(1) set_take_subset set_drop_subset
    by (fastforce simp: try_map_Some_iff bs_def take_map drop_map dest!: in_set_takeD in_set_dropD)
  finally have "scan_last_blocks_by_author s a n before = Some (take k (drop (length bs - n) bs))" .
  moreover have "map reference bs = ?rs" using look(2) by (auto simp: bs_def intro: map_idI)
  then have "sorted_wrt (\<lambda>x y. reference x < reference y) bs"
    using sorted_last_refs[of s a P] by (metis sorted_wrt_map)
  moreover have "set bs = {b. mem_lookup s (reference b) = Some b \<and> vb_author b = a \<and> P (vb_round b)}"
    using look set_last_refs[OF inv, of a P] by (force simp: bs_def image_iff)
  ultimately show ?thesis unfolding k_def P_def by blast
qed

lemma vd_first_slice_small: "k \<le> 4 \<Longrightarrow> vd_first_slice k = k" and vd_first_slice_medium: "4 < k \<Longrightarrow> k \<le> 16 \<Longrightarrow> vd_first_slice k = k - 4"
proof -
  have all: "list_all (\<lambda>k. vd_first_slice k = (if k \<le> 4 then k else k - 4)) [0..<17]" by code_simp
  then have "vd_first_slice k = (if k \<le> 4 then k else k - 4)" if "k < 17" for k
    using that by (simp only: list_all_iff) (auto simp del: upt_rec_numeral)
  then show "k \<le> 4 \<Longrightarrow> vd_first_slice k = k" "4 < k \<Longrightarrow> k \<le> 16 \<Longrightarrow> vd_first_slice k = k - 4" by auto
qed

section \<open>Properties\<close>

text \<open>
  Durability of the store: after any sequence of write batches (with no two blocks sharing a
  reference), reading a list of references returns exactly the blocks written so far, membership
  agrees with reading, and scanning an author from a round returns, without a panic, all and only
  the blocks of that author from that round on, in ascending reference order.
\<close>

theorem store_durable:
  assumes "unique_refs (\<Union>wb\<in>set wbs. set (wb_blocks wb))"
  shows "\<exists>bs. (\<forall>b. store_read_blocks (fold store_write wbs mem_store_new) [reference b] = [Some b] \<longleftrightarrow>
             (\<exists>wb\<in>set wbs. b \<in> set (wb_blocks wb))) \<and>
         store_contains_blocks (fold store_write wbs mem_store_new) rs =
           map (\<lambda>r. r \<noteq> None) (store_read_blocks (fold store_write wbs mem_store_new) rs) \<and>
         scan_blocks_by_author (fold store_write wbs mem_store_new) a r0 = Some bs \<and>
         set bs = {b. (\<exists>wb\<in>set wbs. b \<in> set (wb_blocks wb)) \<and> vb_author b = a \<and> r0 \<le> vb_round b} \<and>
         sorted_wrt (\<lambda>x y. reference x < reference y) bs"
proof -
  have "mem_lookup (fold store_write wbs mem_store_new) (reference b) = Some b \<longleftrightarrow>
      (\<exists>wb\<in>set wbs. b \<in> set (wb_blocks wb))" for b
    using ms.lookup_writes[OF ms.inv_empty, of wbs b] assms by (simp add: ms.lookup_empty)
  with ms.scan_writes[OF assms, of a r0] show ?thesis
    by (simp add: store_read_blocks_lookup mem_contains)
qed

definition example_batch :: "verified_block list \<Rightarrow> write_batch" where
  "example_batch bs = \<lparr>wb_blocks = bs, wb_commits = [], wb_commit_info = [], wb_finalized_commits = []\<rparr>"

definition example_batches :: "write_batch list" where
  "example_batches = [example_batch [mk_block 1 0 5 0 [], mk_block 1 1 6 0 []],
     example_batch [mk_block 2 0 7 0 [BlockRef 1 0 5]]]"

theorem store_durable_witness:
  "\<exists>bs. (\<forall>b. store_read_blocks (fold store_write example_batches mem_store_new) [reference b] = [Some b] \<longleftrightarrow>
             (\<exists>wb\<in>set example_batches. b \<in> set (wb_blocks wb))) \<and>
         store_contains_blocks (fold store_write example_batches mem_store_new) [BlockRef 1 1 6] =
           map (\<lambda>r. r \<noteq> None)
             (store_read_blocks (fold store_write example_batches mem_store_new) [BlockRef 1 1 6]) \<and>
         scan_blocks_by_author (fold store_write example_batches mem_store_new) 0 1 = Some bs \<and>
         set bs = {b. (\<exists>wb\<in>set example_batches. b \<in> set (wb_blocks wb)) \<and> vb_author b = 0 \<and> 1 \<le> vb_round b} \<and>
         sorted_wrt (\<lambda>x y. reference x < reference y) bs"
  by (rule store_durable) (auto simp: example_batches_def example_batch_def unique_refs_def inj_on_def)

text \<open>
  C20. A commit is turned back into its sub-dag exactly. After any write batches (with no two blocks
  sharing a reference), loading a commit panics exactly when a block it lists was never written or
  its leader is not among its blocks. Otherwise it returns the written blocks in the order of the
  commit, with the commit's leader, timestamp and reference and the given scores. The sub-dag counts
  as decided locally exactly when rejected transactions were written for the commit, and then it
  carries the ones written last.
\<close>

theorem load_subdag_roundtrip:
  assumes "unique_refs W" and "W = (\<Union>wb\<in>set wbs. set (wb_blocks wb))" and "s = fold store_write wbs mem_store_new"
  shows "case load_committed_subdag_from_store s c scores of
      None \<Rightarrow> \<not> set (tc_blocks c) \<subseteq> reference ` W \<or> tc_leader c \<notin> set (tc_blocks c)
    | Some sd \<Rightarrow> tc_leader c \<in> set (tc_blocks c) \<and> set (sd_blocks sd) \<subseteq> W \<and> map reference (sd_blocks sd) = tc_blocks c \<and>
        sd_leader sd = tc_leader c \<and> sd_timestamp_ms sd = tc_timestamp_ms c \<and> sd_commit_ref sd = tc_reference c \<and>
        sd_reputation_scores_desc sd = scores \<and>
        (case map_of (rev (concat (map wb_finalized_commits wbs))) (tc_reference c) of
           None \<Rightarrow> \<not> sd_decided_with_local_blocks sd \<and> \<not> sd_recovered_rejected_transactions sd \<and>
             sd_rejected_transactions_by_block sd = fmempty
         | Some rejected \<Rightarrow> sd_decided_with_local_blocks sd \<and> sd_recovered_rejected_transactions sd \<and>
             sd_rejected_transactions_by_block sd = rejected)"
proof -
  have look: "mem_lookup s r = Some b \<longleftrightarrow> b \<in> W \<and> reference b = r" for r b
    using read_written[of wbs r b] assms by auto
  have rej: "read_rejected_transactions s r = map_of (rev (concat (map wb_finalized_commits wbs))) r" for r
    unfolding assms(3) by (rule rejected_writes)
  show ?thesis
  proof (cases "try_map id (store_read_blocks s (tc_blocks c))")
    case None
    then obtain r where "r \<in> set (tc_blocks c)" "mem_lookup s r = None"
      by (auto simp: try_map_id_None store_read_blocks_lookup)
    then have "\<not> set (tc_blocks c) \<subseteq> reference ` W" using look by (metis imageE option.distinct(1) subsetD)
    then show ?thesis using None by (simp add: load_committed_subdag_from_store_def)
  next
    case (Some bs)
    then have m: "map (mem_lookup s) (tc_blocks c) = map Some bs" by (simp add: try_map_Some_iff store_read_blocks_lookup)
    have refs: "map reference bs = tc_blocks c"
    proof (rule nth_equalityI)
      show "length (map reference bs) = length (tc_blocks c)" using arg_cong[OF m, of length] by simp
      then show "map reference bs ! j = tc_blocks c ! j" if "j < length (map reference bs)" for j
        using arg_cong[OF m, of "\<lambda>ys. ys ! j"] that look by simp
    qed
    moreover have "set bs \<subseteq> W"
    proof
      fix b assume "b \<in> set bs"
      then have "Some b \<in> set (map (mem_lookup s) (tc_blocks c))" unfolding m by simp
      then show "b \<in> W" using look by (auto dest!: sym[of "Some b"])
    qed
    moreover have "(\<exists>b \<in> set bs. reference b = tc_leader c) \<longleftrightarrow> tc_leader c \<in> set (tc_blocks c)"
      unfolding refs[symmetric] by force
    ultimately show ?thesis using Some
      by (auto simp: load_committed_subdag_from_store_def bind_rust_assert committed_sub_dag_new_def Let_def rej split: option.splits)
  qed
qed

definition example_commit :: trusted_commit where
  "example_commit = new_trusted (\<lambda>_. 3) (commit_new 1 0 9 (BlockRef 2 0 7)
     (map reference [mk_block 1 0 5 0 [], mk_block 1 1 6 0 [], mk_block 2 0 7 0 [BlockRef 1 0 5]])) []"

theorem load_subdag_roundtrip_witness:
  "\<exists>sd. load_committed_subdag_from_store
       (fold store_write (example_batches @ [(example_batch [])\<lparr>wb_finalized_commits := [(tc_reference example_commit, fmempty)]\<rparr>]) mem_store_new)
       example_commit [] = Some sd \<and>
     map reference (sd_blocks sd) = [BlockRef 1 0 5, BlockRef 1 1 6, BlockRef 2 0 7] \<and>
     sd_leader sd = BlockRef 2 0 7 \<and> sd_timestamp_ms sd = 9 \<and> sd_decided_with_local_blocks sd"
proof -
  let ?wbs = "example_batches @ [(example_batch [])\<lparr>wb_finalized_commits := [(tc_reference example_commit, fmempty)]\<rparr>]"
  let ?W = "\<Union>wb\<in>set ?wbs. set (wb_blocks wb)"
  have W: "?W = {mk_block 1 0 5 0 [], mk_block 1 1 6 0 [], mk_block 2 0 7 0 [BlockRef 1 0 5]}"
    by (auto simp: example_batches_def example_batch_def)
  have u: "unique_refs ?W" unfolding W unique_refs_def inj_on_def by auto
  have c: "tc_blocks example_commit = [BlockRef 1 0 5, BlockRef 1 1 6, BlockRef 2 0 7]" "tc_leader example_commit = BlockRef 2 0 7"
      "tc_timestamp_ms example_commit = 9"
    by (simp_all add: example_commit_def tc_blocks_def tc_leader_def tc_timestamp_ms_def)
  have sub: "set (tc_blocks example_commit) \<subseteq> reference ` ?W" unfolding W c by simp
  have f: "map_of (rev (concat (map wb_finalized_commits ?wbs))) (tc_reference example_commit) = Some fmempty"
    by (simp add: example_batches_def example_batch_def)
  show ?thesis
    using load_subdag_roundtrip[OF u refl refl, of example_commit "[]"] sub c f
    by (cases "load_committed_subdag_from_store (fold store_write ?wbs mem_store_new) example_commit []") simp_all
qed

text \<open>
  C26. \<open>scan_last_blocks_by_author\<close> loses blocks. After any write batches it never panics, but it reads
  only the first slice of the ring buffer that collected the references. When the \<open>k\<close> newest blocks of
  the author (up to the given round) are asked for, the answer is complete for \<open>k\<close> up to 4; for \<open>k\<close>
  from 5 to 16 the four newest of them are missing.
\<close>

theorem scan_last_truncates:
  assumes "unique_refs W" and "W = (\<Union>wb\<in>set wbs. set (wb_blocks wb))" and "s = fold store_write wbs mem_store_new"
  shows "\<exists>bs. set bs = {b \<in> W. vb_author b = a \<and> (case before of None \<Rightarrow> True | Some m \<Rightarrow> vb_round b \<le> m)} \<and>
     sorted_wrt (\<lambda>x y. reference x < reference y) bs \<and>
     (let k = min n (length bs); newest = drop (length bs - k) bs in
      scan_last_blocks_by_author s a n before = Some (take (vd_first_slice k) newest) \<and>
      (k \<le> 4 \<longrightarrow> scan_last_blocks_by_author s a n before = Some newest) \<and>
      (4 < k \<and> k \<le> 16 \<longrightarrow> scan_last_blocks_by_author s a n before = Some (take (k - 4) newest)))"
proof -
  have "mem_inv s" unfolding assms(3) by (rule ms.inv_writes[OF ms.inv_empty])
  from scan_last_ok[OF this, of a before n] obtain bs where
    bs: "set bs = {b. mem_lookup s (reference b) = Some b \<and> vb_author b = a \<and> (case before of None \<Rightarrow> True | Some m \<Rightarrow> vb_round b \<le> m)}"
      "sorted_wrt (\<lambda>x y. reference x < reference y) bs"
      "scan_last_blocks_by_author s a n before = Some (take (vd_first_slice (min n (length bs))) (drop (length bs - n) bs))" by blast
  have "mem_lookup s (reference b) = Some b \<longleftrightarrow> b \<in> W" for b using read_written[of wbs "reference b" b] assms by auto
  then have set: "set bs = {b \<in> W. vb_author b = a \<and> (case before of None \<Rightarrow> True | Some m \<Rightarrow> vb_round b \<le> m)}" using bs(1) by simp
  have drop: "drop (length bs - n) bs = drop (length bs - min n (length bs)) bs" by (simp add: min_def)
  show ?thesis
    by (rule exI[of _ bs]) (use set bs(2,3) vd_first_slice_small vd_first_slice_medium in \<open>auto simp: Let_def drop\<close>)
qed

definition five_blocks :: "verified_block list" where
  "five_blocks = [mk_block 1 0 11 0 [], mk_block 2 0 12 0 [], mk_block 3 0 13 0 [],
     mk_block 4 0 14 0 [], mk_block 5 0 15 0 []]"

theorem scan_last_truncates_witness:
  "scan_last_blocks_by_author (fold store_write [example_batch five_blocks] mem_store_new) 0 5 None = Some [mk_block 1 0 11 0 []]"
proof -
  let ?W = "\<Union>wb\<in>set [example_batch five_blocks]. set (wb_blocks wb)"
  have W: "?W = set five_blocks" by (simp add: example_batch_def)
  have u: "unique_refs ?W" unfolding W by (auto simp: five_blocks_def unique_refs_def inj_on_def)
  obtain bs where bs: "set bs = {b \<in> ?W. vb_author b = 0 \<and> (case None of None \<Rightarrow> True | Some m \<Rightarrow> vb_round b \<le> m)}"
      "sorted_wrt (\<lambda>x y. reference x < reference y) bs"
      "4 < min 5 (length bs) \<and> min 5 (length bs) \<le> 16 \<longrightarrow>
        scan_last_blocks_by_author (fold store_write [example_batch five_blocks] mem_store_new) 0 5 None =
          Some (take (min 5 (length bs) - 4) (drop (length bs - min 5 (length bs)) bs))"
    using scan_last_truncates[OF u refl refl, of 0 None 5] unfolding Let_def by blast
  have sorted: "sorted_wrt (\<lambda>x y. reference x < reference y) five_blocks" by (simp add: five_blocks_def block_ref_less_iff)
  have "\<forall>b \<in> set five_blocks. vb_author b = 0" by (simp add: five_blocks_def)
  then have same: "set bs = set five_blocks" using bs(1) unfolding W by auto
  then have "map reference bs = map reference five_blocks"
    using bs(2) sorted by (intro strict_sorted_equal) (simp_all add: sorted_wrt_map)
  moreover have "inj_on reference (set bs \<union> set five_blocks)" using u[unfolded W] same by (simp add: unique_refs_def)
  ultimately have "bs = five_blocks" by (rule map_inj_on)
  then show ?thesis using bs(3) by (simp add: five_blocks_def)
qed

end
