(* ===== verification/DagState.thy ===== *)
theory DagState
  imports ThresholdClock LeaderScoring Store
begin

text \<open>
  The DAG state of \<open>core/src/dag_state.rs\<close>: the genesis blocks, the cache of recent blocks with its
  index by authority, the threshold clock, the last commit, the scoring sub-dag and the buffers that
  \<open>flush\<close> writes to the store. Every operation takes the state and returns it updated; \<open>None\<close> is a
  panic. The store is the in-memory store, \<open>Instant::now()\<close> is the argument \<open>now\<close>.
\<close>

record block_info =
  bi_block :: verified_block
  bi_committed :: bool
  bi_included :: bool

record dag_state =
  ds_context :: node_context
  ds_genesis :: "(block_ref, verified_block) fmap"
  ds_recent_blocks :: "(block_ref, block_info) fmap"
  ds_recent_refs :: "block_ref fset list"
  ds_threshold_clock :: threshold_clock
  ds_evicted_rounds :: "round list"
  ds_highest_accepted_round :: round
  ds_last_commit :: "trusted_commit option"
  ds_last_commit_time :: "nat option"
  ds_last_committed_rounds :: "round list"
  ds_scoring_subdag :: scoring_subdag
  ds_pending_commit_votes :: "commit_vote list"
  ds_blocks_to_write :: "verified_block list"
  ds_commits_to_write :: "trusted_commit list"
  ds_commit_info_to_write :: "(commit_ref \<times> commit_info) list"
  ds_finalized_commits_to_write :: "(commit_ref \<times> rejected_map) list"
  ds_store :: mem_store
  ds_cached_rounds :: round

abbreviation ds_committee :: "dag_state \<Rightarrow> committee" where
  "ds_committee ds \<equiv> ctx_committee (ds_context ds)"

abbreviation ds_own_index :: "dag_state \<Rightarrow> authority_index" where
  "ds_own_index ds \<equiv> ctx_own_index (ds_context ds)"

definition block_info_new :: "verified_block \<Rightarrow> block_info" where
  "block_info_new b = \<lparr>bi_block = b, bi_committed = False, bi_included = False\<rparr>"

section \<open>The last commit\<close>

definition last_commit_index :: "dag_state \<Rightarrow> commit_index" where
  "last_commit_index ds = (case ds_last_commit ds of Some c \<Rightarrow> tc_index c | None \<Rightarrow> 0)"

definition last_commit_digest :: "dag_state \<Rightarrow> digest" where
  "last_commit_digest ds = (case ds_last_commit ds of Some c \<Rightarrow> tc_digest c | None \<Rightarrow> digest_min)"

definition last_commit_timestamp_ms :: "dag_state \<Rightarrow> block_timestamp_ms" where
  "last_commit_timestamp_ms ds =
     (case ds_last_commit ds of Some c \<Rightarrow> tc_timestamp_ms c | None \<Rightarrow> 0)"

definition last_commit_leader :: "dag_state \<Rightarrow> slot option" where
  "last_commit_leader ds =
     (case ds_last_commit ds of
        Some c \<Rightarrow> Some (slot_of_ref (tc_leader c))
      | None \<Rightarrow> map_option slot_of_ref (fs_first (fmdom (ds_genesis ds))))"

definition last_commit_round :: "dag_state \<Rightarrow> round" where
  "last_commit_round ds =
     (case ds_last_commit ds of Some c \<Rightarrow> br_round (tc_leader c) | None \<Rightarrow> 0)"

definition calculate_gc_round :: "dag_state \<Rightarrow> round \<Rightarrow> round" where
  "calculate_gc_round ds cround = cround - gc_depth (ctx_protocol_config (ds_context ds))"

definition gc_round :: "dag_state \<Rightarrow> round" where
  "gc_round ds = calculate_gc_round ds (last_commit_round ds)"

section \<open>Reads\<close>

text \<open>
  \<open>get_blocks\<close> answers from the genesis blocks and the cache first and remembers the positions it
  could not fill; one read of the store fills those.
\<close>

definition get_blocks_cached :: "dag_state \<Rightarrow> nat \<times> block_ref
    \<Rightarrow> verified_block option list \<times> (nat \<times> block_ref) list
    \<Rightarrow> verified_block option list \<times> (nat \<times> block_ref) list" where
  "get_blocks_cached ds = (\<lambda>(i, r) (blocks, missing).
     if br_round r = GENESIS_ROUND then
       (case fmlookup (ds_genesis ds) r of
          Some b \<Rightarrow> (blocks[i := Some b], missing)
        | None \<Rightarrow> (blocks, missing))
     else
       (case fmlookup (ds_recent_blocks ds) r of
          Some bi \<Rightarrow> (blocks[i := Some (bi_block bi)], missing)
        | None \<Rightarrow> (blocks, missing @ [(i, r)])))"

definition get_blocks :: "dag_state \<Rightarrow> block_ref list \<Rightarrow> verified_block option list" where
  "get_blocks ds refs =
     (let (blocks, missing) = fold (get_blocks_cached ds) (List.enumerate 0 refs)
            (replicate (length refs) None, [])
      in if missing = [] then blocks
         else fold (\<lambda>((i, _), res) blocks. blocks[i := res])
                (zip missing (store_read_blocks (ds_store ds) (map snd missing))) blocks)"

definition get_block :: "dag_state \<Rightarrow> block_ref \<Rightarrow> verified_block option option" where
  "get_block ds r = (case get_blocks ds [r] of [] \<Rightarrow> None | bs \<Rightarrow> Some (last bs))"

definition get_uncommitted_blocks_at_slot :: "dag_state \<Rightarrow> slot \<Rightarrow> verified_block list" where
  "get_uncommitted_blocks_at_slot ds s =
     map (bi_block \<circ> snd)
       (fm_range (\<lambda>k. BlockRef (slot_round s) (slot_authority s) digest_min \<le> k \<and>
                      k \<le> BlockRef (slot_round s) (slot_authority s) digest_max)
          (ds_recent_blocks ds))"

definition get_uncommitted_blocks_at_round :: "dag_state \<Rightarrow> round \<Rightarrow> verified_block list option" where
  "get_uncommitted_blocks_at_round ds r =
     (if r \<le> last_commit_round ds then None
      else Some (map (bi_block \<circ> snd)
        (fm_range (\<lambda>k. BlockRef r 0 digest_min \<le> k \<and> k < BlockRef (r + 1) 0 digest_min)
          (ds_recent_blocks ds))))"

text \<open>
  The traversal of \<open>ancestors_at_round\<close> pops the highest reference until none is above the round.
  It ends because references point to lower rounds; that is a property of the blocks, so the loop is
  partial here and shown to return in \<open>DagTraversal\<close>.
\<close>

partial_function (option) linked_loop :: "dag_state \<Rightarrow> round \<Rightarrow> block_ref fset \<Rightarrow> block_ref fset option"
  where
  "linked_loop ds earlier_round linked =
     (case fs_last linked of
        None \<Rightarrow> Some linked
      | Some r \<Rightarrow>
          if br_round r \<le> earlier_round then Some linked
          else (case get_block ds r of
                  Some (Some b) \<Rightarrow> linked_loop ds earlier_round
                    ((linked |-| {|r|}) |\<union>| fset_of_list (vb_ancestors b))
                | _ \<Rightarrow> None))"

definition ancestors_at_round :: "dag_state \<Rightarrow> verified_block \<Rightarrow> round \<Rightarrow> verified_block list option" where
  "ancestors_at_round ds later_block earlier_round = do {
     linked \<leftarrow> linked_loop ds earlier_round (fset_of_list (vb_ancestors later_block));
     try_map (\<lambda>r. do { b \<leftarrow> get_block ds r; b })
       (fs_range (\<lambda>k. BlockRef earlier_round 0 digest_min \<le> k) linked)
   }"

definition get_last_block_for_authority :: "dag_state \<Rightarrow> authority_index \<Rightarrow> verified_block option" where
  "get_last_block_for_authority ds a = do {
     refs \<leftarrow> vec_get (ds_recent_refs ds) a;
     (case fs_last refs of
        Some r \<Rightarrow> map_option bi_block (fmlookup (ds_recent_blocks ds) r)
      | None \<Rightarrow> map_option snd
          (find (\<lambda>(r, _). br_author r = a) (fm_range (\<lambda>_. True) (ds_genesis ds))))
   }"

definition get_last_proposed_block :: "dag_state \<Rightarrow> verified_block option" where
  "get_last_proposed_block ds = get_last_block_for_authority ds (ds_own_index ds)"

definition get_cached_blocks_in_range :: "dag_state \<Rightarrow> authority_index \<Rightarrow> round \<Rightarrow> round \<Rightarrow> nat
    \<Rightarrow> verified_block list option" where
  "get_cached_blocks_in_range ds a start_round end_round limit =
     (if start_round \<ge> end_round \<or> limit = 0 then Some []
      else do {
        refs \<leftarrow> vec_get (ds_recent_refs ds) a;
        try_map (\<lambda>r. map_option bi_block (fmlookup (ds_recent_blocks ds) r))
          (take limit (fs_range (\<lambda>k. BlockRef start_round a digest_min \<le> k \<and>
                                     k < BlockRef end_round 0 digest_min) refs))
      })"

definition get_cached_blocks :: "dag_state \<Rightarrow> authority_index \<Rightarrow> round \<Rightarrow> verified_block list option" where
  "get_cached_blocks ds a start = do {
     refs \<leftarrow> vec_get (ds_recent_refs ds) a;
     try_map (\<lambda>r. map_option bi_block (fmlookup (ds_recent_blocks ds) r))
       (fs_range (\<lambda>k. BlockRef start a digest_min \<le> k) refs)
   }"

definition get_last_cached_block_in_range :: "dag_state \<Rightarrow> authority_index \<Rightarrow> round \<Rightarrow> round
    \<Rightarrow> verified_block option option" where
  "get_last_cached_block_in_range ds a start_round end_round =
     (if start_round \<ge> end_round then Some None
      else do {
        refs \<leftarrow> vec_get (ds_recent_refs ds) a;
        (case fs_range (\<lambda>k. BlockRef start_round a digest_min \<le> k \<and>
                            k < BlockRef end_round 0 digest_min) refs of
           [] \<Rightarrow> Some None
         | rs \<Rightarrow> Some (map_option bi_block (fmlookup (ds_recent_blocks ds) (last rs))))
      })"

text \<open>
  The last block of every authority below \<open>end_round\<close>, with the references of the blocks that
  equivocate in the same slot. The inner loop walks the references downwards: the first gives the
  block and the round, the following ones of the same round equivocate.
\<close>

definition last_cached_of_authority :: "dag_state \<Rightarrow> round \<Rightarrow> nat \<times> block_ref fset
    \<Rightarrow> verified_block list \<times> block_ref list list \<Rightarrow> (verified_block list \<times> block_ref list list) option"
  where
  "last_cached_of_authority ds end_round = (\<lambda>(i, refs) (blocks, equiv). do {
     a \<leftarrow> to_authority_index (ds_committee ds) i;
     evicted \<leftarrow> vec_get (ds_evicted_rounds ds) a;
     rust_assert (\<not> end_round - 1 \<le> evicted);
     (case rev (fs_range (\<lambda>k. BlockRef (evicted + 1) a digest_min \<le> k \<and>
                              k < BlockRef end_round a digest_min) refs) of
        [] \<Rightarrow> Some (blocks, equiv)
      | r # rs \<Rightarrow> do {
          bi \<leftarrow> fmlookup (ds_recent_blocks ds) r;
          blocks' \<leftarrow> vec_set blocks a (bi_block bi);
          eq \<leftarrow> vec_get equiv a;
          equiv' \<leftarrow> vec_set equiv a (eq @ takeWhile (\<lambda>k. \<not> br_round k < br_round r) rs);
          Some (blocks', equiv')
        })
   })"

definition get_last_cached_block_per_authority :: "dag_state \<Rightarrow> round
    \<Rightarrow> (verified_block \<times> block_ref list) list option" where
  "get_last_cached_block_per_authority ds end_round = do {
     let blocks = map snd (fm_range (\<lambda>_. True) (ds_genesis ds));
     let equiv = replicate (committee_size (ds_committee ds)) [];
     if end_round = GENESIS_ROUND then None
     else if end_round = GENESIS_ROUND + 1 then Some (map (\<lambda>b. (b, [])) blocks)
     else do {
       (blocks', equiv') \<leftarrow> try_fold (last_cached_of_authority ds end_round)
         (List.enumerate 0 (ds_recent_refs ds)) (blocks, equiv);
       Some (zip blocks' equiv')
     }
   }"

definition contains_cached_block_at_slot :: "dag_state \<Rightarrow> slot \<Rightarrow> bool option" where
  "contains_cached_block_at_slot ds s =
     (if slot_round s = GENESIS_ROUND then Some True
      else do {
        evicted \<leftarrow> vec_get (ds_evicted_rounds ds) (slot_authority s);
        rust_assert (\<not> slot_round s \<le> evicted);
        refs \<leftarrow> vec_get (ds_recent_refs ds) (slot_authority s);
        Some (fs_range (\<lambda>k. BlockRef (slot_round s) (slot_authority s) digest_min \<le> k \<and>
                            k \<le> BlockRef (slot_round s) (slot_authority s) digest_max) refs \<noteq> [])
      })"

text \<open>
  \<open>contains_blocks\<close> answers from the cache index and the genesis blocks; a reference above the last
  cached one of its author is known to be missing, and only the rest is looked up in the store.
\<close>

definition contains_cached :: "dag_state \<Rightarrow> nat \<times> block_ref
    \<Rightarrow> bool list \<times> (nat \<times> block_ref) list \<Rightarrow> (bool list \<times> (nat \<times> block_ref) list) option" where
  "contains_cached ds = (\<lambda>(i, r) (exist, missing). do {
     refs \<leftarrow> vec_get (ds_recent_refs ds) (br_author r);
     Some (if r |\<in>| refs \<or> r |\<in>| fmdom (ds_genesis ds) then (exist[i := True], missing)
           else (case fs_last refs of
                   None \<Rightarrow> (exist[i := False], missing)
                 | Some l \<Rightarrow> if br_round l < br_round r then (exist[i := False], missing)
                             else (exist, missing @ [(i, r)])))
   })"

definition contains_blocks :: "dag_state \<Rightarrow> block_ref list \<Rightarrow> bool list option" where
  "contains_blocks ds refs = do {
     (exist, missing) \<leftarrow> try_fold (contains_cached ds) (List.enumerate 0 refs)
       (replicate (length refs) False, []);
     Some (if missing = [] then exist
           else fold (\<lambda>((i, _), res) exist. exist[i := res])
                  (zip missing (store_contains_blocks (ds_store ds) (map snd missing))) exist)
   }"

definition contains_block :: "dag_state \<Rightarrow> block_ref \<Rightarrow> bool option" where
  "contains_block ds r = do { bs \<leftarrow> contains_blocks ds [r]; vec_get bs 0 }"

definition is_committed :: "dag_state \<Rightarrow> block_ref \<Rightarrow> bool option" where
  "is_committed ds r = map_option bi_committed (fmlookup (ds_recent_blocks ds) r)"

definition has_been_included :: "dag_state \<Rightarrow> block_ref \<Rightarrow> bool option" where
  "has_been_included ds r = map_option bi_included (fmlookup (ds_recent_blocks ds) r)"

section \<open>Accepting blocks\<close>

definition update_block_metadata :: "nat \<Rightarrow> verified_block \<Rightarrow> dag_state \<Rightarrow> dag_state option" where
  "update_block_metadata now b ds = do {
     let r = reference b;
     refs \<leftarrow> vec_get (ds_recent_refs ds) (br_author r);
     let ds1 = ds\<lparr>ds_recent_blocks := fmupd r (block_info_new b) (ds_recent_blocks ds),
                  ds_recent_refs := (ds_recent_refs ds)[br_author r := finsert r refs]\<rparr>;
     (clk, advanced) \<leftarrow> clock_add_block (ds_committee ds) now (ds_threshold_clock ds) r;
     let ds2 = ds1\<lparr>ds_threshold_clock := clk\<rparr>;
     _ \<leftarrow> (if advanced then map_option (\<lambda>_. ()) (get_last_proposed_block ds2) else Some ());
     _ \<leftarrow> committee_authority (ds_committee ds) (br_author r);
     Some (ds2\<lparr>ds_highest_accepted_round := max (ds_highest_accepted_round ds) (vb_round b)\<rparr>)
   }"

definition accept_block :: "nat \<Rightarrow> verified_block \<Rightarrow> dag_state \<Rightarrow> dag_state option" where
  "accept_block now b ds = do {
     rust_assert (vb_round b \<noteq> 0);
     known \<leftarrow> contains_block ds (reference b);
     if known then Some ds
     else do {
       _ \<leftarrow> committee_authority (ds_committee ds) (vb_author b);
       rust_assert (vb_author b = ds_own_index ds \<longrightarrow>
         get_uncommitted_blocks_at_slot ds (slot_of_ref (reference b)) = []);
       ds' \<leftarrow> update_block_metadata now b ds;
       Some (ds'\<lparr>ds_blocks_to_write := ds_blocks_to_write ds' @ [b]\<rparr>)
     }
   }"

definition accept_blocks :: "nat \<Rightarrow> verified_block list \<Rightarrow> dag_state \<Rightarrow> dag_state option" where
  "accept_blocks now bs ds = try_fold (accept_block now) bs ds"

section \<open>Commit and inclusion marks\<close>

definition set_committed :: "block_ref \<Rightarrow> dag_state \<Rightarrow> (dag_state \<times> bool) option" where
  "set_committed r ds = do {
     bi \<leftarrow> fmlookup (ds_recent_blocks ds) r;
     if \<not> bi_committed bi
     then Some (ds\<lparr>ds_recent_blocks :=
            fmupd r (bi\<lparr>bi_committed := True\<rparr>) (ds_recent_blocks ds)\<rparr>, True)
     else Some (ds, False)
   }"

text \<open>
  The work list of \<open>link_causal_history\<close>. It ends because every pass either marks a block or
  shortens the list.
\<close>

definition unincluded :: "(block_ref, block_info) fmap \<Rightarrow> block_ref fset" where
  "unincluded m = ffilter (\<lambda>r. \<not> bi_included (the (fmlookup m r))) (fmdom m)"

lemma unincluded_mark:
  assumes "fmlookup m r = Some bi" "\<not> bi_included bi"
  shows "unincluded (fmupd r (bi\<lparr>bi_included := True\<rparr>) m) |\<subset>| unincluded m"
proof -
  have "r |\<in>| unincluded m" using assms by (simp add: unincluded_def fmdomI)
  moreover have "unincluded (fmupd r (bi\<lparr>bi_included := True\<rparr>) m) = unincluded m |-| {|r|}"
    by (auto simp: unincluded_def fset_eq_iff)
  ultimately show ?thesis by auto
qed

function link_loop :: "round \<Rightarrow> block_ref list \<Rightarrow> (block_ref, block_info) fmap \<Rightarrow> block_ref list
    \<Rightarrow> ((block_ref, block_info) fmap \<times> block_ref list) option" where
  "link_loop gc [] recent linked = Some (recent, linked)"
| "link_loop gc (r # targets) recent linked =
     (if br_round r \<le> gc then link_loop gc targets recent linked
      else (case fmlookup recent r of
              None \<Rightarrow> None
            | Some bi \<Rightarrow>
                if bi_included bi then link_loop gc targets recent linked
                else link_loop gc (targets @ vb_ancestors (bi_block bi))
                       (fmupd r (bi\<lparr>bi_included := True\<rparr>) recent) (linked @ [r])))"
  by pat_completeness auto
termination
  by (relation "measures [\<lambda>(_, _, recent, _). fcard (unincluded recent), \<lambda>(_, targets, _). length targets]")
    (auto intro!: pfsubset_fcard_mono unincluded_mark)

definition link_causal_history :: "block_ref \<Rightarrow> dag_state \<Rightarrow> (dag_state \<times> block_ref list) option" where
  "link_causal_history root ds = do {
     (recent, linked) \<leftarrow> link_loop (gc_round ds) [root] (ds_recent_blocks ds) [];
     Some (ds\<lparr>ds_recent_blocks := recent\<rparr>, linked)
   }"

section \<open>Commits\<close>

definition update_committed_rounds :: "block_ref list \<Rightarrow> round list \<Rightarrow> round list option" where
  "update_committed_rounds refs rounds =
     try_fold (\<lambda>r rounds. do {
         x \<leftarrow> vec_get rounds (br_author r);
         vec_set rounds (br_author r) (max x (br_round r))
       }) refs rounds"

definition add_commit :: "nat \<Rightarrow> trusted_commit \<Rightarrow> dag_state \<Rightarrow> dag_state option" where
  "add_commit now c ds =
     (if (case ds_last_commit ds of Some l \<Rightarrow> tc_index c \<le> tc_index l | None \<Rightarrow> False) then Some ds
      else do {
        rust_assert (case ds_last_commit ds of
            Some l \<Rightarrow> tc_index c = tc_index l + 1 \<and> \<not> tc_timestamp_ms c < tc_timestamp_ms l
          | None \<Rightarrow> tc_index c = 1);
        let advanced = (case ds_last_commit ds of
            Some l \<Rightarrow> tc_commit_round l < tc_commit_round c | None \<Rightarrow> True);
        rounds \<leftarrow> update_committed_rounds (tc_blocks c) (ds_last_committed_rounds ds);
        _ \<leftarrow> try_map (to_authority_index (ds_committee ds)) [0..<length rounds];
        Some (ds\<lparr>ds_last_commit := Some c,
                 ds_last_commit_time := (if advanced then Some now else ds_last_commit_time ds),
                 ds_last_committed_rounds := rounds,
                 ds_pending_commit_votes := ds_pending_commit_votes ds @ [tc_reference c],
                 ds_commits_to_write := ds_commits_to_write ds @ [c]\<rparr>)
      })"

definition recover_commits_to_write :: "trusted_commit list \<Rightarrow> dag_state \<Rightarrow> dag_state" where
  "recover_commits_to_write cs ds = ds\<lparr>ds_commits_to_write := ds_commits_to_write ds @ cs\<rparr>"

definition ensure_commits_to_write_is_empty :: "dag_state \<Rightarrow> unit option" where
  "ensure_commits_to_write_is_empty ds = rust_assert (ds_commits_to_write ds = [])"

definition add_commit_info :: "reputation_scores \<Rightarrow> dag_state \<Rightarrow> dag_state option" where
  "add_commit_info scores ds = do {
     rust_assert (scoring_is_empty (ds_scoring_subdag ds));
     l \<leftarrow> ds_last_commit ds;
     Some (ds\<lparr>ds_commit_info_to_write := ds_commit_info_to_write ds @
       [(tc_reference l, \<lparr>ci_committed_rounds = ds_last_committed_rounds ds,
                          ci_reputation_scores = scores\<rparr>)]\<rparr>)
   }"

definition add_finalized_commit :: "commit_ref \<Rightarrow> rejected_map \<Rightarrow> dag_state \<Rightarrow> dag_state" where
  "add_finalized_commit r rejected ds =
     ds\<lparr>ds_finalized_commits_to_write := ds_finalized_commits_to_write ds @ [(r, rejected)]\<rparr>"

fun take_votes_loop :: "commit_vote list \<Rightarrow> nat \<Rightarrow> commit_vote list \<Rightarrow> commit_vote list \<times> commit_vote list"
  where
  "take_votes_loop [] limit votes = (votes, [])"
| "take_votes_loop (v # vs) limit votes =
     (if length votes < limit then take_votes_loop vs limit (votes @ [v]) else (votes, v # vs))"

definition take_commit_votes :: "nat \<Rightarrow> dag_state \<Rightarrow> dag_state \<times> commit_vote list" where
  "take_commit_votes limit ds =
     (let (votes, rest) = take_votes_loop (ds_pending_commit_votes ds) limit []
      in (ds\<lparr>ds_pending_commit_votes := rest\<rparr>, votes))"

section \<open>Scoring\<close>

definition add_scoring_subdags :: "committed_sub_dag list \<Rightarrow> dag_state \<Rightarrow> dag_state option" where
  "add_scoring_subdags sds ds = do {
     s \<leftarrow> add_subdags (ds_committee ds) sds (ds_scoring_subdag ds);
     Some (ds\<lparr>ds_scoring_subdag := s\<rparr>)
   }"

definition clear_scoring_subdag :: "dag_state \<Rightarrow> dag_state" where
  "clear_scoring_subdag ds = ds\<lparr>ds_scoring_subdag := scoring_clear (ds_scoring_subdag ds)\<rparr>"

definition scoring_subdags_count :: "dag_state \<Rightarrow> nat option" where
  "scoring_subdags_count ds = scored_subdags_count (ds_scoring_subdag ds)"

definition is_scoring_subdag_empty :: "dag_state \<Rightarrow> bool" where
  "is_scoring_subdag_empty ds = scoring_is_empty (ds_scoring_subdag ds)"

definition calculate_scoring_subdag_scores :: "dag_state \<Rightarrow> reputation_scores option" where
  "calculate_scoring_subdag_scores ds =
     calculate_distributed_vote_scores (ds_committee ds) (ds_scoring_subdag ds)"

definition scoring_subdag_commit_range :: "dag_state \<Rightarrow> commit_index option" where
  "scoring_subdag_commit_range ds = map_option range_end (ss_commit_range (ds_scoring_subdag ds))"

section \<open>Flushing and eviction\<close>

definition eviction_round :: "round \<Rightarrow> round \<Rightarrow> round \<Rightarrow> round" where
  "eviction_round last_round gc cached_rounds = min gc (last_round - cached_rounds)"

definition calculate_authority_eviction_round :: "dag_state \<Rightarrow> authority_index \<Rightarrow> round option" where
  "calculate_authority_eviction_round ds a = do {
     refs \<leftarrow> vec_get (ds_recent_refs ds) a;
     let last_round = (case fs_last refs of Some r \<Rightarrow> br_round r | None \<Rightarrow> GENESIS_ROUND);
     Some (eviction_round last_round (gc_round ds) (ds_cached_rounds ds))
   }"

function evict_loop :: "round \<Rightarrow> (block_ref, block_info) fmap \<Rightarrow> block_ref fset
    \<Rightarrow> (block_ref, block_info) fmap \<times> block_ref fset" where
  "evict_loop ev recent refs =
     (case fs_first refs of
        None \<Rightarrow> (recent, refs)
      | Some r \<Rightarrow> if br_round r \<le> ev then evict_loop ev (fmdrop r recent) (refs |-| {|r|})
                  else (recent, refs))"
  by pat_completeness auto
termination
proof (relation "measure (\<lambda>(_, _, refs). fcard refs)", simp)
  fix ev recent refs r assume "fs_first refs = Some r" "br_round r \<le> ev"
  then have "r |\<in>| refs" by (auto dest: fs_first_SomeD)
  then have "fcard (refs |-| {|r|}) < fcard refs" by (intro pfsubset_fcard_mono) auto
  then show "((ev, fmdrop r recent, refs |-| {|r|}), ev, recent, refs) \<in> measure (\<lambda>(_, _, refs). fcard refs)"
    by simp
qed

declare evict_loop.simps [simp del]

definition evict_authority :: "nat \<times> authority \<Rightarrow> dag_state \<Rightarrow> dag_state option" where
  "evict_authority = (\<lambda>(a, _) ds. do {
     ev \<leftarrow> calculate_authority_eviction_round ds a;
     refs \<leftarrow> vec_get (ds_recent_refs ds) a;
     let (recent, refs') = evict_loop ev (ds_recent_blocks ds) refs;
     evicted \<leftarrow> vec_set (ds_evicted_rounds ds) a ev;
     Some (ds\<lparr>ds_recent_blocks := recent, ds_recent_refs := (ds_recent_refs ds)[a := refs'],
              ds_evicted_rounds := evicted\<rparr>)
   })"

definition flush :: "dag_state \<Rightarrow> dag_state option" where
  "flush ds =
     (let wb = \<lparr>wb_blocks = ds_blocks_to_write ds, wb_commits = ds_commits_to_write ds,
                wb_commit_info = ds_commit_info_to_write ds,
                wb_finalized_commits = ds_finalized_commits_to_write ds\<rparr>;
          ds1 = ds\<lparr>ds_blocks_to_write := [], ds_commits_to_write := [],
                   ds_commit_info_to_write := [], ds_finalized_commits_to_write := []\<rparr>
      in if wb_blocks wb = [] \<and> wb_commits wb = [] \<and> wb_commit_info wb = [] \<and> wb_finalized_commits wb = []
         then Some ds1
         else try_fold evict_authority (committee_authorities (ds_committee ds))
                (ds1\<lparr>ds_store := store_write wb (ds_store ds)\<rparr>))"

definition recover_last_commit_info :: "dag_state \<Rightarrow> (commit_ref \<times> commit_info) option" where
  "recover_last_commit_info ds = read_last_commit_info (ds_store ds)"

section \<open>Recovery\<close>

text \<open>The committed rounds and the unscored sub-dags of the commits after the last commit info.\<close>

definition recover_commit :: "mem_store \<Rightarrow> trusted_commit \<Rightarrow> round list \<times> committed_sub_dag list
    \<Rightarrow> (round list \<times> committed_sub_dag list) option" where
  "recover_commit store c = (\<lambda>(rounds, subdags). do {
     rounds' \<leftarrow> update_committed_rounds (tc_blocks c) rounds;
     sd \<leftarrow> load_committed_subdag_from_store store c [];
     Some (rounds', subdags @ [sd])
   })"

text \<open>The cached blocks of one authority: those above its eviction round.\<close>

definition recover_authority :: "nat \<Rightarrow> nat \<times> authority \<Rightarrow> dag_state \<Rightarrow> dag_state option" where
  "recover_authority now = (\<lambda>(a, _) ds. do {
     last_block \<leftarrow> scan_last_blocks_by_author (ds_store ds) a 1 None;
     let last_round = (if last_block = [] then GENESIS_ROUND else vb_round (last last_block));
     let ev = eviction_round last_round (gc_round ds) (ds_cached_rounds ds);
     blocks \<leftarrow> scan_blocks_by_author (ds_store ds) a (ev + 1);
     evicted \<leftarrow> vec_set (ds_evicted_rounds ds) a ev;
     try_fold (update_block_metadata now) blocks (ds\<lparr>ds_evicted_rounds := evicted\<rparr>)
   })"

text \<open>
  The commit marks, from commit \<open>index\<close> backwards until a leader at or below the garbage
  collection round or a missing commit.
\<close>

definition recover_marks_of :: "round \<Rightarrow> trusted_commit \<Rightarrow> dag_state \<Rightarrow> dag_state option" where
  "recover_marks_of gc c ds =
     try_fold (\<lambda>r ds. do { (ds', fresh) \<leftarrow> set_committed r ds; rust_assert fresh; Some ds' })
       (filter (\<lambda>r. br_round r > gc) (tc_blocks c)) ds"

fun recover_marks :: "round \<Rightarrow> nat \<Rightarrow> dag_state \<Rightarrow> dag_state option" where
  "recover_marks gc idx ds = do {
     commits \<leftarrow> scan_commits (ds_store ds) (range_new idx idx);
     (case commits of
        [] \<Rightarrow> Some ds
      | c # _ \<Rightarrow>
          if gc > 0 \<and> br_round (tc_leader c) \<le> gc then Some ds
          else do {
            ds' \<leftarrow> recover_marks_of gc c ds;
            (case idx of
               0 \<Rightarrow> Some ds'
             | Suc i \<Rightarrow> if i = 0 then Some ds' else recover_marks gc i ds')
          })
   }"

declare recover_marks.simps [simp del]

definition dag_state_init :: "(signed_block \<Rightarrow> bytes option) \<Rightarrow> (bytes \<Rightarrow> digest) \<Rightarrow> nat
    \<Rightarrow> node_context \<Rightarrow> mem_store \<Rightarrow> dag_state option" where
  "dag_state_init ser hash now ctx store = do {
     let n = committee_size (ctx_committee ctx);
     gs \<leftarrow> genesis_blocks ser hash ctx;
     let (rounds0, start) = (case read_last_commit_info store of
         Some (r, info) \<Rightarrow> (ci_committed_rounds info, cr_index r + 1)
       | None \<Rightarrow> (replicate n 0, GENESIS_COMMIT_INDEX + 1));
     (rounds, subdags) \<leftarrow> (case read_last_commit store of
         None \<Rightarrow> Some (rounds0, [])
       | Some l \<Rightarrow> do {
           commits \<leftarrow> scan_commits store (range_new start (tc_index l));
           try_fold (recover_commit store) commits (rounds0, [])
         });
     scoring \<leftarrow> add_subdags (ctx_committee ctx) subdags scoring_new;
     Some \<lparr>ds_context = ctx, ds_genesis = fmap_of_list (map (\<lambda>b. (reference b, b)) (rev gs)),
        ds_recent_blocks = fmempty, ds_recent_refs = replicate n {||},
        ds_threshold_clock = clock_new 1 now, ds_evicted_rounds = replicate n 0,
        ds_highest_accepted_round = 0, ds_last_commit = read_last_commit store,
        ds_last_commit_time = None, ds_last_committed_rounds = rounds,
        ds_scoring_subdag = scoring, ds_pending_commit_votes = [],
        ds_blocks_to_write = [], ds_commits_to_write = [], ds_commit_info_to_write = [],
        ds_finalized_commits_to_write = [], ds_store = store,
        ds_cached_rounds = p_dag_state_cached_rounds (ctx_parameters ctx)\<rparr>
   }"

definition dag_state_new :: "(signed_block \<Rightarrow> bytes option) \<Rightarrow> (bytes \<Rightarrow> digest) \<Rightarrow> nat
    \<Rightarrow> node_context \<Rightarrow> mem_store \<Rightarrow> dag_state option" where
  "dag_state_new ser hash now ctx store = do {
     ds \<leftarrow> dag_state_init ser hash now ctx store;
     ds \<leftarrow> try_fold (recover_authority now) (committee_authorities (ctx_committee ctx)) ds;
     ds \<leftarrow> (case ds_last_commit ds of
         None \<Rightarrow> Some ds
       | Some l \<Rightarrow> recover_marks (gc_round ds) (tc_index l) ds);
     proposed \<leftarrow> scan_blocks_by_author store (ctx_own_index ctx) (gc_round ds + 1);
     try_fold (\<lambda>b ds. map_option fst (link_causal_history (reference b) ds)) proposed ds
   }"

end
