(* ===== verification/DagInv.thy ===== *)
theory DagInv
  imports DagState
begin

text \<open>
  The invariant of the DAG state and what its operations do to the set of known blocks.

  \<open>lookup_block\<close> is the abstract view: the block known under a reference, whether it is a genesis
  block, cached or only in the store. \<open>get_blocks\<close> and \<open>contains_blocks\<close>, with their caches, batched
  store reads and early answers, compute exactly this view; accepting a block adds it to the view;
  flushing and evicting leave the view as it is.
\<close>

definition lookup_block :: "dag_state \<Rightarrow> block_ref \<Rightarrow> verified_block option" where
  "lookup_block ds r =
     (if br_round r = GENESIS_ROUND then fmlookup (ds_genesis ds) r
      else (case fmlookup (ds_recent_blocks ds) r of
              Some bi \<Rightarrow> Some (bi_block bi)
            | None \<Rightarrow> mem_lookup (ds_store ds) r))"

abbreviation ds_size :: "dag_state \<Rightarrow> nat" where
  "ds_size ds \<equiv> committee_size (ds_committee ds)"

section \<open>Batched reads\<close>

definition cached_answer :: "dag_state \<Rightarrow> block_ref \<Rightarrow> verified_block option option" where
  "cached_answer ds r =
     (if br_round r = GENESIS_ROUND then Some (fmlookup (ds_genesis ds) r)
      else map_option (\<lambda>bi. Some (bi_block bi)) (fmlookup (ds_recent_blocks ds) r))"

lemma get_blocks_cached_step:
  "i < length bs \<Longrightarrow> bs ! i = None \<Longrightarrow> get_blocks_cached ds (i, r) (bs, ms) =
     (case cached_answer ds r of Some v \<Rightarrow> (bs[i := v], ms) | None \<Rightarrow> (bs, ms @ [(i, r)]))"
  by (auto simp: get_blocks_cached_def cached_answer_def split: option.split) (metis list_update_id)+

lemma get_blocks_eq: "get_blocks ds refs = map (lookup_block ds) refs"
proof -
  let ?g = "\<lambda>r. case cached_answer ds r of Some v \<Rightarrow> v | None \<Rightarrow> None"
  let ?ms = "filter (\<lambda>(i, r). cached_answer ds r = None) (List.enumerate 0 refs)"
  have phase1: "fold (get_blocks_cached ds) (List.enumerate 0 refs) (replicate (length refs) None, []) =
      (map ?g refs, ?ms)"
    using fill_phase[where d = None and f = "cached_answer ds" and step = "get_blocks_cached ds"
        and xs = refs and m = "length refs"] get_blocks_cached_step by simp
  have look: "lookup_block ds r =
      (if cached_answer ds r = None then mem_lookup (ds_store ds) r else ?g r)" for r
    by (auto simp: lookup_block_def cached_answer_def split: option.split)
  have "get_blocks ds refs = fold (\<lambda>((i, _), res) blocks. blocks[i := res])
      (map (\<lambda>m. (m, mem_lookup (ds_store ds) (snd m))) ?ms) (map ?g refs)"
    unfolding get_blocks_def phase1
    by (auto simp: store_read_blocks_lookup zip_map_self comp_def)
  also have "\<dots> = map (lookup_block ds) refs"
    using refill_phase[where h = "mem_lookup (ds_store ds)" and g = ?g and ys = "[]"
        and P = "\<lambda>r. cached_answer ds r = None" and xs = refs]
    by (simp add: look)
  finally show ?thesis .
qed

lemma get_block_eq [simp]: "get_block ds r = Some (lookup_block ds r)"
  by (simp add: get_block_def get_blocks_eq)

section \<open>The invariant\<close>

definition last_round_of :: "dag_state \<Rightarrow> authority_index \<Rightarrow> round" where
  "last_round_of ds a =
     (case fs_last (ds_recent_refs ds ! a) of Some r \<Rightarrow> br_round r | None \<Rightarrow> GENESIS_ROUND)"

text \<open>The static part: sizes, the committee, one genesis block of every authority.\<close>

definition one_per_authority :: "nat \<Rightarrow> (block_ref, verified_block) fmap \<Rightarrow> bool" where
  "one_per_authority n m \<longleftrightarrow> (\<forall>r r'. r |\<in>| fmdom m \<and> r' |\<in>| fmdom m \<and> br_author r' = br_author r \<longrightarrow>
     r' = r \<and> br_author r < n)"

definition genesis_inv :: "dag_state \<Rightarrow> bool" where
  "genesis_inv ds \<longleftrightarrow>
     committee_wf (ds_committee ds) \<and> ds_own_index ds < ds_size ds \<and> 0 < ds_cached_rounds ds \<and>
     (\<forall>r b. fmlookup (ds_genesis ds) r = Some b \<longrightarrow>
        reference b = r \<and> br_round r = 0 \<and> vb_ancestors b = []) \<and>
     (\<forall>a < ds_size ds. \<exists>r. r |\<in>| fmdom (ds_genesis ds) \<and> br_author r = a) \<and>
     one_per_authority (ds_size ds) (ds_genesis ds)"

text \<open>The cache and its index hold the same references, of positive rounds.\<close>

definition cache_inv :: "dag_state \<Rightarrow> bool" where
  "cache_inv ds \<longleftrightarrow>
     length (ds_recent_refs ds) = ds_size ds \<and> length (ds_evicted_rounds ds) = ds_size ds \<and>
     length (ds_last_committed_rounds ds) = ds_size ds \<and>
     (\<forall>r bi. fmlookup (ds_recent_blocks ds) r = Some bi \<longrightarrow>
        reference (bi_block bi) = r \<and> 0 < br_round r \<and> br_author r < ds_size ds) \<and>
     (\<forall>a < ds_size ds. \<forall>r. r |\<in>| ds_recent_refs ds ! a \<longleftrightarrow>
        r |\<in>| fmdom (ds_recent_blocks ds) \<and> br_author r = a)"

text \<open>
  Every cached block is in the store or waits to be written, with the same content; a stored block
  that is not cached was evicted, and its author has a cached block at its round or above.
\<close>

definition store_inv :: "dag_state \<Rightarrow> bool" where
  "store_inv ds \<longleftrightarrow>
     mem_inv (ds_store ds) \<and>
     (\<forall>r b. mem_lookup (ds_store ds) r = Some b \<longrightarrow> 0 < br_round r \<and> br_author r < ds_size ds) \<and>
     (\<forall>r bi. fmlookup (ds_recent_blocks ds) r = Some bi \<longrightarrow>
        mem_lookup (ds_store ds) r = Some (bi_block bi) \<or>
        mem_lookup (ds_store ds) r = None \<and> bi_block bi \<in> set (ds_blocks_to_write ds)) \<and>
     (\<forall>b \<in> set (ds_blocks_to_write ds). \<exists>bi. fmlookup (ds_recent_blocks ds) (reference b) = Some bi \<and>
        bi_block bi = b) \<and>
     (\<forall>r b. mem_lookup (ds_store ds) r = Some b \<longrightarrow> fmlookup (ds_recent_blocks ds) r = None \<longrightarrow>
        br_round r \<le> ds_evicted_rounds ds ! br_author r \<and>
        ds_recent_refs ds ! br_author r \<noteq> {||} \<and> br_round r \<le> last_round_of ds (br_author r))"

lemma store_invD:
  assumes "store_inv ds"
  shows "mem_inv (ds_store ds)"
    and "mem_lookup (ds_store ds) r = Some b \<Longrightarrow> 0 < br_round r \<and> br_author r < ds_size ds"
    and "fmlookup (ds_recent_blocks ds) r = Some bi \<Longrightarrow>
        mem_lookup (ds_store ds) r = Some (bi_block bi) \<or>
        mem_lookup (ds_store ds) r = None \<and> bi_block bi \<in> set (ds_blocks_to_write ds)"
    and "d \<in> set (ds_blocks_to_write ds) \<Longrightarrow>
        \<exists>bi. fmlookup (ds_recent_blocks ds) (reference d) = Some bi \<and> bi_block bi = d"
    and "mem_lookup (ds_store ds) r = Some b \<Longrightarrow> fmlookup (ds_recent_blocks ds) r = None \<Longrightarrow>
        br_round r \<le> ds_evicted_rounds ds ! br_author r \<and>
        ds_recent_refs ds ! br_author r \<noteq> {||} \<and> br_round r \<le> last_round_of ds (br_author r)"
  using assms by (simp_all add: store_inv_def)

text \<open>Eviction stays behind the garbage collection round and keeps the cached rounds.\<close>

definition evict_inv :: "dag_state \<Rightarrow> bool" where
  "evict_inv ds \<longleftrightarrow> (\<forall>a < ds_size ds. ds_evicted_rounds ds ! a \<le>
     eviction_round (last_round_of ds a) (gc_round ds) (ds_cached_rounds ds))"

text \<open>
  The clock counts without wrap-around, and it has been told of exactly the known blocks (its exact
  state is known unless a single authority is a quorum, see \<open>clock_stale_vote\<close>).
\<close>

abbreviation proper_refs :: "dag_state \<Rightarrow> block_ref set" where
  "proper_refs ds \<equiv> {r. lookup_block ds r \<noteq> None \<and> 0 < br_round r}"

definition clock_ok :: "dag_state \<Rightarrow> bool" where
  "clock_ok ds \<longleftrightarrow> aggregator_inv (ds_committee ds) (tc_aggregator (ds_threshold_clock ds)) \<and>
     (no_single_quorum (ds_committee ds) \<longrightarrow> clock_inv (ds_committee ds) 1 (proper_refs ds) (ds_threshold_clock ds))"

lemma clock_ok_cong:
  "ds_context ds' = ds_context ds \<Longrightarrow> ds_threshold_clock ds' = ds_threshold_clock ds \<Longrightarrow>
   lookup_block ds' = lookup_block ds \<Longrightarrow> clock_ok ds' = clock_ok ds"
  by (simp add: clock_ok_def)

definition dag_inv :: "dag_state \<Rightarrow> bool" where
  "dag_inv ds \<longleftrightarrow> genesis_inv ds \<and> cache_inv ds \<and> store_inv ds \<and> evict_inv ds \<and> clock_ok ds"

lemma lookup_ref:
  assumes "dag_inv ds" "lookup_block ds r = Some b"
  shows "reference b = r"
  using assms mem_lookup_ref[of "ds_store ds" r b]
  by (auto simp: dag_inv_def genesis_inv_def cache_inv_def store_inv_def lookup_block_def
      split: if_splits option.splits)

lemma recent_refs_last:
  assumes "cache_inv ds" "a < ds_size ds" "fmlookup (ds_recent_blocks ds) r = Some bi" "br_author r = a"
  shows "\<exists>l. fs_last (ds_recent_refs ds ! a) = Some l \<and> r \<le> l"
proof -
  have "r |\<in>| ds_recent_refs ds ! a" using assms by (auto simp: cache_inv_def fmdomI)
  then show ?thesis
    by (cases "fs_last (ds_recent_refs ds ! a)") (auto dest: fs_last_SomeD)
qed

section \<open>Membership\<close>

definition contains_answer :: "dag_state \<Rightarrow> block_ref \<Rightarrow> bool option" where
  "contains_answer ds r =
     (if r |\<in>| ds_recent_refs ds ! br_author r \<or> r |\<in>| fmdom (ds_genesis ds) then Some True
      else (case fs_last (ds_recent_refs ds ! br_author r) of
              None \<Rightarrow> Some False
            | Some l \<Rightarrow> if br_round l < br_round r then Some False else None))"

lemma contains_cached_pure:
  assumes "br_author r < length (ds_recent_refs ds)"
  shows "contains_cached ds (i, r) (exist, missing) =
     Some (case contains_answer ds r of Some v \<Rightarrow> (exist[i := v], missing)
           | None \<Rightarrow> (exist, missing @ [(i, r)]))"
  using assms by (auto simp: contains_cached_def contains_answer_def split: option.split)

text \<open>The early answers of the cache are right.\<close>

lemma contains_answer_sound:
  assumes inv: "dag_inv ds" and a: "br_author r < ds_size ds"
  shows "contains_answer ds r = Some v \<Longrightarrow> v \<longleftrightarrow> lookup_block ds r \<noteq> None"
    and "contains_answer ds r = None \<Longrightarrow>
      mem_lookup (ds_store ds) r \<noteq> None \<longleftrightarrow> lookup_block ds r \<noteq> None"
proof -
  have c: "cache_inv ds" and s: "store_inv ds" and g: "genesis_inv ds"
    using inv by (auto simp: dag_inv_def)
  have cached: "r |\<in>| ds_recent_refs ds ! br_author r \<longleftrightarrow> r |\<in>| fmdom (ds_recent_blocks ds)"
    using c a by (auto simp: cache_inv_def)
  have pos: "0 < br_round r" if "r |\<in>| fmdom (ds_recent_blocks ds)"
    using c that by (auto simp: cache_inv_def fmlookup_dom_iff)
  have gen: "br_round r = 0" if "r |\<in>| fmdom (ds_genesis ds)"
    using g that by (auto simp: genesis_inv_def fmlookup_dom_iff)
  have sto: "0 < br_round r \<and> (r |\<in>| fmdom (ds_recent_blocks ds) \<or>
      ds_recent_refs ds ! br_author r \<noteq> {||} \<and> br_round r \<le> last_round_of ds (br_author r))"
    if "mem_lookup (ds_store ds) r \<noteq> None"
    using s that unfolding store_inv_def by (metis fmdom_notD not_None_eq)
  show "v \<longleftrightarrow> lookup_block ds r \<noteq> None" if "contains_answer ds r = Some v"
    using that cached pos gen sto
    by (cases "mem_lookup (ds_store ds) r") (auto simp: contains_answer_def lookup_block_def GENESIS_ROUND_def last_round_of_def
        fmlookup_dom_iff split: if_splits option.splits)
  show "mem_lookup (ds_store ds) r \<noteq> None \<longleftrightarrow> lookup_block ds r \<noteq> None"
    if "contains_answer ds r = None"
    using that cached pos gen sto
    by (cases "mem_lookup (ds_store ds) r") (auto simp: contains_answer_def lookup_block_def GENESIS_ROUND_def
        fmlookup_dom_iff split: if_splits option.splits)
qed

lemma contains_blocks_eq:
  assumes inv: "dag_inv ds" and a: "\<forall>r \<in> set refs. br_author r < ds_size ds"
  shows "contains_blocks ds refs = Some (map (\<lambda>r. lookup_block ds r \<noteq> None) refs)"
proof -
  let ?step = "\<lambda>(i, r) (exist, missing). case contains_answer ds r of
      Some v \<Rightarrow> (exist[i := v], missing) | None \<Rightarrow> (exist, missing @ [(i, r)])"
  let ?g = "\<lambda>r. case contains_answer ds r of Some v \<Rightarrow> v | None \<Rightarrow> False"
  let ?ms = "filter (\<lambda>(i, r). contains_answer ds r = None) (List.enumerate 0 refs)"
  have len: "length (ds_recent_refs ds) = ds_size ds" using inv by (simp add: dag_inv_def cache_inv_def)
  have "try_fold (contains_cached ds) (List.enumerate 0 refs) st =
      try_fold (\<lambda>x s. Some (?step x s)) (List.enumerate 0 refs) st" for st
    using a len by (intro try_fold_cong) (auto simp: contains_cached_pure in_set_enumerate_eq)
  then have phase1: "try_fold (contains_cached ds) (List.enumerate 0 refs)
      (replicate (length refs) False, []) = Some (map ?g refs, ?ms)"
    using fill_phase[where d = False and f = "contains_answer ds" and step = ?step
        and xs = refs and m = "length refs"] by simp
  have look: "(lookup_block ds r \<noteq> None) =
      (if contains_answer ds r = None then mem_lookup (ds_store ds) r \<noteq> None else ?g r)"
    if "r \<in> set refs" for r
    using contains_answer_sound[OF inv, of r] a that by (auto split: option.split)
  have "contains_blocks ds refs = Some (fold (\<lambda>((i, _), res) exist. exist[i := res])
        (map (\<lambda>m. (m, mem_lookup (ds_store ds) (snd m) \<noteq> None)) ?ms) (map ?g refs))"
    unfolding contains_blocks_def phase1
    by (auto simp: mem_contains zip_map_self comp_def)
  also have "\<dots> = Some (map (\<lambda>r. lookup_block ds r \<noteq> None) refs)"
    using refill_phase[where h = "\<lambda>r. mem_lookup (ds_store ds) r \<noteq> None" and g = ?g and ys = "[]"
        and P = "\<lambda>r. contains_answer ds r = None" and xs = refs] look by simp
  finally show ?thesis .
qed

lemma contains_block_eq:
  assumes "dag_inv ds" "br_author r < ds_size ds"
  shows "contains_block ds r = Some (lookup_block ds r \<noteq> None)"
  using contains_blocks_eq[of ds "[r]"] assms by (simp add: contains_block_def)

section \<open>Accepting a block\<close>

definition top_round :: "block_ref fset \<Rightarrow> round" where
  "top_round S = (case fs_last S of Some r \<Rightarrow> br_round r | None \<Rightarrow> GENESIS_ROUND)"

lemma last_round_of_top: "last_round_of ds a = top_round (ds_recent_refs ds ! a)"
  by (simp add: last_round_of_def top_round_def)

lemma top_round_ge: "r |\<in>| S \<Longrightarrow> br_round r \<le> top_round S"
  by (cases "fs_last S") (auto simp: top_round_def dest!: fs_last_SomeD intro: block_ref_le_round)

lemma top_round_in: "S \<noteq> {||} \<Longrightarrow> \<exists>r. r |\<in>| S \<and> br_round r = top_round S"
  by (cases "fs_last S") (auto simp: top_round_def dest: fs_last_SomeD)

lemma top_round_mono: "S |\<subseteq>| T \<Longrightarrow> top_round S \<le> top_round T"
proof (cases "S = {||}")
  case False
  assume "S |\<subseteq>| T"
  moreover obtain r where "r |\<in>| S" "br_round r = top_round S" using top_round_in[OF False] by blast
  ultimately show ?thesis using top_round_ge[of r T] by auto
qed (simp add: top_round_def GENESIS_ROUND_def)

lemma eviction_round_mono:
  "l \<le> l' \<Longrightarrow> g \<le> g' \<Longrightarrow> eviction_round l g k \<le> eviction_round l' g' k"
  by (auto simp: eviction_round_def)

lemma clock_add_block_ok:
  assumes "committee_wf c" "aggregator_inv c (tc_aggregator clk)" "br_author r \<in> members c"
  shows "\<exists>clk' adv. clock_add_block c now clk r = Some (clk', adv) \<and>
           aggregator_inv c (tc_aggregator clk') \<and>
           (\<forall>S. no_single_quorum c \<and> clock_inv c 1 S clk \<longrightarrow> clock_inv c 1 (insert r S) clk')"
proof -
  obtain a1 b1 where 1: "aggregator_add QuorumThreshold (tc_aggregator clk) (br_author r) c = Some (a1, b1)"
      "aggregator_inv c a1"
    using aggregator_add_spec[OF assms, of QuorumThreshold] by blast
  obtain a2 b2 where 2: "aggregator_add QuorumThreshold aggregator_new (br_author r) c = Some (a2, b2)"
      "aggregator_inv c a2"
    using aggregator_add_spec[OF assms(1) aggregator_inv_new assms(3), of QuorumThreshold] by blast
  have "\<exists>x. committee_authority c (br_author r) = Some x"
    using assms(3) by (simp add: committee_authority_def members_def committee_size_def)
  with 1 2 assms(2) have "\<exists>clk' adv. clock_add_block c now clk r = Some (clk', adv) \<and> aggregator_inv c (tc_aggregator clk')"
    by (auto simp: clock_add_block_def)
  then obtain clk' adv where clk': "clock_add_block c now clk r = Some (clk', adv)" "aggregator_inv c (tc_aggregator clk')"
    by blast
  have "clock_inv c 1 (insert r S) clk'" if "no_single_quorum c" "clock_inv c 1 S clk" for S
    using clock_add_block_inv[OF assms(1) that assms(3), of now] clk'(1) by auto
  with clk' show ?thesis by blast
qed

lemma get_last_block_ok:
  assumes "genesis_inv ds" "cache_inv ds" "a < ds_size ds"
  shows "\<exists>b. get_last_block_for_authority ds a = Some b"
proof (cases "fs_last (ds_recent_refs ds ! a)")
  case None
  obtain r b where "fmlookup (ds_genesis ds) r = Some b" "br_author r = a"
    using assms(1,3) by (auto simp: genesis_inv_def fmlookup_dom_iff)
  then have "find (\<lambda>(r, _). br_author r = a) (fm_range (\<lambda>_. True) (ds_genesis ds)) \<noteq> None"
    unfolding find_None_iff set_fm_range by blast
  with None assms(2,3) show ?thesis by (auto simp: get_last_block_for_authority_def cache_inv_def)
next
  case (Some l)
  then have "l |\<in>| ds_recent_refs ds ! a" by (auto dest: fs_last_SomeD)
  then have "l |\<in>| fmdom (ds_recent_blocks ds)" using assms(2,3) by (auto simp: cache_inv_def)
  with Some assms(2,3) show ?thesis
    by (auto simp: get_last_block_for_authority_def cache_inv_def fmlookup_dom_iff)
qed

text \<open>The state after the cache, the clock and the write buffer took a new block.\<close>

definition inserted :: "verified_block \<Rightarrow> threshold_clock \<Rightarrow> dag_state \<Rightarrow> dag_state" where
  "inserted b clk ds =
     ds\<lparr>ds_recent_blocks := fmupd (reference b) (block_info_new b) (ds_recent_blocks ds),
        ds_recent_refs := (ds_recent_refs ds)[vb_author b :=
          finsert (reference b) (ds_recent_refs ds ! vb_author b)],
        ds_threshold_clock := clk,
        ds_highest_accepted_round := max (ds_highest_accepted_round ds) (vb_round b)\<rparr>"

lemma inserted_simps [simp]:
  "ds_context (inserted b clk ds) = ds_context ds" "ds_genesis (inserted b clk ds) = ds_genesis ds"
  "ds_store (inserted b clk ds) = ds_store ds" "ds_cached_rounds (inserted b clk ds) = ds_cached_rounds ds"
  "ds_evicted_rounds (inserted b clk ds) = ds_evicted_rounds ds"
  "ds_last_commit (inserted b clk ds) = ds_last_commit ds"
  "ds_last_committed_rounds (inserted b clk ds) = ds_last_committed_rounds ds"
  "ds_blocks_to_write (inserted b clk ds) = ds_blocks_to_write ds"
  "ds_threshold_clock (inserted b clk ds) = clk"
  "ds_recent_blocks (inserted b clk ds) = fmupd (reference b) (block_info_new b) (ds_recent_blocks ds)"
  "ds_recent_refs (inserted b clk ds) = (ds_recent_refs ds)[vb_author b :=
      finsert (reference b) (ds_recent_refs ds ! vb_author b)]"
  by (simp_all add: inserted_def)

lemma gc_round_cong:
  "ds_last_commit ds' = ds_last_commit ds \<Longrightarrow> ds_context ds' = ds_context ds \<Longrightarrow> gc_round ds' = gc_round ds"
  by (simp add: gc_round_def calculate_gc_round_def last_commit_round_def)

lemma last_round_inserted:
  "last_round_of ds a \<le> last_round_of (inserted b clk ds) a"
proof -
  have "ds_recent_refs ds ! a |\<subseteq>| ds_recent_refs (inserted b clk ds) ! a"
    by (cases "vb_author b < length (ds_recent_refs ds)"; cases "a = vb_author b")
      (auto simp: list_update_beyond)
  then show ?thesis by (auto simp: last_round_of_top intro: top_round_mono)
qed

lemma cache_inv_inserted:
  assumes "cache_inv ds" "0 < vb_round b" "vb_author b < ds_size ds"
  shows "cache_inv (inserted b clk ds)"
  using assms unfolding cache_inv_def by (auto simp: block_info_new_def nth_list_update)

lemma update_block_metadata_ok:
  assumes "genesis_inv ds" "cache_inv ds" "clock_ok ds" "0 < vb_round b" "vb_author b < ds_size ds"
  shows "\<exists>clk. update_block_metadata now b ds = Some (inserted b clk ds) \<and>
           aggregator_inv (ds_committee ds) (tc_aggregator clk) \<and>
           (\<forall>S. no_single_quorum (ds_committee ds) \<and> clock_inv (ds_committee ds) 1 S (ds_threshold_clock ds) \<longrightarrow>
              clock_inv (ds_committee ds) 1 (insert (reference b) S) clk)"
proof -
  have wf: "committee_wf (ds_committee ds)" and own: "ds_own_index ds < ds_size ds"
    using assms(1) by (auto simp: genesis_inv_def)
  obtain clk adv where clk: "clock_add_block (ds_committee ds) now (ds_threshold_clock ds) (reference b) =
      Some (clk, adv)" "aggregator_inv (ds_committee ds) (tc_aggregator clk) \<and>
      (\<forall>S. no_single_quorum (ds_committee ds) \<and> clock_inv (ds_committee ds) 1 S (ds_threshold_clock ds) \<longrightarrow>
         clock_inv (ds_committee ds) 1 (insert (reference b) S) clk)"
    using clock_add_block_ok[OF wf, of "ds_threshold_clock ds" "reference b" now] assms(3,5)
    by (auto simp: clock_ok_def members_def)
  define ds2 where "ds2 = inserted b clk ds\<lparr>ds_highest_accepted_round := ds_highest_accepted_round ds\<rparr>"
  have "genesis_inv ds2" "cache_inv ds2"
    using assms(1) cache_inv_inserted[OF assms(2,4,5), of clk]
    by (simp_all add: ds2_def genesis_inv_def cache_inv_def)
  moreover have "ds_own_index ds2 < ds_size ds2" using own by (simp add: ds2_def)
  ultimately obtain p where p: "get_last_proposed_block ds2 = Some p"
    using get_last_block_ok[of ds2 "ds_own_index ds2"] by (auto simp: get_last_proposed_block_def)
  have refs: "vec_get (ds_recent_refs ds) (vb_author b) = Some (ds_recent_refs ds ! vb_author b)"
    using assms(2,5) by (simp add: cache_inv_def)
  have auth: "\<exists>x. committee_authority (ds_committee ds) (vb_author b) = Some x"
    using assms(5) by (simp add: committee_authority_def committee_size_def)
  have "ds2 = ds\<lparr>ds_recent_blocks := fmupd (reference b) (block_info_new b) (ds_recent_blocks ds),
      ds_recent_refs := (ds_recent_refs ds)[vb_author b :=
        finsert (reference b) (ds_recent_refs ds ! vb_author b)], ds_threshold_clock := clk\<rparr>"
    by (simp add: ds2_def inserted_def)
  then have "update_block_metadata now b ds =
      Some (ds2\<lparr>ds_highest_accepted_round := max (ds_highest_accepted_round ds) (vb_round b)\<rparr>)"
    using refs clk(1) p auth by (auto simp: update_block_metadata_def Let_def)
  then show ?thesis using clk(2) by (auto simp: ds2_def inserted_def)
qed

lemma store_inv_inserted:
  assumes "cache_inv ds" "store_inv ds" "vb_author b < ds_size ds" 
    and new: "mem_lookup (ds_store ds) (reference b) = None" "fmlookup (ds_recent_blocks ds) (reference b) = None"
  shows "store_inv (inserted b clk ds\<lparr>ds_blocks_to_write := ds_blocks_to_write ds @ [b]\<rparr>)"
proof -
  let ?ds = "inserted b clk ds\<lparr>ds_blocks_to_write := ds_blocks_to_write ds @ [b]\<rparr>"
  have ge: "last_round_of ds a \<le> last_round_of ?ds a" for a
    using last_round_inserted[of ds a b clk] by (simp add: last_round_of_def)
  have ne: "ds_recent_refs ds ! a \<noteq> {||} \<Longrightarrow> ds_recent_refs ?ds ! a \<noteq> {||}" for a
    using assms(1,3) by (cases "a = vb_author b") (auto simp: cache_inv_def)
  show ?thesis
    unfolding store_inv_def
  proof (intro conjI allI impI ballI)
    show "mem_inv (ds_store ?ds)" using assms(2) by (simp add: store_inv_def)
  next
    fix r d assume "mem_lookup (ds_store ?ds) r = Some d"
    then show "0 < br_round r" "br_author r < ds_size ?ds" using assms(2) by (auto simp: store_inv_def)
  next
    fix r bi assume "fmlookup (ds_recent_blocks ?ds) r = Some bi"
    then show "mem_lookup (ds_store ?ds) r = Some (bi_block bi) \<or>
        mem_lookup (ds_store ?ds) r = None \<and> bi_block bi \<in> set (ds_blocks_to_write ?ds)"
      using assms(2) new by (auto simp: store_inv_def block_info_new_def split: if_splits)
  next
    fix d assume "d \<in> set (ds_blocks_to_write ?ds)"
    then show "\<exists>bi. fmlookup (ds_recent_blocks ?ds) (reference d) = Some bi \<and> bi_block bi = d"
      using assms(2) new(2) by (cases "reference d = reference b")
        (auto simp: store_inv_def block_info_new_def)
  next
    fix r d assume r: "mem_lookup (ds_store ?ds) r = Some d" "fmlookup (ds_recent_blocks ?ds) r = None"
    then have "mem_lookup (ds_store ds) r = Some d" "fmlookup (ds_recent_blocks ds) r = None"
      by (auto split: if_splits)
    with assms(2) have "br_round r \<le> ds_evicted_rounds ds ! br_author r \<and>
        ds_recent_refs ds ! br_author r \<noteq> {||} \<and> br_round r \<le> last_round_of ds (br_author r)"
      by (auto simp: store_inv_def)
    with ge[of "br_author r"] ne[of "br_author r"]
    show "br_round r \<le> ds_evicted_rounds ?ds ! br_author r" "ds_recent_refs ?ds ! br_author r \<noteq> {||}"
        "br_round r \<le> last_round_of ?ds (br_author r)" by auto
  qed
qed

text \<open>What an operation may not touch when it only adds blocks.\<close>

definition same_frame :: "dag_state \<Rightarrow> dag_state \<Rightarrow> bool" where
  "same_frame ds ds' \<longleftrightarrow>
     ds_context ds' = ds_context ds \<and> ds_genesis ds' = ds_genesis ds \<and>
     ds_last_commit ds' = ds_last_commit ds \<and>
     ds_last_committed_rounds ds' = ds_last_committed_rounds ds"

lemma same_frame_refl [simp]: "same_frame ds ds"
  by (simp add: same_frame_def)

lemma same_frame_trans: "same_frame a b \<Longrightarrow> same_frame b c \<Longrightarrow> same_frame a c"
  by (simp add: same_frame_def)

lemma accept_new_inv:
  assumes inv: "dag_inv ds" and b: "0 < vb_round b" "vb_author b < ds_size ds"
    and new: "lookup_block ds (reference b) = None"
    and clk: "aggregator_inv (ds_committee ds) (tc_aggregator clk) \<and>
      (\<forall>S. no_single_quorum (ds_committee ds) \<and> clock_inv (ds_committee ds) 1 S (ds_threshold_clock ds) \<longrightarrow>
         clock_inv (ds_committee ds) 1 (insert (reference b) S) clk)"
  defines "ds' \<equiv> inserted b clk ds\<lparr>ds_blocks_to_write := ds_blocks_to_write ds @ [b]\<rparr>"
  shows "dag_inv ds' \<and> lookup_block ds' = (lookup_block ds)(reference b \<mapsto> b) \<and> same_frame ds ds'"
proof -
  have parts: "genesis_inv ds" "cache_inv ds" "store_inv ds" "evict_inv ds" "clock_ok ds"
    using inv by (auto simp: dag_inv_def)
  have none: "mem_lookup (ds_store ds) (reference b) = None"
      "fmlookup (ds_recent_blocks ds) (reference b) = None"
    using new b(1) by (auto simp: lookup_block_def GENESIS_ROUND_def split: option.splits)
  have "genesis_inv ds'" using parts(1) by (simp add: ds'_def genesis_inv_def)
  moreover have "cache_inv ds'"
    using cache_inv_inserted[OF parts(2) b, of clk] by (simp add: ds'_def cache_inv_def)
  moreover have "store_inv ds'"
    unfolding ds'_def by (rule store_inv_inserted[OF parts(2,3) b(2) none])
  moreover have look: "lookup_block ds' = (lookup_block ds)(reference b \<mapsto> b)"
    using b(1) by (auto simp: ds'_def lookup_block_def GENESIS_ROUND_def block_info_new_def fun_eq_iff
        split: option.split)
  moreover have "clock_ok ds'"
  proof -
    have "proper_refs ds' = insert (reference b) (proper_refs ds)" using look b(1) by auto
    moreover have "ds_committee ds' = ds_committee ds" "ds_threshold_clock ds' = clk" by (simp_all add: ds'_def)
    ultimately show ?thesis using clk parts(5) by (simp add: clock_ok_def)
  qed
  moreover have "evict_inv ds'"
  proof -
    have "gc_round ds' = gc_round ds" by (rule gc_round_cong) (simp_all add: ds'_def)
    moreover have "last_round_of ds a \<le> last_round_of ds' a" for a
      using last_round_inserted[of ds a b clk] by (simp add: ds'_def last_round_of_def)
    ultimately have le: "eviction_round (last_round_of ds a) (gc_round ds) (ds_cached_rounds ds) \<le>
        eviction_round (last_round_of ds' a) (gc_round ds') (ds_cached_rounds ds')" for a
      by (simp add: eviction_round_mono ds'_def)
    have "ds_evicted_rounds ds' = ds_evicted_rounds ds" "ds_size ds' = ds_size ds" by (simp_all add: ds'_def)
    with parts(4) show ?thesis
      unfolding evict_inv_def by (metis le order_trans)
  qed
  moreover have "same_frame ds ds'" by (simp add: same_frame_def ds'_def)
  ultimately show ?thesis by (simp add: dag_inv_def)
qed

lemma accept_block_spec:
  assumes inv: "dag_inv ds" and b: "0 < vb_round b" "vb_author b < ds_size ds"
    and own: "vb_author b = ds_own_index ds \<Longrightarrow> lookup_block ds (reference b) = None \<Longrightarrow>
      get_uncommitted_blocks_at_slot ds (slot_of_ref (reference b)) = []"
  shows "\<exists>ds'. accept_block now b ds = Some ds' \<and> dag_inv ds' \<and> same_frame ds ds' \<and>
           lookup_block ds' = (if lookup_block ds (reference b) = None
             then (lookup_block ds)(reference b \<mapsto> b) else lookup_block ds)"
proof (cases "lookup_block ds (reference b) = None")
  case False
  with inv b show ?thesis
    by (auto simp: accept_block_def contains_block_eq bind_rust_assert)
next
  case True
  have "genesis_inv ds" "cache_inv ds" "clock_ok ds" using inv by (auto simp: dag_inv_def)
  from update_block_metadata_ok[OF this b] obtain clk where
    clk: "update_block_metadata now b ds = Some (inserted b clk ds)"
      "aggregator_inv (ds_committee ds) (tc_aggregator clk) \<and>
       (\<forall>S. no_single_quorum (ds_committee ds) \<and> clock_inv (ds_committee ds) 1 S (ds_threshold_clock ds) \<longrightarrow>
          clock_inv (ds_committee ds) 1 (insert (reference b) S) clk)" by blast
  have "\<exists>x. committee_authority (ds_committee ds) (vb_author b) = Some x"
    using b(2) by (simp add: committee_authority_def committee_size_def)
  then have "accept_block now b ds =
      Some (inserted b clk ds\<lparr>ds_blocks_to_write := ds_blocks_to_write ds @ [b]\<rparr>)"
    using True inv b own clk(1) by (auto simp: accept_block_def contains_block_eq bind_rust_assert)
  with accept_new_inv[OF inv b True clk(2)] True show ?thesis by auto
qed

section \<open>Flushing and evicting\<close>

lemma evict_loop_eq:
  "evict_loop ev recent refs =
     (fmfilter (\<lambda>r. \<not> (r |\<in>| refs \<and> br_round r \<le> ev)) recent, ffilter (\<lambda>r. ev < br_round r) refs)"
proof (induction ev recent refs rule: evict_loop.induct)
  case (1 ev recent refs)
  show ?case
  proof (cases "fs_first refs")
    case None
    moreover have "ffilter (\<lambda>r. ev < br_round r) {||} = {||}" by auto
    ultimately show ?thesis by (subst evict_loop.simps) (simp add: fmfilter_true)
  next
    case (Some r)
    have min: "r |\<in>| refs" "\<And>q. q |\<in>| refs \<Longrightarrow> r \<le> q" using Some by (auto dest: fs_first_SomeD)
    show ?thesis
    proof (cases "br_round r \<le> ev")
      case True
      have "evict_loop ev recent refs = evict_loop ev (fmdrop r recent) (refs |-| {|r|})"
        using Some True by (subst evict_loop.simps) simp
      also have "\<dots> = (fmfilter (\<lambda>q. \<not> (q |\<in>| refs |-| {|r|} \<and> br_round q \<le> ev)) (fmdrop r recent),
          ffilter (\<lambda>q. ev < br_round q) (refs |-| {|r|}))"
        by (rule "1.IH"[OF Some True])
      also have "\<dots> = (fmfilter (\<lambda>q. \<not> (q |\<in>| refs \<and> br_round q \<le> ev)) recent,
          ffilter (\<lambda>q. ev < br_round q) refs)"
        using True min(1) by (auto intro!: fmap_ext simp: fset_eq_iff)
      finally show ?thesis .
    next
      case False
      have above: "ev < br_round q" if "q |\<in>| refs" for q
        using False block_ref_le_round[OF min(2)[OF that]] by simp
      have "ffilter (\<lambda>q. ev < br_round q) refs = refs" using above by (auto simp: fset_eq_iff)
      moreover have "fmfilter (\<lambda>q. \<not> (q |\<in>| refs \<and> br_round q \<le> ev)) recent = recent"
        using above by (intro fmap_ext) (auto simp: not_le)
      ultimately show ?thesis using Some False by (subst evict_loop.simps) simp
    qed
  qed
qed

text \<open>The state after the cached blocks of an authority up to round \<open>ev\<close> were dropped.\<close>

definition evicted :: "authority_index \<Rightarrow> round \<Rightarrow> dag_state \<Rightarrow> dag_state" where
  "evicted a ev ds =
     ds\<lparr>ds_recent_blocks := fmfilter (\<lambda>r. \<not> (br_author r = a \<and> br_round r \<le> ev)) (ds_recent_blocks ds),
        ds_recent_refs := (ds_recent_refs ds)[a := ffilter (\<lambda>r. ev < br_round r) (ds_recent_refs ds ! a)],
        ds_evicted_rounds := (ds_evicted_rounds ds)[a := ev]\<rparr>"

lemma evicted_simps [simp]:
  "ds_context (evicted a ev ds) = ds_context ds" "ds_genesis (evicted a ev ds) = ds_genesis ds"
  "ds_store (evicted a ev ds) = ds_store ds" "ds_cached_rounds (evicted a ev ds) = ds_cached_rounds ds"
  "ds_last_commit (evicted a ev ds) = ds_last_commit ds"
  "ds_last_committed_rounds (evicted a ev ds) = ds_last_committed_rounds ds"
  "ds_blocks_to_write (evicted a ev ds) = ds_blocks_to_write ds"
  "ds_commits_to_write (evicted a ev ds) = ds_commits_to_write ds"
  "ds_threshold_clock (evicted a ev ds) = ds_threshold_clock ds"
  "fmlookup (ds_recent_blocks (evicted a ev ds)) r =
     (if br_author r = a \<and> br_round r \<le> ev then None else fmlookup (ds_recent_blocks ds) r)"
  "ds_recent_refs (evicted a ev ds) =
     (ds_recent_refs ds)[a := ffilter (\<lambda>r. ev < br_round r) (ds_recent_refs ds ! a)]"
  "ds_evicted_rounds (evicted a ev ds) = (ds_evicted_rounds ds)[a := ev]"
  by (auto simp: evicted_def)

lemma evict_authority_eq:
  assumes "cache_inv ds" "a < ds_size ds"
  shows "evict_authority (a, x) ds =
    Some (evicted a (eviction_round (last_round_of ds a) (gc_round ds) (ds_cached_rounds ds)) ds)"
proof -
  let ?ev = "eviction_round (last_round_of ds a) (gc_round ds) (ds_cached_rounds ds)"
  have "fmfilter (\<lambda>r. \<not> (r |\<in>| ds_recent_refs ds ! a \<and> br_round r \<le> ?ev)) (ds_recent_blocks ds) =
      fmfilter (\<lambda>r. \<not> (br_author r = a \<and> br_round r \<le> ?ev)) (ds_recent_blocks ds)"
    using assms by (intro fmap_ext) (auto simp: cache_inv_def fmlookup_dom_iff)
  moreover have "calculate_authority_eviction_round ds a = Some ?ev"
    using assms by (simp add: calculate_authority_eviction_round_def cache_inv_def last_round_of_def)
  moreover have "a < length (ds_recent_refs ds)" "a < length (ds_evicted_rounds ds)"
    using assms by (simp_all add: cache_inv_def)
  ultimately show ?thesis
    by (simp add: evict_authority_def evict_loop_eq evicted_def)
qed

text \<open>The last block of an authority survives, because some rounds are always kept.\<close>

lemma top_round_evicted:
  assumes "0 < k" "ev \<le> top_round S - k" "\<forall>r. r |\<in>| S \<longrightarrow> 0 < br_round r"
  shows "top_round (ffilter (\<lambda>r. ev < br_round r) S) = top_round S"
    and "S \<noteq> {||} \<Longrightarrow> ffilter (\<lambda>r. ev < br_round r) S \<noteq> {||}"
proof -
  have *: "\<exists>r. r |\<in>| ffilter (\<lambda>r. ev < br_round r) S \<and> br_round r = top_round S" if ne: "S \<noteq> {||}"
  proof -
    obtain r where "r |\<in>| S" "br_round r = top_round S" using top_round_in[OF ne] by blast
    moreover from this have "ev < br_round r" using assms by auto
    ultimately show ?thesis by (intro exI[of _ r]) auto
  qed
  show "S \<noteq> {||} \<Longrightarrow> ffilter (\<lambda>r. ev < br_round r) S \<noteq> {||}" using * by blast
  have "top_round (ffilter (\<lambda>r. ev < br_round r) S) \<le> top_round S" by (rule top_round_mono) auto
  moreover have "top_round S \<le> top_round (ffilter (\<lambda>r. ev < br_round r) S)" if "S \<noteq> {||}"
    using *[OF that] top_round_ge by metis
  ultimately show "top_round (ffilter (\<lambda>r. ev < br_round r) S) = top_round S"
    by (cases "S = {||}") (auto simp: top_round_def GENESIS_ROUND_def)
qed

lemma last_round_evicted:
  assumes "cache_inv ds" "0 < ds_cached_rounds ds" "a < ds_size ds"
    and "ev \<le> last_round_of ds a - ds_cached_rounds ds"
  shows "last_round_of (evicted a ev ds) i = last_round_of ds i"
    and "ds_recent_refs ds ! i \<noteq> {||} \<Longrightarrow> ds_recent_refs (evicted a ev ds) ! i \<noteq> {||}"
proof -
  have pos: "\<forall>r. r |\<in>| ds_recent_refs ds ! a \<longrightarrow> 0 < br_round r"
    using assms(1,3) by (auto simp: cache_inv_def fmlookup_dom_iff)
  note t = top_round_evicted[OF assms(2) assms(4)[unfolded last_round_of_top] pos]
  have len: "a < length (ds_recent_refs ds)" using assms(1,3) by (simp add: cache_inv_def)
  show "last_round_of (evicted a ev ds) i = last_round_of ds i"
    using t(1) len by (cases "i = a") (simp_all add: last_round_of_top)
  show "ds_recent_refs (evicted a ev ds) ! i \<noteq> {||}" if "ds_recent_refs ds ! i \<noteq> {||}"
    using t(2) len that by (cases "i = a") simp_all
qed

lemma evicted_inv:
  assumes inv: "dag_inv ds" and none: "ds_blocks_to_write ds = []" and a: "a < ds_size ds"
  defines "ev \<equiv> eviction_round (last_round_of ds a) (gc_round ds) (ds_cached_rounds ds)"
  shows "dag_inv (evicted a ev ds) \<and> lookup_block (evicted a ev ds) = lookup_block ds"
proof -
  let ?ds = "evicted a ev ds"
  have parts: "genesis_inv ds" "cache_inv ds" "store_inv ds" "evict_inv ds" "clock_ok ds"
    using inv by (auto simp: dag_inv_def)
  have k: "0 < ds_cached_rounds ds" using parts(1) by (simp add: genesis_inv_def)
  have ev: "ev \<le> last_round_of ds a - ds_cached_rounds ds" by (simp add: ev_def eviction_round_def)
  note last = last_round_evicted[OF parts(2) k a ev]
  have old: "ds_evicted_rounds ds ! a \<le> ev" using parts(4) a by (simp add: evict_inv_def ev_def)
  have len: "length (ds_evicted_rounds ds) = ds_size ds" "length (ds_recent_refs ds) = ds_size ds"
    using parts(2) by (auto simp: cache_inv_def)
  have stored: "mem_lookup (ds_store ds) r = Some (bi_block bi)"
    if "fmlookup (ds_recent_blocks ds) r = Some bi" for r bi
    using parts(3) none that by (auto simp: store_inv_def)
  have "genesis_inv ?ds" using parts(1) by (simp add: genesis_inv_def)
  moreover have look: "lookup_block ?ds = lookup_block ds"
    using stored by (auto simp: lookup_block_def fun_eq_iff split: option.split)
  moreover have "clock_ok ?ds" using parts(5) clock_ok_cong[of ?ds ds] look by simp
  moreover have "cache_inv ?ds"
    using parts(2) a unfolding cache_inv_def
    by (auto simp: nth_list_update fmlookup_dom_iff split: if_splits)
  moreover have "store_inv ?ds"
  proof -
    have "br_round r \<le> (ds_evicted_rounds ds)[a := ev] ! br_author r \<and>
        ds_recent_refs ds ! br_author r \<noteq> {||} \<and> br_round r \<le> last_round_of ds (br_author r)"
      if m: "mem_lookup (ds_store ds) r = Some b" and
        n: "(if br_author r = a \<and> br_round r \<le> ev then None else fmlookup (ds_recent_blocks ds) r) = None"
      for r b
    proof (cases "fmlookup (ds_recent_blocks ds) r")
      case None
      then show ?thesis
        using parts(3) m old len a by (cases "br_author r = a") (auto simp: store_inv_def)
    next
      case (Some bi)
      then have "br_author r = a" "br_round r \<le> ev" using n by (auto split: if_splits)
      moreover have "r |\<in>| ds_recent_refs ds ! a"
        using Some parts(2) a \<open>br_author r = a\<close> by (auto simp: cache_inv_def fmdomI)
      ultimately show ?thesis
        using a len top_round_ge[of r "ds_recent_refs ds ! a"] by (auto simp: last_round_of_top)
    qed
    with parts(3) none last show ?thesis
      unfolding store_inv_def by (auto split: if_splits)
  qed
  moreover have "evict_inv ?ds"
  proof -
    have "gc_round ?ds = gc_round ds" by (rule gc_round_cong) simp_all
    moreover have "eviction_round (last_round_of ds a) (gc_round ds) (ds_cached_rounds ds) = ev"
      by (simp add: ev_def)
    ultimately show ?thesis
      using parts(4) len a by (auto simp: evict_inv_def last(1) nth_list_update)
  qed
  ultimately show ?thesis by (simp add: dag_inv_def)
qed

text \<open>Writing the buffers: what waited is now in the store, and nothing known changes.\<close>

definition written :: "dag_state \<Rightarrow> dag_state" where
  "written ds = ds\<lparr>ds_blocks_to_write := [], ds_commits_to_write := [], ds_commit_info_to_write := [],
     ds_finalized_commits_to_write := [],
     ds_store := store_write \<lparr>wb_blocks = ds_blocks_to_write ds, wb_commits = ds_commits_to_write ds,
       wb_commit_info = ds_commit_info_to_write ds,
       wb_finalized_commits = ds_finalized_commits_to_write ds\<rparr> (ds_store ds)\<rparr>"

lemma written_lookup:
  assumes "dag_inv ds"
  shows "mem_lookup (ds_store (written ds)) r =
     (case fmlookup (ds_recent_blocks ds) r of Some bi \<Rightarrow> Some (bi_block bi) | None \<Rightarrow> mem_lookup (ds_store ds) r)"
proof (cases "batch_lookup (ds_blocks_to_write ds) r")
  case None
  then have "r \<notin> reference ` set (ds_blocks_to_write ds)" by (simp add: batch_lookup_None)
  then have "mem_lookup (ds_store ds) r = Some (bi_block bi)"
    if "fmlookup (ds_recent_blocks ds) r = Some bi" for bi
    using assms that unfolding dag_inv_def cache_inv_def store_inv_def by (metis image_eqI)
  with None show ?thesis by (auto simp: written_def mem_lookup_write split: option.split)
next
  case (Some b)
  then have "b \<in> set (ds_blocks_to_write ds)" "reference b = r" by (auto dest: batch_lookup_SomeD)
  with assms have "\<exists>bi. fmlookup (ds_recent_blocks ds) r = Some bi \<and> bi_block bi = b"
    unfolding dag_inv_def store_inv_def by blast
  with Some show ?thesis by (auto simp: written_def mem_lookup_write)
qed

lemma written_inv:
  assumes inv: "dag_inv ds"
  shows "dag_inv (written ds)" "lookup_block (written ds) = lookup_block ds"
proof -
  let ?ds = "written ds"
  have f: "ds_context ?ds = ds_context ds" "ds_genesis ?ds = ds_genesis ds"
      "ds_recent_blocks ?ds = ds_recent_blocks ds" "ds_recent_refs ?ds = ds_recent_refs ds"
      "ds_evicted_rounds ?ds = ds_evicted_rounds ds" "ds_cached_rounds ?ds = ds_cached_rounds ds"
      "ds_threshold_clock ?ds = ds_threshold_clock ds" "ds_last_commit ?ds = ds_last_commit ds"
      "ds_last_committed_rounds ?ds = ds_last_committed_rounds ds" "ds_blocks_to_write ?ds = []"
    by (simp_all add: written_def)
  have l: "last_round_of ?ds a = last_round_of ds a" for a by (simp add: last_round_of_def f)
  have parts: "genesis_inv ds" "cache_inv ds" "store_inv ds" "evict_inv ds" "clock_ok ds"
    using inv by (auto simp: dag_inv_def)
  show look: "lookup_block ?ds = lookup_block ds"
    by (auto simp: lookup_block_def f written_lookup[OF inv] fun_eq_iff split: option.split)
  have "genesis_inv ?ds" "cache_inv ?ds"
    using parts(1,2) by (simp_all add: genesis_inv_def cache_inv_def f)
  moreover have "clock_ok ?ds" using parts(5) clock_ok_cong[OF f(1,7) look] by simp
  moreover have "evict_inv ?ds"
    using parts(4) gc_round_cong[OF f(8,1)] by (simp add: evict_inv_def f l)
  moreover have "store_inv ?ds"
  proof -
    have "mem_inv (ds_store ?ds)" using parts(3) by (simp add: written_def store_inv_def mem_inv_write)
    with parts(2,3) show ?thesis
      unfolding store_inv_def
      by (auto simp: f l written_lookup[OF inv] cache_inv_def split: option.splits)
  qed
  ultimately show "dag_inv ?ds" by (simp add: dag_inv_def)
qed

definition buffers_empty :: "dag_state \<Rightarrow> bool" where
  "buffers_empty ds \<longleftrightarrow> ds_blocks_to_write ds = [] \<and> ds_commits_to_write ds = [] \<and>
     ds_commit_info_to_write ds = [] \<and> ds_finalized_commits_to_write ds = []"

lemma evict_all:
  assumes inv: "dag_inv ds" and none: "buffers_empty ds"
    and xs: "\<forall>(a, x) \<in> set xs. a < ds_size ds"
  shows "\<exists>ds'. try_fold evict_authority xs ds = Some ds' \<and> dag_inv ds' \<and>
           lookup_block ds' = lookup_block ds \<and> same_frame ds ds' \<and> ds_store ds' = ds_store ds \<and>
           buffers_empty ds'"
proof (rule try_fold_total)
  let ?I = "\<lambda>ds'. dag_inv ds' \<and> lookup_block ds' = lookup_block ds \<and> same_frame ds ds' \<and>
      ds_store ds' = ds_store ds \<and> buffers_empty ds'"
  show "?I ds" using inv none by simp
  fix p s assume p: "p \<in> set xs" and I: "?I s"
  obtain a x where p': "p = (a, x)" by (cases p)
  have a: "a < ds_size s" using xs p I by (auto simp: p' same_frame_def)
  have "evict_authority p s = Some (evicted a
      (eviction_round (last_round_of s a) (gc_round s) (ds_cached_rounds s)) s)"
    using evict_authority_eq[of s a x] I a by (simp add: p' dag_inv_def)
  with evicted_inv[of s a] I a
  show "\<exists>s'. evict_authority p s = Some s' \<and> ?I s'"
    by (auto simp: same_frame_def buffers_empty_def evicted_def)
qed

lemma flush_spec:
  assumes inv: "dag_inv ds"
  shows "\<exists>ds'. flush ds = Some ds' \<and> dag_inv ds' \<and> lookup_block ds' = lookup_block ds \<and>
           same_frame ds ds' \<and> buffers_empty ds' \<and> ds_store ds' = ds_store (written ds) \<and>
           (\<forall>r. 0 < br_round r \<longrightarrow> mem_lookup (ds_store ds') r = lookup_block ds' r)"
proof -
  let ?w = "written ds"
  have stored: "mem_lookup (ds_store ?w) r = lookup_block ?w r" if "0 < br_round r" for r
    unfolding written_inv(2)[OF inv] using that
    by (simp add: written_lookup[OF inv] lookup_block_def GENESIS_ROUND_def)
  have frame: "same_frame ds ?w" "buffers_empty ?w" by (simp_all add: written_def same_frame_def buffers_empty_def)
  have "\<forall>(a, x) \<in> set (committee_authorities (ds_committee ds)). a < ds_size ?w"
    by (auto simp: committee_authorities_def committee_size_def in_set_enumerate_eq written_def)
  from evict_all[OF written_inv(1)[OF inv] frame(2) this] obtain ds' where
    ds': "try_fold evict_authority (committee_authorities (ds_committee ds)) ?w = Some ds'"
      "dag_inv ds'" "lookup_block ds' = lookup_block ?w" "same_frame ?w ds'"
      "ds_store ds' = ds_store ?w" "buffers_empty ds'"
    by blast
  show ?thesis
  proof (cases "ds_blocks_to_write ds = [] \<and> ds_commits_to_write ds = [] \<and>
      ds_commit_info_to_write ds = [] \<and> ds_finalized_commits_to_write ds = []")
    case True
    then have "flush ds = Some ds" "?w = ds"
      by (auto simp: flush_def Let_def written_def store_write_def)
    with inv stored frame show ?thesis by auto
  next
    case False
    then have "flush ds = try_fold evict_authority (committee_authorities (ds_committee ds)) ?w"
      by (auto simp: flush_def Let_def written_def)
    with ds' stored written_inv(2)[OF inv] same_frame_trans[OF frame(1) ds'(4)] show ?thesis by auto
  qed
qed

section \<open>The other operations\<close>

text \<open>Changing only the marks of cached blocks keeps the invariant and the known blocks.\<close>

definition same_blocks :: "(block_ref, block_info) fmap \<Rightarrow> (block_ref, block_info) fmap \<Rightarrow> bool" where
  "same_blocks m m' \<longleftrightarrow> (\<forall>r. map_option bi_block (fmlookup m' r) = map_option bi_block (fmlookup m r))"

lemma same_blocks_refl [simp]: "same_blocks m m"
  by (simp add: same_blocks_def)

lemma same_blocks_trans: "same_blocks a b \<Longrightarrow> same_blocks b c \<Longrightarrow> same_blocks a c"
  by (simp add: same_blocks_def)

lemma same_blocks_upd:
  "fmlookup m r = Some bi \<Longrightarrow> bi_block bi' = bi_block bi \<Longrightarrow> same_blocks m (fmupd r bi' m)"
  by (simp add: same_blocks_def)

lemma marks_inv:
  assumes inv: "dag_inv ds" and same: "same_blocks (ds_recent_blocks ds) m"
  shows "dag_inv (ds\<lparr>ds_recent_blocks := m\<rparr>) \<and> lookup_block (ds\<lparr>ds_recent_blocks := m\<rparr>) = lookup_block ds"
proof -
  let ?ds = "ds\<lparr>ds_recent_blocks := m\<rparr>"
  have eq: "map_option bi_block (fmlookup m r) = map_option bi_block (fmlookup (ds_recent_blocks ds) r)" for r
    using same by (simp add: same_blocks_def)
  have none: "fmlookup m r = None \<longleftrightarrow> fmlookup (ds_recent_blocks ds) r = None" for r
    using eq[of r] by (metis option.map_disc_iff)
  have some: "\<exists>bi'. fmlookup (ds_recent_blocks ds) r = Some bi' \<and> bi_block bi' = bi_block bi"
    if "fmlookup m r = Some bi" for r bi
    using eq[of r] that by (cases "fmlookup (ds_recent_blocks ds) r") auto
  have some': "\<exists>bi'. fmlookup m r = Some bi' \<and> bi_block bi' = bi_block bi"
    if "fmlookup (ds_recent_blocks ds) r = Some bi" for r bi using eq[of r] that by auto
  have dom: "fmdom m = fmdom (ds_recent_blocks ds)"
    using none by (auto simp: fset_eq_iff fmlookup_dom_iff) (metis not_None_eq)+
  have parts: "genesis_inv ds" "cache_inv ds" "store_inv ds" "evict_inv ds" "clock_ok ds"
    using inv by (auto simp: dag_inv_def)
  have l: "last_round_of ?ds a = last_round_of ds a" for a by (simp add: last_round_of_def)
  have look: "lookup_block ?ds r = lookup_block ds r" for r
    using eq[of r] none[of r]
    by (cases "fmlookup m r"; cases "fmlookup (ds_recent_blocks ds) r") (auto simp: lookup_block_def)
  have "genesis_inv ?ds" "clock_ok ?ds" using parts(1,5) clock_ok_cong[of ?ds ds] look by (simp_all add: genesis_inv_def fun_eq_iff)
  moreover have "evict_inv ?ds"
    using parts(4) gc_round_cong[of ?ds ds] by (simp add: evict_inv_def l)
  moreover have "cache_inv ?ds"
    using parts(2) some unfolding cache_inv_def by (simp add: dom) metis
  moreover have "store_inv ?ds"
  proof -
    have 1: "mem_lookup (ds_store ds) r = Some (bi_block bi) \<or>
        mem_lookup (ds_store ds) r = None \<and> bi_block bi \<in> set (ds_blocks_to_write ds)"
      if "fmlookup m r = Some bi" for r bi
      using some[OF that] store_invD(3)[OF parts(3), of r] by force
    have 2: "\<exists>bi. fmlookup m (reference b) = Some bi \<and> bi_block bi = b"
      if b: "b \<in> set (ds_blocks_to_write ds)" for b
    proof -
      obtain bi where "fmlookup (ds_recent_blocks ds) (reference b) = Some bi" "bi_block bi = b"
        using store_invD(4)[OF parts(3) b] by blast
      with some'[of "reference b" bi] show ?thesis by auto
    qed
    show ?thesis
      unfolding store_inv_def
      using 1 2 store_invD(1,2,5)[OF parts(3)] by (simp add: l none)
  qed
  ultimately show ?thesis using look by (auto simp: dag_inv_def)
qed

lemma set_committed_inv:
  assumes "dag_inv ds" "set_committed r ds = Some (ds', fresh)"
  shows "dag_inv ds' \<and> lookup_block ds' = lookup_block ds"
proof -
  obtain bi where bi: "fmlookup (ds_recent_blocks ds) r = Some bi"
    using assms(2) by (auto simp: set_committed_def bind_eq_Some_conv)
  show ?thesis
    using assms(2) bi marks_inv[OF assms(1) same_blocks_upd[OF bi, of "bi\<lparr>bi_committed := True\<rparr>"]] assms(1)
    by (auto simp: set_committed_def split: if_splits)
qed

lemma link_loop_same:
  "link_loop gc ts m linked = Some (m', out) \<Longrightarrow> same_blocks m m'"
proof (induction gc ts m linked rule: link_loop.induct)
  case (2 gc r targets recent linked)
  have upd: "same_blocks recent (fmupd r (bi\<lparr>bi_included := True\<rparr>) recent)"
    if "fmlookup recent r = Some bi" for bi
    by (rule same_blocks_upd[OF that]) simp
  from 2 show ?case
    by (auto split: if_splits option.splits intro: same_blocks_trans[OF upd])
qed simp

declare link_loop.simps [simp del]

lemma link_causal_history_inv:
  assumes "dag_inv ds" "link_causal_history root ds = Some (ds', out)"
  shows "dag_inv ds' \<and> lookup_block ds' = lookup_block ds"
  using assms(2) marks_inv[OF assms(1) link_loop_same]
  by (auto simp: link_causal_history_def bind_eq_Some_conv)

lemma lookup_buffers [simp]:
  "lookup_block (ds\<lparr>ds_pending_commit_votes := v\<rparr>) = lookup_block ds"
  "lookup_block (ds\<lparr>ds_scoring_subdag := s\<rparr>) = lookup_block ds"
  "lookup_block (ds\<lparr>ds_finalized_commits_to_write := f\<rparr>) = lookup_block ds"
  "lookup_block (ds\<lparr>ds_commit_info_to_write := i\<rparr>) = lookup_block ds"
  "lookup_block (ds\<lparr>ds_commits_to_write := cs\<rparr>) = lookup_block ds"
  "lookup_block (ds\<lparr>ds_last_commit := c\<rparr>) = lookup_block ds"
  "lookup_block (ds\<lparr>ds_last_commit_time := t\<rparr>) = lookup_block ds"
  "lookup_block (ds\<lparr>ds_last_committed_rounds := rs\<rparr>) = lookup_block ds"
  by (simp_all add: lookup_block_def fun_eq_iff cong: option.case_cong)

text \<open>Fields the invariant does not read.\<close>

lemma dag_inv_buffers:
  assumes "dag_inv ds"
  shows "dag_inv (ds\<lparr>ds_pending_commit_votes := v\<rparr>)" "dag_inv (ds\<lparr>ds_scoring_subdag := s\<rparr>)"
    "dag_inv (ds\<lparr>ds_finalized_commits_to_write := f\<rparr>)" "dag_inv (ds\<lparr>ds_commit_info_to_write := i\<rparr>)"
    "dag_inv (ds\<lparr>ds_commits_to_write := cs\<rparr>)" "dag_inv (ds\<lparr>ds_last_commit_time := t\<rparr>)"
  using assms
  by (simp_all add: dag_inv_def genesis_inv_def cache_inv_def store_inv_def evict_inv_def clock_ok_def
      last_round_of_def gc_round_def calculate_gc_round_def last_commit_round_def)

text \<open>A commit advances the garbage collection round, never the evicted rounds.\<close>

lemma commit_round_inv:
  assumes "dag_inv ds" "last_commit_round ds \<le> tc_commit_round c" "length rs = ds_size ds"
  shows "dag_inv (ds\<lparr>ds_last_commit := Some c, ds_last_committed_rounds := rs\<rparr>)"
proof -
  let ?ds = "ds\<lparr>ds_last_commit := Some c, ds_last_committed_rounds := rs\<rparr>"
  have "gc_round ds \<le> gc_round ?ds"
    using assms(2)
    by (auto simp: gc_round_def calculate_gc_round_def last_commit_round_def tc_commit_round_leader
        split: option.splits)
  then have "eviction_round (last_round_of ds a) (gc_round ds) (ds_cached_rounds ds) \<le>
      eviction_round (last_round_of ?ds a) (gc_round ?ds) (ds_cached_rounds ?ds)" for a
    by (simp add: eviction_round_mono last_round_of_def)
  then have "evict_inv ?ds"
    using assms(1) unfolding dag_inv_def evict_inv_def by (auto intro: order_trans)
  moreover have "genesis_inv ?ds" "cache_inv ?ds" "store_inv ?ds" "clock_ok ?ds"
    using assms(1,3)
    by (simp_all add: dag_inv_def genesis_inv_def cache_inv_def store_inv_def clock_ok_def
        last_round_of_def)
  ultimately show ?thesis by (simp add: dag_inv_def)
qed

lemma update_committed_rounds_ok:
  assumes "\<forall>r \<in> set refs. br_author r < length rounds"
  shows "\<exists>rounds'. update_committed_rounds refs rounds = Some rounds' \<and> length rounds' = length rounds \<and>
           (\<forall>a < length rounds. rounds' ! a =
              Max (insert (rounds ! a) (br_round ` {r \<in> set refs. br_author r = a})))"
  using assms
proof (induction refs arbitrary: rounds)
  case Nil
  then show ?case by (simp add: update_committed_rounds_def)
next
  case (Cons r refs)
  let ?r1 = "rounds[br_author r := max (rounds ! br_author r) (br_round r)]"
  obtain rounds' where r': "update_committed_rounds refs ?r1 = Some rounds'"
      "length rounds' = length rounds"
      "\<forall>a < length rounds. rounds' ! a =
         Max (insert (?r1 ! a) (br_round ` {r \<in> set refs. br_author r = a}))"
    using Cons.IH[of ?r1] Cons.prems by auto
  have "Max (insert (?r1 ! a) (br_round ` {q \<in> set refs. br_author q = a})) =
      Max (insert (rounds ! a) (br_round ` {q \<in> set (r # refs). br_author q = a}))"
    if a: "a < length rounds" for a
  proof (cases "br_author r = a")
    case True
    have "{q \<in> set (r # refs). br_author q = a} = insert r {q \<in> set refs. br_author q = a}"
      using True by auto
    moreover have "?r1 ! a = max (rounds ! a) (br_round r)" using True a by simp
    moreover have "Max (insert (max x y) S) = Max (insert x (insert y S))" if "finite S" for x y :: nat and S
      using that by (cases "S = {}") (auto simp: max.assoc)
    ultimately show ?thesis by simp
  next
    case False
    then have "{q \<in> set (r # refs). br_author q = a} = {q \<in> set refs. br_author q = a}" by auto
    with False show ?thesis by simp
  qed
  with r' Cons.prems show ?case by (auto simp: update_committed_rounds_def)
qed

lemma add_commit_spec:
  assumes inv: "dag_inv ds"
    and next_idx: "tc_index c = last_commit_index ds + 1"
    and ts: "last_commit_timestamp_ms ds \<le> tc_timestamp_ms c"
    and rnd: "last_commit_round ds \<le> tc_commit_round c"
    and auth: "\<forall>r \<in> set (tc_blocks c). br_author r < ds_size ds"
  shows "\<exists>ds'. add_commit now c ds = Some ds' \<and> dag_inv ds' \<and> lookup_block ds' = lookup_block ds \<and>
           ds_last_commit ds' = Some c \<and> ds_commits_to_write ds' = ds_commits_to_write ds @ [c] \<and>
           ds_pending_commit_votes ds' = ds_pending_commit_votes ds @ [tc_reference c] \<and>
           (\<forall>a < ds_size ds. ds_last_committed_rounds ds' ! a =
              Max (insert (ds_last_committed_rounds ds ! a) (br_round ` {r \<in> set (tc_blocks c). br_author r = a})))"
proof -
  have len: "length (ds_last_committed_rounds ds) = ds_size ds"
    using inv by (simp add: dag_inv_def cache_inv_def)
  obtain rounds where rounds: "update_committed_rounds (tc_blocks c) (ds_last_committed_rounds ds) = Some rounds"
      "length rounds = ds_size ds"
      "\<forall>a < ds_size ds. rounds ! a =
         Max (insert (ds_last_committed_rounds ds ! a) (br_round ` {r \<in> set (tc_blocks c). br_author r = a}))"
    using update_committed_rounds_ok[of "tc_blocks c" "ds_last_committed_rounds ds"] auth len by auto
  define t where "t = (if (case ds_last_commit ds of Some l \<Rightarrow> tc_commit_round l < tc_commit_round c | None \<Rightarrow> True)
      then Some now else ds_last_commit_time ds)"
  define ds' where "ds' = ds\<lparr>ds_last_commit := Some c, ds_last_commit_time := t, ds_last_committed_rounds := rounds,
      ds_pending_commit_votes := ds_pending_commit_votes ds @ [tc_reference c],
      ds_commits_to_write := ds_commits_to_write ds @ [c]\<rparr>"
  have "try_map (to_authority_index (ds_committee ds)) [0..<length rounds] = Some [0..<length rounds]"
    using try_map_total[of "[0..<length rounds]" "to_authority_index (ds_committee ds)" id] rounds(2)
    by (simp add: to_authority_index_def)
  then have "add_commit now c ds = Some ds'"
    using next_idx ts rounds(1)
    by (auto simp: add_commit_def ds'_def t_def last_commit_index_def last_commit_timestamp_ms_def Let_def
        bind_rust_assert split: option.splits)
  moreover have "dag_inv ds'"
  proof -
    have "ds' = (ds\<lparr>ds_last_commit := Some c, ds_last_committed_rounds := rounds\<rparr>)
        \<lparr>ds_last_commit_time := t, ds_pending_commit_votes := ds_pending_commit_votes ds @ [tc_reference c],
         ds_commits_to_write := ds_commits_to_write ds @ [c]\<rparr>"
      by (simp add: ds'_def)
    then show ?thesis using commit_round_inv[OF inv rnd rounds(2)] by (simp add: dag_inv_buffers)
  qed
  moreover have "lookup_block ds' = lookup_block ds"
    by (simp add: ds'_def lookup_block_def fun_eq_iff cong: option.case_cong)
  ultimately show ?thesis using rounds(3) by (auto simp: ds'_def)
qed

section \<open>The operations as a transition system\<close>

datatype dag_op =
    OpAccept verified_block
  | OpFlush
  | OpAddCommit trusted_commit
  | OpSetCommitted block_ref
  | OpLink block_ref
  | OpAddCommitInfo reputation_scores
  | OpAddFinalized commit_ref rejected_map
  | OpTakeVotes nat
  | OpAddScoring "committed_sub_dag list"
  | OpClearScoring

fun dag_exec :: "nat \<Rightarrow> dag_op \<Rightarrow> dag_state \<Rightarrow> dag_state option" where
  "dag_exec now (OpAccept b) ds = accept_block now b ds"
| "dag_exec now OpFlush ds = flush ds"
| "dag_exec now (OpAddCommit c) ds = add_commit now c ds"
| "dag_exec now (OpSetCommitted r) ds = map_option fst (set_committed r ds)"
| "dag_exec now (OpLink r) ds = map_option fst (link_causal_history r ds)"
| "dag_exec now (OpAddCommitInfo s) ds = add_commit_info s ds"
| "dag_exec now (OpAddFinalized r m) ds = Some (add_finalized_commit r m ds)"
| "dag_exec now (OpTakeVotes n) ds = Some (fst (take_commit_votes n ds))"
| "dag_exec now (OpAddScoring sds) ds = add_scoring_subdags sds ds"
| "dag_exec now OpClearScoring ds = Some (clear_scoring_subdag ds)"

text \<open>
  What the callers guarantee: blocks come from the block verifier (a positive round, an author of
  the committee) and own blocks do not equivocate; a new commit follows the last one.
\<close>

fun op_ok :: "dag_state \<Rightarrow> dag_op \<Rightarrow> bool" where
  "op_ok ds (OpAccept b) \<longleftrightarrow> 0 < vb_round b \<and> vb_author b < ds_size ds \<and>
     (vb_author b = ds_own_index ds \<and> lookup_block ds (reference b) = None \<longrightarrow>
      get_uncommitted_blocks_at_slot ds (slot_of_ref (reference b)) = [])"
| "op_ok ds (OpAddCommit c) \<longleftrightarrow>
     tc_index c = last_commit_index ds + 1 \<and> last_commit_timestamp_ms ds \<le> tc_timestamp_ms c \<and>
     last_commit_round ds \<le> tc_commit_round c \<and> (\<forall>r \<in> set (tc_blocks c). br_author r < ds_size ds)"
| "op_ok ds _ \<longleftrightarrow> True"

inductive dag_steps :: "dag_state \<Rightarrow> dag_op list \<Rightarrow> dag_state \<Rightarrow> bool" where
  dag_done: "dag_steps ds [] ds"
| dag_step: "op_ok ds opn \<Longrightarrow> dag_exec now opn ds = Some ds1 \<Longrightarrow> dag_steps ds1 ops ds2 \<Longrightarrow>
     dag_steps ds (opn # ops) ds2"

inductive_cases dag_steps_ConsE: "dag_steps ds (opn # ops) ds2"

text \<open>Every operation keeps the invariant, and the known blocks only grow.\<close>

lemma dag_exec_inv:
  assumes inv: "dag_inv ds" and ok: "op_ok ds opn" and ex: "dag_exec now opn ds = Some ds'"
  shows "dag_inv ds' \<and> lookup_block ds \<subseteq>\<^sub>m lookup_block ds'"
proof (cases opn)
  case (OpAccept b)
  then obtain d where "accept_block now b ds = Some d" "dag_inv d"
      "lookup_block d = (if lookup_block ds (reference b) = None
         then (lookup_block ds)(reference b \<mapsto> b) else lookup_block ds)"
    using accept_block_spec[OF inv, of b now] ok by auto
  with ex OpAccept show ?thesis by (auto simp: map_le_def)
next
  case OpFlush
  with ex flush_spec[OF inv] show ?thesis by auto
next
  case (OpAddCommit c)
  with ex ok add_commit_spec[OF inv, of c now] show ?thesis by auto
next
  case (OpSetCommitted r)
  with ex set_committed_inv[OF inv] show ?thesis by auto
next
  case (OpLink r)
  with ex link_causal_history_inv[OF inv] show ?thesis by auto
qed (use inv ex in \<open>auto simp: add_commit_info_def add_finalized_commit_def take_commit_votes_def
      add_scoring_subdags_def clear_scoring_subdag_def bind_eq_Some_conv dag_inv_buffers Let_def
      split: prod.splits\<close>)

lemma dag_steps_inv:
  "dag_steps ds ops ds' \<Longrightarrow> dag_inv ds \<Longrightarrow> dag_inv ds' \<and> lookup_block ds \<subseteq>\<^sub>m lookup_block ds'"
proof (induction rule: dag_steps.induct)
  case (dag_step ds opn now ds1 ops ds2)
  with dag_exec_inv[OF dag_step.prems dag_step.hyps(1,2)] show ?case by (auto intro: map_le_trans)
qed simp

end
