(* ===== verification/DagRecovery.thy ===== *)
theory DagRecovery
  imports DagInv
begin

text \<open>
  Starting the DAG state from an empty store, and the properties of runs of its operations from
  there: the invariant holds in every reachable state and no known block is lost or replaced.
\<close>

lemma genesis_distinct:
  assumes "genesis_blocks ser hash ctx = Some gs"
  shows "distinct (map reference gs)"
proof -
  have "map reference gs ! i \<noteq> map reference gs ! j" if "i < length gs" "j < length gs" "i \<noteq> j" for i j
  proof -
    have "vb_author (gs ! i) \<noteq> vb_author (gs ! j)"
      using genesis_blocks_shape(2)[OF assms] that by simp
    then have "br_author (reference (gs ! i)) \<noteq> br_author (reference (gs ! j))" by simp
    with that show ?thesis by (metis nth_map)
  qed
  then show ?thesis by (simp add: distinct_conv_nth)
qed

definition genesis_map :: "verified_block list \<Rightarrow> (block_ref, verified_block) fmap" where
  "genesis_map gs = fmap_of_list (map (\<lambda>b. (reference b, b)) (rev gs))"

lemma genesis_map_lookup:
  assumes "distinct (map reference gs)"
  shows "fmlookup (genesis_map gs) r = Some b \<longleftrightarrow> b \<in> set gs \<and> reference b = r"
proof -
  have "fst \<circ> (\<lambda>b. (reference b, b)) = reference" by (simp add: comp_def)
  then have "distinct (map fst (map (\<lambda>b. (reference b, b)) (rev gs)))"
    using assms by (simp add: rev_map[symmetric])
  then have "map_of (map (\<lambda>b. (reference b, b)) (rev gs)) r = Some b \<longleftrightarrow>
      (r, b) \<in> set (map (\<lambda>b. (reference b, b)) (rev gs))"
    by (rule map_of_eq_Some_iff)
  then show ?thesis by (auto simp: genesis_map_def fmlookup_of_list)
qed

definition fresh_state :: "node_context \<Rightarrow> nat \<Rightarrow> verified_block list \<Rightarrow> dag_state" where
  "fresh_state ctx now gs =
     \<lparr>ds_context = ctx, ds_genesis = genesis_map gs, ds_recent_blocks = fmempty,
      ds_recent_refs = replicate (committee_size (ctx_committee ctx)) {||},
      ds_threshold_clock = clock_new 1 now,
      ds_evicted_rounds = replicate (committee_size (ctx_committee ctx)) 0,
      ds_highest_accepted_round = 0, ds_last_commit = None, ds_last_commit_time = None,
      ds_last_committed_rounds = replicate (committee_size (ctx_committee ctx)) 0,
      ds_scoring_subdag = scoring_new, ds_pending_commit_votes = [],
      ds_blocks_to_write = [], ds_commits_to_write = [], ds_commit_info_to_write = [],
      ds_finalized_commits_to_write = [], ds_store = mem_store_new,
      ds_cached_rounds = p_dag_state_cached_rounds (ctx_parameters ctx)\<rparr>"

lemma empty_store_reads [simp]:
  "read_last_commit mem_store_new = None" "read_last_commit_info mem_store_new = None"
  "scan_blocks_by_author mem_store_new a r = Some []"
  "scan_last_blocks_by_author mem_store_new a n m = Some []"
proof -
  have range: "fs_range P {||} = []" for P :: "'k::linorder \<Rightarrow> bool"
  proof -
    have "set (fs_range P {||}) = {}" by simp
    then show ?thesis by (simp only: set_empty)
  qed
  show "read_last_commit mem_store_new = None" "read_last_commit_info mem_store_new = None"
    by (simp_all add: read_last_commit_def read_last_commit_info_def mem_store_new_def fm_last_def)
  show "scan_blocks_by_author mem_store_new a r = Some []"
    by (simp add: scan_blocks_by_author_def mem_store_new_def range store_read_blocks_def)
  show "scan_last_blocks_by_author mem_store_new a n m = Some []"
    by (simp add: scan_last_blocks_by_author_def mem_store_new_def range store_read_blocks_def)
qed

lemma dag_state_new_fresh:
  assumes "genesis_blocks ser hash ctx = Some gs"
  shows "dag_state_new ser hash now ctx mem_store_new = Some (fresh_state ctx now gs)"
proof -
  have init: "dag_state_init ser hash now ctx mem_store_new = Some (fresh_state ctx now gs)"
    using assms by (simp add: dag_state_init_def add_subdags_def fresh_state_def genesis_map_def
        GENESIS_COMMIT_INDEX_def Let_def)
  have "recover_authority now (a, x) (fresh_state ctx now gs) = Some (fresh_state ctx now gs)"
    if "a < committee_size (ctx_committee ctx)" for a x
  proof -
    have "(replicate n (0::nat))[a := 0] = replicate n 0" for n
      by (metis list_update_id nth_replicate list_update_beyond length_replicate not_less)
    with that show ?thesis
      by (simp add: recover_authority_def fresh_state_def eviction_round_def GENESIS_ROUND_def)
  qed
  then have "try_fold (recover_authority now) xs (fresh_state ctx now gs) = Some (fresh_state ctx now gs)"
    if "\<forall>(a, x) \<in> set xs. a < committee_size (ctx_committee ctx)" for xs
    using that by (induction xs) auto
  moreover have "\<forall>(a, x) \<in> set (committee_authorities (ctx_committee ctx)). a < committee_size (ctx_committee ctx)"
    by (auto simp: committee_authorities_def committee_size_def in_set_enumerate_eq)
  ultimately have "try_fold (recover_authority now) (committee_authorities (ctx_committee ctx))
      (fresh_state ctx now gs) = Some (fresh_state ctx now gs)" by blast
  with init show ?thesis by (simp add: dag_state_new_def) (simp add: fresh_state_def)
qed

lemma fresh_inv:
  assumes gs: "genesis_blocks ser hash ctx = Some gs" and "committee_wf (ctx_committee ctx)"
    and "ctx_own_index ctx < committee_size (ctx_committee ctx)"
    and "0 < p_dag_state_cached_rounds (ctx_parameters ctx)"
  shows "dag_inv (fresh_state ctx now gs)"
    and "lookup_block (fresh_state ctx now gs) r = Some b \<longleftrightarrow> b \<in> set gs \<and> reference b = r"
proof -
  let ?ds = "fresh_state ctx now gs"
  note look = genesis_map_lookup[OF genesis_distinct[OF gs]]
  have shape: "vb_round b = 0 \<and> vb_ancestors b = []" if "b \<in> set gs" for b
    using genesis_blocks_shape(2)[OF gs] that by (metis in_set_conv_nth)
  have f: "ds_context ?ds = ctx" "ds_genesis ?ds = genesis_map gs" "ds_recent_blocks ?ds = fmempty"
      "ds_store ?ds = mem_store_new" "ds_cached_rounds ?ds = p_dag_state_cached_rounds (ctx_parameters ctx)"
      "ds_blocks_to_write ?ds = []"
      "ds_recent_refs ?ds = replicate (committee_size (ctx_committee ctx)) {||}"
      "ds_evicted_rounds ?ds = replicate (committee_size (ctx_committee ctx)) 0"
      "ds_last_committed_rounds ?ds = replicate (committee_size (ctx_committee ctx)) 0"
      "ds_threshold_clock ?ds = clock_new 1 now"
    by (simp_all add: fresh_state_def)
  have "\<exists>r. r |\<in>| fmdom (genesis_map gs) \<and> br_author r = a" if "a < committee_size (ctx_committee ctx)" for a
  proof -
    have a: "a < length gs" using that genesis_blocks_shape(1)[OF gs] by simp
    then have "fmlookup (genesis_map gs) (reference (gs ! a)) = Some (gs ! a)" by (simp add: look)
    moreover have "br_author (reference (gs ! a)) = a" using genesis_blocks_shape(2)[OF gs a] by simp
    ultimately show ?thesis by (intro exI[of _ "reference (gs ! a)"]) (auto simp: fmdomI)
  qed
  note ex = this
  have one: "r' = r \<and> br_author r < committee_size (ctx_committee ctx)"
    if r: "r |\<in>| fmdom (genesis_map gs)" "r' |\<in>| fmdom (genesis_map gs)" "br_author r' = br_author r" for r r'
  proof -
    obtain i j where i: "i < length gs" "r = reference (gs ! i)" and j: "j < length gs" "r' = reference (gs ! j)"
      using r(1,2) by (auto simp: fmlookup_dom_iff look in_set_conv_nth)
    then have "br_author r = i" "br_author r' = j" using genesis_blocks_shape(2)[OF gs] by auto
    then show ?thesis using i j r(3) genesis_blocks_shape(1)[OF gs] by simp
  qed
  have "one_per_authority (committee_size (ctx_committee ctx)) (genesis_map gs)"
    unfolding one_per_authority_def using one by blast
  then have "genesis_inv ?ds"
    using ex assms(2-4) shape by (auto simp: genesis_inv_def f look)
  moreover have "cache_inv ?ds" by (simp add: cache_inv_def f)
  moreover have "store_inv ?ds"
    by (simp add: store_inv_def f mem_inv_new) (simp add: mem_lookup_def mem_store_new_def)
  moreover have "evict_inv ?ds" by (simp add: evict_inv_def f)
  moreover have "clock_ok ?ds"
  proof -
    have none: "proper_refs ?ds = {}"
      by (auto simp: lookup_block_def f mem_lookup_def mem_store_new_def GENESIS_ROUND_def)
    have clk: "clock_inv (ctx_committee ctx) 1 {} (clock_new 1 now)" by (rule clock_inv_new[OF assms(2)])
    moreover have "aggregator_inv (ctx_committee ctx) (tc_aggregator (clock_new 1 now))"
      using clk unfolding clock_inv_def by blast
    ultimately show ?thesis unfolding clock_ok_def f none by blast
  qed
  ultimately show "dag_inv ?ds" by (simp add: dag_inv_def)
  have "lookup_block ?ds r = fmlookup (genesis_map gs) r"
  proof (cases "br_round r = 0")
    case False
    then have "fmlookup (genesis_map gs) r = None"
      using look[of r] shape by (metis not_None_eq reference_simps(1))
    with False show ?thesis
      by (simp add: lookup_block_def f GENESIS_ROUND_def) (simp add: mem_lookup_def mem_store_new_def)
  qed (simp add: lookup_block_def f GENESIS_ROUND_def)
  then show "lookup_block ?ds r = Some b \<longleftrightarrow> b \<in> set gs \<and> reference b = r" by (simp add: look)
qed

section \<open>A concrete context\<close>

text \<open>Four authorities with stake 1; serialization gives the author, the digest its first byte.\<close>

definition example_parameters :: parameters where
  "example_parameters = parameters_default\<lparr>p_dag_state_cached_rounds := 2\<rparr>"

definition example_config :: protocol_config where
  "example_config = \<lparr>pc_consensus_gc_depth = Some 3, pc_consensus_bad_nodes_stake_threshold = Some 20,
     pc_consensus_max_transactions_in_block_bytes = None,
     pc_consensus_max_num_transactions_in_block = None, pc_consensus_max_transaction_size_bytes = None,
     pc_mysticeti_num_leaders_per_round = Some 1, pc_mysticeti_fastpath = False\<rparr>"

definition example_ctx :: node_context where
  "example_ctx = \<lparr>ctx_epoch_start_timestamp_ms = 0, ctx_own_index = 0, ctx_committee = committee4,
     ctx_parameters = example_parameters, ctx_protocol_config = example_config\<rparr>"

definition example_ser :: "signed_block \<Rightarrow> bytes option" where
  "example_ser sb = Some [word_of_nat (block_author (sb_inner sb))]"

definition example_hash :: "bytes \<Rightarrow> digest" where
  "example_hash bs = (case bs of [] \<Rightarrow> 0 | x # _ \<Rightarrow> ucast x)"

definition example_genesis :: "verified_block list" where
  "example_genesis = map (\<lambda>a. new_verified example_hash
     (signed_block_new_genesis (V1 (genesis_block_v1 example_ctx a))) [word_of_nat a]) [0, 1, 2, 3]"

lemma example_genesis_blocks:
  "genesis_blocks example_ser example_hash example_ctx = Some example_genesis"
  by (simp add: genesis_blocks_def committee_authorities_def example_ctx_def committee4_def
      example_config_def example_ser_def example_genesis_def signed_block_new_genesis_def
      genesis_block_v1_def block_v1_new_def test_authority_def numeral_2_eq_2 numeral_3_eq_3)

lemma example_ctx_ok:
  "committee_wf (ctx_committee example_ctx)"
  "ctx_own_index example_ctx < committee_size (ctx_committee example_ctx)"
  "0 < p_dag_state_cached_rounds (ctx_parameters example_ctx)"
  using committee4_wf
  by (simp_all add: example_ctx_def example_parameters_def committee_size_def committee4_def)

section \<open>Properties\<close>

text \<open>
  C2. The DAG state never loses a block. A node that starts from an empty store reaches, by any
  sequence of its operations (accepting verified blocks, adding commits, marking, linking, scoring,
  flushing with eviction), only states that satisfy the invariant, and a block once known stays
  known under its reference with the same content. In every such state the batched reads agree with
  the known blocks: \<open>get_blocks\<close> returns them and \<open>contains_blocks\<close>, whose answers come mostly from
  the cache index, does not panic and answers exactly whether they are known.
\<close>

theorem dag_never_loses_blocks:
  assumes "genesis_blocks ser hash ctx = Some gs" and "committee_wf (ctx_committee ctx)"
    and "ctx_own_index ctx < committee_size (ctx_committee ctx)"
    and "0 < p_dag_state_cached_rounds (ctx_parameters ctx)"
  shows "\<exists>ds0. dag_state_new ser hash now ctx mem_store_new = Some ds0 \<and>
     (\<forall>ops1 ops2 ds1 ds2 refs. dag_steps ds0 ops1 ds1 \<and> dag_steps ds1 ops2 ds2 \<and>
        (\<forall>r \<in> set refs. br_author r < ds_size ds2) \<longrightarrow>
        dag_inv ds2 \<and> lookup_block ds1 \<subseteq>\<^sub>m lookup_block ds2 \<and>
        get_blocks ds2 refs = map (lookup_block ds2) refs \<and>
        contains_blocks ds2 refs = Some (map (\<lambda>b. b \<noteq> None) (get_blocks ds2 refs)))"
proof (intro exI conjI allI impI)
  show "dag_state_new ser hash now ctx mem_store_new = Some (fresh_state ctx now gs)"
    by (rule dag_state_new_fresh[OF assms(1)])
  fix ops1 ops2 ds1 ds2 refs
  assume r: "dag_steps (fresh_state ctx now gs) ops1 ds1 \<and> dag_steps ds1 ops2 ds2 \<and>
      (\<forall>r \<in> set refs. br_author r < ds_size ds2)"
  have "dag_inv ds1" using dag_steps_inv[OF _ fresh_inv(1)[OF assms]] r by blast
  then have inv: "dag_inv ds2" "lookup_block ds1 \<subseteq>\<^sub>m lookup_block ds2"
    using dag_steps_inv[of ds1 ops2 ds2] r by auto
  then show "dag_inv ds2" "lookup_block ds1 \<subseteq>\<^sub>m lookup_block ds2" by auto
  show "get_blocks ds2 refs = map (lookup_block ds2) refs" by (rule get_blocks_eq)
  then show "contains_blocks ds2 refs = Some (map (\<lambda>b. b \<noteq> None) (get_blocks ds2 refs))"
    using contains_blocks_eq[OF inv(1)] r by (simp add: comp_def)
qed

theorem dag_never_loses_blocks_witness:
  "\<exists>ds0. dag_state_new example_ser example_hash 7 example_ctx mem_store_new = Some ds0 \<and>
     (\<forall>ops1 ops2 ds1 ds2 refs. dag_steps ds0 ops1 ds1 \<and> dag_steps ds1 ops2 ds2 \<and>
        (\<forall>r \<in> set refs. br_author r < ds_size ds2) \<longrightarrow>
        dag_inv ds2 \<and> lookup_block ds1 \<subseteq>\<^sub>m lookup_block ds2 \<and>
        get_blocks ds2 refs = map (lookup_block ds2) refs \<and>
        contains_blocks ds2 refs = Some (map (\<lambda>b. b \<noteq> None) (get_blocks ds2 refs)))"
  by (rule dag_never_loses_blocks[OF example_genesis_blocks example_ctx_ok])

text \<open>
  C10. Accepting a verified block never panics in a state satisfying the invariant, keeps the
  invariant, and changes the known blocks in exactly one way: a block whose reference is new is
  added, an already known one leaves the state unchanged. The one exception the code makes is
  proved with it: a second block of the authority itself for a slot that has an uncommitted one is
  refused by a panic.
\<close>

theorem accept_block_correct:
  assumes "dag_inv ds" and "0 < vb_round b" and "vb_author b < committee_size (ds_committee ds)"
  shows "if vb_author b = ds_own_index ds \<and> lookup_block ds (reference b) = None \<and>
            get_uncommitted_blocks_at_slot ds (slot_of_ref (reference b)) \<noteq> []
         then accept_block now b ds = None
         else (\<exists>ds'. accept_block now b ds = Some ds' \<and> dag_inv ds' \<and>
                 ds_last_commit ds' = ds_last_commit ds \<and>
                 lookup_block ds' = (if lookup_block ds (reference b) = None
                   then (lookup_block ds)(reference b \<mapsto> b) else lookup_block ds))"
proof -
  have "\<exists>x. committee_authority (ds_committee ds) (vb_author b) = Some x"
    using assms(3) by (simp add: committee_authority_def committee_size_def)
  then show ?thesis
    using assms accept_block_spec[OF assms, of now]
    by (auto simp: accept_block_def contains_block_eq bind_rust_assert same_frame_def)
qed

theorem accept_block_correct_witness:
  "if vb_author (mk_block 1 2 9 5 []) = ds_own_index (fresh_state example_ctx 7 example_genesis) \<and>
      lookup_block (fresh_state example_ctx 7 example_genesis) (reference (mk_block 1 2 9 5 [])) = None \<and>
      get_uncommitted_blocks_at_slot (fresh_state example_ctx 7 example_genesis)
        (slot_of_ref (reference (mk_block 1 2 9 5 []))) \<noteq> []
   then accept_block 8 (mk_block 1 2 9 5 []) (fresh_state example_ctx 7 example_genesis) = None
   else (\<exists>ds'. accept_block 8 (mk_block 1 2 9 5 []) (fresh_state example_ctx 7 example_genesis) = Some ds' \<and>
           dag_inv ds' \<and> ds_last_commit ds' = ds_last_commit (fresh_state example_ctx 7 example_genesis) \<and>
           lookup_block ds' =
             (if lookup_block (fresh_state example_ctx 7 example_genesis) (reference (mk_block 1 2 9 5 [])) = None
              then (lookup_block (fresh_state example_ctx 7 example_genesis))(reference (mk_block 1 2 9 5 []) \<mapsto>
                     mk_block 1 2 9 5 [])
              else lookup_block (fresh_state example_ctx 7 example_genesis)))"
  by (rule accept_block_correct[OF fresh_inv(1)[OF example_genesis_blocks example_ctx_ok]])
    (simp_all add: fresh_state_def example_ctx_def committee4_def committee_size_def)

text \<open>
  C14. Flushing never panics, empties the four write buffers, keeps the invariant and every known
  block, and makes everything that waited durable. Afterwards the store alone answers for every
  reference above the genesis round, although the cache has dropped what the garbage collection
  round and the cached rounds allow. It has the commit votes of the buffered blocks, and for every
  key the commit, the commit info and the rejected transactions that were buffered last, or what it
  had before when none was buffered.
\<close>

theorem flush_durable:
  assumes "dag_inv ds"
  shows "\<exists>ds'. flush ds = Some ds' \<and> dag_inv ds' \<and> lookup_block ds' = lookup_block ds \<and>
     ds_blocks_to_write ds' = [] \<and> ds_commits_to_write ds' = [] \<and>
     ds_commit_info_to_write ds' = [] \<and> ds_finalized_commits_to_write ds' = [] \<and>
     (\<forall>r. br_round r \<noteq> 0 \<longrightarrow> store_read_blocks (ds_store ds') [r] = [lookup_block ds r]) \<and>
     (\<forall>i. set (read_commit_votes (ds_store ds') i) = set (read_commit_votes (ds_store ds) i) \<union>
        {reference b |b. b \<in> set (ds_blocks_to_write ds) \<and> (\<exists>v \<in> set (block_commit_votes (inner b)). cr_index v = i)}) \<and>
     (\<forall>i d. fmlookup (ms_commits (ds_store ds')) (i, d) =
        (case find (\<lambda>c. tc_index c = i \<and> tc_digest c = d) (rev (ds_commits_to_write ds)) of
           Some c \<Rightarrow> Some c | None \<Rightarrow> fmlookup (ms_commits (ds_store ds)) (i, d))) \<and>
     (\<forall>r. fmlookup (ms_commit_info (ds_store ds')) (cr_index r, cr_digest r) =
        (case map_of (rev (ds_commit_info_to_write ds)) r of
           Some info \<Rightarrow> Some info | None \<Rightarrow> fmlookup (ms_commit_info (ds_store ds)) (cr_index r, cr_digest r))) \<and>
     (\<forall>r. read_rejected_transactions (ds_store ds') r =
        (case map_of (rev (ds_finalized_commits_to_write ds)) r of
           Some rejected \<Rightarrow> Some rejected | None \<Rightarrow> read_rejected_transactions (ds_store ds) r))"
proof -
  let ?wb = "\<lparr>wb_blocks = ds_blocks_to_write ds, wb_commits = ds_commits_to_write ds,
     wb_commit_info = ds_commit_info_to_write ds, wb_finalized_commits = ds_finalized_commits_to_write ds\<rparr>"
  obtain ds' where f: "flush ds = Some ds'" "dag_inv ds'" "lookup_block ds' = lookup_block ds" "buffers_empty ds'"
      "ds_store ds' = ds_store (written ds)" "\<forall>r. 0 < br_round r \<longrightarrow> mem_lookup (ds_store ds') r = lookup_block ds' r"
    using flush_spec[OF assms] by blast
  have st: "ds_store ds' = store_write ?wb (ds_store ds)" using f(5) by (simp add: written_def)
  have "store_read_blocks (ds_store ds') [r] = [lookup_block ds r]" if "br_round r \<noteq> 0" for r
    using f(3,6) that by (simp add: store_read_blocks_lookup)
  then show ?thesis
    using f(1-4) votes_written[of ?wb "ds_store ds"] commits_written[of ?wb "ds_store ds"]
      commit_info_written[of ?wb "ds_store ds"] rejected_written[of ?wb "ds_store ds"]
    unfolding buffers_empty_def st by (intro exI[of _ ds'] conjI) (simp_all only: write_batch.simps st, blast+)
qed

theorem flush_durable_witness:
  "\<exists>ds ds'. dag_inv ds \<and> last (ds_commits_to_write ds) = example_commit \<and> ds_commits_to_write ds \<noteq> [] \<and> flush ds = Some ds' \<and>
     ds_blocks_to_write ds' = [] \<and> ds_commits_to_write ds' = [] \<and>
     store_read_blocks (ds_store ds') [BlockRef 1 2 9] = [Some (mk_block 1 2 9 5 [])] \<and>
     fmlookup (ms_commits (ds_store ds')) (tc_index example_commit, tc_digest example_commit) = Some example_commit"
proof -
  let ?b = "mk_block 1 2 9 5 []" and ?f = "fresh_state example_ctx 7 example_genesis"
  note inv = fresh_inv[OF example_genesis_blocks example_ctx_ok, where now = 7]
  have size: "committee_size (ds_committee ?f) = 4" and own: "ds_own_index ?f \<noteq> 2" and none: "ds_last_commit ?f = None"
    by (simp_all add: fresh_state_def example_ctx_def committee4_def committee_size_def)
  have new: "lookup_block ?f (reference ?b) = None"
  proof (rule ccontr)
    assume "lookup_block ?f (reference ?b) \<noteq> None"
    then obtain g where g: "g \<in> set example_genesis" "reference g = reference ?b" using inv(2) by blast
    then have "vb_round g = 0" using genesis_blocks_shape(2)[OF example_genesis_blocks] by (metis in_set_conv_nth)
    then show False using arg_cong[OF g(2), of br_round] by simp
  qed
  obtain ds1 where ds1: "dag_inv ds1" "same_frame ?f ds1" "lookup_block ds1 = (lookup_block ?f)(reference ?b \<mapsto> ?b)"
    using accept_block_spec[OF inv(1), where b = ?b and now = 8] size own new by auto
  have last: "last_commit_index ds1 = 0" "last_commit_timestamp_ms ds1 = 0" "last_commit_round ds1 = 0" "committee_size (ds_committee ds1) = 4"
    using ds1(2) none size
    by (simp_all add: same_frame_def last_commit_index_def last_commit_timestamp_ms_def last_commit_round_def)
  obtain ds2 where ds2: "dag_inv ds2" "lookup_block ds2 = lookup_block ds1" "ds_commits_to_write ds2 = ds_commits_to_write ds1 @ [example_commit]"
    using add_commit_spec[OF ds1(1), of example_commit 9] last
    by (auto simp: example_commit_def tc_index_def tc_timestamp_ms_def tc_blocks_def)
  have known: "lookup_block ds2 (BlockRef 1 2 9) = Some ?b" using ds2(2) ds1(3) by simp
  have find: "find (\<lambda>c. tc_index c = tc_index example_commit \<and> tc_digest c = tc_digest example_commit) (rev (ds_commits_to_write ds2)) =
      Some example_commit" using ds2(3) by simp
  obtain ds3 where "flush ds2 = Some ds3" "ds_blocks_to_write ds3 = []" "ds_commits_to_write ds3 = []"
      "store_read_blocks (ds_store ds3) [BlockRef 1 2 9] = [lookup_block ds2 (BlockRef 1 2 9)]"
      "fmlookup (ms_commits (ds_store ds3)) (tc_index example_commit, tc_digest example_commit) = Some example_commit"
    using flush_durable[OF ds2(1)] find by force
  then show ?thesis using ds2(1,3) known by (intro exI[of _ ds2] exI[of _ ds3]) simp
qed

text \<open>
  Commits form a chain. Adding the commit that follows the last one (next index, timestamp and
  leader round not going back) never panics, makes it the last commit, buffers it for writing and
  for voting, and raises the committed round of every authority to its highest block in the commit;
  an index at or below the last one is ignored, and a gap in the indices or a decreasing timestamp
  is refused by a panic.
\<close>

theorem add_commit_chain:
  assumes "dag_inv ds" and "\<forall>r \<in> set (tc_blocks c). br_author r < committee_size (ds_committee ds)"
    and "last_commit_round ds \<le> tc_commit_round c"
  shows "if ds_last_commit ds \<noteq> None \<and> tc_index c \<le> last_commit_index ds then add_commit now c ds = Some ds
     else if tc_index c \<noteq> last_commit_index ds + 1 \<or> tc_timestamp_ms c < last_commit_timestamp_ms ds
     then add_commit now c ds = None
     else (\<exists>ds'. add_commit now c ds = Some ds' \<and> dag_inv ds' \<and> lookup_block ds' = lookup_block ds \<and>
             ds_last_commit ds' = Some c \<and> ds_commits_to_write ds' = ds_commits_to_write ds @ [c] \<and>
             ds_pending_commit_votes ds' = ds_pending_commit_votes ds @ [tc_reference c] \<and>
             (\<forall>a < committee_size (ds_committee ds). ds_last_committed_rounds ds' ! a =
                Max (insert (ds_last_committed_rounds ds ! a)
                  (br_round ` {r \<in> set (tc_blocks c). br_author r = a}))))"
  using assms add_commit_spec[OF assms(1), of c now]
  by (auto simp: add_commit_def last_commit_index_def last_commit_timestamp_ms_def bind_rust_assert
      split: option.splits)

theorem add_commit_chain_witness:
  "if ds_last_commit (fresh_state example_ctx 7 example_genesis) \<noteq> None \<and>
      tc_index example_commit \<le> last_commit_index (fresh_state example_ctx 7 example_genesis)
   then add_commit 9 example_commit (fresh_state example_ctx 7 example_genesis) =
     Some (fresh_state example_ctx 7 example_genesis)
   else if tc_index example_commit \<noteq> last_commit_index (fresh_state example_ctx 7 example_genesis) + 1 \<or>
      tc_timestamp_ms example_commit < last_commit_timestamp_ms (fresh_state example_ctx 7 example_genesis)
   then add_commit 9 example_commit (fresh_state example_ctx 7 example_genesis) = None
   else (\<exists>ds'. add_commit 9 example_commit (fresh_state example_ctx 7 example_genesis) = Some ds' \<and>
     dag_inv ds' \<and> lookup_block ds' = lookup_block (fresh_state example_ctx 7 example_genesis) \<and>
     ds_last_commit ds' = Some example_commit \<and>
     ds_commits_to_write ds' = ds_commits_to_write (fresh_state example_ctx 7 example_genesis) @ [example_commit] \<and>
     ds_pending_commit_votes ds' =
       ds_pending_commit_votes (fresh_state example_ctx 7 example_genesis) @ [tc_reference example_commit] \<and>
     (\<forall>a < committee_size (ds_committee (fresh_state example_ctx 7 example_genesis)).
        ds_last_committed_rounds ds' ! a =
        Max (insert (ds_last_committed_rounds (fresh_state example_ctx 7 example_genesis) ! a)
          (br_round ` {r \<in> set (tc_blocks example_commit). br_author r = a}))))"
  by (rule add_commit_chain[OF fresh_inv(1)[OF example_genesis_blocks example_ctx_ok]])
    (simp_all add: fresh_state_def example_ctx_def committee4_def committee_size_def example_commit_def
      tc_blocks_def tc_commit_round_def last_commit_round_def)

end
