(* ===== verification/DagTraversal.thy ===== *)
theory DagTraversal
  imports DagRecovery
begin

text \<open>
  The two traversals of the DAG state. \<open>ancestors_at_round\<close> returns exactly the blocks of a round
  that are in the causal history of a block, and always returns when references point to lower
  rounds and the history down to that round is known. \<open>link_causal_history\<close> marks exactly the
  blocks that its root reaches through unmarked blocks: the whole unmarked part of the causal
  history when the marks are closed under ancestors.
\<close>

section \<open>Causal history\<close>

definition parent :: "dag_state \<Rightarrow> (block_ref \<times> block_ref) set" where
  "parent ds = {(r, x). \<exists>b. lookup_block ds r = Some b \<and> x \<in> set (vb_ancestors b)}"

definition reachable :: "dag_state \<Rightarrow> block_ref set \<Rightarrow> block_ref set" where
  "reachable ds L = (parent ds)\<^sup>* `` L"

text \<open>Ancestors are at lower rounds, and known from round \<open>er\<close> on.\<close>

definition causal :: "dag_state \<Rightarrow> round \<Rightarrow> bool" where
  "causal ds er \<longleftrightarrow>
     (\<forall>r b. lookup_block ds r = Some b \<longrightarrow> (\<forall>x \<in> set (vb_ancestors b).
        br_round x < br_round r \<and> (er \<le> br_round x \<longrightarrow> lookup_block ds x \<noteq> None)))"

lemma reachable_Un: "reachable ds (A \<union> B) = reachable ds A \<union> reachable ds B"
  by (auto simp: reachable_def)

lemma reachable_mono: "A \<subseteq> B \<Longrightarrow> reachable ds A \<subseteq> reachable ds B"
  by (auto simp: reachable_def)

lemma reachable_self: "A \<subseteq> reachable ds A"
  by (auto simp: reachable_def)

lemma reachable_base: "x \<in> A \<Longrightarrow> x \<in> reachable ds A"
  by (auto simp: reachable_def)

lemma parent_round: "causal ds er \<Longrightarrow> (r, x) \<in> parent ds \<Longrightarrow> br_round x < br_round r"
  by (auto simp: causal_def parent_def)

lemma parent_rtrancl_round:
  assumes "causal ds er" "(r, x) \<in> (parent ds)\<^sup>*"
  shows "x = r \<or> br_round x < br_round r"
  using assms(2)
proof (induction rule: rtrancl_induct)
  case (step y z)
  with parent_round[OF assms(1) step.hyps(2)] show ?case by auto
qed simp

lemma reachable_unfold:
  assumes "lookup_block ds r = Some b"
  shows "reachable ds {r} = insert r (reachable ds (set (vb_ancestors b)))"
proof -
  have "parent ds `` {r} = set (vb_ancestors b)" using assms by (auto simp: parent_def)
  moreover have "(parent ds)\<^sup>* `` {r} = insert r ((parent ds)\<^sup>* `` (parent ds `` {r}))"
    by (auto elim: converse_rtranclE intro: converse_rtrancl_into_rtrancl)
  ultimately show ?thesis by (simp add: reachable_def)
qed

lemma finite_ran_fmlookup: "finite (ran (fmlookup m))"
  by (simp add: finite_ran)

lemma finite_reachable:
  assumes "finite L"
  shows "finite (reachable ds L)"
proof -
  let ?R = "ran (fmlookup (ds_genesis ds)) \<union> bi_block ` ran (fmlookup (ds_recent_blocks ds)) \<union>
      ran (fmlookup (ms_blocks (ds_store ds)))"
  have "lookup_block ds r = Some b \<Longrightarrow> b \<in> ?R" for r b
    unfolding lookup_block_def mem_lookup_def
    by (auto simp: GENESIS_ROUND_def split: if_splits option.splits intro: ranI)
  then have "Range (parent ds) \<subseteq> (\<Union>b \<in> ?R. set (vb_ancestors b))"
    unfolding parent_def by blast
  moreover have "finite (\<Union>b \<in> ?R. set (vb_ancestors b))" by (auto simp: finite_ran_fmlookup)
  ultimately have "finite (Range (parent ds))" by (rule finite_subset)
  moreover have "reachable ds L \<subseteq> L \<union> Range (parent ds)"
    by (auto simp: reachable_def elim: rtranclE)
  ultimately show ?thesis using assms by (meson finite_UnI finite_subset)
qed

section \<open>Ancestors at a round\<close>

text \<open>Popping the highest reference removes it from what is reachable, and nothing else.\<close>

lemma pop_last_reachable:
  assumes c: "causal ds er" and last: "fs_last L = Some r" and b: "lookup_block ds r = Some b"
  shows "reachable ds (fset (L |-| {|r|}) \<union> set (vb_ancestors b)) = reachable ds (fset L) - {r}"
proof -
  have r: "r |\<in>| L" "\<And>y. y |\<in>| L \<Longrightarrow> y \<le> r" using last by (auto dest: fs_last_SomeD)
  have "fset L = fset (L |-| {|r|}) \<union> {r}" using r(1) by auto
  then have eq: "reachable ds (fset L) =
      insert r (reachable ds (fset (L |-| {|r|}) \<union> set (vb_ancestors b)))"
    using reachable_unfold[OF b] by (metis Un_insert_right reachable_Un)
  have "r \<notin> reachable ds (fset (L |-| {|r|}) \<union> set (vb_ancestors b))"
  proof
    assume "r \<in> reachable ds (fset (L |-| {|r|}) \<union> set (vb_ancestors b))"
    then obtain y where y: "y \<in> fset (L |-| {|r|}) \<union> set (vb_ancestors b)" "(y, r) \<in> (parent ds)\<^sup>*"
      by (auto simp: reachable_def)
    have "br_round x < br_round r" if "x \<in> set (vb_ancestors b)" for x
      using c b that by (auto simp: causal_def)
    then have "br_round y \<le> br_round r \<and> y \<noteq> r"
      using y(1) r(2) by (fastforce dest: block_ref_le_round)
    with parent_rtrancl_round[OF c y(2)] show False by auto
  qed
  with eq show ?thesis by auto
qed

lemma linked_loop_spec:
  assumes c: "causal ds er"
  shows "\<forall>x. x |\<in>| L \<and> er < br_round x \<longrightarrow> lookup_block ds x \<noteq> None \<Longrightarrow>
    \<exists>L'. linked_loop ds er L = Some L' \<and> (\<forall>x. x |\<in>| L' \<longrightarrow> br_round x \<le> er) \<and>
      {x. x |\<in>| L' \<and> br_round x = er} = {x \<in> reachable ds (fset L). br_round x = er}"
proof (induction "card (reachable ds (fset L))" arbitrary: L rule: less_induct)
  case less
  show ?case
  proof (cases "fs_last L")
    case None
    then show ?thesis by (subst linked_loop.simps) (simp add: reachable_def)
  next
    case (Some r)
    have r: "r |\<in>| L" "\<And>y. y |\<in>| L \<Longrightarrow> y \<le> r" using Some by (auto dest: fs_last_SomeD)
    show ?thesis
    proof (cases "br_round r \<le> er")
      case True
      have le: "br_round y \<le> er" if "y |\<in>| L" for y
        using block_ref_le_round[OF r(2)[OF that]] True by simp
      have "x |\<in>| L" if x: "x \<in> reachable ds (fset L)" "br_round x = er" for x
      proof -
        obtain y where "y |\<in>| L" "(y, x) \<in> (parent ds)\<^sup>*" using x(1) by (auto simp: reachable_def)
        with parent_rtrancl_round[OF c] le[of y] x(2) show ?thesis by fastforce
      qed
      moreover have "linked_loop ds er L = Some L"
        using Some True by (subst linked_loop.simps) simp
      ultimately show ?thesis using le by (auto intro: reachable_base)
    next
      case False
      then obtain b where b: "lookup_block ds r = Some b" using less.prems r(1) by auto
      let ?L = "(L |-| {|r|}) |\<union>| fset_of_list (vb_ancestors b)"
      have fs: "fset ?L = fset (L |-| {|r|}) \<union> set (vb_ancestors b)"
        by (simp add: fset_of_list.rep_eq)
      have reach: "reachable ds (fset ?L) = reachable ds (fset L) - {r}"
        unfolding fs by (rule pop_last_reachable[OF c Some b])
      have "r \<in> reachable ds (fset L)" using r(1) reachable_self by auto
      then have "card (reachable ds (fset ?L)) < card (reachable ds (fset L))"
        unfolding reach by (intro card_Diff1_less finite_reachable) auto
      moreover have "\<forall>x. x |\<in>| ?L \<and> er < br_round x \<longrightarrow> lookup_block ds x \<noteq> None"
        using less.prems c b by (auto simp: causal_def fset_of_list_elem)
      ultimately obtain L' where L': "linked_loop ds er ?L = Some L'"
          "\<forall>x. x |\<in>| L' \<longrightarrow> br_round x \<le> er"
          "{x. x |\<in>| L' \<and> br_round x = er} = {x \<in> reachable ds (fset ?L). br_round x = er}"
        using less.hyps[of ?L] by blast
      moreover have "linked_loop ds er L = linked_loop ds er ?L"
        using Some False b by (subst linked_loop.simps) simp
      moreover have "{x \<in> reachable ds (fset ?L). br_round x = er} =
          {x \<in> reachable ds (fset L). br_round x = er}"
        unfolding reach using False by auto
      ultimately show ?thesis by auto
    qed
  qed
qed

lemma ancestors_at_round_spec:
  assumes c: "causal ds er" and inv: "dag_inv ds"
    and anc: "\<forall>x \<in> set (vb_ancestors b). er \<le> br_round x \<longrightarrow> lookup_block ds x \<noteq> None"
  shows "\<exists>bs. ancestors_at_round ds b er = Some bs \<and>
           sorted_wrt (\<lambda>x y. reference x < reference y) bs \<and>
           set bs = {d. lookup_block ds (reference d) = Some d \<and> vb_round d = er \<and>
                        reference d \<in> reachable ds (set (vb_ancestors b))}"
proof -
  obtain L where L: "linked_loop ds er (fset_of_list (vb_ancestors b)) = Some L"
      "\<forall>x. x |\<in>| L \<longrightarrow> br_round x \<le> er"
      "{x. x |\<in>| L \<and> br_round x = er} = {x \<in> reachable ds (set (vb_ancestors b)). br_round x = er}"
    using linked_loop_spec[OF c, of "fset_of_list (vb_ancestors b)"] anc
    by (auto simp: fset_of_list_elem fset_of_list.rep_eq)
  define rs where "rs = fs_range (\<lambda>k. BlockRef er 0 digest_min \<le> k) L"
  have set_rs: "set rs = {x \<in> reachable ds (set (vb_ancestors b)). br_round x = er}"
    unfolding L(3)[symmetric] using L(2) by (auto simp: rs_def ref_ge_round intro: antisym)
  have known: "lookup_block ds x \<noteq> None" if x: "x \<in> set rs" for x
  proof -
    obtain y where y: "y \<in> set (vb_ancestors b)" "(y, x) \<in> (parent ds)\<^sup>*" "br_round x = er"
      using x by (auto simp: set_rs reachable_def)
    from y(2) show ?thesis
    proof (cases rule: rtranclE)
      case base
      with y anc show ?thesis by auto
    next
      case (step z)
      with c y(3) show ?thesis by (auto simp: parent_def causal_def)
    qed
  qed
  define bs where "bs = map (\<lambda>r. the (lookup_block ds r)) rs"
  have look: "lookup_block ds x = Some (the (lookup_block ds x))" "reference (the (lookup_block ds x)) = x"
    if "x \<in> set rs" for x
    using known[OF that] lookup_ref[OF inv] by auto
  have "ancestors_at_round ds b er = Some bs"
    using L(1) look(1) unfolding ancestors_at_round_def rs_def[symmetric]
    by (auto simp: bs_def rs_def[symmetric] intro!: try_map_total)
  moreover have refs: "map reference bs = rs" using look(2) by (auto simp: bs_def intro: map_idI)
  moreover have "sorted_wrt (<) rs" by (simp add: rs_def sorted_fs_range)
  then have "sorted_wrt (\<lambda>x y. reference x < reference y) bs" using refs by (metis sorted_wrt_map)
  moreover have "set bs = {d. lookup_block ds (reference d) = Some d \<and> vb_round d = er \<and>
      reference d \<in> reachable ds (set (vb_ancestors b))}"
  proof -
    have "d \<in> set bs \<longleftrightarrow> reference d \<in> set rs \<and> lookup_block ds (reference d) = Some d" for d
      using look by (auto simp: bs_def image_iff) (metis option.sel)
    then show ?thesis by (auto simp: set_rs)
  qed
  ultimately show ?thesis by blast
qed

section \<open>Linking the causal history\<close>

definition included :: "(block_ref, block_info) fmap \<Rightarrow> block_ref \<Rightarrow> bool" where
  "included m r \<longleftrightarrow> (case fmlookup m r of Some bi \<Rightarrow> bi_included bi | None \<Rightarrow> False)"

text \<open>The ancestors above the garbage collection round of a cached block are cached.\<close>

definition cached_above :: "round \<Rightarrow> (block_ref, block_info) fmap \<Rightarrow> bool" where
  "cached_above gc m \<longleftrightarrow> (\<forall>r bi. fmlookup m r = Some bi \<longrightarrow>
     (\<forall>x \<in> set (vb_ancestors (bi_block bi)). gc < br_round x \<longrightarrow> fmlookup m x \<noteq> None))"

definition parents_above :: "round \<Rightarrow> (block_ref, block_info) fmap \<Rightarrow> block_ref \<Rightarrow> block_ref set" where
  "parents_above gc m r = (case fmlookup m r of
     Some bi \<Rightarrow> {x \<in> set (vb_ancestors (bi_block bi)). gc < br_round x} | None \<Rightarrow> {})"

definition history_above :: "round \<Rightarrow> (block_ref, block_info) fmap \<Rightarrow> block_ref set \<Rightarrow> block_ref set" where
  "history_above gc m ts = {(r, x). x \<in> parents_above gc m r}\<^sup>* `` ts"

text \<open>
  The blocks above the garbage collection round that are reached from \<open>ts\<close> through unmarked blocks.
\<close>

inductive unlinked_from :: "round \<Rightarrow> (block_ref, block_info) fmap \<Rightarrow> block_ref set \<Rightarrow> block_ref \<Rightarrow> bool" for gc m ts where
  unlinked_base: "r \<in> ts \<Longrightarrow> gc < br_round r \<Longrightarrow> \<not> included m r \<Longrightarrow> unlinked_from gc m ts r"
| unlinked_step: "unlinked_from gc m ts r \<Longrightarrow> x \<in> parents_above gc m r \<Longrightarrow> \<not> included m x \<Longrightarrow> unlinked_from gc m ts x"

lemma unlinked_mono: "unlinked_from gc m A r \<Longrightarrow> A \<subseteq> B \<Longrightarrow> unlinked_from gc m B r"
  by (induction rule: unlinked_from.induct) (auto intro: unlinked_from.intros)

text \<open>A marked block has only marked ancestors above the garbage collection round.\<close>

definition links_closed :: "round \<Rightarrow> (block_ref, block_info) fmap \<Rightarrow> bool" where
  "links_closed gc m \<longleftrightarrow> (\<forall>r. included m r \<longrightarrow> (\<forall>x \<in> parents_above gc m r. included m x))"

lemma unlinked_history: "unlinked_from gc m ts r \<Longrightarrow> r \<in> history_above gc m ts \<and> gc < br_round r \<and> \<not> included m r"
proof (induction rule: unlinked_from.induct)
  case (unlinked_step r x)
  have "gc < br_round x" using unlinked_step(2) by (auto simp: parents_above_def split: option.splits)
  moreover have "x \<in> history_above gc m ts"
    using unlinked_step.IH unlinked_step(2) unfolding history_above_def by (blast intro: rtrancl_into_rtrancl)
  ultimately show ?case using unlinked_step(3) by blast
qed (auto simp: history_above_def)

lemma unlinked_closed:
  assumes "links_closed gc m" "r \<in> history_above gc m ts" "gc < br_round r" "\<not> included m r"
    and "\<forall>t \<in> ts. gc < br_round t"
  shows "unlinked_from gc m ts r"
proof -
  obtain t where t: "t \<in> ts" "(t, r) \<in> {(r, x). x \<in> parents_above gc m r}\<^sup>*" using assms(2) by (auto simp: history_above_def)
  from t(2) assms(3,4) show ?thesis
  proof (induction rule: rtrancl_induct)
    case base
    then show ?case using t(1) by (intro unlinked_base)
  next
    case (step y z)
    have "\<not> included m y" using step(2,5) assms(1) unfolding links_closed_def by blast
    moreover have "gc < br_round y"
    proof (cases "y = t")
      case False
      then obtain w where "y \<in> parents_above gc m w" using step(1) by (auto elim: rtranclE)
      then show ?thesis by (auto simp: parents_above_def split: option.splits)
    qed (use t(1) assms(5) in simp)
    ultimately have "unlinked_from gc m ts y" by (intro step.IH)
    then show ?case by (rule unlinked_step) (use step(2,5) in auto)
  qed
qed

lemma included_upd:
  "fmlookup m r = Some bi \<Longrightarrow> included (fmupd r (bi\<lparr>bi_included := True\<rparr>) m) x = (x = r \<or> included m x)"
  by (simp add: included_def)

lemma parents_above_upd:
  "fmlookup m r = Some bi \<Longrightarrow> parents_above gc (fmupd r (bi\<lparr>bi_included := True\<rparr>) m) = parents_above gc m"
  by (auto simp: parents_above_def fun_eq_iff split: option.split)

lemma cached_above_upd:
  "cached_above gc m \<Longrightarrow> fmlookup m r = Some bi \<Longrightarrow> cached_above gc (fmupd r (bi\<lparr>bi_included := True\<rparr>) m)"
  by (auto simp: cached_above_def)

lemma unlinked_marked:
  assumes bi: "fmlookup m r = Some bi" "\<not> bi_included bi" and r: "gc < br_round r"
    and q: "unlinked_from gc (fmupd r (bi\<lparr>bi_included := True\<rparr>) m) (set (ts @ vb_ancestors (bi_block bi))) q"
  shows "unlinked_from gc m (set (r # ts)) q"
  using q
proof induction
  case (unlinked_base q)
  have root: "unlinked_from gc m (set (r # ts)) r" using bi r by (intro unlinked_from.unlinked_base) (simp_all add: included_def)
  have nq: "\<not> included m q" using unlinked_base(3) included_upd[OF bi(1)] by simp
  show ?case
  proof (cases "q \<in> set ts")
    case False
    then have "q \<in> parents_above gc m r" using unlinked_base(1,2) bi(1) by (simp add: parents_above_def)
    then show ?thesis by (rule unlinked_step[OF root _ nq])
  qed (use unlinked_base(2) nq in \<open>auto intro: unlinked_from.unlinked_base\<close>)
next
  case (unlinked_step q x)
  then show ?case using included_upd[OF bi(1)] parents_above_upd[OF bi(1)] by (auto intro: unlinked_from.unlinked_step)
qed

lemma link_loop_spec:
  "cached_above gc m \<Longrightarrow> \<forall>x \<in> set ts. gc < br_round x \<longrightarrow> fmlookup m x \<noteq> None \<Longrightarrow>
   \<exists>m' new. link_loop gc ts m linked = Some (m', linked @ new) \<and> same_blocks m m' \<and> distinct new \<and>
     (\<forall>r. included m' r \<longleftrightarrow> included m r \<or> r \<in> set new) \<and>
     (\<forall>r \<in> set new. \<not> included m r \<and> gc < br_round r \<and>
        (\<forall>x \<in> parents_above gc m r. included m' x)) \<and>
     set new \<subseteq> {r. unlinked_from gc m (set ts) r} \<and>
     (\<forall>x \<in> set ts. gc < br_round x \<longrightarrow> included m' x)"
proof (induction gc ts m linked rule: link_loop.induct)
  case (1 gc m linked)
  then show ?case by (simp add: link_loop.simps)
next
  case (2 gc r ts m linked)
  show ?case
  proof (cases "br_round r \<le> gc")
    case True
    have "{q. unlinked_from gc m (set ts) q} \<subseteq> {q. unlinked_from gc m (set (r # ts)) q}"
      by (auto intro: unlinked_mono)
    with True 2 show ?thesis by (fastforce simp: link_loop.simps)
  next
    case False
    then obtain bi where bi: "fmlookup m r = Some bi" using "2.prems"(2) by auto
    show ?thesis
    proof (cases "bi_included bi")
      case True
      have "included m r" using bi True by (simp add: included_def)
      moreover obtain m' new where "link_loop gc ts m linked = Some (m', linked @ new)" "same_blocks m m'"
          "distinct new" "\<forall>r. included m' r \<longleftrightarrow> included m r \<or> r \<in> set new"
          "\<forall>r \<in> set new. \<not> included m r \<and> gc < br_round r \<and> (\<forall>x \<in> parents_above gc m r. included m' x)"
          "\<forall>x \<in> set ts. gc < br_round x \<longrightarrow> included m' x"
          "set new \<subseteq> {q. unlinked_from gc m (set ts) q}"
        using "2.IH"(2)[OF False bi True] "2.prems" by auto
      moreover have "{q. unlinked_from gc m (set ts) q} \<subseteq> {q. unlinked_from gc m (set (r # ts)) q}"
        by (auto intro: unlinked_mono)
      ultimately show ?thesis using False bi True by (auto simp: link_loop.simps)
    next
      case notinc: False
      let ?m = "fmupd r (bi\<lparr>bi_included := True\<rparr>) m"
      have pre: "cached_above gc ?m" "\<forall>x \<in> set (ts @ vb_ancestors (bi_block bi)). gc < br_round x \<longrightarrow>
          fmlookup ?m x \<noteq> None"
        using "2.prems" bi by (auto simp: cached_above_upd) (auto simp: cached_above_def)
      obtain m' new where IH: "link_loop gc (ts @ vb_ancestors (bi_block bi)) ?m (linked @ [r]) =
            Some (m', (linked @ [r]) @ new)" "same_blocks ?m m'" "distinct new"
          "\<forall>q. included m' q \<longleftrightarrow> included ?m q \<or> q \<in> set new"
          "\<forall>q \<in> set new. \<not> included ?m q \<and> gc < br_round q \<and> (\<forall>x \<in> parents_above gc ?m q. included m' x)"
          "\<forall>x \<in> set (ts @ vb_ancestors (bi_block bi)). gc < br_round x \<longrightarrow> included m' x"
          "set new \<subseteq> {q. unlinked_from gc ?m (set (ts @ vb_ancestors (bi_block bi))) q}"
        using "2.IH"(3)[OF False bi notinc pre] by auto
      have "link_loop gc (r # ts) m linked = Some (m', linked @ (r # new))"
        using False bi notinc IH(1) by (simp add: link_loop.simps)
      moreover have "same_blocks m m'"
        by (rule same_blocks_trans[OF same_blocks_upd[OF bi] IH(2)]) simp
      moreover have "\<not> included m r" using bi notinc by (simp add: included_def)
      moreover have pa: "parents_above gc m r = {x \<in> set (vb_ancestors (bi_block bi)). gc < br_round x}"
        using bi by (simp add: parents_above_def)
      moreover have "set (r # new) \<subseteq> {q. unlinked_from gc m (set (r # ts)) q}"
        using IH(7) unlinked_marked[OF bi notinc] unlinked_base[of r "set (r # ts)" gc m] False bi notinc
        by (auto simp: included_def)
      ultimately show ?thesis
        using IH(3-6) False
        by (intro exI[of _ m'] exI[of _ "r # new"])
          (auto simp: included_upd[OF bi] parents_above_upd[OF bi])
    qed
  qed
qed

lemma unlinked_linked:
  assumes "\<forall>r. included m' r \<longleftrightarrow> included m r \<or> r \<in> set new" "\<forall>r \<in> set new. \<forall>x \<in> parents_above gc m r. included m' x"
    and "unlinked_from gc m {root} r" "gc < br_round root \<longrightarrow> included m' root"
  shows "r \<in> set new"
  using assms(3)
  by induction (use assms(1,2,4) in auto)

lemma parents_above_same: "same_blocks m m' \<Longrightarrow> parents_above gc m' = parents_above gc m"
proof
  fix r assume "same_blocks m m'"
  then have "map_option bi_block (fmlookup m' r) = map_option bi_block (fmlookup m r)" by (simp add: same_blocks_def)
  then show "parents_above gc m' r = parents_above gc m r"
    by (cases "fmlookup m' r"; cases "fmlookup m r") (simp_all add: parents_above_def)
qed

section \<open>Properties\<close>

text \<open>
  C13. \<open>ancestors_at_round\<close> is exact and always returns: when references point to lower rounds and
  the history of a block is known down to round \<open>er\<close>, the traversal ends without a panic and gives
  all and only the known blocks of round \<open>er\<close> in the causal history of the block, each once, in
  ascending reference order.
\<close>

theorem ancestors_at_round_exact:
  assumes "dag_inv ds" and "causal ds er"
    and "\<forall>x \<in> set (vb_ancestors b). er \<le> br_round x \<longrightarrow> lookup_block ds x \<noteq> None"
  shows "\<exists>bs. ancestors_at_round ds b er = Some bs \<and>
           sorted_wrt (\<lambda>x y. reference x < reference y) bs \<and>
           set bs = {d. lookup_block ds (reference d) = Some d \<and> vb_round d = er \<and>
                        reference d \<in> reachable ds (set (vb_ancestors b))}"
  using ancestors_at_round_spec[OF assms(2,1,3)] .

theorem ancestors_at_round_exact_witness:
  "\<exists>bs. ancestors_at_round (fresh_state example_ctx 7 example_genesis)
          (mk_block 1 2 9 5 (map reference example_genesis)) 0 = Some bs \<and>
     sorted_wrt (\<lambda>x y. reference x < reference y) bs \<and>
     set bs = {d. lookup_block (fresh_state example_ctx 7 example_genesis) (reference d) = Some d \<and>
                  vb_round d = 0 \<and> reference d \<in> reachable (fresh_state example_ctx 7 example_genesis)
                    (set (vb_ancestors (mk_block 1 2 9 5 (map reference example_genesis))))}"
proof (rule ancestors_at_round_exact)
  let ?ds = "fresh_state example_ctx 7 example_genesis"
  note fresh = fresh_inv[OF example_genesis_blocks example_ctx_ok]
  show "dag_inv ?ds" by (rule fresh(1))
  have "vb_ancestors b = []" if b: "b \<in> set example_genesis" for b
    using genesis_blocks_shape(2)[OF example_genesis_blocks] b by (metis in_set_conv_nth)
  then show "causal ?ds 0" by (auto simp: causal_def fresh(2))
  show "\<forall>x \<in> set (vb_ancestors (mk_block 1 2 9 5 (map reference example_genesis))).
      0 \<le> br_round x \<longrightarrow> lookup_block ?ds x \<noteq> None"
    using fresh(2)[where now = 7] by auto
qed

text \<open>
  C18. Linking the causal history of a proposed block ends without a panic when the history above
  the garbage collection round is cached. Exactly the returned references become marked, each once:
  they are the blocks above the garbage collection round that the root reaches through unmarked
  blocks. When the marks were closed (a marked block has only marked ancestors), that is the whole
  unmarked part of the history of the root, and the marks are closed again. No known block changes.
\<close>

theorem link_causal_history_exact:
  assumes "cached_above (gc_round ds) (ds_recent_blocks ds)"
    and "gc_round ds < br_round root \<longrightarrow> fmlookup (ds_recent_blocks ds) root \<noteq> None"
  shows "\<exists>ds' new. link_causal_history root ds = Some (ds', new) \<and> distinct new \<and>
     lookup_block ds' = lookup_block ds \<and>
     set new = {r. unlinked_from (gc_round ds) (ds_recent_blocks ds) {root} r} \<and>
     (\<forall>r. included (ds_recent_blocks ds') r \<longleftrightarrow> included (ds_recent_blocks ds) r \<or> r \<in> set new) \<and>
     (links_closed (gc_round ds) (ds_recent_blocks ds) \<and> gc_round ds < br_round root \<longrightarrow>
        set new = {r \<in> history_above (gc_round ds) (ds_recent_blocks ds) {root}.
          gc_round ds < br_round r \<and> \<not> included (ds_recent_blocks ds) r} \<and>
        links_closed (gc_round ds) (ds_recent_blocks ds'))"
proof -
  let ?gc = "gc_round ds" and ?m = "ds_recent_blocks ds"
  obtain m' new where new: "link_loop ?gc [root] ?m [] = Some (m', new)" "same_blocks ?m m'" "distinct new"
      "\<forall>r. included m' r \<longleftrightarrow> included ?m r \<or> r \<in> set new"
      "\<forall>r \<in> set new. \<forall>x \<in> parents_above ?gc ?m r. included m' x"
      "set new \<subseteq> {r. unlinked_from ?gc ?m {root} r}" "?gc < br_round root \<longrightarrow> included m' root"
    using link_loop_spec[OF assms(1), of "[root]" "[]"] assms(2) by auto
  have set_new: "set new = {r. unlinked_from ?gc ?m {root} r}" using unlinked_linked[OF new(4,5)] new(6,7) by blast
  have closed: "set new = {r \<in> history_above ?gc ?m {root}. ?gc < br_round r \<and> \<not> included ?m r}"
    if "links_closed ?gc ?m" "?gc < br_round root"
    unfolding set_new using unlinked_history unlinked_closed[OF that(1)] that(2) by blast
  have again: "links_closed ?gc m'" if "links_closed ?gc ?m"
    using that new(4,5) unfolding links_closed_def parents_above_same[OF new(2)] by blast
  have "lookup_block (ds\<lparr>ds_recent_blocks := m'\<rparr>) r = lookup_block ds r" for r
    using new(2) unfolding same_blocks_def lookup_block_def
    by (cases "fmlookup m' r"; cases "fmlookup (ds_recent_blocks ds) r") (auto dest: spec[of _ r])
  then have "lookup_block (ds\<lparr>ds_recent_blocks := m'\<rparr>) = lookup_block ds" by blast
  moreover have "link_causal_history root ds = Some (ds\<lparr>ds_recent_blocks := m'\<rparr>, new)"
    using new(1) by (simp add: link_causal_history_def)
  ultimately show ?thesis using new(3,4) set_new closed again
    by (intro exI[of _ "ds\<lparr>ds_recent_blocks := m'\<rparr>"] exI[of _ new]) simp
qed

definition example_linked :: dag_state where
  "example_linked = (fresh_state example_ctx 7 example_genesis)\<lparr>ds_recent_blocks := fmap_of_list
     [(BlockRef 1 0 21, block_info_new (mk_block 1 0 21 5 [BlockRef 0 0 0])),
      (BlockRef 1 1 22, block_info_new (mk_block 1 1 22 5 [BlockRef 0 0 0])),
      (BlockRef 2 0 23, block_info_new (mk_block 2 0 23 6 [BlockRef 1 0 21, BlockRef 1 1 22]))]\<rparr>"

theorem link_causal_history_exact_witness:
  "\<exists>ds' new. link_causal_history (BlockRef 2 0 23) example_linked = Some (ds', new) \<and> distinct new \<and>
     set new = {BlockRef 2 0 23, BlockRef 1 0 21, BlockRef 1 1 22} \<and> links_closed 0 (ds_recent_blocks ds')"
proof -
  let ?m = "ds_recent_blocks example_linked"
  have gc: "gc_round example_linked = 0"
    by (simp add: example_linked_def gc_round_def calculate_gc_round_def last_commit_round_def fresh_state_def)
  have inc: "\<not> included ?m r" for r
    by (auto simp: included_def example_linked_def fmlookup_of_list block_info_new_def split: option.split if_splits)
  have pa: "parents_above 0 ?m r = (if r = BlockRef 2 0 23 then {BlockRef 1 0 21, BlockRef 1 1 22} else {})" for r
    by (auto simp: parents_above_def example_linked_def fmlookup_of_list block_info_new_def split: option.splits if_splits)
  have ca: "cached_above (gc_round example_linked) ?m"
    unfolding gc by (auto simp: cached_above_def example_linked_def fmlookup_of_list block_info_new_def
        split: if_splits)
  have root: "gc_round example_linked < br_round (BlockRef 2 0 23) \<longrightarrow> fmlookup ?m (BlockRef 2 0 23) \<noteq> None"
    by (simp add: example_linked_def fmlookup_of_list)
  have cl: "links_closed 0 ?m" using inc by (simp add: links_closed_def)
  have "unlinked_from 0 ?m {BlockRef 2 0 23} r \<Longrightarrow> r \<in> {BlockRef 2 0 23, BlockRef 1 0 21, BlockRef 1 1 22}" for r
    by (induction rule: unlinked_from.induct) (auto simp: pa split: if_splits)
  moreover have base: "unlinked_from 0 ?m {BlockRef 2 0 23} (BlockRef 2 0 23)" by (rule unlinked_base) (simp_all add: inc)
  have "unlinked_from 0 ?m {BlockRef 2 0 23} r" if "r \<in> {BlockRef 1 0 21, BlockRef 1 1 22}" for r
    by (rule unlinked_step[OF base]) (use that inc pa in auto)
  ultimately have eq: "{r. unlinked_from 0 ?m {BlockRef 2 0 23} r} = {BlockRef 2 0 23, BlockRef 1 0 21, BlockRef 1 1 22}"
    using base by blast
  show ?thesis using link_causal_history_exact[OF ca root] cl unfolding gc eq by auto
qed

text \<open>
  C24. Restarting right after a leader schedule update panics on the in-memory store: when the last
  stored commit info belongs to the last stored commit, recovery asks for the commits from the next
  index up to the last one, and a \<open>BTreeMap\<close> range whose start is after its end panics.
\<close>

theorem restart_after_schedule_update_panics:
  assumes "read_last_commit_info s = Some (r, info)" and "read_last_commit s = Some l"
    and "cr_index r = tc_index l" and "tc_index l < u32_max"
  shows "dag_state_new ser hash now ctx s = None"
proof -
  have "fmdom (ms_commits s) \<noteq> {||}" using assms(2) by (auto simp: read_last_commit_def fm_last_def)
  then have "scan_commits s (range_new (Suc (tc_index l)) (tc_index l)) = None"
    using range_new_bounds[OF assms(4)] by (simp add: scan_commits_def)
  then have "dag_state_init ser hash now ctx s = None"
    using assms by (cases "genesis_blocks ser hash ctx") (simp_all add: dag_state_init_def Let_def)
  then show ?thesis by (simp add: dag_state_new_def)
qed

definition updated_store :: mem_store where
  "updated_store = store_write \<lparr>wb_blocks = [], wb_commits = [example_commit],
     wb_commit_info = [(tc_reference example_commit,
       \<lparr>ci_committed_rounds = [2, 1, 0, 0], ci_reputation_scores = reputation_scores_default\<rparr>)],
     wb_finalized_commits = []\<rparr> mem_store_new"

theorem restart_after_schedule_update_panics_witness:
  "dag_state_new example_ser example_hash 7 example_ctx updated_store = None"
proof (rule restart_after_schedule_update_panics)
  show "read_last_commit_info updated_store = Some (tc_reference example_commit,
      \<lparr>ci_committed_rounds = [2, 1, 0, 0], ci_reputation_scores = reputation_scores_default\<rparr>)"
    by (simp add: updated_store_def read_last_commit_info_def fm_last_def fs_last_def mem_store_new_def
        tc_reference_def example_commit_def)
  show "read_last_commit updated_store = Some example_commit"
    by (simp add: updated_store_def read_last_commit_def fm_last_def fs_last_def mem_store_new_def
        example_commit_def)
  show "cr_index (tc_reference example_commit) = tc_index example_commit"
    by (simp add: tc_reference_def tc_index_def)
  show "tc_index example_commit < u32_max"
    by (simp add: example_commit_def tc_index_def u32_max_def)
qed

end
