(* ===== verification/LeaderSchedule.thy ===== *)
theory LeaderSchedule
  imports DagRecovery
begin

text \<open>
  The leader schedule of \<open>core/src/leader_schedule.rs\<close>: the swap table that replaces badly scored
  leaders by well scored ones, and the election of the leader of a round.

  The random choices come from the \<open>rand\<close> crate with a seed computed from a round or a commit index.
  They are the fields of \<open>rng\<close>: a weighted choice without repetition, a uniform choice, a shuffle,
  each a function of its seed. \<open>rng_ok\<close> states what the crate documents about them.
\<close>

record rng =
  rng_choose_multiple_weighted :: "round \<Rightarrow> (authority_index \<times> stake) list \<Rightarrow> nat
      \<Rightarrow> (authority_index \<times> stake) list option"
  rng_choose :: "round \<times> nat \<Rightarrow> (authority_index \<times> string \<times> stake) list
      \<Rightarrow> (authority_index \<times> string \<times> stake) option"
  rng_shuffle :: "commit_index \<Rightarrow> (authority_index \<times> 64 word) list \<Rightarrow> (authority_index \<times> 64 word) list"

definition shuffle_ok :: "rng \<Rightarrow> bool" where
  "shuffle_ok g \<longleftrightarrow> (\<forall>seed xs. mset (rng_shuffle g seed xs) = mset xs)"

definition choose_ok :: "rng \<Rightarrow> bool" where
  "choose_ok g \<longleftrightarrow> (\<forall>seed xs. case rng_choose g seed xs of None \<Rightarrow> xs = [] | Some x \<Rightarrow> x \<in> set xs)"

definition weighted_ok :: "rng \<Rightarrow> bool" where
  "weighted_ok g \<longleftrightarrow> (\<forall>seed xs n. xs \<noteq> [] \<and> distinct xs \<and> (\<forall>x \<in> set xs. snd x \<noteq> 0) \<longrightarrow>
     (\<exists>ys. rng_choose_multiple_weighted g seed xs n = Some ys \<and> length ys = min n (length xs) \<and>
        distinct ys \<and> set ys \<subseteq> set xs))"

definition rng_ok :: "rng \<Rightarrow> bool" where
  "rng_ok g \<longleftrightarrow> shuffle_ok g \<and> choose_ok g \<and> weighted_ok g"

lemma rng_choose_ok:
  assumes "rng_ok g" "ys \<noteq> []"
  shows "\<exists>y \<in> set ys. rng_choose g seed ys = Some y"
proof -
  have "case rng_choose g seed ys of None \<Rightarrow> ys = [] | Some x \<Rightarrow> x \<in> set ys"
    using assms(1) by (simp only: rng_ok_def choose_ok_def)
  with assms(2) show ?thesis by (cases "rng_choose g seed ys") simp_all
qed

lemma rng_weighted_ok:
  assumes "rng_ok g" "zs \<noteq> []" "distinct zs" "\<forall>x \<in> set zs. snd x \<noteq> 0"
  shows "\<exists>out. rng_choose_multiple_weighted g seed zs n = Some out \<and> length out = min n (length zs) \<and>
        distinct out \<and> set out \<subseteq> set zs"
proof -
  have "weighted_ok g" using assms(1) by (simp add: rng_ok_def)
  with assms(2-4) show ?thesis by (simp add: weighted_ok_def)
qed

section \<open>The swap table\<close>

record leader_swap_table =
  lst_good_nodes :: "(authority_index \<times> string \<times> stake) list"
  lst_bad_nodes :: "(authority_index, string \<times> stake) fmap"
  lst_reputation_scores_desc :: "(authority_index \<times> 64 word) list"
  lst_reputation_scores :: reputation_scores

definition swap_table_default :: leader_swap_table where
  "swap_table_default = \<lparr>lst_good_nodes = [], lst_bad_nodes = fmempty, lst_reputation_scores_desc = [],
     lst_reputation_scores = reputation_scores_default\<rparr>"

fun retrieve_first_nodes :: "committee \<Rightarrow> (authority_index \<times> 64 word) list \<Rightarrow> 64 word \<Rightarrow> stake
    \<Rightarrow> (authority_index \<times> string \<times> stake) list option" where
  "retrieve_first_nodes c [] thr acc = Some []"
| "retrieve_first_nodes c ((a, _) # xs) thr acc = do {
     s \<leftarrow> committee_stake c a;
     let acc' = acc + s;
     if acc' > (thr * c_total_stake c) div 100 then Some []
     else do {
       auth \<leftarrow> committee_authority c a;
       rest \<leftarrow> retrieve_first_nodes c xs thr acc';
       Some ((a, a_hostname auth, a_stake auth) # rest)
     }
   }"

definition swap_table_new_inner :: "rng \<Rightarrow> node_context \<Rightarrow> 64 word \<Rightarrow> commit_index \<Rightarrow> reputation_scores
    \<Rightarrow> leader_swap_table option" where
  "swap_table_new_inner g ctx swap_stake_threshold commit_idx scores = do {
     rust_assert (swap_stake_threshold \<le> 33);
     if rs_scores_per_authority scores = [] then Some swap_table_default
     else do {
       by_score \<leftarrow> authorities_by_score scores ctx;
       rust_assert (length by_score = committee_size (ctx_committee ctx));
       let shuffled = rng_shuffle g commit_idx by_score;
       let sorted_desc = sort_key (\<lambda>x. - int (unat (snd x))) shuffled;
       good \<leftarrow> retrieve_first_nodes (ctx_committee ctx) sorted_desc swap_stake_threshold 0;
       bad \<leftarrow> retrieve_first_nodes (ctx_committee ctx) (rev sorted_desc) swap_stake_threshold 0;
       Some \<lparr>lst_good_nodes = good,
         lst_bad_nodes = fmap_of_list (map (\<lambda>(i, h, s). (i, (h, s))) (rev bad)),
         lst_reputation_scores_desc = sorted_desc, lst_reputation_scores = scores\<rparr>
     }
   }"

text \<open>A missing protocol value makes the getter panic.\<close>

definition swap_table_new :: "rng \<Rightarrow> node_context \<Rightarrow> commit_index \<Rightarrow> reputation_scores
    \<Rightarrow> leader_swap_table option" where
  "swap_table_new g ctx commit_idx scores = do {
     thr \<leftarrow> pc_consensus_bad_nodes_stake_threshold (ctx_protocol_config ctx);
     swap_table_new_inner g ctx (of_nat thr) commit_idx scores
   }"

definition swap :: "rng \<Rightarrow> leader_swap_table \<Rightarrow> authority_index \<Rightarrow> round \<Rightarrow> nat
    \<Rightarrow> authority_index option option" where
  "swap g table leader leader_round leader_offset =
     (if leader |\<in>| fmdom (lst_bad_nodes table) then do {
        rust_assert (leader_offset = 0);
        (idx, _, _) \<leftarrow> rng_choose g (leader_round, leader_offset) (lst_good_nodes table);
        Some (Some idx)
      } else Some None)"

section \<open>The schedule\<close>

record leader_schedule =
  lsc_table :: leader_swap_table
  lsc_num_commits_per_schedule :: nat

definition CONSENSUS_COMMITS_PER_SCHEDULE :: nat where
  "CONSENSUS_COMMITS_PER_SCHEDULE = 300"

definition leader_schedule_new :: "leader_swap_table \<Rightarrow> leader_schedule" where
  "leader_schedule_new table =
     \<lparr>lsc_table = table, lsc_num_commits_per_schedule = CONSENSUS_COMMITS_PER_SCHEDULE\<rparr>"

definition leader_schedule_from_store :: "rng \<Rightarrow> node_context \<Rightarrow> dag_state \<Rightarrow> leader_schedule option" where
  "leader_schedule_from_store g ctx ds = do {
     table \<leftarrow> (case recover_last_commit_info ds of
         None \<Rightarrow> Some swap_table_default
       | Some (r, info) \<Rightarrow> swap_table_new g ctx (cr_index r) (ci_reputation_scores info));
     _ \<leftarrow> scoring_subdags_count ds;
     Some (leader_schedule_new table)
   }"

definition commits_until_leader_schedule_update :: "leader_schedule \<Rightarrow> dag_state \<Rightarrow> nat option" where
  "commits_until_leader_schedule_update sch ds = do {
     n \<leftarrow> scoring_subdags_count ds;
     rust_assert (n \<le> lsc_num_commits_per_schedule sch);
     Some (lsc_num_commits_per_schedule sch - n)
   }"

definition leader_schedule_updated :: "dag_state \<Rightarrow> bool" where
  "leader_schedule_updated ds = is_scoring_subdag_empty ds"

definition update_leader_swap_table :: "leader_swap_table \<Rightarrow> leader_schedule \<Rightarrow> leader_schedule option" where
  "update_leader_swap_table table sch = do {
     let old = rs_commit_range (lst_reputation_scores (lsc_table sch));
     let new = rs_commit_range (lst_reputation_scores table);
     _ \<leftarrow> (if old \<noteq> commit_range_default then
             (if range_is_next old new then do { eq \<leftarrow> range_is_equal_size old new; rust_assert eq }
              else None)
           else Some ());
     Some (sch\<lparr>lsc_table := table\<rparr>)
   }"

definition update_leader_schedule_v2 :: "rng \<Rightarrow> node_context \<Rightarrow> leader_schedule \<times> dag_state
    \<Rightarrow> (leader_schedule \<times> dag_state) option" where
  "update_leader_schedule_v2 g ctx = (\<lambda>(sch, ds). do {
     scores \<leftarrow> calculate_scoring_subdag_scores ds;
     last_idx \<leftarrow> scoring_subdag_commit_range ds;
     ds' \<leftarrow> add_commit_info scores (clear_scoring_subdag ds);
     table \<leftarrow> swap_table_new g ctx last_idx scores;
     sch' \<leftarrow> update_leader_swap_table table sch;
     _ \<leftarrow> authorities_by_score scores ctx;
     Some (sch', ds')
   })"

definition elect_leader_stake_based :: "rng \<Rightarrow> node_context \<Rightarrow> round \<Rightarrow> nat \<Rightarrow> authority_index option" where
  "elect_leader_stake_based g ctx rnd offset = do {
     rust_assert (offset < committee_size (ctx_committee ctx));
     let choices = map (\<lambda>(i, a). (i, a_stake a)) (committee_authorities (ctx_committee ctx));
     chosen \<leftarrow> rng_choose_multiple_weighted g rnd choices (committee_size (ctx_committee ctx));
     (case drop offset chosen of [] \<Rightarrow> None | (i, _) # _ \<Rightarrow> Some i)
   }"

definition schedule_elect_leader :: "rng \<Rightarrow> node_context \<Rightarrow> leader_schedule \<Rightarrow> round \<Rightarrow> nat
    \<Rightarrow> authority_index option" where
  "schedule_elect_leader g ctx sch rnd leader_offset = do {
     leader \<leftarrow> elect_leader_stake_based g ctx rnd leader_offset;
     swapped \<leftarrow> swap g (lsc_table sch) leader rnd leader_offset;
     Some (case swapped of Some l \<Rightarrow> l | None \<Rightarrow> leader)
   }"

section \<open>What the swap table contains\<close>

definition node_of :: "committee \<Rightarrow> authority_index \<Rightarrow> authority_index \<times> string \<times> stake" where
  "node_of c a = (a, a_hostname (c_authorities c ! a), a_stake (c_authorities c ! a))"

definition swap_limit :: "committee \<Rightarrow> 64 word \<Rightarrow> nat" where
  "swap_limit c thr = (unat thr * unat (c_total_stake c)) div 100"

definition stake_sum :: "committee \<Rightarrow> (authority_index \<times> 64 word) list \<Rightarrow> nat" where
  "stake_sum c xs = sum_list (map (weight c \<circ> fst) xs)"

lemma stake_sum_simps [simp]:
  "stake_sum c [] = 0" "stake_sum c (x # xs) = weight c (fst x) + stake_sum c xs"
  "stake_sum c (xs @ ys) = stake_sum c xs + stake_sum c ys"
  by (simp_all add: stake_sum_def)

lemma stake_sum_distinct:
  "distinct (map fst xs) \<Longrightarrow> stake_sum c xs = stake_of c (fst ` set xs)"
  using sum_list_distinct_conv_sum_set[of "map fst xs" "weight c"]
  by (simp add: stake_sum_def stake_of_def comp_def)

text \<open>The nodes retrieved are the longest prefix whose stake stays within the limit.\<close>

lemma retrieve_first_nodes_spec:
  assumes no_wrap: "unat thr * unat (c_total_stake c) < 2 ^ 64"
    and "fst ` set xs \<subseteq> members c" "unat acc + stake_sum c xs < 2 ^ 64" "unat acc \<le> swap_limit c thr"
  shows "\<exists>k \<le> length xs. retrieve_first_nodes c xs thr acc = Some (map (node_of c \<circ> fst) (take k xs)) \<and>
           unat acc + stake_sum c (take k xs) \<le> swap_limit c thr \<and>
           (k < length xs \<longrightarrow> swap_limit c thr < unat acc + stake_sum c (take (Suc k) xs))"
  using assms(2-4)
proof (induction xs arbitrary: acc)
  case Nil
  then show ?case by simp
next
  case (Cons x xs)
  obtain a sc where x: "x = (a, sc)" by (cases x)
  let ?s = "a_stake (c_authorities c ! a)"
  have a: "a \<in> members c" using Cons.prems(1) by (simp add: x)
  have s: "committee_stake c a = Some ?s" "committee_authority c a = Some (c_authorities c ! a)"
    using a by (simp_all add: committee_stake_in committee_authority_def members_def committee_size_def)
  have w: "weight c a = unat ?s" by (simp add: weight_def)
  have acc: "unat (acc + ?s) = unat acc + unat ?s"
    using Cons.prems(2) by (intro unat_plus_no_wrap) (simp add: x w)
  have limit: "unat ((thr * c_total_stake c) div 100) = swap_limit c thr"
    using no_wrap by (simp add: swap_limit_def unat_div unat_word_ariths)
  show ?case
  proof (cases "acc + ?s > (thr * c_total_stake c) div 100")
    case True
    then have "swap_limit c thr < unat acc + unat ?s" by (simp add: word_less_nat_alt limit acc)
    with True s Cons.prems(3) show ?thesis by (intro exI[of _ 0]) (simp add: x w)
  next
    case False
    then have le: "unat (acc + ?s) \<le> swap_limit c thr" by (simp add: word_less_nat_alt limit)
    have p: "fst ` set xs \<subseteq> members c" "unat (acc + ?s) + stake_sum c xs < 2 ^ 64"
      using Cons.prems(1,2) by (simp_all add: x w acc)
    obtain k where k: "k \<le> length xs"
        "retrieve_first_nodes c xs thr (acc + ?s) = Some (map (node_of c \<circ> fst) (take k xs))"
        "unat (acc + ?s) + stake_sum c (take k xs) \<le> swap_limit c thr"
        "k < length xs \<longrightarrow> swap_limit c thr < unat (acc + ?s) + stake_sum c (take (Suc k) xs)"
      using Cons.IH[OF p le] by blast
    then show ?thesis
      using False s by (intro exI[of _ "Suc k"]) (simp add: x w acc node_of_def Let_def add.assoc)
  qed
qed

lemma swap_limit_less:
  assumes "thr \<le> 33" "0 < unat (c_total_stake c)"
  shows "2 * swap_limit c thr < unat (c_total_stake c)"
proof -
  have "unat thr \<le> 33" using assms(1) by (simp add: word_le_nat_alt)
  then have "unat thr * unat (c_total_stake c) \<le> 33 * unat (c_total_stake c)" by simp
  then have "swap_limit c thr \<le> (33 * unat (c_total_stake c)) div 100"
    unfolding swap_limit_def by (rule div_le_mono)
  with assms(2) show ?thesis by simp
qed

text \<open>A prefix and a suffix within the limit do not overlap.\<close>

lemma prefix_suffix_disjoint:
  assumes "stake_sum c (take k xs) + stake_sum c (take m (rev xs)) < stake_sum c xs"
    and "distinct (map fst xs)"
  shows "fst ` set (take k xs) \<inter> fst ` set (take m (rev xs)) = {}"
proof -
  have "k + m \<le> length xs"
  proof (rule ccontr)
    assume "\<not> k + m \<le> length xs"
    then have "drop k xs = drop (k - (length xs - m)) (drop (length xs - m) xs)" by simp
    moreover have "stake_sum c (drop j ys) \<le> stake_sum c ys" for j ys
      by (metis append_take_drop_id stake_sum_simps(3) le_add2)
    ultimately have "stake_sum c (drop k xs) \<le> stake_sum c (drop (length xs - m) xs)" by metis
    moreover have "stake_sum c (take m (rev xs)) = stake_sum c (drop (length xs - m) xs)"
      by (simp add: stake_sum_def take_rev rev_map[symmetric])
    moreover have "stake_sum c xs = stake_sum c (take k xs) + stake_sum c (drop k xs)"
      by (metis append_take_drop_id stake_sum_simps(3))
    ultimately show False using assms(1) by simp
  qed
  then have "set (take m (rev xs)) \<subseteq> set (drop k xs)"
    by (simp add: take_rev set_drop_subset_set_drop)
  moreover have "fst ` set (take k xs) \<inter> fst ` set (drop k xs) = {}"
    using assms(2) by (metis append_take_drop_id distinct_append map_append set_map)
  ultimately show ?thesis by blast
qed

text \<open>The authorities with their scores, best first.\<close>

definition scores_desc :: "rng \<Rightarrow> commit_index \<Rightarrow> reputation_scores \<Rightarrow> (authority_index \<times> 64 word) list" where
  "scores_desc g i rs = sort_key (\<lambda>x. - int (unat (snd x)))
     (rng_shuffle g i (List.enumerate 0 (rs_scores_per_authority rs)))"

lemma authorities_by_score_ok:
  assumes "length (rs_scores_per_authority rs) = committee_size (ctx_committee ctx)"
  shows "authorities_by_score rs ctx = Some (List.enumerate 0 (rs_scores_per_authority rs))"
  unfolding authorities_by_score_def
  by (rule try_map_total[where g = id, simplified])
    (use assms in \<open>auto simp: to_authority_index_def in_set_enumerate_eq\<close>)

lemma mset_scores_desc:
  "rng_ok g \<Longrightarrow> mset (scores_desc g i rs) = mset (List.enumerate 0 (rs_scores_per_authority rs))"
  by (simp add: scores_desc_def rng_ok_def shuffle_ok_def)

lemma scores_desc_props:
  assumes "rng_ok g" "length (rs_scores_per_authority rs) = committee_size c"
  shows "set (scores_desc g i rs) = {(a, rs_scores_per_authority rs ! a) |a. a \<in> members c}"
    and "distinct (map fst (scores_desc g i rs))"
    and "sorted_wrt (\<lambda>x y. snd y \<le> snd x) (scores_desc g i rs)"
    and "stake_sum c (scores_desc g i rs) = stake_of c (members c)"
proof -
  note m = mset_scores_desc[OF assms(1), of i rs]
  show set: "set (scores_desc g i rs) = {(a, rs_scores_per_authority rs ! a) |a. a \<in> members c}"
    unfolding mset_eq_setD[OF m] using assms(2) by (auto simp: in_set_enumerate_eq members_def)
  have "mset (map fst (scores_desc g i rs)) = mset [0..<committee_size c]"
    using arg_cong[OF m, of "image_mset fst"] assms(2)
    unfolding mset_map[symmetric] by (simp only: map_fst_enumerate add_0)
  then show d: "distinct (map fst (scores_desc g i rs))" using mset_eq_imp_distinct_iff distinct_upt by blast
  have "sorted (map (\<lambda>x. - int (unat (snd x))) (scores_desc g i rs))" by (simp add: scores_desc_def)
  then have "sorted_wrt (\<lambda>x y. - int (unat (snd x)) \<le> - int (unat (snd y))) (scores_desc g i rs)"
    unfolding sorted_map .
  then show "sorted_wrt (\<lambda>x y. snd y \<le> snd x) (scores_desc g i rs)"
    by (rule sorted_wrt_mono_rel[rotated]) (simp only: word_le_nat_alt neg_le_iff_le of_nat_le_iff)
  have "fst ` set (scores_desc g i rs) = members c" unfolding set by force
  then show "stake_sum c (scores_desc g i rs) = stake_of c (members c)"
    using stake_sum_distinct[OF d] by simp
qed

lemma swap_table_spec:
  fixes i :: commit_index
  assumes g: "rng_ok g" and wf: "committee_wf (ctx_committee ctx)" and thr: "thr \<le> 33"
    and wrap: "unat thr * unat (c_total_stake (ctx_committee ctx)) < 2 ^ 64"
    and len: "length (rs_scores_per_authority rs) = committee_size (ctx_committee ctx)"
  defines "c \<equiv> ctx_committee ctx" and "xs \<equiv> scores_desc g i rs"
  shows "\<exists>k m. swap_table_new_inner g ctx thr i rs =
      Some \<lparr>lst_good_nodes = map (node_of c \<circ> fst) (take k xs),
        lst_bad_nodes = fmap_of_list (map (\<lambda>(i, h, s). (i, (h, s))) (rev (map (node_of c \<circ> fst) (take m (rev xs))))),
        lst_reputation_scores_desc = xs, lst_reputation_scores = rs\<rparr> \<and>
      stake_sum c (take k xs) \<le> swap_limit c thr \<and> stake_sum c (take m (rev xs)) \<le> swap_limit c thr \<and>
      (k < length xs \<longrightarrow> swap_limit c thr < stake_sum c (take (Suc k) xs)) \<and>
      (m < length xs \<longrightarrow> swap_limit c thr < stake_sum c (take (Suc m) (rev xs)))"
proof -
  note p = scores_desc_props[OF g len[folded c_def], of i, folded xs_def]
  have mem: "fst ` set xs \<subseteq> members c" using p(1) by auto
  have total: "unat (c_total_stake c) = stake_of c (members c)" "0 < stake_of c (members c)"
    using wf by (auto simp: committee_wf_def c_def)
  have small: "stake_sum c xs < 2 ^ 64"
  proof -
    have "unat (c_total_stake c) < 2 ^ 64" using unsigned_less[of "c_total_stake c"] by simp
    with p(4) total show ?thesis by simp
  qed
  have rev: "stake_sum c (rev xs) = stake_sum c xs" by (simp add: stake_sum_def rev_map[symmetric])
  have ne: "rs_scores_per_authority rs \<noteq> []" using len total by (auto simp: members_def c_def stake_of_def)
  have lenx: "length xs = committee_size c"
    using mset_eq_length[OF mset_scores_desc[OF g, of i rs]] len by (simp add: xs_def c_def)
  obtain k where k: "retrieve_first_nodes c xs thr 0 = Some (map (node_of c \<circ> fst) (take k xs))"
      "stake_sum c (take k xs) \<le> swap_limit c thr"
      "k < length xs \<longrightarrow> swap_limit c thr < stake_sum c (take (Suc k) xs)"
    using retrieve_first_nodes_spec[OF wrap[folded c_def] mem, of 0] small by auto
  obtain m where m: "retrieve_first_nodes c (rev xs) thr 0 = Some (map (node_of c \<circ> fst) (take m (rev xs)))"
      "stake_sum c (take m (rev xs)) \<le> swap_limit c thr"
      "m < length xs \<longrightarrow> swap_limit c thr < stake_sum c (take (Suc m) (rev xs))"
    using retrieve_first_nodes_spec[OF wrap[folded c_def], of "rev xs" 0] small mem rev by auto
  have "sort_key (\<lambda>x. - int (unat (snd x))) (rng_shuffle g i (List.enumerate 0 (rs_scores_per_authority rs))) = xs"
    by (simp add: xs_def scores_desc_def)
  then have "swap_table_new_inner g ctx thr i rs =
      Some \<lparr>lst_good_nodes = map (node_of c \<circ> fst) (take k xs),
        lst_bad_nodes = fmap_of_list (map (\<lambda>(i, h, s). (i, (h, s))) (rev (map (node_of c \<circ> fst) (take m (rev xs))))),
        lst_reputation_scores_desc = xs, lst_reputation_scores = rs\<rparr>"
    using thr ne k(1) m(1) len
    by (simp add: swap_table_new_inner_def authorities_by_score_ok[OF len] c_def Let_def)
  with k m show ?thesis by blast
qed

definition good_set :: "leader_swap_table \<Rightarrow> authority_index set" where
  "good_set t = fst ` set (lst_good_nodes t)"

definition bad_set :: "leader_swap_table \<Rightarrow> authority_index set" where
  "bad_set t = fset (fmdom (lst_bad_nodes t))"

lemma fst_node_of [simp]: "fst (node_of c a) = a"
  by (simp add: node_of_def)

lemma fmdom_bad_nodes:
  "fset (fmdom (fmap_of_list (map (\<lambda>(i, h, s). (i, (h, s))) (rev (map (node_of c \<circ> fst) ys))))) = fst ` set ys"
  by (auto simp: fset_of_list.rep_eq node_of_def image_iff)

lemma split_scores:
  assumes set: "set (as @ bs) = {(a, sc ! a) |a. a \<in> M}" and sorted: "sorted_wrt R (as @ bs)"
    and R: "\<And>x y. R x y \<Longrightarrow> Q (snd x) (snd y)" and d: "distinct (map fst (as @ bs))"
    and ab: "a \<in> fst ` set as" "b \<in> M - fst ` set as"
  shows "Q (sc ! a) (sc ! b)"
proof -
  have "(b, sc ! b) \<in> set (as @ bs)" using set ab(2) by auto
  then have "(b, sc ! b) \<in> set bs" using ab(2) by force
  moreover obtain x where x: "(a, x) \<in> set as" using ab(1) by force
  then have "x = sc ! a" using set by auto
  ultimately show ?thesis using sorted x R by (force simp: sorted_wrt_append)
qed

text \<open>The ends of a list sorted by descending score are a best and a worst authority.\<close>

lemma scores_desc_ends:
  fixes sc :: "64 word list"
  assumes "set xs = {(a, sc ! a) |a. a \<in> M}" "sorted_wrt (\<lambda>x y. snd y \<le> snd x) xs" "xs \<noteq> []"
  shows "fst (hd xs) \<in> M \<and> (\<forall>b \<in> M. sc ! b \<le> sc ! fst (hd xs))" "fst (last xs) \<in> M \<and> (\<forall>b \<in> M. sc ! fst (last xs) \<le> sc ! b)"
proof -
  have in_set: "hd xs \<in> set xs" "last xs \<in> set xs" using assms(3) by auto
  then have ends: "fst (hd xs) \<in> M" "snd (hd xs) = sc ! fst (hd xs)" "fst (last xs) \<in> M" "snd (last xs) = sc ! fst (last xs)"
    unfolding assms(1) by auto
  have hd: "\<forall>y \<in> set xs. snd y \<le> snd (hd xs)" using assms(2,3) by (cases xs) auto
  have "\<forall>y \<in> set xs. snd (last xs) \<le> snd y"
    using assms(2,3) by (cases xs rule: rev_cases) (auto simp: sorted_wrt_append)
  with hd ends show "fst (hd xs) \<in> M \<and> (\<forall>b \<in> M. sc ! b \<le> sc ! fst (hd xs))"
      "fst (last xs) \<in> M \<and> (\<forall>b \<in> M. sc ! fst (last xs) \<le> sc ! b)"
    unfolding assms(1) by force+
qed

lemma swap_no_good:
  assumes "rng_ok g" "good_set t = {}" "b \<in> bad_set t"
  shows "swap g t b rnd offset = None"
proof -
  have "lst_good_nodes t = []" using assms(2) by (simp add: good_set_def)
  moreover have "rng_choose g k [] = None" for k
  proof -
    have "case rng_choose g k [] of None \<Rightarrow> True | Some x \<Rightarrow> x \<in> set []"
      using assms(1) by (auto simp only: rng_ok_def choose_ok_def split: option.splits)
    then show ?thesis by (cases "rng_choose g k []") simp_all
  qed
  ultimately show ?thesis using assms(3) by (simp add: swap_def bad_set_def)
qed

section \<open>Properties\<close>

text \<open>
  C21. The swap table is sound. For scores of the whole committee and a threshold of at most 33
  percent (with the 64-bit product not overflowing), building the table never panics; the good and
  the bad nodes are disjoint sets of committee members, each holding at most the threshold's share
  of the stake; every good node scores at least as high as every authority that is not good, and
  every bad node at most as high as every authority that is not bad.
\<close>

theorem swap_table_correct:
  assumes "rng_ok g" and "committee_wf (ctx_committee ctx)" and "thr \<le> 33"
    and "unat thr * unat (c_total_stake (ctx_committee ctx)) < 2 ^ 64"
    and "length (rs_scores_per_authority rs) = committee_size (ctx_committee ctx)"
  shows "\<exists>t. swap_table_new_inner g ctx thr i rs = Some t \<and>
     good_set t \<subseteq> members (ctx_committee ctx) \<and> bad_set t \<subseteq> members (ctx_committee ctx) \<and>
     good_set t \<inter> bad_set t = {} \<and>
     100 * stake_of (ctx_committee ctx) (good_set t) \<le> unat thr * unat (c_total_stake (ctx_committee ctx)) \<and>
     100 * stake_of (ctx_committee ctx) (bad_set t) \<le> unat thr * unat (c_total_stake (ctx_committee ctx)) \<and>
     (\<forall>a \<in> good_set t. \<forall>b \<in> members (ctx_committee ctx) - good_set t.
        rs_scores_per_authority rs ! b \<le> rs_scores_per_authority rs ! a) \<and>
     (\<forall>b \<in> bad_set t. \<forall>a \<in> members (ctx_committee ctx) - bad_set t.
        rs_scores_per_authority rs ! b \<le> rs_scores_per_authority rs ! a)"
proof -
  define c where "c = ctx_committee ctx"
  define xs where "xs = scores_desc g i rs"
  note p = scores_desc_props[OF assms(1) assms(5)[folded c_def], of i, folded xs_def]
  obtain k m where km: "swap_table_new_inner g ctx thr i rs =
      Some \<lparr>lst_good_nodes = map (node_of c \<circ> fst) (take k xs),
        lst_bad_nodes = fmap_of_list (map (\<lambda>(i, h, s). (i, (h, s))) (rev (map (node_of c \<circ> fst) (take m (rev xs))))),
        lst_reputation_scores_desc = xs, lst_reputation_scores = rs\<rparr>" (is "_ = Some ?t")
      "stake_sum c (take k xs) \<le> swap_limit c thr" "stake_sum c (take m (rev xs)) \<le> swap_limit c thr"
    using swap_table_spec[OF assms, of i] unfolding c_def xs_def by blast
  have good: "good_set ?t = fst ` set (take k xs)" by (force simp: good_set_def)
  have bad: "bad_set ?t = fst ` set (take m (rev xs))" by (simp only: bad_set_def fmdom_bad_nodes leader_swap_table.simps)
  have d: "distinct (map fst (take k xs))" "distinct (map fst (take m (rev xs)))"
    using p(2) by (simp_all add: take_map[symmetric] rev_map[symmetric] distinct_take)
  have "0 < unat (c_total_stake c)" "stake_sum c xs = unat (c_total_stake c)"
    using assms(2) p(4) by (auto simp: committee_wf_def c_def)
  then have "stake_sum c (take k xs) + stake_sum c (take m (rev xs)) < stake_sum c xs"
    using km(2,3) swap_limit_less[OF assms(3), of c] by simp
  from prefix_suffix_disjoint[OF this p(2)] have disj: "good_set ?t \<inter> bad_set ?t = {}"
    unfolding good bad .
  have sub: "good_set ?t \<subseteq> members c" "bad_set ?t \<subseteq> members c"
    unfolding good bad using p(1) by (auto dest!: in_set_takeD)
  have stake: "100 * stake_of c (good_set ?t) \<le> unat thr * unat (c_total_stake c)"
      "100 * stake_of c (bad_set ?t) \<le> unat thr * unat (c_total_stake c)"
    unfolding good bad stake_sum_distinct[OF d(1), symmetric] stake_sum_distinct[OF d(2), symmetric]
    using km(2,3) by (auto simp: swap_limit_def)
  have sorted: "sorted_wrt (\<lambda>x y. snd x \<le> snd y) (rev xs)" using p(3) by (simp add: sorted_wrt_rev)
  have 1: "rs_scores_per_authority rs ! b \<le> rs_scores_per_authority rs ! a"
    if "a \<in> good_set ?t" "b \<in> members c - good_set ?t" for a b
    using that split_scores[of "take k xs" "drop k xs" "rs_scores_per_authority rs" "members c"
        "\<lambda>x y. snd y \<le> snd x" "\<lambda>x y. y \<le> x" a b] p(1-3) unfolding good by simp
  have 2: "rs_scores_per_authority rs ! b \<le> rs_scores_per_authority rs ! a"
    if "b \<in> bad_set ?t" "a \<in> members c - bad_set ?t" for a b
    using that split_scores[of "take m (rev xs)" "drop m (rev xs)" "rs_scores_per_authority rs" "members c"
        "\<lambda>x y. snd x \<le> snd y" "\<lambda>x y. x \<le> y" b a] p(1,2) sorted unfolding bad by (simp add: rev_map[symmetric])
  show ?thesis using km(1) disj sub stake 1 2 unfolding c_def by blast
qed

definition example_rng :: rng where
  "example_rng = \<lparr>rng_choose_multiple_weighted = (\<lambda>_ xs n. Some (take n xs)),
     rng_choose = (\<lambda>_ xs. case xs of [] \<Rightarrow> None | x # _ \<Rightarrow> Some x),
     rng_shuffle = (\<lambda>_ xs. xs)\<rparr>"

lemma example_rng_ok: "rng_ok example_rng"
  by (auto simp: rng_ok_def shuffle_ok_def choose_ok_def weighted_ok_def example_rng_def
      split: list.split option.split dest: in_set_takeD)

definition example_scores :: reputation_scores where
  "example_scores = \<lparr>rs_scores_per_authority = [10, 40, 20, 30], rs_commit_range = range_new 1 300\<rparr>"

theorem swap_table_correct_witness:
  "\<exists>t. swap_table_new_inner example_rng example_ctx 33 300 example_scores = Some t \<and>
     good_set t \<subseteq> members (ctx_committee example_ctx) \<and> bad_set t \<subseteq> members (ctx_committee example_ctx) \<and>
     good_set t \<inter> bad_set t = {} \<and>
     100 * stake_of (ctx_committee example_ctx) (good_set t) \<le>
       unat (33 :: 64 word) * unat (c_total_stake (ctx_committee example_ctx)) \<and>
     100 * stake_of (ctx_committee example_ctx) (bad_set t) \<le>
       unat (33 :: 64 word) * unat (c_total_stake (ctx_committee example_ctx)) \<and>
     (\<forall>a \<in> good_set t. \<forall>b \<in> members (ctx_committee example_ctx) - good_set t.
        rs_scores_per_authority example_scores ! b \<le> rs_scores_per_authority example_scores ! a) \<and>
     (\<forall>b \<in> bad_set t. \<forall>a \<in> members (ctx_committee example_ctx) - bad_set t.
        rs_scores_per_authority example_scores ! b \<le> rs_scores_per_authority example_scores ! a)"
  by (rule swap_table_correct[OF example_rng_ok example_ctx_ok(1)])
    (simp_all add: example_ctx_def committee4_def example_scores_def committee_size_def)

text \<open>
  C22. Electing a leader (first offset, positive stakes) never panics as long as some node is good
  or none is bad, the elected authority is a member of the committee, and it is never a bad node: a
  bad leader is replaced by a good one.
\<close>

theorem elected_leader_not_bad:
  assumes "rng_ok g" and "\<forall>a \<in> set (c_authorities (ctx_committee ctx)). a_stake a \<noteq> 0"
    and "c_authorities (ctx_committee ctx) \<noteq> []"
    and "good_set (lsc_table sch) \<subseteq> members (ctx_committee ctx)"
    and "good_set (lsc_table sch) \<inter> bad_set (lsc_table sch) = {}"
    and "good_set (lsc_table sch) \<noteq> {} \<or> bad_set (lsc_table sch) = {}"
  shows "\<exists>l. schedule_elect_leader g ctx sch rnd 0 = Some l \<and> l \<in> members (ctx_committee ctx) \<and>
           l \<notin> bad_set (lsc_table sch)"
proof -
  let ?c = "ctx_committee ctx"
  let ?xs = "map (\<lambda>(i, a). (i, a_stake a)) (committee_authorities ?c)"
  have "map fst ?xs = [0..<length (c_authorities ?c)]"
    by (simp add: committee_authorities_def comp_def case_prod_unfold)
  then have "distinct ?xs" by (metis distinct_map distinct_upt)
  moreover have len: "length ?xs = committee_size ?c"
    by (simp add: committee_authorities_def committee_size_def)
  moreover have "?xs \<noteq> []" using assms(3) len by (auto simp: committee_size_def)
  moreover have "\<forall>x \<in> set ?xs. snd x \<noteq> 0"
    using assms(2) by (auto simp: committee_authorities_def in_set_enumerate_eq)
  ultimately obtain ys where ys: "rng_choose_multiple_weighted g rnd ?xs (committee_size ?c) = Some ys"
      "length ys = committee_size ?c" "set ys \<subseteq> set ?xs"
    using rng_weighted_ok[OF assms(1), of ?xs rnd "committee_size ?c"] by auto
  have size: "0 < committee_size ?c" using assms(3) by (simp add: committee_size_def)
  then obtain i s zs where y: "ys = (i, s) # zs" using ys(2) by (cases ys) auto
  have i: "i \<in> members ?c"
    using ys(3) by (auto simp: y committee_authorities_def members_def committee_size_def in_set_enumerate_eq)
  have el: "elect_leader_stake_based g ctx rnd 0 = Some i"
    using ys(1) size by (simp add: elect_leader_stake_based_def y)
  show ?thesis
  proof (cases "i \<in> bad_set (lsc_table sch)")
    case False
    with el i show ?thesis by (simp add: schedule_elect_leader_def swap_def bad_set_def)
  next
    case True
    then have "lst_good_nodes (lsc_table sch) \<noteq> []" using assms(6) by (auto simp: good_set_def)
    then obtain n where n: "rng_choose g (rnd, 0) (lst_good_nodes (lsc_table sch)) = Some n"
        "n \<in> set (lst_good_nodes (lsc_table sch))"
      using rng_choose_ok[OF assms(1), of "lst_good_nodes (lsc_table sch)" "(rnd, 0)"] by auto
    then have "fst n \<in> good_set (lsc_table sch)" by (simp add: good_set_def)
    with n True el assms(4,5) show ?thesis
      by (cases n) (auto simp: schedule_elect_leader_def swap_def bad_set_def)
  qed
qed

definition example_schedule :: leader_schedule where
  "example_schedule = leader_schedule_new \<lparr>lst_good_nodes = [(1, [], 1)],
     lst_bad_nodes = fmap_of_list [(0, ([], 1))], lst_reputation_scores_desc = [],
     lst_reputation_scores = example_scores\<rparr>"

theorem elected_leader_not_bad_witness:
  "\<exists>l. schedule_elect_leader example_rng example_ctx example_schedule 4 0 = Some l \<and>
     l \<in> members (ctx_committee example_ctx) \<and> l \<notin> bad_set (lsc_table example_schedule)"
  by (rule elected_leader_not_bad[OF example_rng_ok])
    (simp_all add: example_ctx_def committee4_def test_authority_def example_schedule_def
      leader_schedule_new_def good_set_def bad_set_def members_def committee_size_def)

text \<open>
  C25. Without the condition on the good nodes the election does panic. Whenever every authority with
  the best score alone holds more than the threshold's share of the stake, and every authority with
  the lowest score at most that share, the table is built with at least one bad node and no good
  node; then every election in which the stake-based choice falls on a bad node panics, because
  \<open>swap\<close> finds no good node to take its place.
\<close>

theorem swap_without_good_nodes_panics:
  fixes i :: commit_index
  assumes "rng_ok g" and "committee_wf (ctx_committee ctx)" and "thr \<le> 33"
    and "unat thr * unat (c_total_stake (ctx_committee ctx)) < 2 ^ 64"
    and "length (rs_scores_per_authority rs) = committee_size (ctx_committee ctx)"
    and best: "\<forall>a \<in> members (ctx_committee ctx).
      (\<forall>b \<in> members (ctx_committee ctx). rs_scores_per_authority rs ! b \<le> rs_scores_per_authority rs ! a) \<longrightarrow>
      unat thr * unat (c_total_stake (ctx_committee ctx)) < 100 * weight (ctx_committee ctx) a"
    and worst: "\<forall>a \<in> members (ctx_committee ctx).
      (\<forall>b \<in> members (ctx_committee ctx). rs_scores_per_authority rs ! a \<le> rs_scores_per_authority rs ! b) \<longrightarrow>
      100 * weight (ctx_committee ctx) a \<le> unat thr * unat (c_total_stake (ctx_committee ctx))"
  shows "\<exists>t. swap_table_new_inner g ctx thr i rs = Some t \<and> good_set t = {} \<and>
     (\<exists>b \<in> bad_set t \<inter> members (ctx_committee ctx). \<forall>a \<in> members (ctx_committee ctx). rs_scores_per_authority rs ! b \<le> rs_scores_per_authority rs ! a) \<and>
     (\<forall>sch rnd b. lsc_table sch = t \<and> elect_leader_stake_based g ctx rnd 0 = Some b \<and> b \<in> bad_set t \<longrightarrow>
        schedule_elect_leader g ctx sch rnd 0 = None)"
proof -
  define c where "c = ctx_committee ctx"
  define xs where "xs = scores_desc g i rs"
  note p = scores_desc_props[OF assms(1) assms(5)[folded c_def], of i, folded xs_def]
  obtain k m where km: "swap_table_new_inner g ctx thr i rs =
      Some \<lparr>lst_good_nodes = map (node_of c \<circ> fst) (take k xs),
        lst_bad_nodes = fmap_of_list (map (\<lambda>(i, h, s). (i, (h, s))) (rev (map (node_of c \<circ> fst) (take m (rev xs))))),
        lst_reputation_scores_desc = xs, lst_reputation_scores = rs\<rparr>" (is "_ = Some ?t")
      "stake_sum c (take k xs) \<le> swap_limit c thr"
      "m < length xs \<longrightarrow> swap_limit c thr < stake_sum c (take (Suc m) (rev xs))"
    using swap_table_spec[OF assms(1-5), of i] unfolding c_def xs_def by blast
  have ne: "xs \<noteq> []" using p(4) assms(2) by (auto simp: committee_wf_def c_def)
  note ends = scores_desc_ends[OF p(1,3) ne]
  have "swap_limit c thr < weight c (fst (hd xs))"
    using best ends(1) unfolding swap_limit_def c_def by (simp add: less_mult_imp_div_less mult.commute)
  then have "k = 0" using km(2) ne by (cases k; cases xs) auto
  have w: "weight c (fst (last xs)) \<le> swap_limit c thr"
    using worst ends(2) unfolding swap_limit_def c_def by (simp add: less_eq_div_iff_mult_less_eq mult.commute)
  have "take (Suc 0) (rev xs) = [last xs]" using ne by (cases xs rule: rev_cases) auto
  with w km(3) ne have "m \<noteq> 0" by (cases "m = 0") auto
  have good: "good_set ?t = {}" using \<open>k = 0\<close> by (simp add: good_set_def)
  have "bad_set ?t = fst ` set (take m (rev xs))" by (simp only: bad_set_def fmdom_bad_nodes leader_swap_table.simps)
  moreover have "last xs \<in> set (take m (rev xs))" using \<open>m \<noteq> 0\<close> ne by (cases xs rule: rev_cases; cases m) auto
  ultimately have "fst (last xs) \<in> bad_set ?t" by blast
  then have "\<exists>b \<in> bad_set ?t \<inter> members (ctx_committee ctx). \<forall>a \<in> members (ctx_committee ctx). rs_scores_per_authority rs ! b \<le> rs_scores_per_authority rs ! a"
    using ends(2) unfolding c_def by blast
  moreover have "schedule_elect_leader g ctx sch rnd 0 = None"
    if "lsc_table sch = ?t \<and> elect_leader_stake_based g ctx rnd 0 = Some b \<and> b \<in> bad_set ?t" for sch rnd b
    using that swap_no_good[OF assms(1) good] by (simp add: schedule_elect_leader_def)
  ultimately show ?thesis using km(1) good by blast
qed

text \<open>A generator that draws the last authority first: in the committee with stakes 5, 1, 1 it elects a bad node.\<close>

definition last_first_rng :: rng where
  "last_first_rng = example_rng\<lparr>rng_choose_multiple_weighted := \<lambda>_ xs n. Some (take n (rev xs))\<rparr>"

lemma last_first_rng_ok: "rng_ok last_first_rng"
  by (auto simp: rng_ok_def shuffle_ok_def choose_ok_def weighted_ok_def last_first_rng_def example_rng_def
      split: list.split option.split dest: in_set_takeD)

theorem swap_without_good_nodes_panics_witness:
  "\<exists>t. swap_table_new_inner last_first_rng (example_ctx\<lparr>ctx_committee := committee_skewed\<rparr>) 33 300
         \<lparr>rs_scores_per_authority = [30, 20, 10], rs_commit_range = range_new 1 300\<rparr> = Some t \<and>
     good_set t = {} \<and> elect_leader_stake_based last_first_rng (example_ctx\<lparr>ctx_committee := committee_skewed\<rparr>) 4 0 = Some 2 \<and>
     2 \<in> bad_set t \<and>
     schedule_elect_leader last_first_rng (example_ctx\<lparr>ctx_committee := committee_skewed\<rparr>) (leader_schedule_new t) 4 0 = None"
proof -
  define rs where "rs = \<lparr>rs_scores_per_authority = [30, 20, 10 :: 64 word], rs_commit_range = range_new 1 300\<rparr>"
  define ctx where "ctx = example_ctx\<lparr>ctx_committee := committee_skewed\<rparr>"
  have c: "ctx_committee ctx = committee_skewed" "committee_size committee_skewed = 3" "members committee_skewed = {0, 1, 2}"
    by (auto simp: ctx_def committee_size_def committee_skewed_def members_def)
  have sc: "rs_scores_per_authority rs = [30, 20, 10]" by (simp add: rs_def)
  have w: "weight committee_skewed 0 = 5" "weight committee_skewed 1 = 1" "weight committee_skewed 2 = 1" "c_total_stake committee_skewed = 7"
    by (simp_all add: weight_def committee_skewed_def test_authority_def)
  have el: "elect_leader_stake_based last_first_rng ctx 4 0 = Some 2" 
    by (simp add: elect_leader_stake_based_def c committee_authorities_def last_first_rng_def)
      (simp add: committee_skewed_def numeral_2_eq_2)
  have "\<exists>t. swap_table_new_inner last_first_rng ctx 33 300 rs = Some t \<and> good_set t = {} \<and>
     (\<exists>b \<in> bad_set t \<inter> members (ctx_committee ctx). \<forall>a \<in> members (ctx_committee ctx). rs_scores_per_authority rs ! b \<le> rs_scores_per_authority rs ! a) \<and>
     (\<forall>sch rnd b. lsc_table sch = t \<and> elect_leader_stake_based last_first_rng ctx rnd 0 = Some b \<and> b \<in> bad_set t \<longrightarrow>
        schedule_elect_leader last_first_rng ctx sch rnd 0 = None)"
    by (rule swap_without_good_nodes_panics[OF last_first_rng_ok])
      (simp_all add: c sc w committee_skewed_wf word_le_nat_alt)
  then obtain t b where t: "swap_table_new_inner last_first_rng ctx 33 300 rs = Some t" "good_set t = {}"
      "b \<in> bad_set t \<inter> {0, 1, 2}" "\<forall>a \<in> {0, 1, 2}. [30, 20, 10 :: 64 word] ! b \<le> [30, 20, 10] ! a"
      "\<forall>sch rnd b. lsc_table sch = t \<and> elect_leader_stake_based last_first_rng ctx rnd 0 = Some b \<and> b \<in> bad_set t \<longrightarrow>
        schedule_elect_leader last_first_rng ctx sch rnd 0 = None"
    unfolding c sc by blast
  have "b = 2" using t(3,4) by (auto simp: word_le_nat_alt)
  then show ?thesis using t el unfolding ctx_def rs_def by (auto simp: leader_schedule_new_def)
qed

end
