(* ===== verification/BaseCommitter.thy ===== *)
theory BaseCommitter
  imports DagTraversal LeaderSchedule
begin

text \<open>
  The commit rule of one leader slot (\<open>core/src/base_committer.rs\<close>): votes, certificates, the
  direct rule and the indirect rule from an anchor. A committer is its context and options; the DAG
  state and the leader schedule it shares with the rest of the node are arguments.

  The recursion of \<open>find_supported_block\<close> follows references downwards, so it ends because
  references point to lower rounds: it is a partial function here, and \<open>find_support_total\<close> shows
  that it returns. Its meaning is the inductive relation \<open>supports\<close> over the known blocks, which
  does not depend on the node: a larger DAG gives the same verdict.
\<close>

record base_committer_options =
  bo_wave_length :: nat
  bo_leader_offset :: nat
  bo_round_offset :: nat

definition base_committer_options_default :: base_committer_options where
  "base_committer_options_default =
     \<lparr>bo_wave_length = DEFAULT_WAVE_LENGTH, bo_leader_offset = 0, bo_round_offset = 0\<rparr>"

record base_committer =
  bc_context :: node_context
  bc_options :: base_committer_options

definition base_committer_new :: "node_context \<Rightarrow> base_committer_options \<Rightarrow> base_committer" where
  "base_committer_new ctx opts = \<lparr>bc_context = ctx, bc_options = opts\<rparr>"

section \<open>Waves\<close>

definition leader_round :: "base_committer \<Rightarrow> nat \<Rightarrow> round" where
  "leader_round bc wave =
     wave * bo_wave_length (bc_options bc) + bo_round_offset (bc_options bc)"

definition decision_round :: "base_committer \<Rightarrow> nat \<Rightarrow> round" where
  "decision_round bc wave =
     wave * bo_wave_length (bc_options bc) + bo_wave_length (bc_options bc) - 1 +
     bo_round_offset (bc_options bc)"

text \<open>A wave length of zero is a division by zero.\<close>

definition wave_number :: "base_committer \<Rightarrow> round \<Rightarrow> nat option" where
  "wave_number bc rnd =
     (if bo_wave_length (bc_options bc) = 0 then None
      else Some ((rnd - bo_round_offset (bc_options bc)) div bo_wave_length (bc_options bc)))"

definition elect_leader :: "rng \<Rightarrow> leader_schedule \<Rightarrow> base_committer \<Rightarrow> round \<Rightarrow> slot option option" where
  "elect_leader g sch bc rnd = do {
     wave \<leftarrow> wave_number bc rnd;
     if leader_round bc wave \<noteq> rnd then Some None
     else do {
       a \<leftarrow> schedule_elect_leader g (bc_context bc) sch rnd (bo_leader_offset (bc_options bc));
       Some (Some (Slot rnd a))
     }
   }"

section \<open>Votes and certificates\<close>

text \<open>The loop of \<open>find_supported_block\<close> over the ancestors, with the recursive call in place.\<close>

partial_function (option) find_in_ancestors :: "dag_state \<Rightarrow> slot \<Rightarrow> block_ref list
    \<Rightarrow> block_ref option option" where
  "find_in_ancestors ds s refs =
     (case refs of
        [] \<Rightarrow> Some None
      | r # rs \<Rightarrow>
          if slot_of_ref r = s then Some (Some r)
          else if br_round r \<le> slot_round s then find_in_ancestors ds s rs
          else (case get_block ds r of
                  Some (Some b) \<Rightarrow>
                    Option.bind
                      (if vb_round b < slot_round s then Some None
                       else find_in_ancestors ds s (vb_ancestors b))
                      (\<lambda>res. case res of
                         Some support \<Rightarrow> Some (Some support)
                       | None \<Rightarrow> find_in_ancestors ds s rs)
                | _ \<Rightarrow> None))"

definition find_supported_block :: "dag_state \<Rightarrow> slot \<Rightarrow> verified_block \<Rightarrow> block_ref option option" where
  "find_supported_block ds leader_slot from =
     (if vb_round from < slot_round leader_slot then Some None
      else find_in_ancestors ds leader_slot (vb_ancestors from))"

definition is_vote :: "dag_state \<Rightarrow> verified_block \<Rightarrow> verified_block \<Rightarrow> bool option" where
  "is_vote ds potential_vote leader_block = do {
     let r = reference leader_block;
     s \<leftarrow> find_supported_block ds (slot_of_ref r) potential_vote;
     Some (s = Some r)
   }"

type_synonym vote_cache = "(block_ref, bool) fmap"

definition check_vote :: "dag_state \<Rightarrow> verified_block \<Rightarrow> block_ref \<Rightarrow> vote_cache
    \<Rightarrow> (bool \<times> vote_cache) option" where
  "check_vote ds leader_block r all_votes =
     (case fmlookup all_votes r of
        Some v \<Rightarrow> Some (v, all_votes)
      | None \<Rightarrow> do {
          pv \<leftarrow> get_block ds r;
          v \<leftarrow> (case pv of
                 Some b \<Rightarrow> is_vote ds b leader_block
               | None \<Rightarrow> do { rust_assert (br_round r \<le> gc_round ds); Some False });
          Some (v, fmupd r v all_votes)
        })"

definition is_certificate :: "base_committer \<Rightarrow> dag_state \<Rightarrow> verified_block \<Rightarrow> verified_block
    \<Rightarrow> vote_cache \<Rightarrow> (bool \<times> vote_cache) option" where
  "is_certificate bc ds potential_certificate leader_block all_votes =
     scan_votes (aggregator_add QuorumThreshold) (ctx_committee (bc_context bc))
       (check_vote ds leader_block) br_author (vb_ancestors potential_certificate)
       aggregator_new all_votes"

section \<open>The direct rule\<close>

definition enough_leader_blame :: "base_committer \<Rightarrow> dag_state \<Rightarrow> round \<Rightarrow> authority_index \<Rightarrow> bool option" where
  "enough_leader_blame bc ds voting_round leader = do {
     voting_blocks \<leftarrow> get_uncommitted_blocks_at_round ds voting_round;
     (b, _) \<leftarrow> scan_votes (aggregator_add QuorumThreshold) (ctx_committee (bc_context bc))
       (\<lambda>vb u. Some (list_all (\<lambda>x. br_author x \<noteq> leader) (vb_ancestors vb), u)) vb_author
       voting_blocks aggregator_new ();
     Some b
   }"

definition enough_leader_support :: "base_committer \<Rightarrow> dag_state \<Rightarrow> round \<Rightarrow> verified_block \<Rightarrow> bool option" where
  "enough_leader_support bc ds dround leader_block = do {
     decision_blocks \<leftarrow> get_uncommitted_blocks_at_round ds dround;
     stakes \<leftarrow> try_map (\<lambda>b. committee_stake (ctx_committee (bc_context bc)) (vb_author b)) decision_blocks;
     if \<not> reached_quorum (ctx_committee (bc_context bc)) (sum_list stakes) then Some False
     else do {
       (b, _) \<leftarrow> scan_votes (aggregator_add QuorumThreshold) (ctx_committee (bc_context bc))
         (\<lambda>db. is_certificate bc ds db leader_block) vb_author decision_blocks aggregator_new fmempty;
       Some b
     }
   }"

definition try_direct_decide :: "base_committer \<Rightarrow> dag_state \<Rightarrow> slot \<Rightarrow> leader_status option" where
  "try_direct_decide bc ds leader = do {
     blame \<leftarrow> enough_leader_blame bc ds (slot_round leader + 1) (slot_authority leader);
     if blame then Some (Skip leader)
     else do {
       wave \<leftarrow> wave_number bc (slot_round leader);
       ls \<leftarrow> try_filter (enough_leader_support bc ds (decision_round bc wave))
         (get_uncommitted_blocks_at_slot ds leader);
       rust_assert (length ls \<le> 1);
       Some (case ls of [] \<Rightarrow> Undecided leader | _ \<Rightarrow> Commit (last ls))
     }
   }"

section \<open>The indirect rule\<close>

fun any_certificate :: "base_committer \<Rightarrow> dag_state \<Rightarrow> verified_block \<Rightarrow> verified_block list
    \<Rightarrow> vote_cache \<Rightarrow> bool option" where
  "any_certificate bc ds leader_block [] all_votes = Some False"
| "any_certificate bc ds leader_block (c # cs) all_votes = do {
     (b, all_votes') \<leftarrow> is_certificate bc ds c leader_block all_votes;
     if b then Some True else any_certificate bc ds leader_block cs all_votes'
   }"

definition decide_leader_from_anchor :: "base_committer \<Rightarrow> dag_state \<Rightarrow> verified_block \<Rightarrow> slot
    \<Rightarrow> leader_status option" where
  "decide_leader_from_anchor bc ds anchor leader_slot = do {
     wave \<leftarrow> wave_number bc (slot_round leader_slot);
     potential_certificates \<leftarrow> ancestors_at_round ds anchor (decision_round bc wave);
     ls \<leftarrow> try_filter (\<lambda>lb. any_certificate bc ds lb potential_certificates fmempty)
       (get_uncommitted_blocks_at_slot ds leader_slot);
     rust_assert (length ls \<le> 1);
     Some (case ls of [] \<Rightarrow> Skip leader_slot | _ \<Rightarrow> Commit (last ls))
   }"

text \<open>The first decided leader after the wave is the anchor, unless an undecided one comes first.\<close>

fun first_anchor :: "leader_status list \<Rightarrow> verified_block option" where
  "first_anchor [] = None"
| "first_anchor (Commit b # ss) = Some b"
| "first_anchor (Skip s # ss) = first_anchor ss"
| "first_anchor (Undecided s # ss) = None"

definition try_indirect_decide :: "base_committer \<Rightarrow> dag_state \<Rightarrow> slot \<Rightarrow> leader_status list
    \<Rightarrow> leader_status option" where
  "try_indirect_decide bc ds leader_slot leaders =
     (case first_anchor (filter (\<lambda>x. slot_round leader_slot + bo_wave_length (bc_options bc) \<le> status_round x)
              leaders) of
        Some anchor \<Rightarrow> decide_leader_from_anchor bc ds anchor leader_slot
      | None \<Rightarrow> Some (Undecided leader_slot))"

section \<open>What a block supports\<close>

type_synonym dag_view = "block_ref \<Rightarrow> verified_block option"

text \<open>
  \<open>supports G s refs x\<close>: the depth-first search through \<open>refs\<close> over the blocks \<open>G\<close> ends, and \<open>x\<close> is
  what it finds at slot \<open>s\<close>.
\<close>

inductive supports :: "dag_view \<Rightarrow> slot \<Rightarrow> block_ref list \<Rightarrow> block_ref option \<Rightarrow> bool" for G s where
  sup_nil: "supports G s [] None"
| sup_hit: "slot_of_ref r = s \<Longrightarrow> supports G s (r # rs) (Some r)"
| sup_low: "slot_of_ref r \<noteq> s \<Longrightarrow> br_round r \<le> slot_round s \<Longrightarrow> supports G s rs x
    \<Longrightarrow> supports G s (r # rs) x"
| sup_down: "slot_of_ref r \<noteq> s \<Longrightarrow> slot_round s < br_round r \<Longrightarrow> G r = Some b
    \<Longrightarrow> slot_round s \<le> vb_round b \<Longrightarrow> supports G s (vb_ancestors b) (Some x) \<Longrightarrow> supports G s (r # rs) (Some x)"
| sup_next: "slot_of_ref r \<noteq> s \<Longrightarrow> slot_round s < br_round r \<Longrightarrow> G r = Some b
    \<Longrightarrow> vb_round b < slot_round s \<or> supports G s (vb_ancestors b) None \<Longrightarrow> supports G s rs x
    \<Longrightarrow> supports G s (r # rs) x"

inductive_cases supports_nilE: "supports G s [] x"
inductive_cases supports_consE: "supports G s (r # rs) x"

lemma supports_det: "supports G s rs x \<Longrightarrow> supports G s rs y \<Longrightarrow> x = y"
proof (induction arbitrary: y rule: supports.induct)
  case sup_nil
  then show ?case by (auto elim: supports_nilE)
next
  case (sup_hit r rs)
  then show ?case by (auto elim: supports_consE)
next
  case (sup_low r rs x)
  from sup_low.prems show ?case
    by (rule supports_consE) (use sup_low.hyps(1,2) in \<open>auto dest: sup_low.IH\<close>)
next
  case (sup_down r b x rs)
  from sup_down.prems show ?case
    by (rule supports_consE) (use sup_down.hyps(1-4) in \<open>auto dest: sup_down.IH\<close>)
next
  case (sup_next r b rs x)
  from sup_next.prems show ?case
    by (rule supports_consE) (use sup_next.hyps(1-3) sup_next.IH in \<open>auto\<close>)
qed

text \<open>More blocks do not change what is found.\<close>

lemma supports_mono:
  assumes "supports G s rs x" and "G \<subseteq>\<^sub>m G'"
  shows "supports G' s rs x"
  using assms(1)
proof (induction rule: supports.induct)
  case (sup_down r b x rs)
  have "G' r = Some b" using assms(2) sup_down.hyps(3) by (metis domI map_le_def)
  with sup_down show ?case by (auto intro: supports.sup_down)
next
  case (sup_next r b rs x)
  have "G' r = Some b" using assms(2) sup_next.hyps(3) by (metis domI map_le_def)
  with sup_next show ?case by (auto intro: supports.sup_next)
qed (auto intro: supports.intros)

text \<open>What is found is at the slot, and the search started at or above the slot's round.\<close>

lemma supports_slot:
  "supports G s rs x \<Longrightarrow> x = Some y \<Longrightarrow> slot_of_ref y = s"
  by (induction arbitrary: y rule: supports.induct) auto

lemma supports_round:
  assumes "supports G s rs (Some y)"
  shows "\<exists>r \<in> set rs. slot_round s \<le> br_round r"
proof -
  have "x = Some y \<Longrightarrow> \<exists>r \<in> set rs. slot_round s \<le> br_round r" if "supports G s rs x" for x
    using that by induction (auto simp: slot_of_ref_def)
  with assms show ?thesis by blast
qed

text \<open>When all references are at or below the slot's round, what is found is one of them.\<close>

lemma supports_direct:
  assumes "supports G s rs (Some y)" and "\<forall>r \<in> set rs. br_round r \<le> slot_round s"
  shows "y \<in> set rs"
proof -
  have "x = Some y \<Longrightarrow> \<forall>r \<in> set rs. br_round r \<le> slot_round s \<Longrightarrow> y \<in> set rs" if "supports G s rs x" for x
    using that by induction auto
  with assms show ?thesis by blast
qed

text \<open>What is found is in the causal history.\<close>

definition parents :: "dag_view \<Rightarrow> (block_ref \<times> block_ref) set" where
  "parents G = {(r, x). \<exists>b. G r = Some b \<and> x \<in> set (vb_ancestors b)}"

lemma parents_lookup: "parents (lookup_block ds) = parent ds"
  by (simp add: parents_def parent_def)

lemma supports_reachable:
  assumes "supports G s rs (Some y)"
  shows "y \<in> (parents G)\<^sup>* `` set rs"
proof -
  have "x = Some y \<Longrightarrow> y \<in> (parents G)\<^sup>* `` set rs" if "supports G s rs x" for x
    using that
  proof induction
    case (sup_down r b x rs)
    have "set (vb_ancestors b) \<subseteq> (parents G)\<^sup>* `` {r}"
      using sup_down.hyps(3) by (auto simp: parents_def)
    with sup_down.IH sup_down.prems have "y \<in> (parents G)\<^sup>* `` ((parents G)\<^sup>* `` {r})" by auto
    then have "y \<in> (parents G)\<^sup>* `` {r}" by (simp flip: relcomp_Image)
    then show ?case by auto
  qed auto
  with assms show ?thesis by blast
qed

section \<open>The search computes the relation\<close>

lemma find_in_sound:
  "find_in_ancestors ds s rs = Some x \<Longrightarrow> supports (lookup_block ds) s rs x"
proof (rule find_in_ancestors.raw_induct[where P = "\<lambda>ds s rs x. supports (lookup_block ds) s rs x"])
  fix f ds s rs x
  assume IH: "\<And>ds s rs x. f ds s rs = Some x \<Longrightarrow> supports (lookup_block ds) s rs x"
    and step: "(case rs of
        [] \<Rightarrow> Some None
      | r # rs \<Rightarrow>
          if slot_of_ref r = s then Some (Some r)
          else if br_round r \<le> slot_round s then f ds s rs
          else (case get_block ds r of
                  Some (Some b) \<Rightarrow>
                    Option.bind
                      (if vb_round b < slot_round s then Some None else f ds s (vb_ancestors b))
                      (\<lambda>res. case res of Some support \<Rightarrow> Some (Some support) | None \<Rightarrow> f ds s rs)
                | _ \<Rightarrow> None)) = Some x"
  show "supports (lookup_block ds) s rs x"
  proof (cases rs)
    case Nil
    with step show ?thesis by (auto intro: supports.intros)
  next
    case (Cons r rs')
    show ?thesis
    proof (cases "slot_of_ref r = s \<or> br_round r \<le> slot_round s")
      case True
      with step Cons show ?thesis by (auto intro: supports.intros IH split: if_splits)
    next
      case False
      with step Cons obtain b res where b: "lookup_block ds r = Some b"
          "(if vb_round b < slot_round s then Some None else f ds s (vb_ancestors b)) = Some res"
          "(case res of Some support \<Rightarrow> Some (Some support) | None \<Rightarrow> f ds s rs') = Some x"
        by (auto simp: bind_eq_Some_conv simp del: option.case split: option.splits)
      show ?thesis
      proof (cases res)
        case None
        with b have "f ds s rs' = Some x"
            "vb_round b < slot_round s \<or> f ds s (vb_ancestors b) = Some None" by (auto split: if_splits)
        with False b(1) show ?thesis unfolding Cons by (intro sup_next[where b = b]) (auto intro: IH)
      next
        case (Some y)
        with b have "x = Some y" "slot_round s \<le> vb_round b" "f ds s (vb_ancestors b) = Some (Some y)"
          by (auto split: if_splits)
        with False b(1) show ?thesis unfolding Cons by (auto intro: sup_down IH)
      qed
    qed
  qed
qed

lemma find_in_complete:
  "supports (lookup_block ds) s rs x \<Longrightarrow> find_in_ancestors ds s rs = Some x"
proof (induction rule: supports.induct)
  case sup_nil
  then show ?case by (simp add: find_in_ancestors.simps)
qed (subst find_in_ancestors.simps; auto)+

lemma find_in_iff: "find_in_ancestors ds s rs = Some x \<longleftrightarrow> supports (lookup_block ds) s rs x"
  using find_in_sound find_in_complete by blast

text \<open>
  The search returns: references point to lower rounds, and the blocks above the slot's round are
  known.
\<close>

lemma supports_total:
  assumes down: "\<And>r b x. G r = Some b \<Longrightarrow> x \<in> set (vb_ancestors b) \<Longrightarrow> br_round x < br_round r \<and>
      (slot_round s < br_round x \<longrightarrow> G x \<noteq> None)"
    and known: "\<forall>r \<in> set rs. slot_round s < br_round r \<longrightarrow> G r \<noteq> None"
  shows "\<exists>x. supports G s rs x"
proof -
  have "\<forall>r \<in> set rs. br_round r < n \<and> (slot_round s < br_round r \<longrightarrow> G r \<noteq> None) \<Longrightarrow>
      \<exists>x. supports G s rs x" for n
  proof (induction n arbitrary: rs)
    case 0
    then show ?case by (cases rs) (auto intro: supports.intros)
  next
    case (Suc n)
    note outer = Suc.IH
    show ?case using Suc.prems
    proof (induction rs)
      case Nil
      show ?case by (auto intro: supports.intros)
    next
      case (Cons r rs)
      then obtain x where x: "supports G s rs x" by auto
      show ?case
      proof (cases "slot_of_ref r = s \<or> br_round r \<le> slot_round s")
        case True
        with x show ?thesis by (metis sup_hit sup_low)
      next
        case False
        then obtain b where b: "G r = Some b" using Cons.prems by auto
        have "\<forall>y \<in> set (vb_ancestors b). br_round y < n \<and> (slot_round s < br_round y \<longrightarrow> G y \<noteq> None)"
          using down[OF b] Cons.prems by fastforce
        then obtain y where y: "supports G s (vb_ancestors b) y" using outer by blast
        show ?thesis
        proof (cases "vb_round b < slot_round s")
          case True
          with False b x show ?thesis by (intro exI[of _ x] sup_next[where b = b]) auto
        next
          case f: False
          show ?thesis
          proof (cases y)
            case None
            with False b x y show ?thesis by (intro exI[of _ x] sup_next[where b = b]) auto
          next
            case (Some z)
            with False b f y show ?thesis by (intro exI[of _ "Some z"] sup_down[where b = b]) auto
          qed
        qed
      qed
    qed
  qed
  moreover have "\<forall>r \<in> set rs. br_round r < Suc (Max (br_round ` set rs))"
    by (simp add: less_Suc_eq_le)
  ultimately show ?thesis using known by blast
qed

text \<open>Votes and certificates over a view.\<close>

definition votes_for :: "dag_view \<Rightarrow> verified_block \<Rightarrow> block_ref \<Rightarrow> bool" where
  "votes_for G b l \<longleftrightarrow> slot_round (slot_of_ref l) \<le> vb_round b \<and>
     supports G (slot_of_ref l) (vb_ancestors b) (Some l)"

definition voting_refs :: "dag_view \<Rightarrow> verified_block \<Rightarrow> block_ref \<Rightarrow> block_ref set" where
  "voting_refs G cert l = {r \<in> set (vb_ancestors cert). \<exists>b. G r = Some b \<and> votes_for G b l}"

definition certifies :: "committee \<Rightarrow> dag_view \<Rightarrow> verified_block \<Rightarrow> block_ref \<Rightarrow> bool" where
  "certifies c G cert l \<longleftrightarrow> quorum c \<le> stake_of c (br_author ` voting_refs G cert l)"

lemma find_support_total:
  assumes "causal ds (Suc (slot_round s))"
    and "\<forall>r \<in> set (vb_ancestors b). slot_round s < br_round r \<longrightarrow> lookup_block ds r \<noteq> None"
  shows "\<exists>x. find_supported_block ds s b = Some x"
  using supports_total[of "lookup_block ds" s "vb_ancestors b"] assms
  by (auto simp: find_supported_block_def find_in_iff causal_def Suc_le_eq)

lemma is_vote_eq:
  assumes "causal ds (Suc (vb_round l))"
    and "\<forall>r \<in> set (vb_ancestors b). vb_round l < br_round r \<longrightarrow> lookup_block ds r \<noteq> None"
  shows "is_vote ds b l = Some (votes_for (lookup_block ds) b (reference l))"
proof -
  obtain x where x: "find_supported_block ds (slot_of_ref (reference l)) b = Some x"
    using find_support_total[of ds "slot_of_ref (reference l)" b] assms by auto
  then have "x = Some (reference l) \<longleftrightarrow> votes_for (lookup_block ds) b (reference l)"
    by (auto simp: votes_for_def find_supported_block_def find_in_iff dest: supports_det split: if_splits)
  with x show ?thesis by (simp add: is_vote_def)
qed

text \<open>
  With the cache, \<open>check_vote\<close> answers as without it: every cached entry is the verdict the view
  gives. A missing ancestor is at or below the garbage collection round, where no vote can be.
\<close>

definition cache_ok :: "dag_view \<Rightarrow> block_ref \<Rightarrow> vote_cache \<Rightarrow> bool" where
  "cache_ok G l m \<longleftrightarrow> (\<forall>r v. fmlookup m r = Some v \<longrightarrow> v = (\<exists>b. G r = Some b \<and> votes_for G b l))"

definition ready :: "dag_state \<Rightarrow> round \<Rightarrow> bool" where
  "ready ds rnd \<longleftrightarrow> dag_inv ds \<and> causal ds (Suc (gc_round ds)) \<and> gc_round ds \<le> rnd"

lemma causal_mono: "causal ds a \<Longrightarrow> a \<le> b \<Longrightarrow> causal ds b"
  unfolding causal_def by (meson le_trans)

lemma readyD:
  assumes "ready ds rnd"
  shows "dag_inv ds" "causal ds (Suc rnd)" "gc_round ds \<le> rnd" "committee_wf (ds_committee ds)"
    "\<And>r b. lookup_block ds r = Some b \<Longrightarrow> reference b = r"
    "\<And>r b x. lookup_block ds r = Some b \<Longrightarrow> x \<in> set (vb_ancestors b) \<Longrightarrow> br_round x < br_round r"
    "\<And>r b x. lookup_block ds r = Some b \<Longrightarrow> x \<in> set (vb_ancestors b) \<Longrightarrow> gc_round ds < br_round x \<Longrightarrow>
      lookup_block ds x \<noteq> None"
proof -
  show inv: "dag_inv ds" and gc: "gc_round ds \<le> rnd" using assms by (simp_all add: ready_def)
  have c: "causal ds (Suc (gc_round ds))" using assms by (simp add: ready_def)
  then show "causal ds (Suc rnd)" using gc by (auto intro: causal_mono)
  show "committee_wf (ds_committee ds)" using inv by (simp add: dag_inv_def genesis_inv_def)
  show "reference b = r" if "lookup_block ds r = Some b" for r b using lookup_ref[OF inv that] .
  show "br_round x < br_round r" "gc_round ds < br_round x \<Longrightarrow> lookup_block ds x \<noteq> None"
    if "lookup_block ds r = Some b" "x \<in> set (vb_ancestors b)" for r b x
    using c that unfolding causal_def by (blast, simp add: Suc_le_eq)
qed

lemma check_vote_ok:
  assumes rd: "ready ds (vb_round l)" and cert: "lookup_block ds cr = Some cert"
    and r: "r \<in> set (vb_ancestors cert)" and m: "cache_ok (lookup_block ds) (reference l) m"
  shows "\<exists>m'. check_vote ds l r m =
      Some (\<exists>b. lookup_block ds r = Some b \<and> votes_for (lookup_block ds) b (reference l), m') \<and>
      cache_ok (lookup_block ds) (reference l) m'"
proof (cases "fmlookup m r")
  case (Some v)
  with m show ?thesis by (auto simp: check_vote_def cache_ok_def)
next
  case None
  note rd = readyD[OF rd]
  define w where "w = (\<exists>b. lookup_block ds r = Some b \<and> votes_for (lookup_block ds) b (reference l))"
  have "(case lookup_block ds r of Some b \<Rightarrow> is_vote ds b l
      | None \<Rightarrow> do { rust_assert (br_round r \<le> gc_round ds); Some False }) = Some w"
  proof (cases "lookup_block ds r")
    case None
    then have "br_round r \<le> gc_round ds" using rd(7)[OF cert r] by (meson not_le)
    with None show ?thesis by (simp add: w_def)
  next
    case (Some b)
    then have "is_vote ds b l = Some (votes_for (lookup_block ds) b (reference l))"
      using rd(2,3,7) by (intro is_vote_eq) fastforce+
    with Some show ?thesis by (simp add: w_def)
  qed
  then have "check_vote ds l r m = Some (w, fmupd r w m)" using None by (simp add: check_vote_def)
  moreover have "cache_ok (lookup_block ds) (reference l) (fmupd r w m)"
    using m by (auto simp: cache_ok_def w_def)
  ultimately show ?thesis by (auto simp: w_def)
qed

text \<open>\<open>is_certificate\<close> is exact, whatever correct cache it starts from.\<close>

lemma is_certificate_ok:
  assumes rd: "ready ds (vb_round l)" and cert: "lookup_block ds cr = Some cert"
    and c: "ctx_committee (bc_context bc) = ds_committee ds"
    and mem: "\<And>r b. lookup_block ds r = Some b \<Longrightarrow> br_author r \<in> members (ds_committee ds)"
    and m: "cache_ok (lookup_block ds) (reference l) m"
  shows "\<exists>m'. is_certificate bc ds cert l m =
      Some (certifies (ds_committee ds) (lookup_block ds) cert (reference l), m') \<and>
      cache_ok (lookup_block ds) (reference l) m'"
proof -
  let ?P = "\<lambda>r. \<exists>b. lookup_block ds r = Some b \<and> votes_for (lookup_block ds) b (reference l)"
  have "\<exists>m'. scan_votes (aggregator_add QuorumThreshold) (ds_committee ds) (check_vote ds l) br_author
      (vb_ancestors cert) aggregator_new m =
      Some (quorum (ds_committee ds) \<le> stake_of (ds_committee ds) (br_author ` {r \<in> set (vb_ancestors cert). ?P r}), m')
      \<and> cache_ok (lookup_block ds) (reference l) m'"
    using readyD(4)[OF rd] check_vote_ok[OF rd cert] m mem
    by (intro qc.scan_from_empty[where J = "cache_ok (lookup_block ds) (reference l)"]) auto
  then show ?thesis by (simp add: is_certificate_def c certifies_def voting_refs_def)
qed

end
