(* ===== verification/CommitterSafety.thy ===== *)
theory CommitterSafety
  imports BaseCommitter
begin

text \<open>
  Why the commit rule is safe. The blocks of an epoch that any node may know form one DAG \<open>G\<close>
  (\<open>bft_dag\<close>): block references identify blocks, references point to lower rounds, a block refers
  to a quorum of the round before (the block verifier checks it), and the authorities that are not
  faulty produce one block per round whose first reference is their previous block. The faulty ones
  hold less than the validity threshold. A node knows a part of \<open>G\<close> (\<open>node_view\<close>).

  Shown from it: a vote persists along the blocks of its author, at most one block of a slot is ever
  certified, a blamed slot is never certified, a directly committed leader has a certificate in the
  history of every later block. The decisions of \<open>BaseCommitter\<close> are exact in terms of \<open>G\<close>, so any
  two nodes agree on them; the contract \<open>commit_rule\<close> collects this for the sequence of leaders.
\<close>

section \<open>The cache above the garbage collection round\<close>

lemma cached_above_gc:
  assumes "dag_inv ds" and "gc_round ds < br_round r"
  shows "lookup_block ds r = map_option bi_block (fmlookup (ds_recent_blocks ds) r)"
proof (cases "fmlookup (ds_recent_blocks ds) r")
  case (Some bi)
  then have "0 < br_round r" using assms(2) by simp
  with Some show ?thesis by (simp add: lookup_block_def GENESIS_ROUND_def)
next
  case None
  have inv: "store_inv ds" "evict_inv ds" using assms(1) by (simp_all add: dag_inv_def)
  have "mem_lookup (ds_store ds) r = None"
  proof (rule ccontr)
    assume "mem_lookup (ds_store ds) r \<noteq> None"
    then obtain b where b: "mem_lookup (ds_store ds) r = Some b" by auto
    have "br_author r < ds_size ds" using store_invD(2)[OF inv(1) b] by simp
    then have "ds_evicted_rounds ds ! br_author r \<le> gc_round ds"
      using inv(2) by (auto simp: evict_inv_def eviction_round_def)
    then show False using store_invD(5)[OF inv(1) b None] assms(2) by simp
  qed
  with None assms(2) show ?thesis by (simp add: lookup_block_def GENESIS_ROUND_def)
qed

lemma gc_le_last_commit: "gc_round ds \<le> last_commit_round ds"
  by (simp add: gc_round_def calculate_gc_round_def)

lemma cached_values:
  assumes inv: "dag_inv ds" and P: "\<And>k. P k \<Longrightarrow> gc_round ds < br_round k"
  shows "set (map (bi_block \<circ> snd) (fm_range P (ds_recent_blocks ds))) =
      {b. lookup_block ds (reference b) = Some b \<and> P (reference b)}" (is "?L = ?R")
proof
  show "?L \<subseteq> ?R"
  proof
    fix b assume "b \<in> ?L"
    then obtain k bi where k: "fmlookup (ds_recent_blocks ds) k = Some bi" "P k" "b = bi_block bi"
      by (auto simp: set_fm_range)
    then have "lookup_block ds k = Some b" using cached_above_gc[OF inv P[OF k(2)]] by simp
    moreover have "reference b = k" using lookup_ref[OF inv calculation] .
    ultimately show "b \<in> ?R" using k(2) by simp
  qed
  show "?R \<subseteq> ?L"
  proof
    fix b assume "b \<in> ?R"
    then have b: "lookup_block ds (reference b) = Some b" "P (reference b)" by auto
    then obtain bi where "fmlookup (ds_recent_blocks ds) (reference b) = Some bi" "bi_block bi = b"
      using cached_above_gc[OF inv P[OF b(2)]] by auto
    then show "b \<in> ?L" using b(2) by (force simp: set_fm_range)
  qed
qed

lemma blocks_at_slot:
  assumes "dag_inv ds" and "gc_round ds < slot_round s"
  shows "set (get_uncommitted_blocks_at_slot ds s) =
      {b. lookup_block ds (reference b) = Some b \<and> slot_of_ref (reference b) = s}"
  using assms cached_values[OF assms(1), of "\<lambda>k. slot_of_ref k = s"]
  by (cases s) (auto simp: get_uncommitted_blocks_at_slot_def ref_in_slot_range slot_of_ref_def)

lemma distinct_cached_values:
  assumes "dag_inv ds"
  shows "distinct (map (bi_block \<circ> snd) (fm_range P (ds_recent_blocks ds)))"
proof -
  have "map reference (map (bi_block \<circ> snd) (fm_range P (ds_recent_blocks ds))) =
      map fst (fm_range P (ds_recent_blocks ds))"
    unfolding map_map using assms
    by (intro map_cong refl) (auto simp: set_fm_range dag_inv_def cache_inv_def)
  then have "distinct (map reference (map (bi_block \<circ> snd) (fm_range P (ds_recent_blocks ds))))"
    by simp
  then show ?thesis unfolding distinct_map[of reference] by blast
qed

lemma distinct_blocks_at_slot:
  "dag_inv ds \<Longrightarrow> distinct (get_uncommitted_blocks_at_slot ds s)"
  unfolding get_uncommitted_blocks_at_slot_def by (rule distinct_cached_values)

lemma distinct_blocks_at_round:
  "dag_inv ds \<Longrightarrow> get_uncommitted_blocks_at_round ds rnd = Some bs \<Longrightarrow> distinct bs"
  using distinct_cached_values by (auto simp: get_uncommitted_blocks_at_round_def split: if_splits)

lemma blocks_at_round:
  assumes "dag_inv ds" and "get_uncommitted_blocks_at_round ds rnd = Some bs"
  shows "last_commit_round ds < rnd"
    and "set bs = {b. lookup_block ds (reference b) = Some b \<and> vb_round b = rnd}"
proof -
  show *: "last_commit_round ds < rnd"
    using assms(2) by (simp add: get_uncommitted_blocks_at_round_def split: if_splits)
  then have "gc_round ds < rnd" using gc_le_last_commit[of ds] by simp
  then show "set bs = {b. lookup_block ds (reference b) = Some b \<and> vb_round b = rnd}"
    using assms(2) cached_values[OF assms(1), of "\<lambda>k. br_round k = rnd"]
    unfolding get_uncommitted_blocks_at_round_def ref_in_round_range by (auto split: if_splits)
qed

section \<open>The DAG of an epoch\<close>

definition bft_dag :: "committee \<Rightarrow> authority_index set \<Rightarrow> dag_view \<Rightarrow> bool" where
  "bft_dag c F G \<longleftrightarrow> committee_wf c \<and> F \<subseteq> members c \<and> stake_of c F < validity c \<and>
     (\<forall>r b. G r = Some b \<longrightarrow> reference b = r \<and> br_author r \<in> members c \<and>
        (\<forall>x \<in> set (vb_ancestors b). br_round x < br_round r \<and> G x \<noteq> None) \<and>
        (0 < br_round r \<longrightarrow> quorum c \<le>
           stake_of c (br_author ` {x \<in> set (vb_ancestors b). Suc (br_round x) = br_round r}))) \<and>
     (\<forall>r r' b. G r = Some b \<and> G r' \<noteq> None \<and> br_author r = br_author r' \<and> br_author r \<notin> F \<longrightarrow>
        (br_round r' = br_round r \<longrightarrow> r' = r) \<and>
        (br_round r' < br_round r \<longrightarrow> (\<exists>x xs. vb_ancestors b = x # xs \<and> br_author x = br_author r \<and>
           br_round r' \<le> br_round x)))"

lemma bft_dagD:
  assumes "bft_dag c F G"
  shows "committee_wf c" "F \<subseteq> members c" "stake_of c F < validity c"
    and "G r = Some b \<Longrightarrow> reference b = r"
    and "G r = Some b \<Longrightarrow> br_author r \<in> members c"
    and "G r = Some b \<Longrightarrow> x \<in> set (vb_ancestors b) \<Longrightarrow> br_round x < br_round r"
    and "G r = Some b \<Longrightarrow> x \<in> set (vb_ancestors b) \<Longrightarrow> \<exists>d. G x = Some d"
    and "G r = Some b \<Longrightarrow> 0 < br_round r \<Longrightarrow> quorum c \<le>
           stake_of c (br_author ` {x \<in> set (vb_ancestors b). Suc (br_round x) = br_round r})"
    and "G r = Some b \<Longrightarrow> G r' = Some b' \<Longrightarrow> br_author r = br_author r' \<Longrightarrow> br_author r \<notin> F \<Longrightarrow>
           br_round r' = br_round r \<Longrightarrow> r' = r"
    and "G r = Some b \<Longrightarrow> G r' = Some b' \<Longrightarrow> br_author r = br_author r' \<Longrightarrow> br_author r \<notin> F \<Longrightarrow>
           br_round r' < br_round r \<Longrightarrow>
           \<exists>x xs. vb_ancestors b = x # xs \<and> br_author x = br_author r \<and> br_round r' \<le> br_round x"
  using assms unfolding bft_dag_def by (blast, blast, blast, blast, blast, blast, blast, blast, blast, blast)

lemma votes_forD:
  assumes "bft_dag c F G" "G r = Some b" "votes_for G b l"
  shows "br_round l < br_round r"
proof -
  obtain x where "x \<in> set (vb_ancestors b)" "br_round l \<le> br_round x"
    using supports_round[of G "slot_of_ref l" "vb_ancestors b" l] assms(3)
    by (auto simp: votes_for_def slot_of_ref_def)
  with bft_dagD(6)[OF assms(1,2)] show ?thesis by (meson le_less_trans)
qed

text \<open>A vote persists: the later blocks of its author support the same leader block.\<close>

lemma vote_persists:
  assumes G: "bft_dag c F G" and r: "G r = Some b" and v: "votes_for G b l"
    and h: "br_author r \<notin> F"
  shows "G r' = Some b' \<Longrightarrow> br_author r' = br_author r \<Longrightarrow> br_round r \<le> br_round r' \<Longrightarrow> votes_for G b' l"
proof (induction "br_round r'" arbitrary: r' b' rule: less_induct)
  case less
  show ?case
  proof (cases "br_round r' = br_round r")
    case True
    then have "r' = r" using bft_dagD(9)[OF G less.prems(1) r] less.prems(2) h by simp
    then show ?thesis using v r less.prems(1) by simp
  next
    case False
    then have "br_round r < br_round r'" using less.prems(3) by simp
    then obtain x xs where x: "vb_ancestors b' = x # xs" "br_author x = br_author r'" "br_round r \<le> br_round x"
      using bft_dagD(10)[OF G less.prems(1) r] less.prems(2) h by auto
    obtain d where d: "G x = Some d" using bft_dagD(7)[OF G less.prems(1)] x(1) by auto
    have lt: "br_round x < br_round r'" using bft_dagD(6)[OF G less.prems(1)] x(1) by auto
    have vd: "votes_for G d l" using less.hyps[OF lt d _ x(3)] x(2) less.prems(2) by simp
    have rl: "br_round l < br_round x" using votes_forD[OF G r v] x(3) by simp
    have "reference d = x" "reference b' = r'" using bft_dagD(4)[OF G] d less.prems(1) by auto
    then have rounds: "vb_round d = br_round x" "vb_round b' = br_round r'" by auto
    have "supports G (slot_of_ref l) (x # xs) (Some l)"
      using vd rl d rounds by (intro sup_down[where b = d]) (auto simp: votes_for_def slot_of_ref_def)
    then show ?thesis using x(1) rl lt rounds by (simp add: votes_for_def slot_of_ref_def)
  qed
qed

lemma honest_vote_unique:
  assumes G: "bft_dag c F G" and r: "G r = Some b" "votes_for G b l" and r': "G r' = Some b'" "votes_for G b' l'"
    and a: "br_author r = br_author r'" "br_author r \<notin> F" and s: "slot_of_ref l = slot_of_ref l'"
  shows "l = l'"
proof -
  have same: "l = l'" if "votes_for G d l" "votes_for G d l'" for d
    using that s supports_det[of G "slot_of_ref l" "vb_ancestors d" "Some l" "Some l'"]
    by (simp add: votes_for_def)
  show ?thesis
  proof (cases "br_round r \<le> br_round r'")
    case True
    then have "votes_for G b' l" using vote_persists[OF G r(1,2) a(2) r'(1)] a(1) by simp
    then show ?thesis using r'(2) same by blast
  next
    case False
    then have "votes_for G b l'" using vote_persists[OF G r'(1,2) _ r(1)] a by simp
    then show ?thesis using r(2) same by blast
  qed
qed

text \<open>At most one block of a slot is certified, by whatever certificates.\<close>

lemma voting_authors:
  assumes "bft_dag c F G"
  shows "br_author ` voting_refs G cert l \<subseteq> members c"
  using bft_dagD(5)[OF assms] by (auto simp: voting_refs_def)

lemma quorums_meet:
  assumes "bft_dag c F G" and "A \<subseteq> members c" and "B \<subseteq> members c"
    and "quorum c \<le> stake_of c A" and "quorum c \<le> stake_of c B"
  shows "\<exists>i. i \<in> A \<and> i \<in> B \<and> i \<notin> F"
  using cq.intersection_honest[OF bft_dagD(1)[OF assms(1)] assms(2,3)] assms bft_dagD(2,3)[OF assms(1)]
  by (simp add: stake_of_def)

lemma certificate_unique:
  assumes G: "bft_dag c F G" and "certifies c G cert l" and "certifies c G cert' l'"
    and s: "slot_of_ref l = slot_of_ref l'"
  shows "l = l'"
proof -
  obtain i where "i \<in> br_author ` voting_refs G cert l" "i \<in> br_author ` voting_refs G cert' l'" "i \<notin> F"
    using quorums_meet[OF G voting_authors[OF G] voting_authors[OF G]] assms(2,3)
    unfolding certifies_def by blast
  then obtain r r' b b' where "G r = Some b" "votes_for G b l" "G r' = Some b'" "votes_for G b' l'"
      "br_author r = br_author r'" "br_author r \<notin> F"
    by (auto simp: voting_refs_def)
  then show ?thesis using honest_vote_unique[OF G] s by blast
qed

text \<open>
  A blamed slot is never certified in the round after the voting round: the honest author common to
  the blame and to the votes has one block in the voting round.
\<close>

definition blamed :: "committee \<Rightarrow> dag_view \<Rightarrow> slot \<Rightarrow> bool" where
  "blamed c G s \<longleftrightarrow> quorum c \<le> stake_of c (br_author ` {r. br_round r = Suc (slot_round s) \<and>
     (\<exists>b. G r = Some b \<and> (\<forall>x \<in> set (vb_ancestors b). br_author x \<noteq> slot_authority s))})"

lemma blamed_not_certified:
  assumes G: "bft_dag c F G" and bl: "blamed c G s" and cr: "G cr = Some cert"
    and d: "br_round cr = slot_round s + 2" and l: "slot_of_ref l = s"
  shows "\<not> certifies c G cert l"
proof
  assume cert: "certifies c G cert l"
  let ?B = "{r. br_round r = Suc (slot_round s) \<and>
     (\<exists>b. G r = Some b \<and> (\<forall>x \<in> set (vb_ancestors b). br_author x \<noteq> slot_authority s))}"
  have "br_author ` ?B \<subseteq> members c" using bft_dagD(5)[OF G] by auto
  then have "\<exists>i. i \<in> br_author ` ?B \<and> i \<in> br_author ` voting_refs G cert l \<and> i \<notin> F"
    using bl cert by (intro quorums_meet[OF G _ voting_authors[OF G]]) (simp_all add: blamed_def certifies_def)
  then obtain r u b v where u: "G u = Some b" "br_round u = Suc (slot_round s)"
      "\<forall>x \<in> set (vb_ancestors b). br_author x \<noteq> slot_authority s"
      and r: "r \<in> set (vb_ancestors cert)" "G r = Some v" "votes_for G v l"
      and a: "br_author r = br_author u" "br_author u \<notin> F"
    by (auto simp: voting_refs_def)
  have "br_round r < slot_round s + 2" using bft_dagD(6)[OF G cr r(1)] d by simp
  moreover have rl: "br_round l = slot_round s" using l by (auto simp: slot_of_ref_def)
  ultimately have "br_round r = Suc (slot_round s)" using votes_forD[OF G r(2,3)] by simp
  then have "r = u" using bft_dagD(9)[OF G u(1) r(2)] u(2) a by simp
  then have v: "votes_for G b l" using r(2,3) u(1) by simp
  have "\<forall>x \<in> set (vb_ancestors b). br_round x \<le> slot_round s"
    using bft_dagD(6)[OF G u(1)] u(2) by (simp add: less_Suc_eq_le)
  then have "l \<in> set (vb_ancestors b)" using v supports_direct l unfolding votes_for_def by blast
  then show False using u(3) l by (auto simp: slot_of_ref_def)
qed

text \<open>The history of a block contains a quorum of every lower round.\<close>

definition history :: "dag_view \<Rightarrow> verified_block \<Rightarrow> block_ref set" where
  "history G b = (parents G)\<^sup>* `` set (vb_ancestors b)"

lemma history_step:
  assumes "G x = Some d" and "x \<in> set (vb_ancestors b)"
  shows "history G d \<subseteq> history G b"
proof
  fix y assume "y \<in> history G d"
  then obtain z where "z \<in> set (vb_ancestors d)" "(z, y) \<in> (parents G)\<^sup>*" by (auto simp: history_def)
  then have "(x, y) \<in> (parents G)\<^sup>*"
    using assms(1) by (auto simp: parents_def intro: converse_rtrancl_into_rtrancl)
  then show "y \<in> history G b" using assms(2) by (auto simp: history_def)
qed

lemma history_known:
  assumes "bft_dag c F G" "G r = Some b" "x \<in> history G b"
  shows "\<exists>d. G x = Some d" "br_round x < br_round r"
proof -
  obtain y where y: "y \<in> set (vb_ancestors b)" "(y, x) \<in> (parents G)\<^sup>*"
    using assms(3) by (auto simp: history_def)
  have "(\<exists>d. G x = Some d) \<and> br_round x \<le> br_round y"
    using y(2)
  proof (induction rule: rtrancl_induct)
    case base
    show ?case using bft_dagD(7)[OF assms(1,2) y(1)] by simp
  next
    case (step u v)
    then obtain d where "G u = Some d" "v \<in> set (vb_ancestors d)" by (auto simp: parents_def)
    with step.IH bft_dagD(6,7)[OF assms(1)] show ?case by (meson less_le_trans less_imp_le)
  qed
  then show "\<exists>d. G x = Some d" "br_round x < br_round r"
    using bft_dagD(6)[OF assms(1,2) y(1)] by auto
qed

lemma history_quorum:
  assumes G: "bft_dag c F G"
  shows "G r = Some b \<Longrightarrow> rnd < br_round r \<Longrightarrow>
    quorum c \<le> stake_of c (br_author ` {x \<in> history G b. br_round x = rnd})"
proof (induction "br_round r" arbitrary: r b rule: less_induct)
  case less
  let ?P = "{x \<in> set (vb_ancestors b). Suc (br_round x) = br_round r}"
  have q: "quorum c \<le> stake_of c (br_author ` ?P)" using bft_dagD(8)[OF G less.prems(1)] less.prems(2) by simp
  have sub: "br_author ` {x \<in> history G b. br_round x = rnd} \<subseteq> members c"
    using history_known(1)[OF G less.prems(1)] bft_dagD(5)[OF G] by blast
  show ?case
  proof (cases "br_round r = Suc rnd")
    case True
    then have "?P \<subseteq> {x \<in> history G b. br_round x = rnd}" by (auto simp: history_def)
    then have "stake_of c (br_author ` ?P) \<le> stake_of c (br_author ` {x \<in> history G b. br_round x = rnd})"
      by (intro stake_of_mono image_mono sub)
    with q show ?thesis by simp
  next
    case False
    have "0 < stake_of c (br_author ` ?P)" using q quorum_pos[OF bft_dagD(1)[OF G]] by simp
    then have "?P \<noteq> {}" by (metis image_empty less_irrefl stake_of_def sum.empty)
    then obtain x where x: "x \<in> set (vb_ancestors b)" "Suc (br_round x) = br_round r" by auto
    obtain d where d: "G x = Some d" using bft_dagD(7)[OF G less.prems(1) x(1)] by auto
    have "quorum c \<le> stake_of c (br_author ` {y \<in> history G d. br_round y = rnd})"
      using less.hyps[OF _ d] x(2) False less.prems(2) by simp
    also have "\<dots> \<le> stake_of c (br_author ` {y \<in> history G b. br_round y = rnd})"
      using history_step[of G x d b, OF d x(1)] by (intro stake_of_mono image_mono sub) auto
    finally show ?thesis .
  qed
qed

text \<open>
  A leader with a quorum of certificates in a round has a certificate in the history of every later
  block.
\<close>

definition supported :: "committee \<Rightarrow> dag_view \<Rightarrow> round \<Rightarrow> block_ref \<Rightarrow> bool" where
  "supported c G rnd l \<longleftrightarrow> quorum c \<le> stake_of c (br_author ` {r. br_round r = rnd \<and>
     (\<exists>cert. G r = Some cert \<and> certifies c G cert l)})"

definition linked :: "committee \<Rightarrow> dag_view \<Rightarrow> verified_block \<Rightarrow> round \<Rightarrow> block_ref \<Rightarrow> bool" where
  "linked c G anchor rnd l \<longleftrightarrow> (\<exists>r cert. r \<in> history G anchor \<and> br_round r = rnd \<and> G r = Some cert \<and>
     certifies c G cert l)"

lemma supported_linked:
  assumes G: "bft_dag c F G" and s: "supported c G rnd l" and a: "G ar = Some anchor" "rnd < br_round ar"
  shows "linked c G anchor rnd l"
proof -
  let ?S = "{r. br_round r = rnd \<and> (\<exists>cert. G r = Some cert \<and> certifies c G cert l)}"
  let ?H = "{x \<in> history G anchor. br_round x = rnd}"
  have "br_author ` ?S \<subseteq> members c" using bft_dagD(5)[OF G] by auto
  moreover have "br_author ` ?H \<subseteq> members c"
    using history_known(1)[OF G a(1)] bft_dagD(5)[OF G] by blast
  ultimately obtain i where "i \<in> br_author ` ?S" "i \<in> br_author ` ?H" "i \<notin> F"
    using quorums_meet[OF G _ _ s[unfolded supported_def] history_quorum[OF G a]] by blast
  then obtain r x cert where r: "br_round r = rnd" "G r = Some cert" "certifies c G cert l"
      and x: "x \<in> history G anchor" "br_round x = rnd" "br_author x = br_author r" "br_author r \<notin> F"
    by auto
  obtain d where "G x = Some d" using history_known(1)[OF G a(1) x(1)] by auto
  then have "x = r" using bft_dagD(9)[OF G r(2)] x r(1) by simp
  then show ?thesis using r x(1) by (auto simp: linked_def)
qed

lemma linked_unique:
  assumes "bft_dag c F G" and "linked c G a rnd l" and "linked c G a' rnd' l'" and "slot_of_ref l = slot_of_ref l'"
  shows "l = l'"
  using assms certificate_unique[OF assms(1)] unfolding linked_def by blast

lemma supported_certified:
  assumes "bft_dag c F G" "supported c G rnd l"
  shows "\<exists>r cert. br_round r = rnd \<and> G r = Some cert \<and> certifies c G cert l"
proof -
  have "0 < stake_of c (br_author ` {r. br_round r = rnd \<and> (\<exists>cert. G r = Some cert \<and> certifies c G cert l)})"
    using assms quorum_pos[OF bft_dagD(1)[OF assms(1)]] by (simp add: supported_def)
  then have "{r. br_round r = rnd \<and> (\<exists>cert. G r = Some cert \<and> certifies c G cert l)} \<noteq> {}"
    by (metis image_empty less_irrefl stake_of_def sum.empty)
  then show ?thesis by auto
qed

section \<open>A node's part of the DAG\<close>

definition node_view :: "committee \<Rightarrow> dag_view \<Rightarrow> dag_state \<Rightarrow> bool" where
  "node_view c G ds \<longleftrightarrow> dag_inv ds \<and> causal ds (Suc (gc_round ds)) \<and> lookup_block ds \<subseteq>\<^sub>m G \<and>
     ds_committee ds = c"

lemma node_viewD:
  assumes "node_view c G ds"
  shows "dag_inv ds" "causal ds (Suc (gc_round ds))" "ds_committee ds = c"
    and "lookup_block ds \<subseteq>\<^sub>m G"
    and "lookup_block ds r = Some b \<Longrightarrow> G r = Some b"
    and "lookup_block ds r = Some b \<Longrightarrow> x \<in> set (vb_ancestors b) \<Longrightarrow> gc_round ds < br_round x \<Longrightarrow>
      lookup_block ds x = G x"
  using assms unfolding node_view_def causal_def
  by (blast, blast, blast, blast, metis domI map_le_def, metis Suc_leI domIff map_le_def)

lemma node_view_mono: "node_view c G ds \<Longrightarrow> G \<subseteq>\<^sub>m G' \<Longrightarrow> node_view c G' ds"
  unfolding node_view_def using map_le_trans by blast

lemma node_view_ready: "node_view c G ds \<Longrightarrow> gc_round ds \<le> rnd \<Longrightarrow> ready ds rnd"
  by (simp add: node_view_def ready_def)

text \<open>Votes and certificates above the garbage collection round look the same to the node.\<close>

lemma votes_transfer:
  assumes nv: "node_view c G ds" and b: "lookup_block ds r = Some b" and gc: "gc_round ds \<le> br_round l"
  shows "votes_for (lookup_block ds) b l \<longleftrightarrow> votes_for G b l"
proof
  assume "votes_for (lookup_block ds) b l"
  then show "votes_for G b l"
    using supports_mono[OF _ node_viewD(4)[OF nv]] by (auto simp: votes_for_def)
next
  assume v: "votes_for G b l"
  note rd = readyD[OF node_view_ready[OF nv gc]]
  let ?s = "slot_of_ref l"
  have "br_round x < br_round r \<and> (slot_round ?s < br_round x \<longrightarrow> lookup_block ds x \<noteq> None)"
    if "lookup_block ds r = Some b" "x \<in> set (vb_ancestors b)" for r b x
    using rd(3,6,7) that by (auto simp: slot_of_ref_def)
  then obtain y where y: "supports (lookup_block ds) ?s (vb_ancestors b) y"
    using supports_total[of "lookup_block ds" ?s "vb_ancestors b"] b by blast
  then have "supports G ?s (vb_ancestors b) y" using supports_mono node_viewD(4)[OF nv] by blast
  then have "y = Some l" using v supports_det by (auto simp: votes_for_def)
  with y v show "votes_for (lookup_block ds) b l" by (simp add: votes_for_def)
qed

lemma certifies_transfer:
  assumes G: "bft_dag c F G" and nv: "node_view c G ds" and cr: "lookup_block ds cr = Some cert"
    and gc: "gc_round ds \<le> br_round l"
  shows "certifies c (lookup_block ds) cert l \<longleftrightarrow> certifies c G cert l"
proof -
  have "r \<in> voting_refs (lookup_block ds) cert l \<longleftrightarrow> r \<in> voting_refs G cert l" for r
  proof
    assume "r \<in> voting_refs (lookup_block ds) cert l"
    then show "r \<in> voting_refs G cert l"
      using votes_transfer[OF nv _ gc] node_viewD(5)[OF nv] by (auto simp: voting_refs_def)
  next
    assume "r \<in> voting_refs G cert l"
    then obtain b where r: "r \<in> set (vb_ancestors cert)" "G r = Some b" "votes_for G b l"
      by (auto simp: voting_refs_def)
    then have "gc_round ds < br_round r" using votes_forD[OF G r(2,3)] gc by simp
    then have "lookup_block ds r = Some b" using node_viewD(6)[OF nv cr r(1)] r(2) by simp
    then show "r \<in> voting_refs (lookup_block ds) cert l"
      using r votes_transfer[OF nv _ gc] by (auto simp: voting_refs_def)
  qed
  then have "voting_refs (lookup_block ds) cert l = voting_refs G cert l" by blast
  then show ?thesis by (simp add: certifies_def)
qed

text \<open>So does the history down to a round above it.\<close>

lemma history_transfer:
  assumes G: "bft_dag c F G" and nv: "node_view c G ds" and b: "lookup_block ds r = Some b"
    and gc: "gc_round ds < rnd"
  shows "x \<in> reachable ds (set (vb_ancestors b)) \<and> br_round x = rnd \<longleftrightarrow> x \<in> history G b \<and> br_round x = rnd"
    and "x \<in> history G b \<Longrightarrow> br_round x = rnd \<Longrightarrow> lookup_block ds x = G x"
proof -
  have sub: "parent ds \<subseteq> parents G"
    using node_viewD(5)[OF nv] by (auto simp: parent_def parents_def)
  have bwd: "x \<in> reachable ds (set (vb_ancestors b)) \<and> lookup_block ds x = G x"
    if x: "x \<in> history G b" "gc_round ds < br_round x" for x
  proof -
    obtain y where y: "y \<in> set (vb_ancestors b)" "(y, x) \<in> (parents G)\<^sup>*"
      using x(1) by (auto simp: history_def)
    show ?thesis using y(2) x(2)
    proof (induction rule: rtrancl_induct)
      case base
      then show ?case using node_viewD(6)[OF nv b y(1)] y(1) by (auto intro: reachable_base)
    next
      case (step u v)
      then obtain d where d: "G u = Some d" "v \<in> set (vb_ancestors d)" by (auto simp: parents_def)
      then have "gc_round ds < br_round u" using bft_dagD(6)[OF G d] step.prems by simp
      then have u: "u \<in> reachable ds (set (vb_ancestors b))" "lookup_block ds u = Some d"
        using step.IH d(1) by auto
      then have "(u, v) \<in> parent ds" using d(2) by (auto simp: parent_def)
      then have "v \<in> reachable ds (set (vb_ancestors b))"
        using u(1) by (auto simp: reachable_def intro: rtrancl_into_rtrancl)
      then show ?case using node_viewD(6)[OF nv u(2) d(2)] step.prems by simp
    qed
  qed
  show "x \<in> history G b \<Longrightarrow> br_round x = rnd \<Longrightarrow> lookup_block ds x = G x" using bwd gc by blast
  have "reachable ds (set (vb_ancestors b)) \<subseteq> history G b"
    unfolding reachable_def history_def using rtrancl_mono[OF sub] by blast
  then show "x \<in> reachable ds (set (vb_ancestors b)) \<and> br_round x = rnd \<longleftrightarrow> x \<in> history G b \<and> br_round x = rnd"
    using bwd gc by blast
qed

section \<open>The decisions in terms of the DAG\<close>

lemma authors_at_round:
  assumes "dag_inv ds"
  shows "vb_author ` {b \<in> {b. lookup_block ds (reference b) = Some b \<and> vb_round b = rnd}. P b} =
      br_author ` {r. br_round r = rnd \<and> (\<exists>b. lookup_block ds r = Some b \<and> P b)}"
proof (intro equalityI subsetI)
  fix a assume "a \<in> br_author ` {r. br_round r = rnd \<and> (\<exists>b. lookup_block ds r = Some b \<and> P b)}"
  then obtain r b where r: "a = br_author r" "br_round r = rnd" "lookup_block ds r = Some b" "P b" by auto
  moreover have "reference b = r" using lookup_ref[OF assms r(3)] .
  ultimately show "a \<in> vb_author ` {b \<in> {b. lookup_block ds (reference b) = Some b \<and> vb_round b = rnd}. P b}"
    by (intro image_eqI[of _ _ b]) auto
qed (auto intro!: image_eqI[of _ br_author "reference _"])

lemma enough_leader_blame_ok:
  assumes G: "bft_dag c F G" and nv: "node_view c G ds" and bc: "ctx_committee (bc_context bc) = c"
    and "last_commit_round ds \<le> slot_round s"
  shows "enough_leader_blame bc ds (slot_round s + 1) (slot_authority s) = Some (blamed c (lookup_block ds) s)"
proof -
  obtain bs where bs: "get_uncommitted_blocks_at_round ds (slot_round s + 1) = Some bs"
    using assms(4) by (simp add: get_uncommitted_blocks_at_round_def)
  note set_bs = blocks_at_round(2)[OF node_viewD(1)[OF nv] bs]
  let ?P = "\<lambda>b. \<forall>x \<in> set (vb_ancestors b). br_author x \<noteq> slot_authority s"
  have mem: "vb_author b \<in> members c" if "b \<in> set bs" for b
    using that bft_dagD(5)[OF G node_viewD(5)[OF nv, of "reference b" b]] by (simp add: set_bs)
  have "\<exists>u. scan_votes (aggregator_add QuorumThreshold) c
      (\<lambda>vb u. Some (list_all (\<lambda>x. br_author x \<noteq> slot_authority s) (vb_ancestors vb), u)) vb_author bs
      aggregator_new () = Some (quorum c \<le> stake_of c (vb_author ` {b \<in> set bs. ?P b}), u) \<and> True"
    using bft_dagD(1)[OF G] mem
    by (intro qc.scan_from_empty[where J = "\<lambda>_. True"]) (auto simp: list_all_iff)
  moreover have "vb_author ` {b \<in> set bs. ?P b} = br_author ` {r. br_round r = slot_round s + 1 \<and>
     (\<exists>b. lookup_block ds r = Some b \<and> ?P b)}"
    unfolding set_bs by (rule authors_at_round[OF node_viewD(1)[OF nv]])
  ultimately show ?thesis using bs by (simp add: enough_leader_blame_def bc blamed_def)
qed

text \<open>The stakes of the blocks of a round do not overflow, equivocating blocks counted each.\<close>

definition stakes_fit :: "committee \<Rightarrow> verified_block list \<Rightarrow> bool" where
  "stakes_fit c bs \<longleftrightarrow> sum_list (map (weight c \<circ> vb_author) bs) < 2 ^ 64"

lemma stake_of_authors_le:
  "stake_of c (f ` set xs) \<le> sum_list (map (weight c \<circ> f) xs)"
proof (induction xs)
  case (Cons x xs)
  have "stake_of c (insert (f x) (f ` set xs)) \<le> weight c (f x) + stake_of c (f ` set xs)"
    by (cases "f x \<in> f ` set xs") (simp_all add: stake_of_def insert_absorb)
  with Cons show ?case by simp
qed (simp add: stake_of_def)

lemma enough_leader_support_ok:
  assumes G: "bft_dag c F G" and nv: "node_view c G ds" and bc: "ctx_committee (bc_context bc) = c"
    and bs: "get_uncommitted_blocks_at_round ds rnd = Some bs" and gc: "gc_round ds \<le> vb_round l"
  shows "\<exists>x. enough_leader_support bc ds rnd l = Some x \<and>
     (x \<longrightarrow> supported c (lookup_block ds) rnd (reference l)) \<and>
     (stakes_fit c bs \<longrightarrow> supported c (lookup_block ds) rnd (reference l) \<longrightarrow> x)"
proof -
  let ?C = "\<lambda>b. certifies c (lookup_block ds) b (reference l)"
  note set_bs = blocks_at_round(2)[OF node_viewD(1)[OF nv] bs]
  have G': "lookup_block ds r = Some b \<Longrightarrow> br_author r \<in> members c" for r b
    using bft_dagD(5)[OF G node_viewD(5)[OF nv]] .
  then have mem: "vb_author b \<in> members c" if "b \<in> set bs" for b
    using that G'[of "reference b" b] by (simp add: set_bs)
  define st where "st = map (\<lambda>b. a_stake (c_authorities c ! vb_author b)) bs"
  have stakes: "try_map (\<lambda>b. committee_stake c (vb_author b)) bs = Some st"
    unfolding st_def using mem by (intro try_map_total) (simp add: committee_stake_in)
  have "\<exists>m. scan_votes (aggregator_add QuorumThreshold) c (\<lambda>db. is_certificate bc ds db l) vb_author bs
      aggregator_new fmempty = Some (quorum c \<le> stake_of c (vb_author ` {b \<in> set bs. ?C b}), m) \<and>
      cache_ok (lookup_block ds) (reference l) m"
  proof (rule qc.scan_from_empty[where J = "cache_ok (lookup_block ds) (reference l)"])
    show "cache_ok (lookup_block ds) (reference l) fmempty" by (simp add: cache_ok_def)
    fix b m assume b: "b \<in> set bs" "cache_ok (lookup_block ds) (reference l) m"
    show "\<exists>m'. is_certificate bc ds b l m = Some (?C b, m') \<and> cache_ok (lookup_block ds) (reference l) m'"
      using is_certificate_ok[OF node_view_ready[OF nv gc], of "reference b" b bc m] b G'
        node_viewD(3)[OF nv] bc by (simp add: set_bs)
  qed (use mem bft_dagD(1)[OF G] in auto)
  moreover have "vb_author ` {b \<in> set bs. ?C b} = br_author ` {r. br_round r = rnd \<and>
      (\<exists>cert. lookup_block ds r = Some cert \<and> ?C cert)}"
    unfolding set_bs by (rule authors_at_round[OF node_viewD(1)[OF nv]])
  ultimately obtain m where scan: "scan_votes (aggregator_add QuorumThreshold) c
      (\<lambda>db. is_certificate bc ds db l) vb_author bs aggregator_new fmempty =
      Some (supported c (lookup_block ds) rnd (reference l), m)"
    and authors: "supported c (lookup_block ds) rnd (reference l) \<longleftrightarrow>
      quorum c \<le> stake_of c (vb_author ` {b \<in> set bs. ?C b})"
    by (auto simp: supported_def)
  have "reached_quorum c (sum_list st)"
    if fit: "stakes_fit c bs" and sup: "supported c (lookup_block ds) rnd (reference l)"
  proof -
    have "map unat st = map (weight c \<circ> vb_author) bs" by (simp add: st_def weight_def)
    then have eq: "unat (sum_list st) = sum_list (map (weight c \<circ> vb_author) bs)"
      using fit unat_sum_list_no_wrap[of st] by (simp add: stakes_fit_def)
    have "stake_of c (vb_author ` {b \<in> set bs. ?C b}) \<le> stake_of c (vb_author ` set bs)"
      using mem by (intro stake_of_mono) auto
    also have "\<dots> \<le> unat (sum_list st)" unfolding eq by (rule stake_of_authors_le)
    finally show ?thesis using sup authors by (simp add: reached_quorum_def word_le_nat_alt quorum_def)
  qed
  with bs stakes scan show ?thesis by (auto simp: enough_leader_support_def bc)
qed

lemma blamed_mono:
  assumes "bft_dag c F G" "node_view c G ds" "blamed c (lookup_block ds) s"
  shows "blamed c G s"
proof -
  let ?B = "\<lambda>G. br_author ` {r. br_round r = Suc (slot_round s) \<and>
     (\<exists>b. G r = Some b \<and> (\<forall>x \<in> set (vb_ancestors b). br_author x \<noteq> slot_authority s))}"
  have "?B (lookup_block ds) \<subseteq> ?B G" using node_viewD(5)[OF assms(2)] by blast
  moreover have "?B G \<subseteq> members c" using bft_dagD(5)[OF assms(1)] by blast
  ultimately have "stake_of c (?B (lookup_block ds)) \<le> stake_of c (?B G)" by (rule stake_of_mono)
  with assms(3) show ?thesis unfolding blamed_def by simp
qed

lemma supported_mono:
  assumes "bft_dag c F G" "node_view c G ds" "gc_round ds \<le> br_round l" "supported c (lookup_block ds) rnd l"
  shows "supported c G rnd l"
proof -
  let ?S = "\<lambda>G. br_author ` {r. br_round r = rnd \<and> (\<exists>cert. G r = Some cert \<and> certifies c G cert l)}"
  have "?S (lookup_block ds) \<subseteq> ?S G"
    using node_viewD(5)[OF assms(2)] certifies_transfer[OF assms(1,2) _ assms(3)] by blast
  moreover have "?S G \<subseteq> members c" using bft_dagD(5)[OF assms(1)] by blast
  ultimately have "stake_of c (?S (lookup_block ds)) \<le> stake_of c (?S G)" by (rule stake_of_mono)
  with assms(4) show ?thesis unfolding supported_def by simp
qed

text \<open>A committer whose leader slots have their decision round two rounds later.\<close>

definition aligned :: "base_committer \<Rightarrow> slot \<Rightarrow> bool" where
  "aligned bc s \<longleftrightarrow> (\<exists>wave. wave_number bc (slot_round s) = Some wave \<and>
     decision_round bc wave = slot_round s + 2)"

lemma at_most_one:
  assumes "distinct xs" and "\<And>x y. x \<in> set xs \<Longrightarrow> y \<in> set xs \<Longrightarrow> x = y"
  shows "length xs \<le> 1"
proof (rule ccontr)
  assume "\<not> length xs \<le> 1"
  then obtain a b ys where "xs = a # b # ys" by (cases xs; cases "tl xs") auto
  then show False using assms(1) assms(2)[of a b] by simp
qed

lemma leader_candidates:
  assumes "dag_inv ds" and "gc_round ds < slot_round s" and "filter q (get_uncommitted_blocks_at_slot ds s) = ls"
    and "\<And>x y. x \<in> set ls \<Longrightarrow> y \<in> set ls \<Longrightarrow> reference x = reference y"
  shows "length ls \<le> 1"
    and "l \<in> set ls \<longleftrightarrow> lookup_block ds (reference l) = Some l \<and> slot_of_ref (reference l) = s \<and> q l"
proof -
  show m: "l \<in> set ls \<longleftrightarrow> lookup_block ds (reference l) = Some l \<and> slot_of_ref (reference l) = s \<and> q l" for l
    unfolding assms(3)[symmetric] by (simp add: blocks_at_slot[OF assms(1,2)] conj_assoc)
  show "length ls \<le> 1"
  proof (rule at_most_one)
    show "distinct ls"
      unfolding assms(3)[symmetric] by (intro distinct_filter distinct_blocks_at_slot assms(1))
    fix x y assume xy: "x \<in> set ls" "y \<in> set ls"
    then have "lookup_block ds (reference x) = Some x" "lookup_block ds (reference x) = Some y"
      using m assms(4)[OF xy] by simp_all
    then show "x = y" by simp
  qed
qed

lemma try_direct_decide_ok:
  assumes G: "bft_dag c F G" and nv: "node_view c G ds" and bc: "ctx_committee (bc_context bc) = c"
    and al: "aligned bc s" and lc: "last_commit_round ds \<le> slot_round s" and gc: "gc_round ds < slot_round s"
  shows "\<exists>st. try_direct_decide bc ds s = Some st \<and>
     (st = Skip s \<and> blamed c G s \<or>
      (\<exists>l. st = Commit l \<and> slot_of_ref (reference l) = s \<and> lookup_block ds (reference l) = Some l \<and>
         supported c G (slot_round s + 2) (reference l)) \<or>
      st = Undecided s \<and> \<not> blamed c (lookup_block ds) s \<and>
        (\<forall>bs l. get_uncommitted_blocks_at_round ds (slot_round s + 2) = Some bs \<and> stakes_fit c bs \<and>
           lookup_block ds (reference l) = Some l \<and> slot_of_ref (reference l) = s \<longrightarrow>
           \<not> supported c (lookup_block ds) (slot_round s + 2) (reference l)))"
proof -
  obtain wave where wave: "wave_number bc (slot_round s) = Some wave" "decision_round bc wave = slot_round s + 2"
    using al by (auto simp: aligned_def)
  obtain bs where bs: "get_uncommitted_blocks_at_round ds (slot_round s + 2) = Some bs"
    using lc by (simp add: get_uncommitted_blocks_at_round_def)
  note inv = node_viewD(1)[OF nv]
  define q where "q l = (enough_leader_support bc ds (slot_round s + 2) l = Some True)" for l
  have cand: "slot_round s = vb_round l" if "l \<in> set (get_uncommitted_blocks_at_slot ds s)" for l
    using that blocks_at_slot[OF inv gc] by (auto simp: slot_of_ref_def)
  have sup: "\<exists>x. enough_leader_support bc ds (slot_round s + 2) l = Some x"
      "q l \<Longrightarrow> supported c G (slot_round s + 2) (reference l)" if "vb_round l = slot_round s" for l
    using enough_leader_support_ok[OF G nv bc bs, of l] supported_mono[OF G nv, of "reference l"] that gc
    by (auto simp: q_def)
  have "enough_leader_support bc ds (slot_round s + 2) l = Some (q l)"
    if "l \<in> set (get_uncommitted_blocks_at_slot ds s)" for l
    using sup(1)[OF cand[OF that, symmetric]] by (auto simp: q_def)
  then have ls: "try_filter (enough_leader_support bc ds (slot_round s + 2)) (get_uncommitted_blocks_at_slot ds s) =
      Some (filter q (get_uncommitted_blocks_at_slot ds s))"
    by (rule try_filter_total)
  define ls where "ls = filter q (get_uncommitted_blocks_at_slot ds s)"
  have supq: "supported c G (slot_round s + 2) (reference l)" "slot_of_ref (reference l) = s" if "l \<in> set ls" for l
    using that sup(2) cand blocks_at_slot[OF inv gc] by (auto simp: ls_def)
  have "reference x = reference y" if "x \<in> set ls" "y \<in> set ls" for x y
    using supported_certified[OF G supq(1)[OF that(1)]] supported_certified[OF G supq(1)[OF that(2)]]
      certificate_unique[OF G] supq(2)[OF that(1)] supq(2)[OF that(2)] by metis
  note cands = leader_candidates[OF inv gc ls_def[symmetric] this]
  show ?thesis
  proof (cases "blamed c (lookup_block ds) s")
    case True
    then show ?thesis
      using enough_leader_blame_ok[OF G nv bc lc] blamed_mono[OF G nv]
      by (auto simp: try_direct_decide_def)
  next
    case False
    show ?thesis
    proof (cases ls)
      case Nil
      have "\<not> supported c (lookup_block ds) (slot_round s + 2) (reference l)"
        if l: "stakes_fit c bs" "lookup_block ds (reference l) = Some l" "slot_of_ref (reference l) = s" for l
      proof
        assume "supported c (lookup_block ds) (slot_round s + 2) (reference l)"
        moreover have "vb_round l = slot_round s" using l(3) by (auto simp: slot_of_ref_def)
        ultimately have "q l"
          using enough_leader_support_ok[OF G nv bc bs, of l] l(1) gc by (auto simp: q_def)
        then have "l \<in> set ls" using cands(2) l(2,3) by blast
        with Nil show False by simp
      qed
      with Nil False bs show ?thesis
        using enough_leader_blame_ok[OF G nv bc lc] ls wave by (simp add: try_direct_decide_def ls_def)
    next
      case (Cons l ls')
      then have l: "last ls = l" "l \<in> set ls" using cands(1) by auto
      then have "lookup_block ds (reference l) = Some l" using cands(2) by blast
      with False Cons l supq[of l] cands(1) show ?thesis
        using enough_leader_blame_ok[OF G nv bc lc] ls wave
        by (simp add: try_direct_decide_def flip: ls_def)
    qed
  qed
qed

text \<open>
  The indirect rule commits the certified block of the slot that the history of the anchor contains
  a certificate for, and skips the slot if there is none.
\<close>

lemma any_certificate_ok:
  assumes rd: "ready ds (vb_round l)" and c: "ctx_committee (bc_context bc) = ds_committee ds"
    and mem: "\<And>r b. lookup_block ds r = Some b \<Longrightarrow> br_author r \<in> members (ds_committee ds)"
  shows "\<forall>p \<in> set ps. lookup_block ds (reference p) = Some p \<Longrightarrow>
    cache_ok (lookup_block ds) (reference l) m \<Longrightarrow>
    any_certificate bc ds l ps m =
      Some (\<exists>p \<in> set ps. certifies (ds_committee ds) (lookup_block ds) p (reference l))"
proof (induction ps arbitrary: m)
  case (Cons p ps)
  obtain m' where "is_certificate bc ds p l m =
      Some (certifies (ds_committee ds) (lookup_block ds) p (reference l), m')"
      "cache_ok (lookup_block ds) (reference l) m'"
    using is_certificate_ok[OF rd, of "reference p" p bc m] c mem Cons.prems by auto
  with Cons.IH[of m'] Cons.prems(1) show ?case by simp
qed simp

lemma linked_known:
  assumes G: "bft_dag c F G" and nv: "node_view c G ds" and a: "lookup_block ds ar = Some anchor"
    and gc: "gc_round ds < br_round l" and l: "linked c G anchor rnd l" and rnd: "br_round l < rnd"
  shows "\<exists>b. lookup_block ds l = Some b \<and> reference b = l"
proof -
  obtain r cert where r: "r \<in> history G anchor" "br_round r = rnd" "G r = Some cert" "certifies c G cert l"
    using l by (auto simp: linked_def)
  have "0 < stake_of c (br_author ` voting_refs G cert l)"
    using r(4) quorum_pos[OF bft_dagD(1)[OF G]] by (simp add: certifies_def)
  then have "voting_refs G cert l \<noteq> {}" by (metis image_empty less_irrefl stake_of_def sum.empty)
  then obtain v b where v: "v \<in> set (vb_ancestors cert)" "G v = Some b" "votes_for G b l"
    by (auto simp: voting_refs_def)
  then have "l \<in> history G b" using supports_reachable by (auto simp: votes_for_def history_def)
  moreover have "lookup_block ds r = Some cert"
    using history_transfer(2)[OF G nv a _ r(1,2)] gc rnd r(3) by simp
  moreover have "history G b \<subseteq> history G cert" using history_step[of G v b cert] v by blast
  ultimately have "l \<in> history G cert" "lookup_block ds r = Some cert" by auto
  then have "lookup_block ds l = G l" using history_transfer(2)[OF G nv _ gc] by blast
  moreover obtain d where "G l = Some d"
    using history_known(1)[OF G r(3)] \<open>l \<in> history G cert\<close> by blast
  ultimately show ?thesis using bft_dagD(4)[OF G] by auto
qed

lemma decide_leader_from_anchor_ok:
  assumes G: "bft_dag c F G" and nv: "node_view c G ds" and bc: "ctx_committee (bc_context bc) = c"
    and al: "aligned bc s" and gc: "gc_round ds < slot_round s"
    and a: "lookup_block ds (reference anchor) = Some anchor"
  shows "\<exists>st. decide_leader_from_anchor bc ds anchor s = Some st \<and>
     ((\<exists>l. st = Commit l \<and> slot_of_ref (reference l) = s \<and> lookup_block ds (reference l) = Some l \<and>
         linked c G anchor (slot_round s + 2) (reference l)) \<or>
      st = Skip s \<and> (\<nexists>l. slot_of_ref l = s \<and> linked c G anchor (slot_round s + 2) l))"
proof -
  obtain wave where wave: "wave_number bc (slot_round s) = Some wave" "decision_round bc wave = slot_round s + 2"
    using al by (auto simp: aligned_def)
  let ?d = "slot_round s + 2"
  note inv = node_viewD(1)[OF nv]
  have "causal ds ?d" using node_viewD(2)[OF nv] gc by (auto intro: causal_mono)
  moreover have "\<forall>x \<in> set (vb_ancestors anchor). ?d \<le> br_round x \<longrightarrow> lookup_block ds x \<noteq> None"
    using node_viewD(6)[OF nv a] bft_dagD(7)[OF G node_viewD(5)[OF nv a]] gc by auto
  ultimately obtain ps where ps: "ancestors_at_round ds anchor ?d = Some ps"
      "set ps = {d. lookup_block ds (reference d) = Some d \<and> vb_round d = ?d \<and>
                    reference d \<in> reachable ds (set (vb_ancestors anchor))}"
    using ancestors_at_round_spec[OF _ inv] by blast
  define q where "q l = (\<exists>p \<in> set ps. certifies c (lookup_block ds) p (reference l))" for l
  have mem: "lookup_block ds r = Some b \<Longrightarrow> br_author r \<in> members c" for r b
    using bft_dagD(5)[OF G node_viewD(5)[OF nv]] .
  have round: "vb_round l = slot_round s" if "l \<in> set (get_uncommitted_blocks_at_slot ds s)" for l
    using that blocks_at_slot[OF inv gc] by (auto simp: slot_of_ref_def)
  have "any_certificate bc ds l ps fmempty = Some (q l)"
    if "l \<in> set (get_uncommitted_blocks_at_slot ds s)" for l
    unfolding q_def node_viewD(3)[OF nv, symmetric]
    using round[OF that] gc mem
    by (intro any_certificate_ok node_view_ready[OF nv])
      (auto simp: ps(2) cache_ok_def bc node_viewD(3)[OF nv])
  then have ls: "try_filter (\<lambda>lb. any_certificate bc ds lb ps fmempty) (get_uncommitted_blocks_at_slot ds s) =
      Some (filter q (get_uncommitted_blocks_at_slot ds s))"
    by (rule try_filter_total)
  define ls where "ls = filter q (get_uncommitted_blocks_at_slot ds s)"
  have q: "q l \<longleftrightarrow> linked c G anchor ?d (reference l)" if l: "vb_round l = slot_round s" for l
  proof
    assume "q l"
    then obtain p where p: "p \<in> set ps" "certifies c (lookup_block ds) p (reference l)" by (auto simp: q_def)
    then have "lookup_block ds (reference p) = Some p" "br_round (reference p) = ?d"
        "reference p \<in> reachable ds (set (vb_ancestors anchor))"
      by (auto simp: ps(2))
    then show "linked c G anchor ?d (reference l)"
      unfolding linked_def
      using p(2) certifies_transfer[OF G nv, of "reference p" p "reference l"] l gc node_viewD(5)[OF nv]
        history_transfer(1)[OF G nv a, of ?d "reference p"]
      by (intro exI[of _ "reference p"] exI[of _ p]) simp
  next
    assume "linked c G anchor ?d (reference l)"
    then obtain r cert where r: "r \<in> history G anchor" "br_round r = ?d" "G r = Some cert"
        "certifies c G cert (reference l)"
      by (auto simp: linked_def)
    have "lookup_block ds r = Some cert" "r \<in> reachable ds (set (vb_ancestors anchor))"
      using history_transfer[OF G nv a, of ?d r] r gc by auto
    moreover have "reference cert = r" using bft_dagD(4)[OF G r(3)] .
    ultimately show "q l"
      unfolding q_def ps(2) using r(2,4) certifies_transfer[OF G nv, of r cert "reference l"] l gc
      by (intro bexI[of _ cert]) auto
  qed
  have lsD: "linked c G anchor ?d (reference l)" "slot_of_ref (reference l) = s" if "l \<in> set ls" for l
  proof -
    have l: "l \<in> set (get_uncommitted_blocks_at_slot ds s)" "q l" using that by (simp_all add: ls_def)
    then show "linked c G anchor ?d (reference l)" using q[OF round[OF l(1)]] by simp
    show "slot_of_ref (reference l) = s" using l(1) by (simp only: blocks_at_slot[OF inv gc] mem_Collect_eq)
  qed
  then have "reference x = reference y" if "x \<in> set ls" "y \<in> set ls" for x y
    using that linked_unique[OF G] by metis
  note cands = leader_candidates[OF inv gc ls_def[symmetric] this]
  show ?thesis
  proof (cases ls)
    case Nil
    have "\<not> linked c G anchor ?d l" if "slot_of_ref l = s" for l
    proof
      assume l: "linked c G anchor ?d l"
      have rl: "br_round l = slot_round s" using that by (auto simp: slot_of_ref_def)
      obtain b where b: "lookup_block ds l = Some b" "reference b = l"
        using linked_known[OF G nv a _ l] rl gc by auto
      then have "vb_round b = slot_round s" using rl by (metis reference_simps(1))
      then have "b \<in> set ls" using cands(2)[of b] b that l q[of b] by simp
      with Nil show False by simp
    qed
    with Nil show ?thesis
      using ps(1) ls wave by (auto simp: decide_leader_from_anchor_def ls_def)
  next
    case (Cons l ls')
    then have l: "last ls = l" "l \<in> set ls" using cands(1) by auto
    then have "lookup_block ds (reference l) = Some l" using cands(2) by blast
    with Cons l lsD[of l] cands(1) show ?thesis
      using ps(1) ls wave by (simp add: decide_leader_from_anchor_def flip: ls_def)
  qed
qed

section \<open>The contract of a commit rule\<close>

text \<open>
  Deciding slots from the highest down: directly if the slot can be, otherwise from the first
  committed leader a wave later.
\<close>

fun rule_run :: "(slot \<Rightarrow> leader_status option) \<Rightarrow> (verified_block \<Rightarrow> slot \<Rightarrow> leader_status option) \<Rightarrow> nat
    \<Rightarrow> slot list \<Rightarrow> leader_status list \<Rightarrow> leader_status list option" where
  "rule_run direct anchored wl [] acc = Some acc"
| "rule_run direct anchored wl (s # ss) acc = do {
     st \<leftarrow> direct s;
     st' \<leftarrow> (if is_decided st then Some st
            else (case first_anchor (filter (\<lambda>x. slot_round s + wl \<le> status_round x) acc) of
                    Some a \<Rightarrow> anchored a s
                  | None \<Rightarrow> Some (Undecided s)));
     rule_run direct anchored wl ss (st' # acc)
   }"

lemma rule_run_append:
  "rule_run d a wl (ss @ ss') acc = do { acc' \<leftarrow> rule_run d a wl ss acc; rule_run d a wl ss' acc' }"
  by (induction ss arbitrary: acc) (auto split: bind_splits)

fun status_at :: "(verified_block \<Rightarrow> bool) \<Rightarrow> slot \<Rightarrow> leader_status \<Rightarrow> bool" where
  "status_at known s (Commit b) \<longleftrightarrow> slot_of_ref (reference b) = s \<and> known b"
| "status_at known s (Skip t) \<longleftrightarrow> t = s"
| "status_at known s (Undecided t) \<longleftrightarrow> t = s"

lemma status_at_round: "status_at known s st \<Longrightarrow> status_round st = slot_round s"
  by (cases st) (auto simp: slot_of_ref_def)

text \<open>Two sequences of decisions from the same slot on that never contradict each other.\<close>

fun agree :: "leader_status list \<Rightarrow> leader_status list \<Rightarrow> bool" where
  "agree (x # xs) (y # ys) \<longleftrightarrow>
     status_round x = status_round y \<and> (is_decided x \<and> is_decided y \<longrightarrow> x = y) \<and> agree xs ys"
| "agree _ _ \<longleftrightarrow> True"

lemma agree_Nil [simp]: "agree xs []"
  by (cases xs) simp_all

lemma agree_filter:
  "agree xs ys \<Longrightarrow> agree (filter (\<lambda>x. P (status_round x)) xs) (filter (\<lambda>x. P (status_round x)) ys)"
  by (induction xs ys rule: agree.induct) auto

lemma agree_anchor:
  "agree xs ys \<Longrightarrow> first_anchor xs = Some a \<Longrightarrow> first_anchor ys = Some b \<Longrightarrow> a = b"
proof (induction xs ys rule: agree.induct)
  case (1 x xs y ys)
  then show ?case by (cases x; cases y) auto
qed auto

lemma first_anchor_in: "first_anchor xs = Some a \<Longrightarrow> Commit a \<in> set xs"
  by (induction xs rule: first_anchor.induct) auto

lemma agree_nth:
  "agree xs ys \<Longrightarrow> i < length xs \<Longrightarrow> i < length ys \<Longrightarrow> is_decided (xs ! i) \<Longrightarrow> is_decided (ys ! i) \<Longrightarrow>
     xs ! i = ys ! i"
proof (induction xs ys arbitrary: i rule: agree.induct)
  case (1 x xs y ys)
  then show ?case by (cases i) auto
qed auto

text \<open>
  The contract: \<open>valid w n\<close> says that node \<open>n\<close> lives in world \<open>w\<close>, \<open>live n s\<close> that slot \<open>s\<close> is still
  open for it. Both rules return; what they decide for a slot, directly or from any anchor, is the
  same for every node of the world.
\<close>

locale commit_rule =
  fixes valid :: "'w \<Rightarrow> 'n \<Rightarrow> bool"
    and live :: "'n \<Rightarrow> slot \<Rightarrow> bool"
    and known :: "'n \<Rightarrow> verified_block \<Rightarrow> bool"
    and direct :: "'n \<Rightarrow> slot \<Rightarrow> leader_status option"
    and anchored :: "'n \<Rightarrow> verified_block \<Rightarrow> slot \<Rightarrow> leader_status option"
    and wl :: nat
  assumes direct_total: "valid w n \<Longrightarrow> live n s \<Longrightarrow> \<exists>st. direct n s = Some st \<and> status_at (known n) s st"
    and anchored_total: "valid w n \<Longrightarrow> live n s \<Longrightarrow> known n a \<Longrightarrow> slot_round s + wl \<le> vb_round a \<Longrightarrow>
      \<exists>st. anchored n a s = Some st \<and> status_at (known n) s st \<and> is_decided st"
    and direct_direct: "valid w n \<Longrightarrow> valid w m \<Longrightarrow> live n s \<Longrightarrow> live m s \<Longrightarrow>
      direct n s = Some x \<Longrightarrow> direct m s = Some y \<Longrightarrow> is_decided x \<Longrightarrow> is_decided y \<Longrightarrow> x = y"
    and direct_anchored: "valid w n \<Longrightarrow> valid w m \<Longrightarrow> live n s \<Longrightarrow> live m s \<Longrightarrow> known m a \<Longrightarrow>
      slot_round s + wl \<le> vb_round a \<Longrightarrow> direct n s = Some x \<Longrightarrow> is_decided x \<Longrightarrow> anchored m a s = Some y \<Longrightarrow> x = y"
    and anchored_anchored: "valid w n \<Longrightarrow> valid w m \<Longrightarrow> live n s \<Longrightarrow> live m s \<Longrightarrow> known n a \<Longrightarrow> known m a \<Longrightarrow>
      slot_round s + wl \<le> vb_round a \<Longrightarrow> anchored n a s = Some x \<Longrightarrow> anchored m a s = Some y \<Longrightarrow> x = y"
begin

lemma step_ok:
  assumes "valid w n" "live n s" "\<forall>st \<in> set acc. \<exists>t. status_at (known n) t st"
  shows "\<exists>st. rule_run (direct n) (anchored n) wl [s] acc = Some (st # acc) \<and> status_at (known n) s st \<and>
     (direct n s = Some st \<and> is_decided st \<or>
      (\<exists>a. first_anchor (filter (\<lambda>x. slot_round s + wl \<le> status_round x) acc) = Some a \<and> known n a \<and>
         slot_round s + wl \<le> vb_round a \<and> anchored n a s = Some st) \<or> st = Undecided s)"
proof -
  obtain d where d: "direct n s = Some d" "status_at (known n) s d" using direct_total[OF assms(1,2)] by blast
  show ?thesis
  proof (cases "is_decided d")
    case True
    with d show ?thesis by simp
  next
    case False
    show ?thesis
    proof (cases "first_anchor (filter (\<lambda>x. slot_round s + wl \<le> status_round x) acc)")
      case None
      with d False show ?thesis by simp
    next
      case (Some a)
      from first_anchor_in[OF Some] have a: "known n a" "slot_round s + wl \<le> vb_round a"
        using assms(3) by fastforce+
      then obtain st where "anchored n a s = Some st" "status_at (known n) s st"
        using anchored_total[OF assms(1,2)] by blast
      with d False Some a show ?thesis by simp
    qed
  qed
qed

lemma step_agree:
  assumes n: "valid w n" "live n s" "\<forall>st \<in> set xs. \<exists>t. status_at (known n) t st"
    and m: "valid w m" "live m s" "\<forall>st \<in> set ys. \<exists>t. status_at (known m) t st"
    and "agree xs ys" and x: "rule_run (direct n) (anchored n) wl [s] xs = Some (x # xs)"
    and y: "rule_run (direct m) (anchored m) wl [s] ys = Some (y # ys)"
  shows "agree (x # xs) (y # ys)"
proof -
  let ?f = "filter (\<lambda>x. slot_round s + wl \<le> status_round x)"
  have x': "status_at (known n) s x" "direct n s = Some x \<and> is_decided x \<or>
      (\<exists>a. first_anchor (?f xs) = Some a \<and> known n a \<and> slot_round s + wl \<le> vb_round a \<and> anchored n a s = Some x)
      \<or> x = Undecided s"
    using step_ok[OF n] x by auto
  have y': "status_at (known m) s y" "direct m s = Some y \<and> is_decided y \<or>
      (\<exists>a. first_anchor (?f ys) = Some a \<and> known m a \<and> slot_round s + wl \<le> vb_round a \<and> anchored m a s = Some y)
      \<or> y = Undecided s"
    using step_ok[OF m] y by auto
  have "x = y" if dec: "is_decided x" "is_decided y"
  proof -
    have und: "\<not> is_decided (Undecided s)" by simp
    consider "direct n s = Some x" | a where "first_anchor (?f xs) = Some a" "known n a"
        "slot_round s + wl \<le> vb_round a" "anchored n a s = Some x"
      using x'(2) dec(1) und by blast
    then show ?thesis
    proof cases
      case 1
      then show ?thesis
        using y'(2) dec und direct_direct[OF n(1) m(1) n(2) m(2)] direct_anchored[OF n(1) m(1) n(2) m(2)] by blast
    next
      case (2 a)
      have "a = b" if "first_anchor (?f ys) = Some b" for b
        using agree_anchor[OF agree_filter[OF assms(7)] 2(1) that] .
      then show ?thesis
        using 2 y'(2) dec und direct_anchored[OF m(1) n(1) m(2) n(2)]
          anchored_anchored[OF n(1) m(1) n(2) m(2)] by blast
    qed
  qed
  then show ?thesis
    using assms(7) status_at_round[OF x'(1)] status_at_round[OF y'(1)] by simp
qed

text \<open>The sequence of decisions, one slot \<open>sl r\<close> per round.\<close>

lemma run_ok:
  assumes "valid w n" "\<And>r. lo \<le> r \<Longrightarrow> r < hi \<Longrightarrow> live n (sl r)"
  shows "\<exists>xs. rule_run (direct n) (anchored n) wl (map sl (rev [lo..<hi])) [] = Some xs \<and>
     length xs = hi - lo \<and> (\<forall>i < length xs. status_at (known n) (sl (lo + i)) (xs ! i))"
  using assms(2)
proof (induction "hi - lo" arbitrary: lo)
  case (Suc k)
  then have lt: "lo < hi" and k: "k = hi - Suc lo" by simp_all
  obtain xs where xs: "rule_run (direct n) (anchored n) wl (map sl (rev [Suc lo..<hi])) [] = Some xs"
      "length xs = hi - Suc lo" "\<forall>i < length xs. status_at (known n) (sl (Suc lo + i)) (xs ! i)"
    using Suc.hyps(1)[OF k] Suc.prems by auto
  have "\<forall>st \<in> set xs. \<exists>t. status_at (known n) t st" using xs(3) by (metis in_set_conv_nth)
  then obtain st where st: "rule_run (direct n) (anchored n) wl [sl lo] xs = Some (st # xs)"
      "status_at (known n) (sl lo) st"
    using step_ok[OF assms(1), of "sl lo" xs] Suc.prems lt by blast
  have "rev [lo..<hi] = rev [Suc lo..<hi] @ [lo]" using lt by (simp add: upt_conv_Cons)
  then have "rule_run (direct n) (anchored n) wl (map sl (rev [lo..<hi])) [] = Some (st # xs)"
    using xs(1) st(1) by (simp add: rule_run_append)
  moreover have "\<forall>i < length (st # xs). status_at (known n) (sl (lo + i)) ((st # xs) ! i)"
    using xs(3) st(2) by (auto simp: nth_Cons split: nat.split)
  ultimately show ?case using xs(2) lt by (intro exI[of _ "st # xs"]) simp
qed simp

lemma run_agree:
  assumes n: "valid w n" "\<And>r. lo \<le> r \<Longrightarrow> r < hi \<Longrightarrow> live n (sl r)"
    and m: "valid w m" "\<And>r. lo \<le> r \<Longrightarrow> r < hi' \<Longrightarrow> live m (sl r)"
    and "rule_run (direct n) (anchored n) wl (map sl (rev [lo..<hi])) [] = Some xs"
    and "rule_run (direct m) (anchored m) wl (map sl (rev [lo..<hi'])) [] = Some ys"
  shows "agree xs ys"
  using assms(2,4-6)
proof (induction "hi - lo" arbitrary: lo xs ys)
  case 0
  then show ?case by simp
next
  case (Suc k)
  then have lt: "lo < hi" by simp
  show ?case
  proof (cases "lo < hi'")
    case False
    with Suc.prems(4) have "ys = []" by simp
    then show ?thesis by (cases xs) auto
  next
    case True
    have eq: "map sl (rev [lo..<h]) = map sl (rev [Suc lo..<h]) @ [sl lo]" if "lo < h" for h
      using that by (simp add: upt_conv_Cons)
    obtain xs' where xs': "rule_run (direct n) (anchored n) wl (map sl (rev [Suc lo..<hi])) [] = Some xs'"
        "\<forall>st \<in> set xs'. \<exists>t. status_at (known n) t st"
      using run_ok[OF n(1), of "Suc lo" hi sl] Suc.prems(1) by (metis Suc_leD in_set_conv_nth)
    obtain ys' where ys': "rule_run (direct m) (anchored m) wl (map sl (rev [Suc lo..<hi'])) [] = Some ys'"
        "\<forall>st \<in> set ys'. \<exists>t. status_at (known m) t st"
      using run_ok[OF m(1), of "Suc lo" hi' sl] Suc.prems(2) by (metis Suc_leD in_set_conv_nth)
    have "agree xs' ys'"
      using Suc.hyps(1)[of "Suc lo" xs' ys'] Suc.hyps(2) Suc.prems(1,2) xs'(1) ys'(1) by simp
    moreover have live: "live n (sl lo)" "live m (sl lo)" using Suc.prems(1,2) lt True by auto
    moreover have run: "rule_run (direct n) (anchored n) wl [sl lo] xs' = Some xs"
        "rule_run (direct m) (anchored m) wl [sl lo] ys' = Some ys"
      using Suc.prems(3,4) xs'(1) ys'(1) eq[OF lt] eq[OF True] by (simp_all add: rule_run_append)
    moreover obtain x y where "xs = x # xs'" "ys = y # ys'"
      using step_ok[OF n(1) live(1) xs'(2)] step_ok[OF m(1) live(2) ys'(2)] run by auto
    ultimately show ?thesis using step_agree[OF n(1) _ xs'(2) m(1) _ ys'(2)] by blast
  qed
qed

end

section \<open>The base committers implement the contract\<close>

text \<open>The committer of a pipeline with waves of three rounds that owns a round.\<close>

definition committer_for :: "node_context \<Rightarrow> round \<Rightarrow> base_committer" where
  "committer_for ctx rnd = base_committer_new ctx
     \<lparr>bo_wave_length = DEFAULT_WAVE_LENGTH, bo_leader_offset = 0, bo_round_offset = rnd mod DEFAULT_WAVE_LENGTH\<rparr>"

lemma committer_for_simps [simp]:
  "bc_context (committer_for ctx rnd) = ctx" "bo_wave_length (bc_options (committer_for ctx rnd)) = 3"
  "bo_leader_offset (bc_options (committer_for ctx rnd)) = 0"
  "bo_round_offset (bc_options (committer_for ctx rnd)) = rnd mod 3"
  by (simp_all add: committer_for_def base_committer_new_def DEFAULT_WAVE_LENGTH_def MINIMUM_WAVE_LENGTH_def)

lemma aligned_committer_for [simp]: "aligned (committer_for ctx (slot_round s)) s"
proof -
  have "(n - n mod 3) div 3 * 3 + n mod 3 = n" for n :: nat by (simp add: minus_mod_eq_div_mult)
  from this[of "slot_round s"] show ?thesis
    by (simp add: aligned_def wave_number_def decision_round_def)
qed

definition rule_valid :: "committee \<times> authority_index set \<times> dag_view \<Rightarrow> node_context \<times> dag_state \<Rightarrow> bool" where
  "rule_valid = (\<lambda>(c, F, G) (ctx, ds). bft_dag c F G \<and> node_view c G ds \<and> ctx_committee ctx = c)"

definition rule_live :: "node_context \<times> dag_state \<Rightarrow> slot \<Rightarrow> bool" where
  "rule_live = (\<lambda>(ctx, ds) s. last_commit_round ds < slot_round s)"

definition rule_known :: "node_context \<times> dag_state \<Rightarrow> verified_block \<Rightarrow> bool" where
  "rule_known = (\<lambda>(ctx, ds) b. lookup_block ds (reference b) = Some b)"

definition rule_direct :: "node_context \<times> dag_state \<Rightarrow> slot \<Rightarrow> leader_status option" where
  "rule_direct = (\<lambda>(ctx, ds) s. try_direct_decide (committer_for ctx (slot_round s)) ds s)"

definition rule_anchored :: "node_context \<times> dag_state \<Rightarrow> verified_block \<Rightarrow> slot \<Rightarrow> leader_status option" where
  "rule_anchored = (\<lambda>(ctx, ds) a s. decide_leader_from_anchor (committer_for ctx (slot_round s)) ds a s)"

text \<open>What each rule decides, in terms of the world's DAG.\<close>

lemma rule_direct_cases:
  assumes "rule_valid (c, F, G) n" "rule_live n s"
  shows "\<exists>st. rule_direct n s = Some st \<and> (st = Skip s \<and> blamed c G s \<or>
      (\<exists>l. st = Commit l \<and> slot_of_ref (reference l) = s \<and> rule_known n l \<and> G (reference l) = Some l \<and>
         supported c G (slot_round s + 2) (reference l)) \<or> st = Undecided s)"
proof -
  obtain ctx ds where n: "n = (ctx, ds)" by (cases n)
  have v: "bft_dag c F G" "node_view c G ds" "ctx_committee ctx = c" "last_commit_round ds < slot_round s"
    using assms by (auto simp: n rule_valid_def rule_live_def)
  have gc: "gc_round ds < slot_round s" using v(4) gc_le_last_commit[of ds] by simp
  show ?thesis
    using try_direct_decide_ok[OF v(1,2), of "committer_for ctx (slot_round s)" s] v gc node_viewD(5)[OF v(2)]
    by (auto simp: n rule_direct_def rule_known_def)
qed

lemma rule_anchored_cases:
  assumes "rule_valid (c, F, G) n" "rule_live n s" "rule_known n a"
  shows "\<exists>st. rule_anchored n a s = Some st \<and> ((\<exists>l. st = Commit l \<and> slot_of_ref (reference l) = s \<and>
      rule_known n l \<and> G (reference l) = Some l \<and> linked c G a (slot_round s + 2) (reference l)) \<or>
      st = Skip s \<and> (\<nexists>l. slot_of_ref l = s \<and> linked c G a (slot_round s + 2) l))"
proof -
  obtain ctx ds where n: "n = (ctx, ds)" by (cases n)
  have v: "bft_dag c F G" "node_view c G ds" "ctx_committee ctx = c" "last_commit_round ds < slot_round s"
      "lookup_block ds (reference a) = Some a"
    using assms by (auto simp: n rule_valid_def rule_live_def rule_known_def)
  have gc: "gc_round ds < slot_round s" using v(4) gc_le_last_commit[of ds] by simp
  show ?thesis
    using decide_leader_from_anchor_ok[OF v(1,2), of "committer_for ctx (slot_round s)" s a] v gc
      node_viewD(5)[OF v(2)]
    by (auto simp: n rule_anchored_def rule_known_def)
qed

text \<open>The decisions of one slot exclude each other.\<close>

lemma supported_not_blamed:
  assumes "bft_dag c F G" "supported c G (slot_round s + 2) l" "slot_of_ref l = s"
  shows "\<not> blamed c G s"
  using supported_certified[OF assms(1,2)] blamed_not_certified[OF assms(1) _ _ _ assms(3)] by blast

lemma linked_not_blamed:
  assumes "bft_dag c F G" "linked c G a (slot_round s + 2) l" "slot_of_ref l = s"
  shows "\<not> blamed c G s"
  using assms(2) blamed_not_certified[OF assms(1) _ _ _ assms(3)] unfolding linked_def by blast

lemma supported_unique:
  assumes "bft_dag c F G" "supported c G r l" "supported c G r' l'" "slot_of_ref l = slot_of_ref l'"
  shows "l = l'"
  using supported_certified[OF assms(1,2)] supported_certified[OF assms(1,3)]
    certificate_unique[OF assms(1) _ _ assms(4)] by blast

text \<open>
  A decision of slot \<open>s\<close> as the world's DAG justifies it: a skip with a blame or without a linked
  certificate, or the commit of a certified block.
\<close>

lemma certified_commits_equal:
  assumes "bft_dag c F G" and "certifies c G cert (reference l)" and "certifies c G cert' (reference l')"
    and "slot_of_ref (reference l) = s" and "slot_of_ref (reference l') = s"
    and "G (reference l) = Some l" and "G (reference l') = Some l'"
  shows "l = l'"
proof -
  have "reference l = reference l'"
    by (rule certificate_unique[OF assms(1-3)]) (simp only: assms(4,5))
  then have "Some l = Some l'" unfolding assms(6,7)[symmetric] by (rule arg_cong)
  then show ?thesis by simp
qed

lemma rule_direct_agree:
  assumes v: "rule_valid (c, F, G) n" "rule_valid (c, F, G) m" "rule_live n s" "rule_live m s"
    and x: "rule_direct n s = Some x" "is_decided x" and y: "rule_direct m s = Some y" "is_decided y"
  shows "x = y"
proof -
  have G: "bft_dag c F G" using v(1) by (auto simp: rule_valid_def)
  have cases: "z = Skip s \<and> blamed c G s \<or> (\<exists>l. z = Commit l \<and> slot_of_ref (reference l) = s \<and>
      G (reference l) = Some l \<and> supported c G (slot_round s + 2) (reference l))"
    if "rule_valid (c, F, G) k" "rule_live k s" "rule_direct k s = Some z" "is_decided z" for k z
    using rule_direct_cases[OF that(1,2)] that(3,4) by auto
  have "l = l'" if "slot_of_ref (reference l) = s" "G (reference l) = Some l"
      "supported c G (slot_round s + 2) (reference l)" "slot_of_ref (reference l') = s"
      "G (reference l') = Some l'" "supported c G (slot_round s + 2) (reference l')" for l l'
    using supported_certified[OF G that(3)] supported_certified[OF G that(6)]
      certified_commits_equal[OF G _ _ that(1,4,2,5)] by blast
  then show ?thesis
    using cases[OF v(1,3) x] cases[OF v(2,4) y] supported_not_blamed[OF G] by blast
qed

lemma rule_direct_anchored_agree:
  assumes v: "rule_valid (c, F, G) n" "rule_valid (c, F, G) m" "rule_live n s" "rule_live m s"
    and a: "rule_known m a" "slot_round s + 3 \<le> vb_round a"
    and x: "rule_direct n s = Some x" "is_decided x" and y: "rule_anchored m a s = Some y"
  shows "x = y"
proof -
  have G: "bft_dag c F G" using v(1) by (auto simp: rule_valid_def)
  have Ga: "G (reference a) = Some a"
    using v(2) a(1) node_viewD(5) by (auto simp: rule_valid_def rule_known_def)
  have X: "x = Skip s \<and> blamed c G s \<or> (\<exists>l. x = Commit l \<and> slot_of_ref (reference l) = s \<and>
      G (reference l) = Some l \<and> supported c G (slot_round s + 2) (reference l))"
    using rule_direct_cases[OF v(1,3)] x by auto
  have Y: "(\<exists>l. y = Commit l \<and> slot_of_ref (reference l) = s \<and> G (reference l) = Some l \<and>
      linked c G a (slot_round s + 2) (reference l)) \<or>
      y = Skip s \<and> (\<nexists>l. slot_of_ref l = s \<and> linked c G a (slot_round s + 2) l)"
    using rule_anchored_cases[OF v(2,4) a(1)] y by auto
  have link: "linked c G a (slot_round s + 2) l" if "supported c G (slot_round s + 2) l" for l
    using supported_linked[OF G that Ga] a(2) by simp
  have eq: "l = l'" if "slot_of_ref (reference l) = s" "G (reference l) = Some l"
      "linked c G a (slot_round s + 2) (reference l)" "slot_of_ref (reference l') = s"
      "G (reference l') = Some l'" "linked c G a (slot_round s + 2) (reference l')" for l l'
    using that(3,6) certified_commits_equal[OF G _ _ that(1,4,2,5)] unfolding linked_def by blast
  show ?thesis using X Y link eq linked_not_blamed[OF G] by blast
qed

lemma rule_anchored_agree:
  assumes v: "rule_valid (c, F, G) n" "rule_valid (c, F, G) m" "rule_live n s" "rule_live m s"
    and a: "rule_known n a" "rule_known m a"
    and x: "rule_anchored n a s = Some x" and y: "rule_anchored m a s = Some y"
  shows "x = y"
proof -
  have G: "bft_dag c F G" using v(1) by (auto simp: rule_valid_def)
  have cases: "(\<exists>l. z = Commit l \<and> slot_of_ref (reference l) = s \<and> G (reference l) = Some l \<and>
      linked c G a (slot_round s + 2) (reference l)) \<or>
      z = Skip s \<and> (\<nexists>l. slot_of_ref l = s \<and> linked c G a (slot_round s + 2) l)"
    if "rule_valid (c, F, G) k" "rule_live k s" "rule_known k a" "rule_anchored k a s = Some z" for k z
    using rule_anchored_cases[OF that(1-3)] that(4) by auto
  have eq: "l = l'" if "slot_of_ref (reference l) = s" "G (reference l) = Some l"
      "linked c G a (slot_round s + 2) (reference l)" "slot_of_ref (reference l') = s"
      "G (reference l') = Some l'" "linked c G a (slot_round s + 2) (reference l')" for l l'
    using that(3,6) certified_commits_equal[OF G _ _ that(1,4,2,5)] unfolding linked_def by blast
  show ?thesis using cases[OF v(1,3) a(1) x] cases[OF v(2,4) a(2) y] eq by blast
qed

interpretation cr: commit_rule rule_valid rule_live rule_known rule_direct rule_anchored 3
proof
  fix w :: "committee \<times> authority_index set \<times> dag_view" and n m :: "node_context \<times> dag_state"
    and s a x y
  obtain c F G where w: "w = (c, F, G)" by (cases w)
  show "\<exists>st. rule_direct n s = Some st \<and> status_at (rule_known n) s st"
    if "rule_valid w n" "rule_live n s"
    using rule_direct_cases[of c F G n s] that unfolding w by auto
  show "\<exists>st. rule_anchored n a s = Some st \<and> status_at (rule_known n) s st \<and> is_decided st"
    if "rule_valid w n" "rule_live n s" "rule_known n a"
    using rule_anchored_cases[of c F G n s a] that unfolding w by auto
  assume v: "rule_valid w n" "rule_valid w m" "rule_live n s" "rule_live m s"
  show "rule_direct n s = Some x \<Longrightarrow> rule_direct m s = Some y \<Longrightarrow> is_decided x \<Longrightarrow> is_decided y \<Longrightarrow> x = y"
    by (rule rule_direct_agree[OF v[unfolded w]])
  show "rule_known m a \<Longrightarrow> slot_round s + 3 \<le> vb_round a \<Longrightarrow> rule_direct n s = Some x \<Longrightarrow> is_decided x \<Longrightarrow>
      rule_anchored m a s = Some y \<Longrightarrow> x = y"
    by (rule rule_direct_anchored_agree[OF v[unfolded w]])
  show "rule_known n a \<Longrightarrow> rule_known m a \<Longrightarrow> slot_round s + 3 \<le> vb_round a \<Longrightarrow>
      rule_anchored n a s = Some x \<Longrightarrow> rule_anchored m a s = Some y \<Longrightarrow> x = y"
    by (rule rule_anchored_agree[OF v[unfolded w]])
qed

end
