(* ===== verification/UniversalCommitter.thy ===== *)
theory UniversalCommitter
  imports CommitterSafety
begin

text \<open>
  The sequence of decided leaders (\<open>core/src/universal_committer.rs\<close>): the builder, which gives the
  pipeline of base committers, and \<open>try_decide\<close>, which goes through the rounds from the highest down
  and returns the longest decided prefix.

  With one leader per round the loop is a run of the contract \<open>commit_rule\<close>, so any two nodes of an
  epoch that use the same schedule decide the same leaders.
\<close>

record universal_committer =
  uc_context :: node_context
  uc_committers :: "base_committer list"

section \<open>The builder\<close>

record universal_committer_builder =
  ub_context :: node_context
  ub_wave_length :: round
  ub_number_of_leaders :: nat
  ub_pipeline :: bool

definition builder_new :: "node_context \<Rightarrow> universal_committer_builder" where
  "builder_new ctx = \<lparr>ub_context = ctx, ub_wave_length = DEFAULT_WAVE_LENGTH, ub_number_of_leaders = 1,
     ub_pipeline = False\<rparr>"

definition with_wave_length :: "round \<Rightarrow> universal_committer_builder \<Rightarrow> universal_committer_builder" where
  "with_wave_length w ub = ub\<lparr>ub_wave_length := w\<rparr>"

definition with_number_of_leaders :: "nat \<Rightarrow> universal_committer_builder \<Rightarrow> universal_committer_builder" where
  "with_number_of_leaders n ub = ub\<lparr>ub_number_of_leaders := n\<rparr>"

definition with_pipeline :: "bool \<Rightarrow> universal_committer_builder \<Rightarrow> universal_committer_builder" where
  "with_pipeline p ub = ub\<lparr>ub_pipeline := p\<rparr>"

definition builder_build :: "universal_committer_builder \<Rightarrow> universal_committer" where
  "builder_build ub =
     (let pipeline_stages = (if ub_pipeline ub then ub_wave_length ub else 1)
      in \<lparr>uc_context = ub_context ub,
          uc_committers = concat (map (\<lambda>round_offset. map (\<lambda>leader_offset.
              base_committer_new (ub_context ub)
                \<lparr>bo_wave_length = ub_wave_length ub, bo_leader_offset = leader_offset,
                 bo_round_offset = round_offset\<rparr>)
            [0..<ub_number_of_leaders ub]) [0..<pipeline_stages])\<rparr>)"

section \<open>Deciding\<close>

text \<open>The two nested loops over rounds and committers; finding the last decided slot ends both.\<close>

fun decide_loop :: "rng \<Rightarrow> leader_schedule \<Rightarrow> dag_state \<Rightarrow> slot \<Rightarrow> (round \<times> base_committer) list
    \<Rightarrow> (leader_status \<times> decision) list \<Rightarrow> (leader_status \<times> decision) list option" where
  "decide_loop g sch ds last_decided [] leaders = Some leaders"
| "decide_loop g sch ds last_decided ((rnd, bc) # rest) leaders = do {
     elected \<leftarrow> elect_leader g sch bc rnd;
     (case elected of
        None \<Rightarrow> decide_loop g sch ds last_decided rest leaders
      | Some s \<Rightarrow>
          if s = last_decided then Some leaders
          else do {
            status \<leftarrow> try_direct_decide bc ds s;
            if is_decided status
            then decide_loop g sch ds last_decided rest ((status, Direct) # leaders)
            else do {
              status' \<leftarrow> try_indirect_decide bc ds s (map fst leaders);
              decide_loop g sch ds last_decided rest ((status', Indirect) # leaders)
            }
          })
   }"

text \<open>The metrics look up the leader's authority, which panics for one outside the committee.\<close>

definition update_metrics :: "node_context \<Rightarrow> decided_leader \<Rightarrow> unit option" where
  "update_metrics ctx d = do {
     _ \<leftarrow> committee_authority (ctx_committee ctx) (slot_authority (decided_slot d));
     Some ()
   }"

fun collect_decided :: "node_context \<Rightarrow> (leader_status \<times> decision) list \<Rightarrow> decided_leader list option" where
  "collect_decided ctx [] = Some []"
| "collect_decided ctx ((leader, dec) # ls) =
     (if status_round leader = GENESIS_ROUND then collect_decided ctx ls
      else (case into_decided_leader leader (dec = Direct) of
              None \<Rightarrow> Some []
            | Some d \<Rightarrow> do {
                _ \<leftarrow> update_metrics ctx d;
                rest \<leftarrow> collect_decided ctx ls;
                Some (d # rest)
              }))"

definition try_decide :: "rng \<Rightarrow> leader_schedule \<Rightarrow> universal_committer \<Rightarrow> dag_state \<Rightarrow> slot
    \<Rightarrow> decided_leader list option" where
  "try_decide g sch uc ds last_decided = do {
     let last_round = (case pc_mysticeti_num_leaders_per_round (ctx_protocol_config (uc_context uc)) of
         Some n \<Rightarrow> if n = 1 then slot_round last_decided + 1 else slot_round last_decided
       | None \<Rightarrow> slot_round last_decided);
     leaders \<leftarrow> decide_loop g sch ds last_decided
       (List.product (rev [last_round..<Suc (ds_highest_accepted_round ds - 2)]) (rev (uc_committers uc))) [];
     collect_decided (uc_context uc) leaders
   }"

definition get_leaders :: "rng \<Rightarrow> leader_schedule \<Rightarrow> universal_committer \<Rightarrow> round
    \<Rightarrow> authority_index list option" where
  "get_leaders g sch uc rnd = do {
     slots \<leftarrow> try_map (\<lambda>bc. elect_leader g sch bc rnd) (uc_committers uc);
     Some (map slot_authority (List.map_filter id slots))
   }"

text \<open>The committer \<open>Core::new\<close> builds: a pipeline with the configured number of leaders.\<close>

definition core_committer :: "node_context \<Rightarrow> universal_committer" where
  "core_committer ctx = builder_build (with_pipeline True (with_number_of_leaders
     (case pc_mysticeti_num_leaders_per_round (ctx_protocol_config ctx) of Some n \<Rightarrow> n | None \<Rightarrow> 1)
     (builder_new ctx)))"

section \<open>The loop is a run of the commit rule\<close>

lemma upt3: "[0..<3] = [0, 1, 2::nat]"
  by (simp add: numeral_3_eq_3)

lemma core_committers:
  assumes "pc_mysticeti_num_leaders_per_round (ctx_protocol_config ctx) = Some 1"
  shows "uc_committers (core_committer ctx) = map (committer_for ctx) [0, 1, 2]"
    and "uc_context (core_committer ctx) = ctx"
  using assms
  by (simp_all add: core_committer_def builder_build_def with_pipeline_def with_number_of_leaders_def
      builder_new_def committer_for_def DEFAULT_WAVE_LENGTH_def MINIMUM_WAVE_LENGTH_def upt3 Let_def)

text \<open>Exactly one committer of the pipeline has a leader in a round.\<close>

lemma mod3_round: "(n - k) div 3 * 3 + k = n \<longleftrightarrow> n mod 3 = k" if "k < 3" for n k :: nat
proof -
  have "k = 0 \<or> k = 1 \<or> k = 2" using that by auto
  then show ?thesis by (elim disjE) (simp_all, presburger+)
qed

lemma elect_leader_pipeline:
  assumes "k < 3"
  shows "elect_leader g sch (committer_for ctx k) rnd =
     (if rnd mod 3 = k then map_option (\<lambda>a. Some (Slot rnd a)) (schedule_elect_leader g ctx sch rnd 0)
      else Some None)"
  using assms mod3_round[OF assms, of rnd]
  by (auto simp: elect_leader_def wave_number_def leader_round_def map_option_case split: option.split)

lemma committer_for_mod: "rnd mod 3 = k \<Longrightarrow> committer_for ctx k = committer_for ctx rnd"
  by (auto simp: committer_for_def DEFAULT_WAVE_LENGTH_def MINIMUM_WAVE_LENGTH_def)

lemma decide_round:
  assumes "schedule_elect_leader g ctx sch rnd 0 = Some a" and "Slot rnd a \<noteq> lst"
  shows "decide_loop g sch ds lst (map (Pair rnd) (rev (map (committer_for ctx) [0, 1, 2])) @ rest) acc =
     decide_loop g sch ds lst ((rnd, committer_for ctx rnd) # rest) acc"
proof -
  let ?c = "committer_for ctx"
  have skip: "decide_loop g sch ds lst ((rnd, ?c k) # xs) acc' = decide_loop g sch ds lst xs acc'"
    if "k < 3" "rnd mod 3 \<noteq> k" for k xs acc'
    using elect_leader_pipeline[OF that(1), of g sch ctx rnd] that(2) by simp
  have tail: "decide_loop g sch ds lst ((rnd, ?c rnd) # xs) acc =
      decide_loop g sch ds lst ((rnd, ?c rnd) # ys) acc"
    if "\<And>acc'. decide_loop g sch ds lst xs acc' = decide_loop g sch ds lst ys acc'" for xs ys
    using that by (simp cong: if_cong)
  have "rnd mod 3 < 3" by simp
  then consider "rnd mod 3 = 0" | "rnd mod 3 = 1" | "rnd mod 3 = 2" by linarith
  then show ?thesis
  proof cases
    case 1
    then show ?thesis
      using skip[of 1] skip[of 2] by (simp del: decide_loop.simps add: committer_for_mod[OF 1, of ctx])
  next
    case 2
    then show ?thesis
      using skip[of 0] skip[of 2] tail[of "(rnd, ?c 0) # rest" rest]
      by (simp del: decide_loop.simps add: committer_for_mod[OF 2[simplified], of ctx])
  next
    case 3
    then show ?thesis
      using skip[of 0] skip[of 1] tail[of "(rnd, ?c 1) # (rnd, ?c 0) # rest" rest]
      by (simp del: decide_loop.simps add: committer_for_mod[OF 3, of ctx])
  qed
qed

lemma decide_loop_run:
  assumes "\<And>r. r \<in> set rounds \<Longrightarrow> schedule_elect_leader g ctx sch r 0 = Some (leader r) \<and> Slot r (leader r) \<noteq> lst"
  shows "map_option (map fst) (decide_loop g sch ds lst
       (List.product rounds (rev (map (committer_for ctx) [0, 1, 2]))) acc) =
     rule_run (rule_direct (ctx, ds)) (rule_anchored (ctx, ds)) 3 (map (\<lambda>r. Slot r (leader r)) rounds) (map fst acc)"
  using assms
proof (induction rounds arbitrary: acc)
  case (Cons r rounds)
  let ?bc = "committer_for ctx r"
  let ?s = "Slot r (leader r)"
  let ?rest = "List.product rounds (rev (map (committer_for ctx) [0, 1, 2]))"
  have r: "schedule_elect_leader g ctx sch r 0 = Some (leader r)" "?s \<noteq> lst" using Cons.prems by auto
  have el: "elect_leader g sch ?bc r = Some (Some ?s)"
    using elect_leader_pipeline[of "r mod 3" g sch ctx r] r(1) committer_for_mod[of r, OF refl] by simp
  have IH: "map_option (map fst) (decide_loop g sch ds lst ?rest acc') =
      rule_run (rule_direct (ctx, ds)) (rule_anchored (ctx, ds)) 3
        (map (\<lambda>r. Slot r (leader r)) rounds) (map fst acc')" for acc'
    using Cons by simp
  have "List.product (r # rounds) (rev (map (committer_for ctx) [0, 1, 2])) =
      map (Pair r) (rev (map (committer_for ctx) [0, 1, 2])) @ ?rest"
    by (simp add: comp_def)
  then have "decide_loop g sch ds lst (List.product (r # rounds) (rev (map (committer_for ctx) [0, 1, 2]))) acc =
      decide_loop g sch ds lst ((r, ?bc) # ?rest) acc"
    using decide_round[OF r] by simp
  also have "map_option (map fst) \<dots> = rule_run (rule_direct (ctx, ds)) (rule_anchored (ctx, ds)) 3
        (map (\<lambda>r. Slot r (leader r)) (r # rounds)) (map fst acc)"
  proof (cases "try_direct_decide ?bc ds ?s")
    case None
    then show ?thesis using el r(2) by (simp add: rule_direct_def)
  next
    case (Some st)
    show ?thesis
    proof (cases "is_decided st")
      case True
      then show ?thesis using Some el r(2) IH by (simp add: rule_direct_def)
    next
      case False
      let ?ind = "case first_anchor (filter (\<lambda>x. r + 3 \<le> status_round x) (map fst acc)) of
          Some a \<Rightarrow> rule_anchored (ctx, ds) a ?s | None \<Rightarrow> Some (Undecided ?s)"
      have "try_indirect_decide ?bc ds ?s (map fst acc) = ?ind"
        by (simp add: try_indirect_decide_def rule_anchored_def split: option.split)
      then show ?thesis
        using Some False el r(2) IH by (cases ?ind) (simp_all add: rule_direct_def)
    qed
  qed
  finally show ?case .
qed simp

section \<open>The decided prefix\<close>

text \<open>The leaders up to the first undecided one, without the flag that tells how they were decided.\<close>

fun verdict :: "leader_status \<Rightarrow> verified_block option" where
  "verdict (Commit b) = Some b"
| "verdict _ = None"

lemma collect_decided_ok:
  assumes "\<forall>i < length ls. status_at known (sl (lo + i)) (fst (ls ! i))"
    and "\<And>r. slot_round (sl r) = r" and "0 < lo"
    and "\<And>r. slot_authority (sl r) \<in> members (ctx_committee ctx)"
  shows "\<exists>xs. collect_decided ctx ls = Some xs \<and> length xs \<le> length ls \<and>
     (\<forall>i < length xs. decided_slot (xs ! i) = sl (lo + i) \<and> is_decided (fst (ls ! i)) \<and>
        into_committed_block (xs ! i) = verdict (fst (ls ! i))) \<and>
     (length xs < length ls \<longrightarrow> \<not> is_decided (fst (ls ! length xs)))"
  using assms(1,3)
proof (induction ls arbitrary: lo)
  case (Cons l ls)
  obtain st d where l: "l = (st, d)" by (cases l)
  have st: "status_at known (sl lo) st" using Cons.prems(1) l by (auto dest: spec[of _ 0])
  have rnd: "status_round st \<noteq> GENESIS_ROUND"
    using status_at_round[OF st] assms(2) Cons.prems(2) by (simp add: GENESIS_ROUND_def)
  have "\<forall>i < length ls. status_at known (sl (Suc lo + i)) (fst (ls ! i))"
    using Cons.prems(1) by auto
  from Cons.IH[OF this] obtain xs where xs: "collect_decided ctx ls = Some xs" "length xs \<le> length ls"
      "\<forall>i < length xs. decided_slot (xs ! i) = sl (Suc lo + i) \<and> is_decided (fst (ls ! i)) \<and>
         into_committed_block (xs ! i) = verdict (fst (ls ! i))"
      "length xs < length ls \<longrightarrow> \<not> is_decided (fst (ls ! length xs))"
    by auto
  show ?case
  proof (cases "into_decided_leader st (d = Direct)")
    case None
    then have "\<not> is_decided st" by (cases st) auto
    with None rnd show ?thesis by (simp add: l)
  next
    case (Some x)
    then have x: "decided_slot x = sl lo" "is_decided st" "into_committed_block x = verdict st"
      using st by (cases st; auto)+
    have "update_metrics ctx x = Some ()"
      using assms(4)[of lo] x(1)
      by (simp add: update_metrics_def committee_authority_def members_def committee_size_def)
    with Some rnd xs(1) have "collect_decided ctx (l # ls) = Some (x # xs)" by (simp add: l)
    moreover have "\<forall>i < length (x # xs). decided_slot ((x # xs) ! i) = sl (lo + i) \<and>
        is_decided (fst ((l # ls) ! i)) \<and> into_committed_block ((x # xs) ! i) = verdict (fst ((l # ls) ! i))"
      using xs(3) x by (auto simp: nth_Cons l split: nat.split)
    ultimately show ?thesis using xs(2,4) by (intro exI[of _ "x # xs"]) auto
  qed
qed simp

section \<open>Two nodes\<close>

lemma rule_run_grows:
  "rule_run d a wl ss acc = Some xs \<Longrightarrow> \<exists>pre. xs = pre @ acc \<and> length pre = length ss"
proof (induction ss arbitrary: acc)
  case (Cons s ss)
  then obtain st where "rule_run d a wl ss (st # acc) = Some xs" by (auto simp: bind_eq_Some_conv)
  from Cons.IH[OF this] obtain pre where "xs = pre @ st # acc" "length pre = length ss" by auto
  then show ?case by (intro exI[of _ "pre @ [st]"]) simp
qed simp

text \<open>A run from a higher round on is the end of the run from a lower one.\<close>

lemma rule_run_drop:
  assumes run: "rule_run d a wl (map sl (rev [lo..<hi])) [] = Some xs" and "lo \<le> lo'"
  shows "rule_run d a wl (map sl (rev [lo'..<hi])) [] = Some (drop (lo' - lo) xs)"
proof (cases "lo' \<le> hi")
  case False
  have "length xs = hi - lo" using rule_run_grows[OF run] by auto
  with False show ?thesis by simp
next
  case True
  then have "rev [lo..<hi] = rev [lo'..<hi] @ rev [lo..<lo']"
    using assms(2) upt_add_eq_append[of lo lo' "hi - lo'"] by simp
  then obtain ys where ys: "rule_run d a wl (map sl (rev [lo'..<hi])) [] = Some ys"
      "rule_run d a wl (map sl (rev [lo..<lo'])) ys = Some xs"
    using run by (auto simp: rule_run_append bind_eq_Some_conv)
  from rule_run_grows[OF ys(2)] ys(1) show ?thesis by auto
qed

text \<open>The statuses of the open rounds of a node, and the prefix \<open>try_decide\<close> returns.\<close>

definition open_rounds :: "dag_state \<Rightarrow> slot \<Rightarrow> round list" where
  "open_rounds ds lst = [Suc (slot_round lst)..<Suc (ds_highest_accepted_round ds - 2)]"

definition node_run :: "node_context \<Rightarrow> dag_state \<Rightarrow> (round \<Rightarrow> slot) \<Rightarrow> slot \<Rightarrow> leader_status list option" where
  "node_run ctx ds sl lst = rule_run (rule_direct (ctx, ds)) (rule_anchored (ctx, ds)) 3
     (map sl (rev (open_rounds ds lst))) []"

lemma try_decide_ok:
  assumes G: "bft_dag c F G" and nv: "node_view c G ds" and ctx: "ctx_committee ctx = c"
    and one: "pc_mysticeti_num_leaders_per_round (ctx_protocol_config ctx) = Some 1"
    and leader: "\<And>r. schedule_elect_leader g ctx sch r 0 = Some (leader r) \<and> leader r \<in> members c"
    and lst: "last_commit_round ds \<le> slot_round lst"
  shows "\<exists>sts xs. node_run ctx ds (\<lambda>r. Slot r (leader r)) lst = Some sts \<and>
     try_decide g sch (core_committer ctx) ds lst = Some xs \<and> length xs \<le> length sts \<and>
     (\<forall>i < length xs. decided_slot (xs ! i) = Slot (Suc (slot_round lst) + i) (leader (Suc (slot_round lst) + i)) \<and>
        is_decided (sts ! i) \<and> into_committed_block (xs ! i) = verdict (sts ! i))"
proof -
  let ?sl = "\<lambda>r. Slot r (leader r)"
  let ?lo = "Suc (slot_round lst)"
  let ?hi = "Suc (ds_highest_accepted_round ds - 2)"
  have v: "rule_valid (c, F, G) (ctx, ds)" using G nv ctx by (simp add: rule_valid_def)
  have "rule_live (ctx, ds) (?sl r)" if "?lo \<le> r" for r using that lst by (simp add: rule_live_def)
  then obtain sts where sts: "node_run ctx ds ?sl lst = Some sts"
      "\<forall>i < length sts. status_at (rule_known (ctx, ds)) (?sl (?lo + i)) (sts ! i)"
    using cr.run_ok[OF v, of ?lo ?hi ?sl] by (auto simp: node_run_def open_rounds_def)
  let ?loop = "decide_loop g sch ds lst
       (List.product (rev (open_rounds ds lst)) (rev (map (committer_for ctx) [0, 1, 2]))) []"
  have "?sl r \<noteq> lst" if "r \<in> set (rev (open_rounds ds lst))" for r
    using that by (auto simp: open_rounds_def)
  then have "map_option (map fst) ?loop = node_run ctx ds ?sl lst"
    unfolding node_run_def using leader decide_loop_run[of "rev (open_rounds ds lst)" g ctx sch leader lst ds "[]"]
    by (simp del: decide_loop.simps)
  with sts(1) have "map_option (map fst) ?loop = Some sts" by simp
  then obtain ls where ls: "?loop = Some ls" "map fst ls = sts" by auto
  have "\<forall>i < length ls. status_at (rule_known (ctx, ds)) (?sl (?lo + i)) (fst (ls ! i))"
    using sts(2) ls(2) by (metis length_map nth_map)
  from collect_decided_ok[OF this, of ctx] obtain xs where xs: "collect_decided ctx ls = Some xs"
      "length xs \<le> length ls" "\<forall>i < length xs. decided_slot (xs ! i) = ?sl (?lo + i) \<and> is_decided (fst (ls ! i)) \<and>
        into_committed_block (xs ! i) = verdict (fst (ls ! i))"
    using leader ctx by auto
  have "try_decide g sch (core_committer ctx) ds lst = Some xs"
    using ls(1) xs(1) one core_committers[OF one]
    by (simp del: decide_loop.simps upt_Suc add: try_decide_def open_rounds_def)
  moreover have "length xs \<le> length sts" using xs(2) ls(2) by auto
  moreover have "\<forall>i < length xs. fst (ls ! i) = sts ! i" using xs(2) ls(2) by auto
  ultimately show ?thesis using sts(1) xs(3) by (intro exI[of _ sts] exI[of _ xs]) auto
qed

text \<open>The statuses of two nodes agree round by round, wherever each of them starts.\<close>

lemma node_runs_agree:
  assumes G: "bft_dag c F G" and nv: "node_view c G ds" "node_view c G ds'"
    and ctx: "ctx_committee ctx = c" "ctx_committee ctx' = c"
    and run: "node_run ctx ds sl lst = Some xs" "node_run ctx' ds' sl lst' = Some ys"
    and sl: "\<And>r. slot_round (sl r) = r"
    and lst: "last_commit_round ds \<le> slot_round lst" "last_commit_round ds' \<le> slot_round lst'"
    and ij: "i < length xs" "j < length ys" "Suc (slot_round lst) + i = Suc (slot_round lst') + j"
      "is_decided (xs ! i)" "is_decided (ys ! j)"
  shows "xs ! i = ys ! j"
proof -
  have v: "rule_valid (c, F, G) (ctx, ds)" "rule_valid (c, F, G) (ctx', ds')"
    using G nv ctx by (simp_all add: rule_valid_def)
  let ?lo = "Suc (slot_round lst)" and ?lo' = "Suc (slot_round lst')"
  define m where "m = max ?lo ?lo'"
  have le: "?lo \<le> m" "?lo' \<le> m" "m \<le> ?lo + i" using ij(3) by (auto simp: m_def)
  have live: "rule_live (ctx, ds) (sl r)" "rule_live (ctx', ds') (sl r)" if "m \<le> r" for r
    using that lst le by (auto simp: rule_live_def sl)
  have "agree (drop (m - ?lo) xs) (drop (m - ?lo') ys)"
    by (rule cr.run_agree[OF v(1) live(1) v(2) live(2)
          rule_run_drop[OF run(1)[unfolded node_run_def open_rounds_def] le(1)]
          rule_run_drop[OF run(2)[unfolded node_run_def open_rounds_def] le(2)]])
  from agree_nth[OF this, of "?lo + i - m"] show ?thesis
    using ij le by simp
qed

end
