(* ===== verification/ExampleDag.thy ===== *)
theory ExampleDag
  imports UniversalCommitter
begin

text \<open>
  A concrete DAG for the witnesses: four authorities, rounds 1 to 4, every block refers to all
  blocks of the round before, its own first. It is built by accepting the blocks into a fresh DAG
  state, and it is a DAG of an epoch in the sense of \<open>CommitterSafety\<close>.
\<close>

section \<open>Accepting blocks of distinct slots\<close>

lemma accept_block_highest:
  assumes "accept_block now b ds = Some ds'" "contains_block ds (reference b) = Some False"
  shows "ds_highest_accepted_round ds' = max (ds_highest_accepted_round ds) (vb_round b)"
  using assms
  by (auto simp: accept_block_def update_block_metadata_def bind_eq_Some_conv bind_rust_assert Let_def
      split: if_splits)

lemma accept_blocks_ok:
  assumes "dag_inv ds" and "ds_last_commit ds = None"
    and "\<forall>b \<in> set bs. 0 < vb_round b \<and> vb_author b < ds_size ds"
    and "distinct (map (slot_of_ref \<circ> reference) bs)"
    and "\<forall>b \<in> set bs. \<forall>d. lookup_block ds (reference d) = Some d \<longrightarrow>
           slot_of_ref (reference d) \<noteq> slot_of_ref (reference b)"
  shows "\<exists>ds'. accept_blocks now bs ds = Some ds' \<and> dag_inv ds' \<and> same_frame ds ds' \<and>
     (\<forall>r b. lookup_block ds' r = Some b \<longleftrightarrow> lookup_block ds r = Some b \<or> b \<in> set bs \<and> reference b = r) \<and>
     ds_highest_accepted_round ds' = fold max (map vb_round bs) (ds_highest_accepted_round ds)"
  using assms
proof (induction bs arbitrary: ds)
  case Nil
  then show ?case by (simp add: accept_blocks_def)
next
  case (Cons b bs)
  have b: "0 < vb_round b" "vb_author b < ds_size ds" using Cons.prems(3) by auto
  have new: "lookup_block ds (reference b) = None"
  proof (rule ccontr)
    assume "lookup_block ds (reference b) \<noteq> None"
    then obtain d where d: "lookup_block ds (reference b) = Some d" by auto
    then have "reference d = reference b" using lookup_ref[OF Cons.prems(1)] by blast
    with d Cons.prems(5) show False by (metis list.set_intros(1))
  qed
  have gc: "gc_round ds = 0" using Cons.prems(2) by (simp add: gc_round_def calculate_gc_round_def last_commit_round_def)
  have "set (get_uncommitted_blocks_at_slot ds (slot_of_ref (reference b))) = {}"
    using blocks_at_slot[OF Cons.prems(1), of "slot_of_ref (reference b)"] Cons.prems(5) b(1) gc by auto
  then have own: "get_uncommitted_blocks_at_slot ds (slot_of_ref (reference b)) = []" by simp
  obtain ds1 where ds1: "accept_block now b ds = Some ds1" "dag_inv ds1" "same_frame ds ds1"
      "lookup_block ds1 = (lookup_block ds)(reference b \<mapsto> b)"
    using accept_block_spec[OF Cons.prems(1) b own, of now] new by auto
  have hi: "ds_highest_accepted_round ds1 = max (ds_highest_accepted_round ds) (vb_round b)"
    using accept_block_highest[OF ds1(1)] contains_block_eq[OF Cons.prems(1)] b new by simp
  have slots: "slot_of_ref (reference d) \<noteq> slot_of_ref (reference x)"
    if "x \<in> set bs" "lookup_block ds1 (reference d) = Some d" for x d
    using that Cons.prems(4,5) unfolding ds1(4) by (auto split: if_splits)
  have frame: "ds_last_commit ds1 = None" "ds_size ds1 = ds_size ds"
    using ds1(3) Cons.prems(2) by (auto simp: same_frame_def)
  have "\<exists>ds'. accept_blocks now bs ds1 = Some ds' \<and> dag_inv ds' \<and> same_frame ds1 ds' \<and>
     (\<forall>r b. lookup_block ds' r = Some b \<longleftrightarrow> lookup_block ds1 r = Some b \<or> b \<in> set bs \<and> reference b = r) \<and>
     ds_highest_accepted_round ds' = fold max (map vb_round bs) (ds_highest_accepted_round ds1)"
    using Cons.prems(3,4) slots frame by (intro Cons.IH[OF ds1(2)]) auto
  then obtain ds' where "accept_blocks now bs ds1 = Some ds'" "dag_inv ds'" "same_frame ds1 ds'"
      "\<forall>r b. lookup_block ds' r = Some b \<longleftrightarrow> lookup_block ds1 r = Some b \<or> b \<in> set bs \<and> reference b = r"
      "ds_highest_accepted_round ds' = fold max (map vb_round bs) (ds_highest_accepted_round ds1)"
    by blast
  with ds1(1,3,4) hi new show ?case
    by (intro exI[of _ ds']) (auto simp: accept_blocks_def max.commute intro: same_frame_trans split: if_splits)
qed

section \<open>The blocks\<close>

definition dag_ref :: "round \<Rightarrow> authority_index \<Rightarrow> block_ref" where
  "dag_ref k a = (if k = 0 then reference (example_genesis ! a) else BlockRef k a (word_of_nat (4 * k + a)))"

definition dag_block :: "round \<Rightarrow> authority_index \<Rightarrow> verified_block" where
  "dag_block k a = (if k = 0 then example_genesis ! a
     else mk_block k a (word_of_nat (4 * k + a)) (100 * k + a)
       (map (dag_ref (k - 1)) (a # filter (\<lambda>i. i \<noteq> a) [0, 1, 2, 3])))"

definition dag_blocks :: "nat \<Rightarrow> verified_block list" where
  "dag_blocks n = map (\<lambda>(k, a). dag_block k a) (List.product [1..<Suc n] [0, 1, 2, 3])"

lemma example_genesis_nth:
  assumes "a < 4"
  shows "vb_round (example_genesis ! a) = 0" "vb_author (example_genesis ! a) = a"
    "vb_ancestors (example_genesis ! a) = []"
proof -
  have "length example_genesis = 4" by (simp add: example_genesis_def)
  then show "vb_round (example_genesis ! a) = 0" "vb_author (example_genesis ! a) = a"
      "vb_ancestors (example_genesis ! a) = []"
    using genesis_blocks_shape(2)[OF example_genesis_blocks, of a] assms by simp_all
qed

lemma dag_ref_simps [simp]:
  assumes "a < 4"
  shows "br_round (dag_ref k a) = k" "br_author (dag_ref k a) = a" "reference (dag_block k a) = dag_ref k a"
    "vb_round (dag_block k a) = k" "vb_author (dag_block k a) = a"
    "vb_ancestors (dag_block k a) = (if k = 0 then []
       else map (dag_ref (k - 1)) (a # filter (\<lambda>i. i \<noteq> a) [0, 1, 2, 3]))"
  using example_genesis_nth[OF assms] by (simp_all add: dag_ref_def dag_block_def)

lemma dag_ref_inj: "a < 4 \<Longrightarrow> b < 4 \<Longrightarrow> dag_ref k a = dag_ref l b \<longleftrightarrow> k = l \<and> a = b"
  by (metis dag_ref_simps(1,2))

definition example_dag :: "nat \<Rightarrow> dag_view" where
  "example_dag n = (\<lambda>r. if br_round r \<le> n \<and> br_author r < 4 \<and> r = dag_ref (br_round r) (br_author r)
     then Some (dag_block (br_round r) (br_author r)) else None)"

lemma example_dag_iff:
  "example_dag n r = Some b \<longleftrightarrow> (\<exists>k a. k \<le> n \<and> a < 4 \<and> r = dag_ref k a \<and> b = dag_block k a)"
  by (auto simp: example_dag_def)

lemma example_dag_known [simp]: "k \<le> n \<Longrightarrow> a < 4 \<Longrightarrow> example_dag n (dag_ref k a) = Some (dag_block k a)"
  by (simp add: example_dag_def)

lemma all4: "i < 4 \<longleftrightarrow> i = 0 \<or> i = 1 \<or> i = 2 \<or> i = (3::nat)"
  by auto

lemma dag_ancestors:
  assumes "a < 4" "0 < k"
  shows "x \<in> set (vb_ancestors (dag_block k a)) \<longleftrightarrow> (\<exists>i < 4. x = dag_ref (k - 1) i)"
  using assms by (auto simp: all4)

lemma example_dag_bft: "bft_dag committee4 {3} (example_dag n)"
proof -
  have anc: "x \<in> set (vb_ancestors (dag_block k a)) \<longleftrightarrow> 0 < k \<and> (\<exists>i < 4. x = dag_ref (k - 1) i)" if "a < 4" for x k a
    using dag_ancestors[OF that, of k x] that by (cases "k = 0") auto
  have "br_author ` {x \<in> set (vb_ancestors (dag_block k a)). Suc (br_round x) = k} = {0, 1, 2, 3}"
    if "a < 4" "0 < k" for k a
  proof -
    have "{x \<in> set (vb_ancestors (dag_block k a)). Suc (br_round x) = k} = dag_ref (k - 1) ` {0, 1, 2, 3}"
      using that by (auto simp: anc all4)
    then show ?thesis by (simp add: image_image)
  qed
  moreover have "quorum committee4 \<le> stake_of committee4 {0, 1, 2, 3}"
    by (simp add: quorum_def stake_of_def committee4_weight) (simp add: committee4_def)
  ultimately have q: "quorum committee4 \<le>
      stake_of committee4 (br_author ` {x \<in> set (vb_ancestors (dag_block k a)). Suc (br_round x) = k})"
    if "a < 4" "0 < k" for k a
    using that by simp
  have first: "\<exists>xs. vb_ancestors (dag_block k a) = dag_ref (k - 1) a # xs" if "a < 4" "0 < k" for k a
    using that by simp
  have bad: "{3} \<subseteq> members committee4" "stake_of committee4 {3} < validity committee4"
    by (simp_all add: committee4_members stake_of_def committee4_weight validity_def) (simp add: committee4_def)
  have blk: "reference b = r \<and> br_author r \<in> members committee4 \<and>
        (\<forall>x \<in> set (vb_ancestors b). br_round x < br_round r \<and> example_dag n x \<noteq> None) \<and>
        (0 < br_round r \<longrightarrow> quorum committee4 \<le>
           stake_of committee4 (br_author ` {x \<in> set (vb_ancestors b). Suc (br_round x) = br_round r}))"
    if r: "example_dag n r = Some b" for r b
  proof -
    obtain k a where k: "k \<le> n" "a < 4" "r = dag_ref k a" "b = dag_block k a"
      using r by (auto simp: example_dag_iff)
    have "br_round x < k \<and> example_dag n x \<noteq> None" if x: "x \<in> set (vb_ancestors b)" for x
    proof -
      obtain i where i: "0 < k" "i < 4" "x = dag_ref (k - 1) i" using x anc[OF k(2)] k(4) by auto
      then have "example_dag n x = Some (dag_block (k - 1) i)"
        using k(1) unfolding example_dag_iff by (intro exI[of _ "k - 1"] exI[of _ i]) simp
      then show ?thesis using i by simp
    qed
    moreover have "a \<in> members committee4" using k(2) by (auto simp: committee4_members all4)
    ultimately show ?thesis using k q[OF k(2)] by simp
  qed
  have chain: "(br_round r' = br_round r \<longrightarrow> r' = r) \<and>
        (br_round r' < br_round r \<longrightarrow> (\<exists>x xs. vb_ancestors b = x # xs \<and> br_author x = br_author r \<and>
           br_round r' \<le> br_round x))"
    if r: "example_dag n r = Some b" "example_dag n r' = Some b'" "br_author r = br_author r'" for r r' b b'
  proof -
    obtain k a where k: "k \<le> n" "a < 4" "r = dag_ref k a" "b = dag_block k a"
      using r(1) by (auto simp: example_dag_iff)
    obtain k' a' where k': "k' \<le> n" "a' < 4" "r' = dag_ref k' a'"
      using r(2) by (auto simp: example_dag_iff)
    have "a' = a" using r(3) k k' by simp
    moreover have "\<exists>x xs. vb_ancestors b = x # xs \<and> br_author x = a \<and> k' \<le> br_round x" if "k' < k"
      using first[OF k(2), of k] that k(2,4) by (intro exI[of _ "dag_ref (k - 1) a"]) auto
    ultimately show ?thesis using k k' by simp
  qed
  have "\<forall>r b. example_dag n r = Some b \<longrightarrow> reference b = r \<and> br_author r \<in> members committee4 \<and>
        (\<forall>x \<in> set (vb_ancestors b). br_round x < br_round r \<and> example_dag n x \<noteq> None) \<and>
        (0 < br_round r \<longrightarrow> quorum committee4 \<le>
           stake_of committee4 (br_author ` {x \<in> set (vb_ancestors b). Suc (br_round x) = br_round r}))"
    by (intro allI impI blk)
  moreover have "\<forall>r r' b. example_dag n r = Some b \<and> example_dag n r' \<noteq> None \<and> br_author r = br_author r' \<and>
      br_author r \<notin> {3} \<longrightarrow> (br_round r' = br_round r \<longrightarrow> r' = r) \<and>
        (br_round r' < br_round r \<longrightarrow> (\<exists>x xs. vb_ancestors b = x # xs \<and> br_author x = br_author r \<and>
           br_round r' \<le> br_round x))"
    by (intro allI impI, elim conjE) (drule not_None_eq[THEN iffD1], elim exE, rule chain)
  ultimately show ?thesis unfolding bft_dag_def using committee4_wf bad by (intro conjI)
qed

text \<open>The state of a node that accepted the blocks of \<open>n\<close> rounds.\<close>

lemma set_dag_blocks: "b \<in> set (dag_blocks n) \<longleftrightarrow> (\<exists>k a. 0 < k \<and> k \<le> n \<and> a < 4 \<and> b = dag_block k a)"
proof -
  have eq: "set (List.product [1..<Suc n] [0, 1, 2, 3::nat]) = {(k, a). 0 < k \<and> k \<le> n \<and> a < 4}"
    by (auto simp: all4)
  show ?thesis unfolding dag_blocks_def set_map eq by auto
qed

lemma dag_blocks_rounds: "fold max (map vb_round (dag_blocks n)) 0 = n"
proof (induction n)
  case (Suc n)
  have "dag_blocks (Suc n) = dag_blocks n @ map (dag_block (Suc n)) [0, 1, 2, 3]"
    by (simp add: dag_blocks_def List.product_concat_map)
  then show ?case using Suc by simp
qed (simp add: dag_blocks_def)

lemma example_state:
  "\<exists>ds. accept_blocks 8 (dag_blocks n) (fresh_state example_ctx 7 example_genesis) = Some ds \<and>
     node_view committee4 (example_dag n) ds \<and> ds_context ds = example_ctx \<and> ds_last_commit ds = None \<and>
     lookup_block ds = example_dag n \<and> ds_highest_accepted_round ds = n"
proof -
  let ?ds = "fresh_state example_ctx 7 example_genesis"
  note fresh = fresh_inv[OF example_genesis_blocks example_ctx_ok, of 7]
  have f: "ds_context ?ds = example_ctx" "ds_last_commit ?ds = None" "ds_highest_accepted_round ?ds = 0"
      "ds_size ?ds = 4"
    by (simp_all add: fresh_state_def example_ctx_def committee4_def committee_size_def)
  have gen: "b \<in> set example_genesis \<longleftrightarrow> (\<exists>a < 4. b = dag_block 0 a)" for b
  proof -
    have "length example_genesis = 4" by (simp add: example_genesis_def)
    then show ?thesis by (auto simp: in_set_conv_nth dag_block_def)
  qed
  have slots: "map (slot_of_ref \<circ> reference) (dag_blocks n) = map (\<lambda>(k, a). Slot k a) (List.product [1..<Suc n] [0, 1, 2, 3])"
    by (auto simp: dag_blocks_def slot_of_ref_def)
  have inj: "inj_on (\<lambda>(k, a). Slot k a) A" for A by (auto simp: inj_on_def)
  have "distinct (List.product [1..<Suc n] [0, 1, 2, 3::nat])" by (rule distinct_product) simp_all
  then have dist: "distinct (map (slot_of_ref \<circ> reference) (dag_blocks n))"
    unfolding slots distinct_map using inj by blast
  have "\<exists>ds'. accept_blocks 8 (dag_blocks n) ?ds = Some ds' \<and> dag_inv ds' \<and> same_frame ?ds ds' \<and>
     (\<forall>r b. lookup_block ds' r = Some b \<longleftrightarrow> lookup_block ?ds r = Some b \<or> b \<in> set (dag_blocks n) \<and> reference b = r) \<and>
     ds_highest_accepted_round ds' = fold max (map vb_round (dag_blocks n)) (ds_highest_accepted_round ?ds)"
    using dist f by (intro accept_blocks_ok fresh(1)) (auto simp: set_dag_blocks fresh(2) gen slot_of_ref_def)
  then obtain ds where ds: "accept_blocks 8 (dag_blocks n) ?ds = Some ds" "dag_inv ds" "same_frame ?ds ds"
      "\<And>r b. lookup_block ds r = Some b \<longleftrightarrow> lookup_block ?ds r = Some b \<or> b \<in> set (dag_blocks n) \<and> reference b = r"
      "ds_highest_accepted_round ds = n"
    by (auto simp: f dag_blocks_rounds)
  have "lookup_block ds r = Some b \<longleftrightarrow> example_dag n r = Some b" for r b
  proof
    assume "lookup_block ds r = Some b"
    then obtain k a where "k \<le> n" "a < 4" "b = dag_block k a" "reference b = r"
      unfolding ds(4) fresh(2) gen set_dag_blocks using le0 by blast
    then show "example_dag n r = Some b" unfolding example_dag_iff by auto
  next
    assume "example_dag n r = Some b"
    then obtain k a where "k \<le> n" "a < 4" "r = dag_ref k a" "b = dag_block k a"
      unfolding example_dag_iff by auto
    then show "lookup_block ds r = Some b"
      unfolding ds(4) fresh(2) gen set_dag_blocks by (cases "k = 0") auto
  qed
  then have look: "lookup_block ds = example_dag n" by (metis ext option.exhaust)
  have "causal ds (Suc (gc_round ds))"
    unfolding causal_def look using bft_dagD(6,7)[OF example_dag_bft] by blast
  then have "node_view committee4 (example_dag n) ds"
    using ds(2,3) f by (simp add: node_view_def look same_frame_def example_ctx_def)
  with ds look f show ?thesis by (auto simp: same_frame_def)
qed

lemma example_dag_mono: "n \<le> m \<Longrightarrow> example_dag n \<subseteq>\<^sub>m example_dag m"
  by (auto simp: map_le_def example_dag_def split: if_splits)

lemma example_leader: "schedule_elect_leader example_rng example_ctx example_schedule r 0 = Some 1"
  by (simp add: schedule_elect_leader_def elect_leader_stake_based_def example_rng_def example_ctx_def
      committee_size_def committee4_def committee_authorities_def swap_def example_schedule_def
      leader_schedule_new_def)

end
