(* ===== verification/CommitterProperties.thy ===== *)
theory CommitterProperties
  imports ExampleDag
begin

text \<open>The properties of the commit rule of one slot, with witnesses on the example DAG.\<close>

section \<open>Votes and certificates\<close>

text \<open>
  A vote persists, as \<open>find_supported_block\<close> promises: when a block of an authority that is not
  faulty supports a leader block, every later block of that authority that a node knows supports the
  same block, and the search returns without a panic.
\<close>

theorem support_persists:
  assumes "bft_dag c F G" and "node_view c G ds" and "gc_round ds \<le> slot_round s"
    and "lookup_block ds (reference a) = Some a" and "lookup_block ds (reference b) = Some b"
    and "vb_author a \<notin> F" and "vb_author b = vb_author a" and "vb_round a \<le> vb_round b"
    and "find_supported_block ds s a = Some (Some l)"
  shows "find_supported_block ds s b = Some (Some l)"
proof -
  let ?L = "lookup_block ds"
  have sup: "supports ?L s (vb_ancestors a) (Some l)" "slot_round s \<le> vb_round a"
    using assms(9) by (auto simp: find_supported_block_def find_in_iff split: if_splits)
  have l: "slot_of_ref l = s" using supports_slot[OF sup(1)] by simp
  then have gc: "gc_round ds \<le> br_round l" using assms(3) by (auto simp: slot_of_ref_def)
  have "votes_for ?L a l" using sup l by (simp add: votes_for_def)
  then have "votes_for G a l" using votes_transfer[OF assms(2,4) gc] by simp
  then have "votes_for G b l"
    using vote_persists[OF assms(1) node_viewD(5)[OF assms(2,4)] _ _ node_viewD(5)[OF assms(2,5)]] assms(6-8)
    by simp
  then have "votes_for ?L b l" using votes_transfer[OF assms(2,5) gc] by simp
  then show ?thesis using l by (auto simp: votes_for_def find_supported_block_def find_in_iff)
qed

lemma example_support:
  assumes "lookup_block ds = example_dag 4"
  shows "find_supported_block ds (Slot 1 2) (dag_block 2 1) = Some (Some (dag_ref 1 2))"
proof -
  have "supports (example_dag 4) (Slot 1 2) (vb_ancestors (dag_block 2 1)) (Some (dag_ref 1 2))"
    by (auto simp: slot_of_ref_def intro!: sup_low sup_hit)
  then show ?thesis using assms by (simp add: find_supported_block_def find_in_iff)
qed

theorem support_persists_witness:
  "\<exists>ds. node_view committee4 (example_dag 4) ds \<and>
     find_supported_block ds (Slot 1 2) (dag_block 4 1) = Some (Some (dag_ref 1 2))"
proof -
  obtain ds where ds: "node_view committee4 (example_dag 4) ds" "lookup_block ds = example_dag 4"
      "ds_last_commit ds = None"
    using example_state[of 4] by blast
  have "find_supported_block ds (Slot 1 2) (dag_block 4 1) = Some (Some (dag_ref 1 2))"
  proof (rule support_persists[OF example_dag_bft ds(1)])
    show "find_supported_block ds (Slot 1 2) (dag_block 2 1) = Some (Some (dag_ref 1 2))"
      by (rule example_support[OF ds(2)])
    show "lookup_block ds (reference (dag_block 2 1)) = Some (dag_block 2 1)"
        "lookup_block ds (reference (dag_block 4 1)) = Some (dag_block 4 1)"
      by (simp_all add: ds(2))
    show "gc_round ds \<le> slot_round (Slot 1 2)"
      using ds(3) by (simp add: gc_round_def calculate_gc_round_def last_commit_round_def)
  qed simp_all
  with ds(1) show ?thesis by blast
qed

text \<open>
  The vote cache of \<open>is_certificate\<close> is transparent: from any cache whose entries are right, the
  answer is exactly whether the authorities of the referenced votes reach the quorum, and the new
  cache is right again. No reference above the garbage collection round makes it panic.
\<close>

theorem is_certificate_exact:
  assumes "bft_dag c F G" and "node_view c G ds" and "ctx_committee (bc_context bc) = c"
    and "gc_round ds \<le> vb_round leader" and "lookup_block ds (reference cert) = Some cert"
    and "cache_ok (lookup_block ds) (reference leader) cache"
  shows "\<exists>cache'. is_certificate bc ds cert leader cache =
           Some (quorum c \<le> stake_of c (br_author ` {r \<in> set (vb_ancestors cert).
             \<exists>b. lookup_block ds r = Some b \<and> is_vote ds b leader = Some True}), cache') \<and>
           cache_ok (lookup_block ds) (reference leader) cache'"
proof -
  note rd = node_view_ready[OF assms(2,4)]
  have "br_author r \<in> members (ds_committee ds)" if "lookup_block ds r = Some b" for r b
    using bft_dagD(5)[OF assms(1) node_viewD(5)[OF assms(2) that]] node_viewD(3)[OF assms(2)] by simp
  then obtain cache' where *: "is_certificate bc ds cert leader cache =
      Some (certifies c (lookup_block ds) cert (reference leader), cache')"
      "cache_ok (lookup_block ds) (reference leader) cache'"
    using is_certificate_ok[OF rd assms(5), of bc cache] assms(3,6) node_viewD(3)[OF assms(2)] by auto
  have "is_vote ds b leader = Some (votes_for (lookup_block ds) b (reference leader))"
    if "lookup_block ds r = Some b" for r b
    using readyD(2,3,7)[OF rd] that by (intro is_vote_eq) fastforce+
  then have "voting_refs (lookup_block ds) cert (reference leader) = {r \<in> set (vb_ancestors cert).
      \<exists>b. lookup_block ds r = Some b \<and> is_vote ds b leader = Some True}"
    unfolding voting_refs_def by fastforce
  then show ?thesis using * by (simp add: certifies_def)
qed

theorem is_certificate_exact_witness:
  "\<exists>ds cache'. is_certificate (committer_for example_ctx 1) ds (dag_block 3 0) (dag_block 1 2) fmempty =
           Some (quorum committee4 \<le> stake_of committee4 (br_author ` {r \<in> set (vb_ancestors (dag_block 3 0)).
             \<exists>b. lookup_block ds r = Some b \<and> is_vote ds b (dag_block 1 2) = Some True}), cache') \<and>
           cache_ok (lookup_block ds) (reference (dag_block 1 2)) cache'"
proof -
  obtain ds where ds: "node_view committee4 (example_dag 4) ds" "lookup_block ds = example_dag 4"
      "ds_last_commit ds = None"
    using example_state[of 4] by blast
  have "gc_round ds \<le> vb_round (dag_block 1 2)"
    using ds(3) by (simp add: gc_round_def calculate_gc_round_def last_commit_round_def)
  moreover have "lookup_block ds (reference (dag_block 3 0)) = Some (dag_block 3 0)"
    by (simp_all add: ds(2))
  ultimately show ?thesis
    using is_certificate_exact[OF example_dag_bft ds(1), of "committer_for example_ctx 1" "dag_block 1 2"
        "dag_block 3 0" fmempty]
    by (auto simp: example_ctx_def cache_ok_def)
qed

section \<open>The direct and the indirect rule\<close>

text \<open>
  C27. The direct rule makes progress: once a node knows a leader block and a quorum of certificates
  for it in the decision round, and the stakes of that round's blocks do not overflow,
  \<open>try_direct_decide\<close> commits exactly that block; it neither panics nor skips.
\<close>

theorem direct_commit_live:
  assumes "bft_dag c F G" and "node_view c G ds" and "ctx_committee (bc_context bc) = c"
    and "aligned bc s" and "last_commit_round ds \<le> slot_round s" and "gc_round ds < slot_round s"
    and "lookup_block ds (reference l) = Some l" and "slot_of_ref (reference l) = s"
    and "get_uncommitted_blocks_at_round ds (slot_round s + 2) = Some bs" and "stakes_fit c bs"
    and "supported c (lookup_block ds) (slot_round s + 2) (reference l)"
  shows "try_direct_decide bc ds s = Some (Commit l)"
proof -
  have gc: "gc_round ds \<le> br_round (reference l)" using assms(6,8) by (auto simp: slot_of_ref_def)
  have sup: "supported c G (slot_round s + 2) (reference l)"
    using supported_mono[OF assms(1,2) gc assms(11)] .
  then have nb: "\<not> blamed c G s" using supported_not_blamed[OF assms(1)] assms(8) by blast
  obtain l' where l': "try_direct_decide bc ds s = Some (Commit l')" "slot_of_ref (reference l') = s"
      "lookup_block ds (reference l') = Some l'" "supported c G (slot_round s + 2) (reference l')"
    using try_direct_decide_ok[OF assms(1-6)] nb assms(7-11) by blast
  have "reference l' = reference l"
    by (rule supported_unique[OF assms(1) l'(4) sup]) (simp only: l'(2) assms(8))
  then have "Some l' = Some l" unfolding l'(3)[symmetric] assms(7)[symmetric] by (rule arg_cong)
  then have "l' = l" by simp
  with l'(1) show ?thesis by simp
qed

lemma quorum_of_round:
  assumes "\<And>i. i < 4 \<Longrightarrow> dag_ref k i \<in> S" and "br_author ` S \<subseteq> members committee4"
  shows "quorum committee4 \<le> stake_of committee4 (br_author ` S)"
proof -
  have "i \<in> br_author ` S" if "i \<in> {0, 1, 2, 3}" for i
    using that assms(1)[of i] dag_ref_simps(2)[of i k] by (intro image_eqI[of _ _ "dag_ref k i"]) auto
  then have "{0, 1, 2, 3} \<subseteq> br_author ` S" by blast
  then have "stake_of committee4 {0, 1, 2, 3} \<le> stake_of committee4 (br_author ` S)"
    using assms(2) by (rule stake_of_mono)
  moreover have "quorum committee4 \<le> stake_of committee4 {0, 1, 2, 3}"
    by (simp add: quorum_def stake_of_def committee4_weight) (simp add: committee4_def)
  ultimately show ?thesis by simp
qed

lemma example_votes:
  assumes "k + 1 \<le> n" "a < 4" "b < 4"
  shows "votes_for (example_dag n) (dag_block (k + 1) a) (dag_ref k b)"
proof -
  have sup: "supports (example_dag n) (slot_of_ref (dag_ref k b)) rs (Some (dag_ref k b))"
    if "dag_ref k b \<in> set rs" "\<forall>r \<in> set rs. \<exists>i < 4. r = dag_ref k i" for rs
    using that
  proof (induction rs)
    case (Cons r rs)
    then obtain i where i: "i < 4" "r = dag_ref k i" by auto
    show ?case
    proof (cases "i = b")
      case True
      then show ?thesis using i by (auto intro: sup_hit)
    next
      case False
      then have "r \<noteq> dag_ref k b" using i assms(3) dag_ref_inj by auto
      with Cons have "supports (example_dag n) (slot_of_ref (dag_ref k b)) rs (Some (dag_ref k b))" by auto
      with False i assms(3) show ?thesis by (auto simp: slot_of_ref_def intro: sup_low)
    qed
  qed simp
  have anc: "x \<in> set (vb_ancestors (dag_block (k + 1) a)) \<longleftrightarrow> (\<exists>i < 4. x = dag_ref k i)" for x
    using dag_ancestors[OF assms(2), of "k + 1" x] by simp
  show ?thesis unfolding votes_for_def
  proof
    show "slot_round (slot_of_ref (dag_ref k b)) \<le> vb_round (dag_block (k + 1) a)"
      using assms by (simp add: slot_of_ref_def)
    show "supports (example_dag n) (slot_of_ref (dag_ref k b)) (vb_ancestors (dag_block (k + 1) a)) (Some (dag_ref k b))"
      by (rule sup) (use anc assms(3) in blast)+
  qed
qed

lemma example_certifies:
  assumes "k + 2 \<le> n" "a < 4" "b < 4"
  shows "certifies committee4 (example_dag n) (dag_block (k + 2) a) (dag_ref k b)"
proof -
  have "dag_ref (k + 1) i \<in> voting_refs (example_dag n) (dag_block (k + 2) a) (dag_ref k b)" if "i < 4" for i
  proof -
    have "dag_ref (k + 1) i \<in> set (vb_ancestors (dag_block (k + 2) a))"
      using dag_ancestors[OF assms(2), of "k + 2"] that by auto
    moreover have "example_dag n (dag_ref (k + 1) i) = Some (dag_block (k + 1) i)"
      using assms(1) that by (intro example_dag_known) simp_all
    moreover have "votes_for (example_dag n) (dag_block (k + 1) i) (dag_ref k b)"
      using assms that by (intro example_votes) simp_all
    ultimately show ?thesis unfolding voting_refs_def by blast
  qed
  then show ?thesis
    unfolding certifies_def by (rule quorum_of_round[OF _ voting_authors[OF example_dag_bft]])
qed

lemma example_supported:
  assumes "k + 2 \<le> n" "b < 4"
  shows "supported committee4 (example_dag n) (k + 2) (dag_ref k b)"
proof -
  let ?S = "{r. br_round r = k + 2 \<and> (\<exists>cert. example_dag n r = Some cert \<and>
      certifies committee4 (example_dag n) cert (dag_ref k b))}"
  have "dag_ref (k + 2) i \<in> ?S" if "i < 4" for i
    using that assms example_certifies[OF assms(1) that assms(2)] by simp
  moreover have "br_author ` ?S \<subseteq> members committee4" using bft_dagD(5)[OF example_dag_bft] by blast
  ultimately show ?thesis unfolding supported_def by (rule quorum_of_round)
qed

lemma example_open:
  assumes "ds_last_commit ds = None"
  shows "last_commit_round ds = 0" "gc_round ds = 0"
  using assms by (simp_all add: gc_round_def calculate_gc_round_def last_commit_round_def)

lemma example_stakes_fit:
  assumes "node_view committee4 (example_dag n) ds" "lookup_block ds = example_dag n"
    and "get_uncommitted_blocks_at_round ds rnd = Some bs"
  shows "stakes_fit committee4 bs"
proof -
  note inv = node_viewD(1)[OF assms(1)]
  have bs: "set bs \<subseteq> dag_block rnd ` {0, 1, 2, 3}"
    using blocks_at_round(2)[OF inv assms(3)] by (auto simp: assms(2) example_dag_iff all4)
  have "sum_list (map (weight committee4 \<circ> vb_author) bs) = sum (weight committee4 \<circ> vb_author) (set bs)"
    using distinct_blocks_at_round[OF inv assms(3)] by (rule sum_list_distinct_conv_sum_set)
  also have "\<dots> \<le> sum (weight committee4 \<circ> vb_author) (dag_block rnd ` {0, 1, 2, 3})"
    using bs by (intro sum_mono2) auto
  also have "\<dots> = (\<Sum>i\<in>{0, 1, 2, 3}. weight committee4 i)"
    by (subst sum.reindex) (auto simp: inj_on_def dest: arg_cong[of _ _ vb_author])
  also have "\<dots> = 4" by (simp add: committee4_weight)
  finally show ?thesis by (simp add: stakes_fit_def)
qed

theorem direct_commit_live_witness:
  "\<exists>ds. node_view committee4 (example_dag 4) ds \<and>
     try_direct_decide (committer_for example_ctx 1) ds (Slot 1 2) = Some (Commit (dag_block 1 2))"
proof -
  obtain ds where ds: "node_view committee4 (example_dag 4) ds" "lookup_block ds = example_dag 4"
      "ds_last_commit ds = None"
    using example_state[of 4] by blast
  note opn = example_open[OF ds(3)]
  obtain bs where bs: "get_uncommitted_blocks_at_round ds (slot_round (Slot 1 2) + 2) = Some bs"
    by (simp add: get_uncommitted_blocks_at_round_def opn)
  have "try_direct_decide (committer_for example_ctx 1) ds (Slot 1 2) = Some (Commit (dag_block 1 2))"
  proof (rule direct_commit_live[OF example_dag_bft ds(1) _ _ _ _ _ _ bs])
    show "supported committee4 (lookup_block ds) (slot_round (Slot 1 2) + 2) (reference (dag_block 1 2))"
      using example_supported[of 1 4 2] by (simp add: ds(2))
    show "stakes_fit committee4 bs"
      using example_stakes_fit[OF ds(1,2) bs] by simp
    show "aligned (committer_for example_ctx 1) (Slot 1 2)"
      using aligned_committer_for[of example_ctx "Slot 1 2"] by simp
  qed (simp_all add: opn ds(2) example_ctx_def slot_of_ref_def)
  with ds(1) show ?thesis by blast
qed

end
