(* ===== verification/Linearizer.thy ===== *)
theory Linearizer
  imports CommitterProperties
begin

text \<open>
  From committed leaders to commits (\<open>core/src/linearizer.rs\<close>): collecting the sub-dag of a leader,
  the commit timestamp as the median by stake of the leader's parents, and the chain of commits.
  \<open>BlockStoreAPI\<close> is the DAG state, \<open>ser\<close> and \<open>hash\<close> stand for \<open>bcs\<close> and the digest of a commit.

  The work list of \<open>linearize_sub_dag\<close> ends because every block it pushes was unmarked and becomes
  marked: twice the number of unmarked cached blocks plus the length of the list decreases.
\<close>

section \<open>The timestamp\<close>

fun median_loop :: "stake \<Rightarrow> stake \<Rightarrow> (block_timestamp_ms \<times> stake) list \<Rightarrow> block_timestamp_ms option" where
  "median_loop total_stake cumulative [] = None"
| "median_loop total_stake cumulative ((ts, s) # xs) =
     (if cumulative + s > total_stake div 2 then Some ts
      else median_loop total_stake (cumulative + s) xs)"

definition median_timestamps_by_stake_inner :: "(block_timestamp_ms \<times> stake) list \<Rightarrow> stake
    \<Rightarrow> block_timestamp_ms option" where
  "median_timestamps_by_stake_inner timestamps total_stake =
     (let sorted_ts = sort_key fst timestamps
      in (case median_loop total_stake 0 sorted_ts of
            Some ts \<Rightarrow> Some ts
          | None \<Rightarrow> (if sorted_ts = [] then None else Some (fst (last sorted_ts)))))"

text \<open>An error of the source is \<open>Inl\<close>, a panic of the lookup of an authority is \<open>None\<close>.\<close>

datatype median_error = NoBlocksProvided | TotalStakeBelowQuorum

definition median_timestamp_by_stake :: "node_context \<Rightarrow> verified_block list
    \<Rightarrow> (median_error + block_timestamp_ms) option" where
  "median_timestamp_by_stake ctx blocks = do {
     timestamps \<leftarrow> try_map (\<lambda>b. do {
         a \<leftarrow> committee_authority (ctx_committee ctx) (vb_author b);
         Some (vb_timestamp_ms b, a_stake a)
       }) blocks;
     let total_stake = sum_list (map snd timestamps);
     if timestamps = [] then Some (Inl NoBlocksProvided)
     else if total_stake < c_quorum_threshold (ctx_committee ctx) then Some (Inl TotalStakeBelowQuorum)
     else map_option Inr (median_timestamps_by_stake_inner timestamps total_stake)
   }"

definition calculate_commit_timestamp :: "node_context \<Rightarrow> dag_state \<Rightarrow> verified_block
    \<Rightarrow> block_timestamp_ms \<Rightarrow> block_timestamp_ms option" where
  "calculate_commit_timestamp ctx ds leader_block last_timestamp = do {
     let refs = filter (\<lambda>r. Suc (br_round r) = vb_round leader_block) (vb_ancestors leader_block);
     blocks \<leftarrow> try_map id (get_blocks ds refs);
     m \<leftarrow> median_timestamp_by_stake ctx blocks;
     (case m of
        Inl _ \<Rightarrow> None
      | Inr ts \<Rightarrow> Some (max ts last_timestamp))
   }"

section \<open>The sub-dag\<close>

text \<open>The other blocks of the leader's round.\<close>

definition commit_round_block :: "verified_block \<Rightarrow> dag_state \<times> verified_block list
    \<Rightarrow> (dag_state \<times> verified_block list) option" where
  "commit_round_block b = (\<lambda>(ds, to_commit). do {
     committed \<leftarrow> is_committed ds (reference b);
     if \<not> committed then do {
       (ds', fresh) \<leftarrow> set_committed (reference b) ds;
       Some (ds', if fresh then to_commit @ [b] else to_commit)
     } else Some (ds, to_commit)
   })"

text \<open>The uncommitted ancestors above the garbage collection round, and marking them.\<close>

definition uncommitted_ancestors :: "round \<Rightarrow> dag_state \<Rightarrow> verified_block \<Rightarrow> verified_block list option" where
  "uncommitted_ancestors gc ds x = do {
     refs \<leftarrow> try_filter (\<lambda>r. if br_round r > gc then map_option Not (is_committed ds r) else Some False)
       (vb_ancestors x);
     try_map id (get_blocks ds refs)
   }"

definition mark_committed :: "verified_block \<Rightarrow> dag_state \<Rightarrow> dag_state option" where
  "mark_committed b ds = do {
     (ds', fresh) \<leftarrow> set_committed (reference b) ds;
     rust_assert fresh;
     Some ds'
   }"

definition unmarked :: "dag_state \<Rightarrow> block_ref fset" where
  "unmarked ds = ffilter (\<lambda>r. \<not> bi_committed (the (fmlookup (ds_recent_blocks ds) r))) (fmdom (ds_recent_blocks ds))"

lemma mark_committed_unmarked:
  assumes "mark_committed b ds = Some ds'"
  shows "fcard (unmarked ds) = Suc (fcard (unmarked ds'))"
proof -
  obtain bi where bi: "fmlookup (ds_recent_blocks ds) (reference b) = Some bi" "\<not> bi_committed bi"
      "ds' = ds\<lparr>ds_recent_blocks := fmupd (reference b) (bi\<lparr>bi_committed := True\<rparr>) (ds_recent_blocks ds)\<rparr>"
    using assms by (auto simp: mark_committed_def set_committed_def bind_eq_Some_conv bind_rust_assert
        split: if_splits)
  then have "unmarked ds = finsert (reference b) (unmarked ds')"
    by (auto simp: unmarked_def fset_eq_iff fmdomI)
  moreover have "reference b |\<notin>| unmarked ds'" by (simp add: unmarked_def bi(3))
  ultimately show ?thesis by (simp add: fcard_finsert_disjoint)
qed

lemma marks_unmarked:
  "try_fold mark_committed bs ds = Some ds' \<Longrightarrow> fcard (unmarked ds) = length bs + fcard (unmarked ds')"
  by (induction bs arbitrary: ds) (auto simp: bind_eq_Some_conv dest!: mark_committed_unmarked)

function linearize_loop :: "round \<Rightarrow> verified_block list \<Rightarrow> verified_block list \<Rightarrow> dag_state
    \<Rightarrow> (dag_state \<times> verified_block list) option" where
  "linearize_loop gc [] to_commit ds = Some (ds, to_commit)"
| "linearize_loop gc (x # buffer) to_commit ds =
     (let to_commit' = (if list_ex (\<lambda>b. reference b = reference x) to_commit then to_commit else to_commit @ [x])
      in case uncommitted_ancestors gc ds x of
           None \<Rightarrow> None
         | Some ancestors \<Rightarrow>
             (case try_fold mark_committed ancestors ds of
                None \<Rightarrow> None
              | Some ds' \<Rightarrow> linearize_loop gc (rev ancestors @ buffer) to_commit' ds'))"
  by pat_completeness auto
termination
proof (relation "measure (\<lambda>(_, buffer, _, ds). 2 * fcard (unmarked ds) + length buffer)", simp)
  fix gc x buffer to_commit ds y ancestors ds'
  assume "try_fold mark_committed ancestors ds = Some ds'"
  from marks_unmarked[OF this]
  show "((gc, rev ancestors @ buffer, y, ds'), gc, x # buffer, to_commit, ds)
      \<in> measure (\<lambda>(_, buffer, _, ds). 2 * fcard (unmarked ds) + length buffer)"
    by simp
qed

declare linearize_loop.simps(2) [simp del]

definition linearize_sub_dag :: "verified_block \<Rightarrow> dag_state \<Rightarrow> (dag_state \<times> verified_block list) option" where
  "linearize_sub_dag leader_block ds = do {
     let gc = gc_round ds;
     ds1 \<leftarrow> mark_committed leader_block ds;
     (ds2, to_commit) \<leftarrow> (if vb_round leader_block > gc then do {
         all_blocks \<leftarrow> get_uncommitted_blocks_at_round ds1 (vb_round leader_block);
         try_fold commit_round_block all_blocks (ds1, [])
       } else Some (ds1, []));
     (ds3, to_commit) \<leftarrow> linearize_loop gc [leader_block] to_commit ds2;
     rust_assert (list_all (\<lambda>b. vb_round b > gc) to_commit);
     Some (ds3, sort_sub_dag_blocks to_commit)
   }"

section \<open>Commits\<close>

definition collect_sub_dag_and_commit :: "(commit \<Rightarrow> bytes option) \<Rightarrow> (bytes \<Rightarrow> digest) \<Rightarrow> node_context
    \<Rightarrow> verified_block \<Rightarrow> dag_state \<Rightarrow> (dag_state \<times> committed_sub_dag \<times> trusted_commit) option" where
  "collect_sub_dag_and_commit ser hash ctx leader_block ds = do {
     (ds', to_commit) \<leftarrow> linearize_sub_dag leader_block ds;
     timestamp_ms \<leftarrow> calculate_commit_timestamp ctx ds' leader_block (last_commit_timestamp_ms ds);
     let commit = commit_new (last_commit_index ds + 1) (last_commit_digest ds) timestamp_ms
       (reference leader_block) (map reference to_commit);
     serialized \<leftarrow> ser commit;
     let trusted = new_trusted hash commit serialized;
     Some (ds', committed_sub_dag_new (reference leader_block) to_commit timestamp_ms (tc_reference trusted),
           trusted)
   }"

text \<open>The pruning metric indexes the committed rounds and the committee by the author of an ancestor.\<close>

definition update_blocks_pruned_metric :: "node_context \<Rightarrow> dag_state \<Rightarrow> committed_sub_dag \<Rightarrow> unit option" where
  "update_blocks_pruned_metric ctx ds sd = do {
     pruned \<leftarrow> try_filter (\<lambda>r. if br_round r \<le> gc_round ds
         then map_option (\<lambda>l. l \<noteq> br_round r) (vec_get (ds_last_committed_rounds ds) (br_author r))
         else Some False)
       (concat (map vb_ancestors (sd_blocks sd)));
     _ \<leftarrow> try_map (\<lambda>r. committee_authority (ctx_committee ctx) (br_author r)) pruned;
     Some ()
   }"

definition handle_commit_step :: "(commit \<Rightarrow> bytes option) \<Rightarrow> (bytes \<Rightarrow> digest) \<Rightarrow> nat \<Rightarrow> node_context
    \<Rightarrow> verified_block \<Rightarrow> dag_state \<times> committed_sub_dag list \<Rightarrow> (dag_state \<times> committed_sub_dag list) option" where
  "handle_commit_step ser hash now ctx leader_block = (\<lambda>(ds, sub_dags). do {
     (ds1, sub_dag, commit) \<leftarrow> collect_sub_dag_and_commit ser hash ctx leader_block ds;
     _ \<leftarrow> update_blocks_pruned_metric ctx ds1 sub_dag;
     ds2 \<leftarrow> add_commit now commit ds1;
     Some (ds2, sub_dags @ [sub_dag])
   })"

definition handle_commit :: "(commit \<Rightarrow> bytes option) \<Rightarrow> (bytes \<Rightarrow> digest) \<Rightarrow> nat \<Rightarrow> node_context
    \<Rightarrow> verified_block list \<Rightarrow> dag_state \<Rightarrow> (dag_state \<times> committed_sub_dag list) option" where
  "handle_commit ser hash now ctx leaders ds =
     try_fold (handle_commit_step ser hash now ctx) leaders (ds, [])"

end
