(* ===== verification/LinearizerSafety.thy ===== *)
theory LinearizerSafety
  imports Linearizer
begin

text \<open>
  What \<open>linearize_sub_dag\<close> commits: the marks it sets, the blocks it returns and what it leaves out.
\<close>

section \<open>Marks\<close>

definition committed :: "dag_state \<Rightarrow> block_ref \<Rightarrow> bool" where
  "committed ds r \<longleftrightarrow> is_committed ds r = Some True"

text \<open>Two states that differ only in the marks of their cached blocks.\<close>

definition marks_only :: "dag_state \<Rightarrow> dag_state \<Rightarrow> bool" where
  "marks_only ds ds' \<longleftrightarrow> (\<exists>m. ds' = ds\<lparr>ds_recent_blocks := m\<rparr> \<and> same_blocks (ds_recent_blocks ds) m)"

lemma marks_only_refl [simp]: "marks_only ds ds"
  unfolding marks_only_def by (intro exI[of _ "ds_recent_blocks ds"]) simp

lemma marks_only_trans: "marks_only a b \<Longrightarrow> marks_only b c \<Longrightarrow> marks_only a c"
  unfolding marks_only_def by (auto intro!: exI[of _ "ds_recent_blocks c"] intro: same_blocks_trans)

lemma same_blocks_dom: "same_blocks m m' \<Longrightarrow> fmlookup m' r = None \<longleftrightarrow> fmlookup m r = None"
  unfolding same_blocks_def by (metis option.map_disc_iff)

lemma marks_only_frame:
  assumes "marks_only ds ds'"
  shows "dag_inv ds \<Longrightarrow> dag_inv ds'" "lookup_block ds' = lookup_block ds" "gc_round ds' = gc_round ds"
    "ds_last_commit ds' = ds_last_commit ds" "ds_committee ds' = ds_committee ds"
    "ds_last_committed_rounds ds' = ds_last_committed_rounds ds" "same_frame ds ds'"
    "fmlookup (ds_recent_blocks ds') r = None \<longleftrightarrow> fmlookup (ds_recent_blocks ds) r = None"
    "ds_commits_to_write ds' = ds_commits_to_write ds"
proof -
  obtain m where m: "ds' = ds\<lparr>ds_recent_blocks := m\<rparr>" "same_blocks (ds_recent_blocks ds) m"
    using assms by (auto simp: marks_only_def)
  show "dag_inv ds \<Longrightarrow> dag_inv ds'" using marks_inv[OF _ m(2)] m(1) by simp
  show "lookup_block ds' = lookup_block ds"
  proof
    fix r
    have "map_option bi_block (fmlookup m r) = map_option bi_block (fmlookup (ds_recent_blocks ds) r)"
      using m(2) by (simp add: same_blocks_def)
    then show "lookup_block ds' r = lookup_block ds r"
      unfolding m(1) lookup_block_def
      by (cases "fmlookup m r"; cases "fmlookup (ds_recent_blocks ds) r") simp_all
  qed
qed (use assms same_blocks_dom in \<open>auto simp: marks_only_def gc_round_def calculate_gc_round_def
      last_commit_round_def same_frame_def\<close>)

text \<open>
  A state whose blocks have a known history above the garbage collection round and at most one
  ancestor per author, as the block verifier demands.
\<close>

definition linear_ready :: "dag_state \<Rightarrow> bool" where
  "linear_ready ds \<longleftrightarrow> dag_inv ds \<and> causal ds (Suc (gc_round ds)) \<and>
     (\<forall>r b. lookup_block ds r = Some b \<longrightarrow> distinct (map br_author (vb_ancestors b)))"

lemma linear_ready_marks: "linear_ready ds \<Longrightarrow> marks_only ds ds' \<Longrightarrow> linear_ready ds'"
  using marks_only_frame(1-3)[of ds ds'] by (simp add: linear_ready_def causal_def)

lemma linear_readyD:
  assumes "linear_ready ds"
  shows "dag_inv ds" "lookup_block ds r = Some b \<Longrightarrow> reference b = r"
    and "lookup_block ds r = Some b \<Longrightarrow> distinct (vb_ancestors b)"
    and "lookup_block ds r = Some b \<Longrightarrow> x \<in> set (vb_ancestors b) \<Longrightarrow> gc_round ds < br_round x \<Longrightarrow>
      \<exists>d. lookup_block ds x = Some d"
    and "lookup_block ds r = Some b \<Longrightarrow> distinct (map br_author (vb_ancestors b))"
    and "lookup_block ds r = Some b \<Longrightarrow> x \<in> set (vb_ancestors b) \<Longrightarrow> br_round x < br_round r"
  using assms lookup_ref unfolding linear_ready_def causal_def distinct_map
  by (blast, blast, blast, fastforce, blast, blast)

lemma is_committed_known:
  assumes "dag_inv ds" and "gc_round ds < br_round r" and "lookup_block ds r \<noteq> None"
  shows "is_committed ds r = Some (committed ds r)"
  using cached_above_gc[OF assms(1,2)] assms(3)
  by (cases "fmlookup (ds_recent_blocks ds) r") (auto simp: is_committed_def committed_def)

lemma set_committed_known:
  assumes "dag_inv ds" and "gc_round ds < br_round r" and "lookup_block ds r \<noteq> None" and "\<not> committed ds r"
  shows "\<exists>ds'. set_committed r ds = Some (ds', True) \<and> marks_only ds ds' \<and>
     (\<forall>x. committed ds' x \<longleftrightarrow> x = r \<or> committed ds x)"
proof -
  obtain bi where bi: "fmlookup (ds_recent_blocks ds) r = Some bi"
    using cached_above_gc[OF assms(1,2)] assms(3) by auto
  have "\<not> bi_committed bi" using assms(4) bi by (simp add: committed_def is_committed_def)
  moreover have "marks_only ds (ds\<lparr>ds_recent_blocks := fmupd r (bi\<lparr>bi_committed := True\<rparr>) (ds_recent_blocks ds)\<rparr>)"
    unfolding marks_only_def using same_blocks_upd[OF bi, of "bi\<lparr>bi_committed := True\<rparr>"] by auto
  ultimately show ?thesis
    using bi by (auto simp: set_committed_def committed_def is_committed_def)
qed

lemma mark_committed_known:
  assumes "dag_inv ds" and "gc_round ds < vb_round b" and "lookup_block ds (reference b) \<noteq> None"
    and "\<not> committed ds (reference b)"
  shows "\<exists>ds'. mark_committed b ds = Some ds' \<and> marks_only ds ds' \<and>
     (\<forall>x. committed ds' x \<longleftrightarrow> x = reference b \<or> committed ds x)"
  using set_committed_known[of ds "reference b"] assms
  by (auto simp: mark_committed_def bind_rust_assert)

lemma marks_ok:
  "dag_inv ds \<Longrightarrow> distinct (map reference bs) \<Longrightarrow> (\<And>b. b \<in> set bs \<Longrightarrow> gc_round ds < vb_round b \<and>
     lookup_block ds (reference b) \<noteq> None \<and> \<not> committed ds (reference b)) \<Longrightarrow>
   \<exists>ds'. try_fold mark_committed bs ds = Some ds' \<and> marks_only ds ds' \<and>
     (\<forall>x. committed ds' x \<longleftrightarrow> committed ds x \<or> x \<in> reference ` set bs)"
proof (induction bs arbitrary: ds)
  case (Cons b bs)
  obtain ds1 where ds1: "mark_committed b ds = Some ds1" "marks_only ds ds1"
      "\<forall>x. committed ds1 x \<longleftrightarrow> x = reference b \<or> committed ds x"
    using mark_committed_known[of ds b] Cons.prems by auto
  note fr = marks_only_frame(1-3)[OF ds1(2)]
  obtain ds' where "try_fold mark_committed bs ds1 = Some ds'" "marks_only ds1 ds'"
      "\<forall>x. committed ds' x \<longleftrightarrow> committed ds1 x \<or> x \<in> reference ` set bs"
    using Cons.IH[of ds1] Cons.prems fr ds1(3) by (metis (no_types, lifting) distinct.simps(2) image_eqI
        list.set_intros(2) list.set_map list.simps(9))
  with ds1 show ?case using marks_only_trans[OF ds1(2)] by auto
qed simp

section \<open>The work list\<close>

lemma uncommitted_ancestors_ok:
  assumes "linear_ready ds" and "lookup_block ds r = Some x"
  shows "\<exists>bs. uncommitted_ancestors (gc_round ds) ds x = Some bs \<and>
     map reference bs = filter (\<lambda>a. gc_round ds < br_round a \<and> \<not> committed ds a) (vb_ancestors x) \<and>
     (\<forall>b \<in> set bs. lookup_block ds (reference b) = Some b)"
proof -
  let ?gc = "gc_round ds"
  note rd = linear_readyD[OF assms(1)]
  let ?rs = "filter (\<lambda>a. ?gc < br_round a \<and> \<not> committed ds a) (vb_ancestors x)"
  have "try_filter (\<lambda>a. if br_round a > ?gc then map_option Not (is_committed ds a) else Some False)
      (vb_ancestors x) = Some ?rs"
  proof (rule try_filter_total)
    fix a assume "a \<in> set (vb_ancestors x)"
    then show "(if br_round a > ?gc then map_option Not (is_committed ds a) else Some False) =
        Some (?gc < br_round a \<and> \<not> committed ds a)"
      using rd(4)[OF assms(2)] is_committed_known[OF rd(1), of a] by auto
  qed
  moreover have known: "lookup_block ds a = Some (the (lookup_block ds a))" if "a \<in> set ?rs" for a
    using rd(4)[OF assms(2), of a] that by auto
  have "try_map id (get_blocks ds ?rs) = Some (map (the \<circ> lookup_block ds) ?rs)"
    using known by (auto simp: try_map_Some_iff get_blocks_eq)
  moreover have "map reference (map (the \<circ> lookup_block ds) ?rs) = ?rs"
    unfolding map_map by (rule map_idI) (use rd(2)[OF known] in simp)
  moreover have "lookup_block ds (reference (the (lookup_block ds a))) = Some (the (lookup_block ds a))"
    if "a \<in> set ?rs" for a using rd(2)[OF known[OF that]] known[OF that] by simp
  ultimately show ?thesis
    by (intro exI[of _ "map (the \<circ> lookup_block ds) ?rs"]) (auto simp: uncommitted_ancestors_def)
qed

definition parents_committed :: "dag_state \<Rightarrow> verified_block \<Rightarrow> bool" where
  "parents_committed ds b \<longleftrightarrow> (\<forall>x \<in> set (vb_ancestors b). gc_round ds < br_round x \<longrightarrow> committed ds x)"

text \<open>
  What one run of the work list does, from a buffer of marked blocks: \<open>new\<close> are the collected blocks.
\<close>

definition collected :: "dag_state \<Rightarrow> verified_block list \<Rightarrow> verified_block list \<Rightarrow> dag_state \<Rightarrow> bool" where
  "collected ds buffer new ds' \<longleftrightarrow> marks_only ds ds' \<and> distinct (map reference new) \<and> set buffer \<subseteq> set new \<and>
     (\<forall>b \<in> set new. lookup_block ds (reference b) = Some b \<and> parents_committed ds' b) \<and>
     (\<forall>b \<in> set new - set buffer. gc_round ds < vb_round b \<and> \<not> committed ds (reference b) \<and>
        (\<exists>p \<in> set new. reference b \<in> set (vb_ancestors p))) \<and>
     (\<forall>r. committed ds' r \<longleftrightarrow> committed ds r \<or> r \<in> reference ` set new) \<and>
     reference ` set new \<subseteq> reachable ds (reference ` set buffer)"

lemma linearize_loop_ok:
  "gc = gc_round ds \<Longrightarrow> linear_ready ds \<Longrightarrow> distinct (map reference (acc @ buffer)) \<Longrightarrow>
   (\<forall>b \<in> set acc. committed ds (reference b)) \<Longrightarrow>
   (\<forall>b \<in> set buffer. lookup_block ds (reference b) = Some b \<and> committed ds (reference b)) \<Longrightarrow>
   \<exists>ds' new. linearize_loop gc buffer acc ds = Some (ds', acc @ new) \<and> collected ds buffer new ds' \<and>
     distinct (map reference (acc @ new))"
proof (induction gc buffer acc ds rule: linearize_loop.induct)
  case (1 gc acc ds)
  then show ?case by (auto simp: collected_def)
next
  case (2 gc x buffer acc ds)
  note rd = "2.prems"(2)
  have x: "lookup_block ds (reference x) = Some x" "committed ds (reference x)" using "2.prems"(5) by auto
  obtain bs where bs: "uncommitted_ancestors gc ds x = Some bs"
      "map reference bs = filter (\<lambda>a. gc < br_round a \<and> \<not> committed ds a) (vb_ancestors x)"
      "\<forall>b \<in> set bs. lookup_block ds (reference b) = Some b"
    using uncommitted_ancestors_ok[OF rd x(1)] "2.prems"(1) by auto
  have bs_set: "reference ` set bs = {a \<in> set (vb_ancestors x). gc < br_round a \<and> \<not> committed ds a}"
    using arg_cong[OF bs(2), of set] by simp
  have bs_new: "gc_round ds < vb_round b \<and> lookup_block ds (reference b) \<noteq> None \<and> \<not> committed ds (reference b)"
    if "b \<in> set bs" for b
  proof -
    have "reference b \<in> {a \<in> set (vb_ancestors x). gc < br_round a \<and> \<not> committed ds a}"
      using that bs_set by blast
    then show ?thesis using bs(3) that "2.prems"(1) by simp
  qed
  have "distinct (map reference bs)" using bs(2) linear_readyD(3)[OF rd x(1)] by simp
  then obtain ds1 where ds1: "try_fold mark_committed bs ds = Some ds1" "marks_only ds ds1"
      "\<forall>r. committed ds1 r \<longleftrightarrow> committed ds r \<or> r \<in> reference ` set bs"
    using marks_ok[OF linear_readyD(1)[OF rd] _ bs_new] by blast
  note fr = marks_only_frame(2,3)[OF ds1(2)]
  have acc: "\<not> list_ex (\<lambda>b. reference b = reference x) acc"
    using "2.prems"(3) by (auto simp: list_ex_iff) (metis image_eqI)
  have pre: "distinct (map reference ((acc @ [x]) @ rev bs @ buffer))"
    using "2.prems"(3,4,5) \<open>distinct (map reference bs)\<close> bs_new by (fastforce simp: rev_map[symmetric])
  have "\<exists>ds' new. linearize_loop gc (rev bs @ buffer) (acc @ [x]) ds1 = Some (ds', (acc @ [x]) @ new) \<and>
      collected ds1 (rev bs @ buffer) new ds' \<and> distinct (map reference ((acc @ [x]) @ new))"
  proof (rule "2.IH"[OF _ bs(1) ds1(1)])
    show "acc @ [x] = (if list_ex (\<lambda>b. reference b = reference x) acc then acc else acc @ [x])"
      using acc by simp
    show "gc = gc_round ds1" using fr "2.prems"(1) by simp
    show "\<forall>b \<in> set (acc @ [x]). committed ds1 (reference b)" using "2.prems"(4) x(2) ds1(3) by simp
    show "\<forall>b \<in> set (rev bs @ buffer). lookup_block ds1 (reference b) = Some b \<and> committed ds1 (reference b)"
      using "2.prems"(5) bs(3) ds1(3) fr(1) by auto
  qed (use pre linear_ready_marks[OF rd ds1(2)] in simp_all)
  then obtain ds' new where run: "linearize_loop gc (rev bs @ buffer) (acc @ [x]) ds1 = Some (ds', (acc @ [x]) @ new)"
      and col: "collected ds1 (rev bs @ buffer) new ds'" and dist: "distinct (map reference ((acc @ [x]) @ new))"
    by blast
  have "collected ds (x # buffer) (x # new) ds'"
  proof -
    have m: "marks_only ds ds'" using col marks_only_trans[OF ds1(2)] by (simp add: collected_def)
    have marks: "\<forall>r. committed ds' r \<longleftrightarrow> committed ds r \<or> r \<in> reference ` set (x # new)"
      using col ds1(3) x(2) by (auto simp: collected_def)
    have px: "parents_committed ds' x"
      unfolding parents_committed_def marks_only_frame(3)[OF m]
    proof (intro ballI impI)
      fix a assume a: "a \<in> set (vb_ancestors x)" "gc_round ds < br_round a"
      have "set bs \<subseteq> set new" using col by (simp add: collected_def)
      then have "reference ` set bs \<subseteq> reference ` set (x # new)" by auto
      moreover have "committed ds a \<or> a \<in> reference ` set bs" using a bs_set "2.prems"(1) by simp
      ultimately show "committed ds' a" using marks by blast
    qed
    have reach: "reference ` set (x # new) \<subseteq> reachable ds (reference ` set (x # buffer))"
    proof -
      have "reachable ds1 = reachable ds" by (simp add: reachable_def parent_def fr fun_eq_iff)
      moreover have "reachable ds (reference ` set (rev bs @ buffer)) \<subseteq> reachable ds (reference ` set (x # buffer))"
      proof -
        have "reachable ds (reference ` set bs) \<subseteq> reachable ds {reference x}"
          unfolding reachable_unfold[OF x(1)] using bs_set reachable_mono[of "reference ` set bs"] by blast
        then show ?thesis
          using reachable_Un[of ds "reference ` set bs" "reference ` set buffer"]
            reachable_Un[of ds "{reference x}" "reference ` set buffer"]
          by (auto simp: image_Un)
      qed
      moreover have "reference x \<in> reachable ds (reference ` set (x # buffer))" by (rule reachable_base) simp
      ultimately show ?thesis using col by (auto simp: collected_def)
    qed
    have fresh: "gc_round ds < vb_round b \<and> \<not> committed ds (reference b) \<and>
        (\<exists>p \<in> set (x # new). reference b \<in> set (vb_ancestors p))"
      if b: "b \<in> set (x # new) - set (x # buffer)" for b
    proof (cases "b \<in> set bs")
      case True
      then have "reference b \<in> set (vb_ancestors x)" using bs_set by blast
      then show ?thesis using True bs_new by simp
    next
      case False
      then have "b \<in> set new - set (rev bs @ buffer)" using b by simp
      then show ?thesis using col fr(2) ds1(3) unfolding collected_def by (auto 0 3)
    qed
    show ?thesis
      using m marks px reach fresh dist col x(1) fr unfolding collected_def by auto
  qed
  then show ?case
    using run bs(1) ds1(1) acc dist by (auto simp: linearize_loop.simps(2) Let_def)
qed

section \<open>The round of the leader\<close>

lemma round_blocks_ok:
  "dag_inv ds \<Longrightarrow> distinct (map reference bs) \<Longrightarrow>
   (\<forall>b \<in> set bs. gc_round ds < vb_round b \<and> lookup_block ds (reference b) = Some b) \<Longrightarrow>
   \<exists>ds'. try_fold commit_round_block bs (ds, acc) =
       Some (ds', acc @ filter (\<lambda>b. \<not> committed ds (reference b)) bs) \<and> marks_only ds ds' \<and>
     (\<forall>r. committed ds' r \<longleftrightarrow> committed ds r \<or> r \<in> reference ` set bs)"
proof (induction bs arbitrary: ds acc)
  case (Cons b bs)
  have b: "gc_round ds < br_round (reference b)" "lookup_block ds (reference b) \<noteq> None"
    using Cons.prems(3) by auto
  show ?case
  proof (cases "committed ds (reference b)")
    case True
    then have "commit_round_block b (ds, acc) = Some (ds, acc)"
      using is_committed_known[OF Cons.prems(1) b] by (simp add: commit_round_block_def)
    then show ?thesis using Cons.IH[of ds acc] Cons.prems True by auto
  next
    case False
    obtain ds1 where ds1: "set_committed (reference b) ds = Some (ds1, True)" "marks_only ds ds1"
        "\<forall>x. committed ds1 x \<longleftrightarrow> x = reference b \<or> committed ds x"
      using set_committed_known[OF Cons.prems(1) b False] by blast
    note fr = marks_only_frame(1-3)[OF ds1(2)]
    have eq: "filter (\<lambda>c. \<not> committed ds1 (reference c)) bs = filter (\<lambda>c. \<not> committed ds (reference c)) bs"
      using Cons.prems(2) ds1(3) by (intro filter_cong) (auto simp: image_iff)
    have "\<exists>ds'. try_fold commit_round_block bs (ds1, acc @ [b]) =
         Some (ds', (acc @ [b]) @ filter (\<lambda>c. \<not> committed ds1 (reference c)) bs) \<and> marks_only ds1 ds' \<and>
       (\<forall>r. committed ds' r \<longleftrightarrow> committed ds1 r \<or> r \<in> reference ` set bs)"
      using Cons.prems fr by (intro Cons.IH) auto
    then obtain ds' where "try_fold commit_round_block bs (ds1, acc @ [b]) =
        Some (ds', (acc @ [b]) @ filter (\<lambda>c. \<not> committed ds (reference c)) bs)" "marks_only ds1 ds'"
        "\<forall>r. committed ds' r \<longleftrightarrow> committed ds1 r \<or> r \<in> reference ` set bs"
      unfolding eq by blast
    moreover have "commit_round_block b (ds, acc) = Some (ds1, acc @ [b])"
      using False ds1(1) is_committed_known[OF Cons.prems(1) b] by (simp add: commit_round_block_def)
    ultimately show ?thesis using False ds1(3) marks_only_trans[OF ds1(2)] by auto
  qed
qed simp

text \<open>The other known blocks of the leader's round that were not committed yet.\<close>

definition round_mates :: "dag_state \<Rightarrow> verified_block \<Rightarrow> verified_block set" where
  "round_mates ds l = {b. lookup_block ds (reference b) = Some b \<and> vb_round b = vb_round l \<and>
     \<not> committed ds (reference b) \<and> b \<noteq> l}"

text \<open>What linearizing a leader promises.\<close>

definition sub_dag_of :: "dag_state \<Rightarrow> verified_block \<Rightarrow> verified_block list \<Rightarrow> dag_state \<Rightarrow> bool" where
  "sub_dag_of ds l bs ds' \<longleftrightarrow> marks_only ds ds' \<and> distinct (map reference bs) \<and>
     sorted_wrt (\<lambda>a b. (vb_round a, vb_author a) \<le> (vb_round b, vb_author b)) bs \<and>
     (\<forall>b \<in> set bs. lookup_block ds (reference b) = Some b \<and> gc_round ds < vb_round b \<and>
        \<not> committed ds (reference b) \<and> (b \<in> round_mates ds l \<or> reference b \<in> reachable ds {reference l})) \<and>
     l \<in> set bs \<and> round_mates ds l \<subseteq> set bs \<and>
     (\<forall>b \<in> set bs - round_mates ds l. parents_committed ds' b \<and>
        (b = l \<or> (\<exists>p \<in> set bs - round_mates ds l. reference b \<in> set (vb_ancestors p)))) \<and>
     (\<forall>r. committed ds' r \<longleftrightarrow> committed ds r \<or> r \<in> reference ` set bs)"

lemma known_eq:
  "lookup_block ds (reference a) = Some a \<Longrightarrow> lookup_block ds (reference b) = Some b \<Longrightarrow>
   reference a = reference b \<longleftrightarrow> a = b"
  by (metis option.inject)

lemma known_inj: "inj_on reference {b. lookup_block ds (reference b) = Some b \<and> P b}"
proof (rule inj_onI)
  fix a b
  assume "a \<in> {b. lookup_block ds (reference b) = Some b \<and> P b}" "b \<in> {b. lookup_block ds (reference b) = Some b \<and> P b}"
    and eq: "reference a = reference b"
  then have "lookup_block ds (reference a) = Some a" "lookup_block ds (reference b) = Some b" by blast+
  then show "a = b" using eq known_eq by blast
qed

lemma sub_dag_sorted:
  "sorted_wrt (\<lambda>a b. (vb_round a, vb_author a) \<le> (vb_round b, vb_author b)) (sort_sub_dag_blocks bs)"
  using sorted_sort_key[of "\<lambda>b. (vb_round b, vb_author b)" bs]
  by (simp add: sort_sub_dag_blocks_def sorted_map)

lemma distinct_sort_sub_dag: "distinct (map reference (sort_sub_dag_blocks bs)) = distinct (map reference bs)"
proof -
  have "mset (map reference (sort_sub_dag_blocks bs)) = mset (map reference bs)" by (simp only: mset_map mset_sort_sub_dag_blocks)
  then show ?thesis by (metis mset_eq_imp_distinct_iff)
qed

text \<open>The first phase: the leader is marked, then the other blocks of its round are.\<close>

lemma leader_round_ok:
  assumes rd: "linear_ready ds" and l: "lookup_block ds (reference l) = Some l"
    and rnd: "last_commit_round ds < vb_round l" and unc: "\<not> committed ds (reference l)"
  shows "\<exists>ds1 all ds2 mates. mark_committed l ds = Some ds1 \<and>
     get_uncommitted_blocks_at_round ds1 (vb_round l) = Some all \<and>
     try_fold commit_round_block all (ds1, []) = Some (ds2, mates) \<and> marks_only ds ds2 \<and>
     set mates = round_mates ds l \<and> distinct (map reference (mates @ [l])) \<and>
     (\<forall>r. committed ds2 r \<longleftrightarrow> committed ds r \<or> r = reference l \<or> r \<in> reference ` round_mates ds l)"
proof -
  note inv = linear_readyD(1)[OF rd]
  have gc: "gc_round ds < vb_round l" using rnd gc_le_last_commit[of ds] by simp
  obtain ds1 where ds1: "mark_committed l ds = Some ds1" "marks_only ds ds1"
      "\<forall>x. committed ds1 x \<longleftrightarrow> x = reference l \<or> committed ds x"
    using mark_committed_known[OF inv gc _ unc] l by auto
  note fr1 = marks_only_frame[OF ds1(2)]
  have "last_commit_round ds1 < vb_round l" using rnd fr1(4) by (simp add: last_commit_round_def)
  then obtain all where all: "get_uncommitted_blocks_at_round ds1 (vb_round l) = Some all"
    by (simp add: get_uncommitted_blocks_at_round_def)
  have set_all: "set all = {b. lookup_block ds (reference b) = Some b \<and> vb_round b = vb_round l}"
    using blocks_at_round(2)[OF fr1(1)[OF inv] all] fr1(2) by simp
  have "inj_on reference (set all)" unfolding set_all by (rule known_inj)
  then have dall: "distinct (map reference all)"
    using distinct_blocks_at_round[OF fr1(1)[OF inv] all] by (simp add: distinct_map)
  let ?mates = "filter (\<lambda>b. \<not> committed ds1 (reference b)) all"
  obtain ds2 where ds2: "try_fold commit_round_block all (ds1, []) = Some (ds2, ?mates)" "marks_only ds1 ds2"
      "\<forall>r. committed ds2 r \<longleftrightarrow> committed ds1 r \<or> r \<in> reference ` set all"
    using round_blocks_ok[OF fr1(1)[OF inv] dall, of "[]"] set_all fr1(2,3) gc by auto
  have mates: "set ?mates = round_mates ds l"
  proof -
    have "b \<in> set all \<Longrightarrow> reference b = reference l \<longleftrightarrow> b = l" for b
      unfolding set_all by (rule known_eq[OF _ l]) simp
    then show ?thesis using ds1(3) unfolding round_mates_def set_filter set_all by blast
  qed
  note m2 = marks_only_trans[OF ds1(2) ds2(2)]
  have c2: "committed ds2 r \<longleftrightarrow> committed ds r \<or> r = reference l \<or> r \<in> reference ` round_mates ds l" for r
    using ds2(3) ds1(3) mates by (auto simp: image_iff)
  have "distinct (map reference (?mates @ [l]))"
  proof -
    have "distinct (map reference ?mates)" using dall by (simp add: distinct_map_filter)
    moreover have "reference l \<notin> reference ` set ?mates"
    proof
      assume "reference l \<in> reference ` set ?mates"
      then obtain b where "reference l = reference b" "\<not> committed ds1 (reference b)"
        by (elim imageE) simp
      then have "\<not> committed ds1 (reference l)" by metis
      then show False using ds1(3) by blast
    qed
    ultimately show ?thesis
      unfolding map_append distinct_append set_map by simp
  qed
  then show ?thesis using ds1(1) all ds2(1) m2 mates c2 by blast
qed

lemma linearize_sub_dag_ok:
  assumes rd: "linear_ready ds" and l: "lookup_block ds (reference l) = Some l"
    and rnd: "last_commit_round ds < vb_round l" and unc: "\<not> committed ds (reference l)"
  shows "\<exists>ds' bs. linearize_sub_dag l ds = Some (ds', bs) \<and> sub_dag_of ds l bs ds'"
proof -
  note inv = linear_readyD(1)[OF rd]
  have gc: "gc_round ds < vb_round l" using rnd gc_le_last_commit[of ds] by simp
  obtain ds1 all ds2 mates where ds1: "mark_committed l ds = Some ds1"
      and all: "get_uncommitted_blocks_at_round ds1 (vb_round l) = Some all"
      and ds2: "try_fold commit_round_block all (ds1, []) = Some (ds2, mates)" and m2: "marks_only ds ds2"
      and mates: "set mates = round_mates ds l" and dm: "distinct (map reference (mates @ [l]))"
      and c2: "\<And>r. committed ds2 r \<longleftrightarrow> committed ds r \<or> r = reference l \<or> r \<in> reference ` round_mates ds l"
    using leader_round_ok[OF assms] by blast
  note fr2 = marks_only_frame[OF m2]
  have "\<exists>ds3 new. linearize_loop (gc_round ds) [l] mates ds2 = Some (ds3, mates @ new) \<and>
      collected ds2 [l] new ds3 \<and> distinct (map reference (mates @ new))"
    by (rule linearize_loop_ok) (use fr2 l c2 mates dm linear_ready_marks[OF rd m2] in auto)
  then obtain ds3 new where run: "linearize_loop (gc_round ds) [l] mates ds2 = Some (ds3, mates @ new)"
      and col: "collected ds2 [l] new ds3" and dist: "distinct (map reference (mates @ new))" by blast
  have new: "gc_round ds < vb_round b \<and> \<not> committed ds (reference b)" if "b \<in> set new" for b
    using col that fr2(3) c2 gc unc by (cases "b = l") (auto simp: collected_def)
  have low: "list_all (\<lambda>b. vb_round b > gc_round ds) (mates @ new)"
    using new mates gc by (auto simp: list_all_iff round_mates_def)
  have lin: "linearize_sub_dag l ds = Some (ds3, sort_sub_dag_blocks (mates @ new))"
    using ds1 all ds2 run low gc by (simp add: linearize_sub_dag_def bind_rust_assert Let_def)
  let ?bs = "sort_sub_dag_blocks (mates @ new)"
  have set_bs: "set ?bs = round_mates ds l \<union> set new" unfolding set_sort_sub_dag_blocks set_append mates ..
  have disj: "set new \<inter> round_mates ds l = {}"
  proof -
    have "reference ` set mates \<inter> reference ` set new = {}" using dist by simp
    then show ?thesis unfolding mates by blast
  qed
  have link: "b = l \<or> (\<exists>p \<in> set new. reference b \<in> set (vb_ancestors p))" if "b \<in> set new" for b
    using col that unfolding collected_def by auto
  have new_known: "lookup_block ds (reference b) = Some b \<and> parents_committed ds3 b \<and>
      reference b \<in> reachable ds {reference l}" if "b \<in> set new" for b
  proof -
    have "reachable ds2 = reachable ds" by (simp add: reachable_def parent_def fr2 fun_eq_iff)
    then show ?thesis using col that fr2(2) unfolding collected_def by auto
  qed
  have mate: "lookup_block ds (reference b) = Some b \<and> gc_round ds < vb_round b \<and> \<not> committed ds (reference b)"
    if "b \<in> round_mates ds l" for b using that gc by (simp add: round_mates_def)
  have "sub_dag_of ds l ?bs ds3"
    unfolding sub_dag_of_def set_bs
  proof (intro conjI)
    show "marks_only ds ds3" using col marks_only_trans[OF m2] by (simp add: collected_def)
    show "distinct (map reference ?bs)" using dist by (simp only: distinct_sort_sub_dag)
    show "l \<in> round_mates ds l \<union> set new" using col by (simp add: collected_def)
    have "\<forall>r. committed ds3 r \<longleftrightarrow> committed ds2 r \<or> r \<in> reference ` set new"
      using col by (simp add: collected_def)
    then show "\<forall>r. committed ds3 r \<longleftrightarrow> committed ds r \<or> r \<in> reference ` (round_mates ds l \<union> set new)"
      using c2 \<open>l \<in> round_mates ds l \<union> set new\<close> by blast
  qed (use new new_known mate sub_dag_sorted link disj in blast)+
  with lin show ?thesis by blast
qed

text \<open>
  The blocks a leader reaches through blocks that are not committed and above the garbage collection
  round. What lies behind a committed block is not among them.
\<close>

inductive open_history :: "dag_state \<Rightarrow> block_ref \<Rightarrow> block_ref \<Rightarrow> bool" for ds root where
  open_root: "open_history ds root root"
| open_step: "open_history ds root r \<Longrightarrow> lookup_block ds r = Some b \<Longrightarrow> x \<in> set (vb_ancestors b) \<Longrightarrow>
    gc_round ds < br_round x \<Longrightarrow> \<not> committed ds x \<Longrightarrow> open_history ds root x"

lemma open_history_round:
  assumes "linear_ready ds" "open_history ds root r"
  shows "r = root \<or> br_round r < br_round root"
  using assms(2)
proof induction
  case (open_step r b x)
  then show ?case using linear_readyD(6)[OF assms(1) open_step(2,3)] by auto
qed simp

lemma sub_dag_within:
  assumes rd: "linear_ready ds" and sub: "sub_dag_of ds l bs ds'" and b: "b \<in> set bs - round_mates ds l"
  shows "open_history ds (reference l) (reference b)"
  using b
proof (induction "Max (vb_round ` set bs) - vb_round b" arbitrary: b rule: less_induct)
  case less
  note s = sub[unfolded sub_dag_of_def]
  show ?case
  proof (cases "b = l")
    case False
    then obtain p where p: "p \<in> set bs - round_mates ds l" "reference b \<in> set (vb_ancestors p)" using s less.prems by blast
    have known: "lookup_block ds (reference p) = Some p" "gc_round ds < vb_round b" "\<not> committed ds (reference b)"
      using s p(1) less.prems by blast+
    have lt: "vb_round b < vb_round p" using linear_readyD(6)[OF rd known(1) p(2)] by simp
    have "vb_round p \<le> Max (vb_round ` set bs)" using p(1) by (intro Max_ge) auto
    then have "open_history ds (reference l) (reference p)" using lt by (intro less.hyps p(1)) simp
    from open_step[OF this known(1) p(2)] show ?thesis using known(2,3) by simp
  qed (simp add: open_root)
qed

lemma sub_dag_exact:
  assumes rd: "linear_ready ds" and sub: "sub_dag_of ds l bs ds'"
  shows "reference ` set bs = reference ` round_mates ds l \<union> {r. open_history ds (reference l) r}"
proof
  show "reference ` set bs \<subseteq> reference ` round_mates ds l \<union> {r. open_history ds (reference l) r}"
    using sub_dag_within[OF assms] by blast
  have "r \<in> reference ` set bs" if "open_history ds (reference l) r" for r
    using that
  proof induction
    case open_root
    then show ?case using sub unfolding sub_dag_of_def by blast
  next
    case (open_step r b x)
    have ref: "reference b = r" by (rule linear_readyD(2)[OF rd open_step(2)])
    obtain c where c: "c \<in> set bs" "r = reference c" using open_step.IH by blast
    have "lookup_block ds (reference c) = Some c" using sub c(1) unfolding sub_dag_of_def by blast
    then have cb: "c = b" using open_step(2) c(2) by simp
    have "b \<notin> round_mates ds l"
    proof
      assume m: "b \<in> round_mates ds l"
      then have "vb_round b = vb_round l" "b \<noteq> l" by (auto simp: round_mates_def)
      then have "reference b = reference l" using open_history_round[OF rd open_step(1)] ref by auto
      moreover have "lookup_block ds (reference l) = Some l" using sub unfolding sub_dag_of_def by blast
      ultimately have "b = l" using open_step(2)[folded ref] by (simp only: option.inject)
      then show False using \<open>b \<noteq> l\<close> by simp
    qed
    then have "parents_committed ds' b" using sub c(1) cb unfolding sub_dag_of_def by blast
    moreover have "gc_round ds' = gc_round ds" using sub marks_only_frame(3) by (simp add: sub_dag_of_def)
    ultimately have "committed ds' x" using open_step(3,4) unfolding parents_committed_def by simp
    then show ?case using open_step(5) sub unfolding sub_dag_of_def by blast
  qed
  moreover have "reference ` round_mates ds l \<subseteq> reference ` set bs" using sub unfolding sub_dag_of_def by blast
  ultimately show "reference ` round_mates ds l \<union> {r. open_history ds (reference l) r} \<subseteq> reference ` set bs" by blast
qed

end
