(* ===== verification/QuorumWalk.thy ===== *)
theory QuorumWalk
  imports Committee
begin

text \<open>
  Walking through authorities sorted by a value until their stake reaches a threshold. The round
  tracker, the ancestor states and the commit vote monitor find their quorum values this way, the
  linearizer its median.
\<close>

section \<open>Stake of the pairs with a property\<close>

definition stake_where :: "('a \<Rightarrow> bool) \<Rightarrow> ('a \<times> stake) list \<Rightarrow> nat" where
  "stake_where P xs = sum_list (map (unat \<circ> snd) (filter (P \<circ> fst) xs))"

lemma stake_where_Nil [simp]: "stake_where P [] = 0"
  by (simp add: stake_where_def)

lemma stake_where_Cons [simp]: "stake_where P (x # xs) = (if P (fst x) then unat (snd x) else 0) + stake_where P xs"
  by (simp add: stake_where_def)

lemma stake_where_append [simp]: "stake_where P (xs @ ys) = stake_where P xs + stake_where P ys"
  by (simp add: stake_where_def)

lemma stake_where_none: "(\<And>x. x \<in> set xs \<Longrightarrow> \<not> P (fst x)) \<Longrightarrow> stake_where P xs = 0"
  by (induction xs) auto

lemma stake_where_cong: "(\<And>x. x \<in> set xs \<Longrightarrow> P (fst x) = Q (fst x)) \<Longrightarrow> stake_where P xs = stake_where Q xs"
  by (induction xs) auto

lemma stake_where_mono: "(\<And>t. P t \<Longrightarrow> Q t) \<Longrightarrow> stake_where P xs \<le> stake_where Q xs"
  by (induction xs) (auto intro: add_mono)

lemma stake_where_split: "stake_where P xs + stake_where (\<lambda>t. \<not> P t) xs = stake_where (\<lambda>_. True) xs"
  by (induction xs) auto

lemma stake_where_mset: "mset xs = mset ys \<Longrightarrow> stake_where P xs = stake_where P ys"
proof -
  assume "mset xs = mset ys"
  then have "mset (map (unat \<circ> snd) (filter (P \<circ> fst) xs)) = mset (map (unat \<circ> snd) (filter (P \<circ> fst) ys))"
    by (simp only: mset_map mset_filter)
  then show ?thesis unfolding stake_where_def by (metis sum_mset_sum_list)
qed

lemma stake_where_sort [simp]: "stake_where P (sort_key f xs) = stake_where P xs"
  by (rule stake_where_mset) simp

lemma stake_where_rev [simp]: "stake_where P (rev xs) = stake_where P xs"
  by (rule stake_where_mset) simp

text \<open>The values of all authorities, paired with their stakes.\<close>

definition stake_pairs :: "committee \<Rightarrow> 'a list \<Rightarrow> ('a \<times> stake) list" where
  "stake_pairs c vs = zip vs (map a_stake (c_authorities c))"

lemma stake_pairs_where:
  assumes "length vs = committee_size c"
  shows "stake_where P (stake_pairs c vs) = stake_of c {i \<in> members c. P (vs ! i)}"
proof -
  have "stake_where P (zip vs ss) = (\<Sum>i | i < length vs \<and> P (vs ! i). unat (ss ! i))"
    if "length ss = length vs" for ss :: "stake list"
    using that
  proof (induction vs ss rule: list_induct2')
    case (4 v vs s ss)
    have "{i. i < length (v # vs) \<and> P ((v # vs) ! i)} = (if P v then {0} else {}) \<union> Suc ` {i. i < length vs \<and> P (vs ! i)}"
    proof (rule set_eqI)
      fix i show "i \<in> {i. i < length (v # vs) \<and> P ((v # vs) ! i)} \<longleftrightarrow>
          i \<in> (if P v then {0} else {}) \<union> Suc ` {i. i < length vs \<and> P (vs ! i)}"
        by (cases i) auto
    qed
    moreover have "(\<Sum>i \<in> Suc ` {i. i < length vs \<and> P (vs ! i)}. unat ((s # ss) ! i)) = (\<Sum>i | i < length vs \<and> P (vs ! i). unat (ss ! i))"
      by (subst sum.reindex) auto
    ultimately show ?case using 4 by (auto simp: sum.union_disjoint)
  qed auto
  from this[of "map a_stake (c_authorities c)"] assms show ?thesis
    unfolding stake_pairs_def stake_of_def members_def
    by (auto simp: committee_size_def weight_def intro!: sum.cong)
qed

lemma set_stake_pairs: "fst ` set (stake_pairs c vs) \<subseteq> set vs"
  by (auto simp: stake_pairs_def dest: set_zip_leftD)

section \<open>The walk\<close>

fun first_quorum :: "stake \<Rightarrow> stake \<Rightarrow> ('a \<times> stake) list \<Rightarrow> 'a option" where
  "first_quorum threshold total_stake [] = None"
| "first_quorum threshold total_stake ((v, stake) # xs) =
     (let total_stake' = total_stake + stake
      in if total_stake' \<ge> threshold then Some v else first_quorum threshold total_stake' xs)"

lemma first_quorum_split:
  "unat t + stake_where (\<lambda>_. True) xs < 2 ^ 64 \<Longrightarrow> unat q \<le> unat t + stake_where (\<lambda>_. True) xs \<Longrightarrow> unat t < unat q \<Longrightarrow>
   \<exists>pre v s post. xs = pre @ (v, s) # post \<and> first_quorum q t xs = Some v \<and>
     unat t + stake_where (\<lambda>_. True) pre < unat q \<and> unat q \<le> unat t + stake_where (\<lambda>_. True) pre + unat s"
proof (induction xs arbitrary: t)
  case (Cons x xs)
  obtain v s where x: "x = (v, s)" by (cases x)
  have ts: "unat (t + s) = unat t + unat s" using Cons.prems(1) x by (intro unat_plus_no_wrap) simp
  show ?case
  proof (cases "q \<le> t + s")
    case True
    then show ?thesis using x Cons.prems(3) ts
      by (intro exI[of _ "[]"] exI[of _ v] exI[of _ s] exI[of _ xs]) (simp add: word_le_nat_alt)
  next
    case False
    then obtain pre v' s' post where "xs = pre @ (v', s') # post" "first_quorum q (t + s) xs = Some v'"
        "unat (t + s) + stake_where (\<lambda>_. True) pre < unat q" "unat q \<le> unat (t + s) + stake_where (\<lambda>_. True) pre + unat s'"
      using Cons.IH[of "t + s"] Cons.prems x ts by (auto simp: word_le_nat_alt)
    then show ?thesis using False x ts by (intro exI[of _ "x # pre"] exI[of _ v'] exI[of _ s'] exI[of _ post]) simp
  qed
qed simp

text \<open>
  Through a list sorted by \<open>le\<close> the walk finds the least value (in the sense of \<open>le\<close>) up to which the
  stake reaches the threshold.
\<close>

lemma first_quorum_best:
  assumes s: "sorted_wrt (\<lambda>x y. le (fst x) (fst y)) xs" and le: "reflp le" "transp le"
    and q: "stake_where (\<lambda>_. True) xs < 2 ^ 64" "unat q \<le> stake_where (\<lambda>_. True) xs" "0 < unat q"
  shows "\<exists>v. first_quorum q 0 xs = Some v \<and> v \<in> fst ` set xs \<and> unat q \<le> stake_where (\<lambda>x. le x v) xs \<and>
     (\<forall>w. \<not> le v w \<longrightarrow> stake_where (\<lambda>x. le x w) xs < unat q)"
proof -
  obtain pre v st post where xs: "xs = pre @ (v, st) # post" "first_quorum q 0 xs = Some v"
      "stake_where (\<lambda>_. True) pre < unat q" "unat q \<le> stake_where (\<lambda>_. True) pre + unat st"
    using first_quorum_split[of 0 xs q] q by auto
  have pre: "le (fst x) v" if "x \<in> set pre" for x using s xs(1) that by (auto simp: sorted_wrt_append)
  have post: "le v (fst x)" if "x \<in> set post" for x using s xs(1) that by (auto simp: sorted_wrt_append)
  have "stake_where (\<lambda>x. le x v) pre = stake_where (\<lambda>_. True) pre" using pre by (intro stake_where_cong) auto
  moreover have "le v v" using le(1) by (rule reflpD)
  ultimately have "unat q \<le> stake_where (\<lambda>x. le x v) xs" using xs(1,4) by simp
  moreover have "stake_where (\<lambda>x. le x w) xs < unat q" if "\<not> le v w" for w
  proof -
    have "\<not> le (fst x) w" if "x \<in> set post" for x using post[OF that] \<open>\<not> le v w\<close> le(2) by (meson transpD)
    then have "stake_where (\<lambda>x. le x w) post = 0" by (intro stake_where_none) auto
    moreover have "stake_where (\<lambda>x. le x w) pre \<le> stake_where (\<lambda>_. True) pre" by (rule stake_where_mono) simp
    ultimately show ?thesis using xs(1,3) \<open>\<not> le v w\<close> by simp
  qed
  ultimately show ?thesis using xs by force
qed

lemma sorted_fst: "sorted xs \<Longrightarrow> sorted_wrt (\<lambda>x y. fst x \<le> fst y) xs"
  for xs :: "('a::linorder \<times> 'b::linorder) list"
  by (rule sorted_wrt_mono_rel[of xs "(\<le>)"]) (auto simp: less_eq_prod_def)

section \<open>Quorum values\<close>

text \<open>
  The highest value that a quorum has reached, and the lowest value that a quorum has not passed.
\<close>

definition quorum_low :: "committee \<Rightarrow> nat list \<Rightarrow> nat \<Rightarrow> bool" where
  "quorum_low c vs v \<longleftrightarrow> v \<in> set vs \<and> quorum c \<le> stake_of c {i \<in> members c. v \<le> vs ! i} \<and>
     (\<forall>w > v. stake_of c {i \<in> members c. w \<le> vs ! i} < quorum c)"

definition quorum_high :: "committee \<Rightarrow> nat list \<Rightarrow> nat \<Rightarrow> bool" where
  "quorum_high c vs v \<longleftrightarrow> v \<in> set vs \<and> quorum c \<le> stake_of c {i \<in> members c. vs ! i \<le> v} \<and>
     (\<forall>w < v. stake_of c {i \<in> members c. vs ! i \<le> w} < quorum c)"

lemma total_pairs:
  assumes "committee_wf c" "length vs = committee_size c"
  shows "stake_where (\<lambda>_. True) (stake_pairs c vs) < 2 ^ 64" "quorum c \<le> stake_where (\<lambda>_. True) (stake_pairs c vs)"
    and "0 < quorum c"
proof -
  have eq: "stake_where (\<lambda>_. True) (stake_pairs c vs) = stake_of c (members c)"
    using stake_pairs_where[OF assms(2), of "\<lambda>_. True"] by simp
  have wf: "unat (c_total_stake c) = stake_of c (members c)" "0 < stake_of c (members c)"
      "quorum c = stake_of c (members c) - (stake_of c (members c) - 1) div 3"
    using assms(1) by (auto simp: committee_wf_def)
  show "stake_where (\<lambda>_. True) (stake_pairs c vs) < 2 ^ 64"
    unfolding eq wf(1)[symmetric] using unsigned_less[of "c_total_stake c", where 'a = nat] by simp
  show "quorum c \<le> stake_where (\<lambda>_. True) (stake_pairs c vs)" "0 < quorum c" unfolding eq using wf(2,3) by simp_all
qed

lemma walk_down:
  assumes "committee_wf c" "length vs = committee_size c"
  shows "\<exists>v. first_quorum (c_quorum_threshold c) 0 (rev (sort (stake_pairs c vs))) = Some v \<and> quorum_low c vs v"
proof -
  let ?xs = "rev (sort (stake_pairs c vs))"
  have s: "sorted_wrt (\<lambda>x y. fst y \<le> fst x) ?xs" using sorted_fst[of "sort (stake_pairs c vs)"] by (simp add: sorted_wrt_rev)
  have "reflp (\<lambda>x y. y \<le> (x::nat))" "transp (\<lambda>x y. y \<le> (x::nat))" by (auto intro: reflpI transpI)
  from first_quorum_best[OF s this, of "c_quorum_threshold c"] total_pairs[OF assms]
  obtain v where "first_quorum (c_quorum_threshold c) 0 ?xs = Some v" "v \<in> fst ` set ?xs"
      "quorum c \<le> stake_where (\<lambda>x. v \<le> x) ?xs" "\<forall>w. \<not> w \<le> v \<longrightarrow> stake_where (\<lambda>x. w \<le> x) ?xs < quorum c"
    by (auto simp: quorum_def)
  then show ?thesis using set_stake_pairs[of c vs] by (auto simp: quorum_low_def stake_pairs_where[OF assms(2)])
qed

lemma walk_up:
  assumes "committee_wf c" "length vs = committee_size c"
  shows "\<exists>v. first_quorum (c_quorum_threshold c) 0 (sort (stake_pairs c vs)) = Some v \<and> quorum_high c vs v"
proof -
  let ?xs = "sort (stake_pairs c vs)"
  have s: "sorted_wrt (\<lambda>x y. fst x \<le> fst y) ?xs" by (rule sorted_fst) simp
  have "reflp ((\<le>) :: nat \<Rightarrow> _)" "transp ((\<le>) :: nat \<Rightarrow> _)" by (auto intro: reflpI transpI)
  from first_quorum_best[OF s this, of "c_quorum_threshold c"] total_pairs[OF assms]
  obtain v where "first_quorum (c_quorum_threshold c) 0 ?xs = Some v" "v \<in> fst ` set ?xs"
      "quorum c \<le> stake_where (\<lambda>x. x \<le> v) ?xs" "\<forall>w. \<not> v \<le> w \<longrightarrow> stake_where (\<lambda>x. x \<le> w) ?xs < quorum c"
    by (auto simp: quorum_def)
  then show ?thesis using set_stake_pairs[of c vs] by (auto simp: quorum_high_def stake_pairs_where[OF assms(2)])
qed

text \<open>
  Both values are Byzantine fault tolerant: they lie between the values of two honest authorities,
  in this order.
\<close>

lemma quorum_values_honest:
  assumes wf: "committee_wf c" and F: "F \<subseteq> members c" "stake_of c F < validity c"
    and low: "quorum_low c vs l" and high: "quorum_high c vs h"
  shows "l \<le> h" "\<exists>i \<in> members c - F. vs ! i \<le> l" "\<exists>i \<in> members c - F. h \<le> vs ! i"
proof -
  have sub: "{i \<in> members c. P i} \<subseteq> members c" for P by blast
  have L: "quorum c \<le> sum (weight c) {i \<in> members c. l \<le> vs ! i}" and H: "quorum c \<le> sum (weight c) {i \<in> members c. vs ! i \<le> h}"
    using low high by (auto simp: quorum_low_def quorum_high_def stake_of_def)
  have F': "sum (weight c) F < validity c" using F(2) by (simp add: stake_of_def)
  note honest = cq.honest_quorum[OF wf F(1) F']
  obtain i where "l \<le> vs ! i" "vs ! i \<le> h" using cq.intersection_honest[OF wf sub sub L H F(1) F'] by auto
  then show "l \<le> h" by simp
  show "\<exists>i \<in> members c - F. vs ! i \<le> l"
  proof (rule ccontr)
    assume "\<not> ?thesis"
    then have "members c - F \<subseteq> {i \<in> members c. Suc l \<le> vs ! i}" by (auto simp: not_less_eq_eq[symmetric])
    then have "sum (weight c) (members c - F) \<le> sum (weight c) {i \<in> members c. Suc l \<le> vs ! i}"
      by (intro sum_mono2) auto
    then show False using honest low by (auto simp: quorum_low_def stake_of_def dest!: spec[of _ "Suc l"])
  qed
  show "\<exists>i \<in> members c - F. h \<le> vs ! i"
  proof (rule ccontr)
    assume *: "\<not> ?thesis"
    obtain j where j: "j \<in> members c - F" using cq.intersection_honest[OF wf sub sub L H F(1) F'] by auto
    then have "0 < h" using * by (metis not_gr_zero zero_le)
    have "vs ! i \<le> h - 1" if "i \<in> members c - F" for i
    proof -
      have "vs ! i < h" using * that by (meson not_le_imp_less)
      then show ?thesis by simp
    qed
    then have "members c - F \<subseteq> {i \<in> members c. vs ! i \<le> h - 1}" by blast
    then have "sum (weight c) (members c - F) \<le> sum (weight c) {i \<in> members c. vs ! i \<le> h - 1}"
      by (intro sum_mono2) auto
    then show False using honest high \<open>0 < h\<close> by (auto simp: quorum_high_def stake_of_def dest!: spec[of _ "h - 1"])
  qed
qed

end
