(* ===== verification/CommitTimestamp.thy ===== *)
theory CommitTimestamp
  imports LinearizerSafety QuorumWalk
begin

text \<open>
  The commit timestamp: the median by stake of the timestamps of the leader's parents. Under the
  fault bound it lies between the timestamps of two honest parents.
\<close>

section \<open>The median\<close>

lemma half_word: "unat (t :: stake) < 2 * unat c \<longleftrightarrow> t div 2 < c"
proof -
  have "unat (t div 2) = unat t div 2" by (simp add: unat_div)
  then show ?thesis unfolding word_less_nat_alt by linarith
qed

text \<open>The loop stops at the first element at which the stake seen exceeds the half.\<close>

lemma median_loop_ok:
  "unat c + stake_where (\<lambda>_. True) xs = unat tot \<Longrightarrow> 2 * unat c \<le> unat tot \<Longrightarrow> 0 < unat tot \<Longrightarrow>
   \<exists>pre t s post. xs = pre @ (t, s) # post \<and> median_loop tot c xs = Some t \<and>
     2 * (unat c + stake_where (\<lambda>_. True) pre) \<le> unat tot \<and>
     unat tot < 2 * (unat c + stake_where (\<lambda>_. True) pre + unat s)"
proof (induction xs arbitrary: c)
  case (Cons x xs)
  obtain t s where x: "x = (t, s)" by (cases x)
  have "unat c + unat s \<le> unat tot" using Cons.prems(1) x by simp
  then have cs: "unat (c + s) = unat c + unat s"
    using unsigned_less[of tot, where 'a = nat] by (intro unat_plus_no_wrap) simp
  show ?case
  proof (cases "tot div 2 < c + s")
    case True
    then show ?thesis
      using Cons.prems x cs half_word[of tot "c + s"]
      by (intro exI[of _ "[]"] exI[of _ t] exI[of _ s] exI[of _ xs]) simp
  next
    case False
    then have "2 * unat (c + s) \<le> unat tot" using half_word[of tot "c + s"] by simp
    then obtain pre t' s' post where "xs = pre @ (t', s') # post" "median_loop tot (c + s) xs = Some t'"
        "2 * (unat (c + s) + stake_where (\<lambda>_. True) pre) \<le> unat tot"
        "unat tot < 2 * (unat (c + s) + stake_where (\<lambda>_. True) pre + unat s')"
      using Cons.IH[of "c + s"] Cons.prems x cs by auto
    then show ?thesis
      using False x cs by (intro exI[of _ "x # pre"] exI[of _ t'] exI[of _ s'] exI[of _ post]) simp
  qed
qed simp

lemma median_inner_ok:
  assumes "stake_where (\<lambda>_. True) xs = unat tot" and "0 < unat tot"
  shows "\<exists>m. median_timestamps_by_stake_inner xs tot = Some m \<and> m \<in> fst ` set xs \<and>
     2 * stake_where (\<lambda>t. t < m) xs \<le> unat tot \<and> unat tot < 2 * stake_where (\<lambda>t. t \<le> m) xs"
proof -
  let ?ys = "sort_key fst xs"
  obtain pre m s post where ys: "?ys = pre @ (m, s) # post" and run: "median_loop tot 0 ?ys = Some m"
      and half: "2 * stake_where (\<lambda>_. True) pre \<le> unat tot"
        "unat tot < 2 * (stake_where (\<lambda>_. True) pre + unat s)"
    using median_loop_ok[of 0 ?ys tot] assms by auto
  have "sorted (map fst ?ys)" by (rule sorted_sort_key)
  then have le: "\<forall>x \<in> set pre. fst x \<le> m" "\<forall>x \<in> set post. m \<le> fst x"
    unfolding ys by (auto simp: sorted_append)
  have "(m, s) \<in> set ?ys" unfolding ys by simp
  then have "m \<in> fst ` set xs" unfolding set_sort by force
  moreover have "stake_where (\<lambda>t. t < m) xs \<le> stake_where (\<lambda>_. True) pre"
  proof -
    have "stake_where (\<lambda>t. t < m) post = 0" using le(2) by (intro stake_where_none) auto
    then have "stake_where (\<lambda>t. t < m) ?ys = stake_where (\<lambda>t. t < m) pre" unfolding ys by simp
    then show ?thesis using stake_where_mono[of "\<lambda>t. t < m" "\<lambda>_. True" pre] by simp
  qed
  moreover have "stake_where (\<lambda>_. True) pre + unat s \<le> stake_where (\<lambda>t. t \<le> m) xs"
  proof -
    have "stake_where (\<lambda>t. t \<le> m) pre = stake_where (\<lambda>_. True) pre"
      using le(1) unfolding stake_where_def by (intro arg_cong[where f = sum_list] arg_cong2[where f = map]
          filter_cong) auto
    then have "stake_where (\<lambda>_. True) pre + unat s \<le> stake_where (\<lambda>t. t \<le> m) ?ys" unfolding ys by simp
    then show ?thesis by simp
  qed
  ultimately show ?thesis
    using run half by (simp add: median_timestamps_by_stake_inner_def)
qed

section \<open>Blocks of distinct authorities\<close>

lemma sum_list_weights:
  assumes "distinct (map f bs)"
  shows "sum_list (map (weight c \<circ> f) bs) = stake_of c (f ` set bs)"
proof -
  have "stake_of c (set (map f bs)) = sum_list (map (weight c) (map f bs))"
    unfolding stake_of_def by (rule sum_list_distinct_conv_sum_set[symmetric, OF assms])
  then show ?thesis by simp
qed

text \<open>The median of the blocks of distinct members that hold a quorum.\<close>

lemma median_timestamp_ok:
  assumes wf: "committee_wf c" and c: "ctx_committee ctx = c"
    and mem: "\<forall>b \<in> set bs. vb_author b \<in> members c" and dist: "distinct (map vb_author bs)"
    and quo: "quorum c \<le> stake_of c (vb_author ` set bs)"
  shows "\<exists>m. median_timestamp_by_stake ctx bs = Some (Inr m) \<and>
     2 * stake_of c (vb_author ` {b \<in> set bs. vb_timestamp_ms b < m}) \<le> stake_of c (vb_author ` set bs) \<and>
     stake_of c (vb_author ` set bs) < 2 * stake_of c (vb_author ` {b \<in> set bs. vb_timestamp_ms b \<le> m})"
proof -
  let ?xs = "map (\<lambda>b. (vb_timestamp_ms b, a_stake (c_authorities c ! vb_author b))) bs"
  let ?tot = "sum_list (map snd ?xs)"
  have xs: "try_map (\<lambda>b. do { a \<leftarrow> committee_authority (ctx_committee ctx) (vb_author b);
      Some (vb_timestamp_ms b, a_stake a) }) bs = Some ?xs"
    using mem c by (intro try_map_total) (auto simp: committee_authority_def vec_get_def members_def committee_size_def)
  have part: "stake_where P ?xs = stake_of c (vb_author ` {b \<in> set bs. P (vb_timestamp_ms b)})" for P
  proof -
    have "stake_where P ?xs = sum_list (map (weight c \<circ> vb_author) (filter (\<lambda>b. P (vb_timestamp_ms b)) bs))"
      by (simp add: stake_where_def filter_map comp_def weight_def)
    also have "\<dots> = stake_of c (vb_author ` set (filter (\<lambda>b. P (vb_timestamp_ms b)) bs))"
      using dist by (intro sum_list_weights) (rule distinct_map_filter)
    finally show ?thesis by simp
  qed
  have "stake_of c (vb_author ` set bs) \<le> unat (c_total_stake c)"
    using mem by (intro stake_of_le_total[OF wf]) auto
  then have lim: "sum_list (map unat (map snd ?xs)) < 2 ^ LENGTH(64)"
    using part[of "\<lambda>_. True"] unsigned_less[of "c_total_stake c", where 'a = nat]
    by (simp add: stake_where_def comp_def)
  then have tot: "unat ?tot = stake_of c (vb_author ` set bs)"
    using unat_sum_list_no_wrap[OF lim] part[of "\<lambda>_. True"] by (simp add: stake_where_def comp_def)
  have "0 < quorum c" using wf by (auto simp: committee_wf_def)
  then have pos: "0 < unat ?tot" using tot quo by simp
  then have ne: "?xs \<noteq> []" by auto
  obtain m where m: "median_timestamps_by_stake_inner ?xs ?tot = Some m"
      "2 * stake_where (\<lambda>t. t < m) ?xs \<le> unat ?tot" "unat ?tot < 2 * stake_where (\<lambda>t. t \<le> m) ?xs"
    using median_inner_ok[of ?xs ?tot] part[of "\<lambda>_. True"] tot pos by auto
  have "\<not> ?tot < c_quorum_threshold (ctx_committee ctx)"
    using quo tot c by (simp add: quorum_def word_less_nat_alt)
  then have "median_timestamp_by_stake ctx bs = Some (Inr m)"
    using xs ne m(1) by (simp add: median_timestamp_by_stake_def Let_def del: list.map)
  then show ?thesis using m(2,3) unfolding part tot by blast
qed

text \<open>
  With a quorum of blocks and fewer faulty authorities than the validity threshold, an honest block
  is at or below the median and an honest block is at or above it.
\<close>

lemma median_between_honest:
  assumes "committee_wf c" and "stake_of c F < validity c" and "finite A" and "F \<subseteq> members c"
    and mem: "\<forall>b \<in> A. vb_author b \<in> members c" and quo: "quorum c \<le> stake_of c (vb_author ` A)"
    and lo: "2 * stake_of c (vb_author ` {b \<in> A. vb_timestamp_ms b < m}) \<le> stake_of c (vb_author ` A)"
    and hi: "stake_of c (vb_author ` A) < 2 * stake_of c (vb_author ` {b \<in> A. vb_timestamp_ms b \<le> m})"
  shows "(\<exists>p \<in> A. vb_author p \<notin> F \<and> vb_timestamp_ms p \<le> m) \<and> (\<exists>q \<in> A. vb_author q \<notin> F \<and> m \<le> vb_timestamp_ms q)"
proof -
  have big: "2 * stake_of c F < stake_of c (vb_author ` A)"
  proof -
    have "2 * ((n - 1) div 3) < n - (n - 1) div 3" if "0 < n" for n :: nat using that by linarith
    from this[of "stake_of c (members c)"] show ?thesis using assms(1,2) quo unfolding committee_wf_def by linarith
  qed
  have ex: "\<exists>p \<in> A. vb_author p \<notin> F \<and> P p" if "stake_of c F < stake_of c (vb_author ` {b \<in> A. P b})" for P
  proof (rule ccontr)
    assume "\<not> ?thesis"
    then have "vb_author ` {b \<in> A. P b} \<subseteq> F" by auto
    from stake_of_mono[OF this assms(4)] that show False by simp
  qed
  have "stake_of c (vb_author ` A) \<le>
      stake_of c (vb_author ` {b \<in> A. vb_timestamp_ms b < m}) + stake_of c (vb_author ` {b \<in> A. m \<le> vb_timestamp_ms b})"
  proof -
    have "vb_author ` A = vb_author ` {b \<in> A. vb_timestamp_ms b < m} \<union> vb_author ` {b \<in> A. m \<le> vb_timestamp_ms b}"
      unfolding image_Un[symmetric] by (rule arg_cong[where f = "image vb_author"]) auto
    then show ?thesis unfolding stake_of_def using assms(3) by (simp add: sum_Un_nat)
  qed
  then have "stake_of c F < stake_of c (vb_author ` {b \<in> A. m \<le> vb_timestamp_ms b})"
      "stake_of c F < stake_of c (vb_author ` {b \<in> A. vb_timestamp_ms b \<le> m})"
    using big lo hi by linarith+
  then show ?thesis by (intro conjI ex)
qed

section \<open>The timestamp of a commit\<close>

lemma calculate_commit_timestamp_ok:
  assumes bft: "bft_dag c F G" and nv: "node_view c G ds" and rd: "linear_ready ds" and c: "ctx_committee ctx = c"
    and l: "lookup_block ds (reference l) = Some l" and rnd: "0 < vb_round l"
    and par: "\<forall>r \<in> set (vb_ancestors l). Suc (br_round r) = vb_round l \<longrightarrow> lookup_block ds r \<noteq> None"
  shows "\<exists>t p q. calculate_commit_timestamp ctx ds l last_ts = Some t \<and>
     lookup_block ds (reference p) = Some p \<and> reference p \<in> set (vb_ancestors l) \<and> vb_author p \<notin> F \<and>
     lookup_block ds (reference q) = Some q \<and> reference q \<in> set (vb_ancestors l) \<and> vb_author q \<notin> F \<and>
     max (vb_timestamp_ms p) last_ts \<le> t \<and> t \<le> max (vb_timestamp_ms q) last_ts"
proof -
  let ?rs = "filter (\<lambda>r. Suc (br_round r) = vb_round l) (vb_ancestors l)"
  let ?bs = "map (the \<circ> lookup_block ds) ?rs"
  have known: "\<exists>b. lookup_block ds r = Some b \<and> reference b = r" if "r \<in> set ?rs" for r
    using linear_readyD(2)[OF rd] par that by fastforce
  have get: "try_map id (get_blocks ds ?rs) = Some ?bs"
    using known by (fastforce simp: try_map_Some_iff get_blocks_eq)
  have refs: "map reference ?bs = ?rs"
    unfolding map_map by (rule map_idI) (use known in fastforce)
  have auth: "map vb_author ?bs = map br_author ?rs" using arg_cong[OF refs, of "map br_author"] by simp
  have bs: "lookup_block ds (reference b) = Some b \<and> reference b \<in> set (vb_ancestors l)" if "b \<in> set ?bs" for b
    using that known by fastforce
  have authors: "vb_author ` set ?bs = br_author ` {x \<in> set (vb_ancestors l). Suc (br_round x) = br_round (reference l)}"
    using arg_cong[OF auth, of set] by (simp add: image_image)
  have Gl: "G (reference l) = Some l" using node_viewD(5)[OF nv l] .
  have quo: "quorum c \<le> stake_of c (vb_author ` set ?bs)"
    unfolding authors using bft_dagD(8)[OF bft Gl] rnd by simp
  have mem: "\<forall>b \<in> set ?bs. vb_author b \<in> members c"
    using bs bft_dagD(5)[OF bft node_viewD(5)[OF nv]] by fastforce
  have dist: "distinct (map vb_author ?bs)"
    unfolding auth using linear_readyD(5)[OF rd l] by (rule distinct_map_filter)
  obtain m where m: "median_timestamp_by_stake ctx ?bs = Some (Inr m)"
      and half: "2 * stake_of c (vb_author ` {b \<in> set ?bs. vb_timestamp_ms b < m}) \<le> stake_of c (vb_author ` set ?bs)"
        "stake_of c (vb_author ` set ?bs) < 2 * stake_of c (vb_author ` {b \<in> set ?bs. vb_timestamp_ms b \<le> m})"
    using median_timestamp_ok[OF bft_dagD(1)[OF bft] c mem dist quo] by blast
  have "(\<exists>p \<in> set ?bs. vb_author p \<notin> F \<and> vb_timestamp_ms p \<le> m) \<and>
      (\<exists>q \<in> set ?bs. vb_author q \<notin> F \<and> m \<le> vb_timestamp_ms q)"
    by (rule median_between_honest[OF bft_dagD(1,3)[OF bft] _ bft_dagD(2)[OF bft] mem quo half]) simp
  then obtain p q where pq: "p \<in> set ?bs" "vb_author p \<notin> F" "vb_timestamp_ms p \<le> m"
      "q \<in> set ?bs" "vb_author q \<notin> F" "m \<le> vb_timestamp_ms q" by blast
  have "calculate_commit_timestamp ctx ds l last_ts = Some (max m last_ts)"
    using get m by (simp add: calculate_commit_timestamp_def del: filter.simps)
  moreover have "max (vb_timestamp_ms p) last_ts \<le> max m last_ts" "max m last_ts \<le> max (vb_timestamp_ms q) last_ts"
    using pq(3,6) by auto
  ultimately show ?thesis using pq(2,5) bs[OF pq(1)] bs[OF pq(4)] by blast
qed

end
