(* ===== verification/CommitChain.thy ===== *)
theory CommitChain
  imports CommitTimestamp
begin

text \<open>
  Committing a sequence of leaders: \<open>handle_commit\<close> returns, its commits form a chain of consecutive
  indices, linked digests and growing timestamps, and no block is committed twice.
\<close>

section \<open>States between commits\<close>

text \<open>
  A node that can commit: its blocks are verified, it has the genesis blocks, and nothing above the
  last committed leader is marked.
\<close>

definition verified_dag :: "dag_view \<Rightarrow> bool" where
  "verified_dag G \<longleftrightarrow> (\<forall>r b. G r = Some b \<longrightarrow> distinct (map br_author (vb_ancestors b)))"

definition commit_ready :: "committee \<Rightarrow> dag_view \<Rightarrow> dag_state \<Rightarrow> bool" where
  "commit_ready c G ds \<longleftrightarrow> node_view c G ds \<and> verified_dag G \<and>
     (\<forall>r. br_round r = 0 \<longrightarrow> lookup_block ds r = G r) \<and>
     0 < gc_depth (ctx_protocol_config (ds_context ds)) \<and>
     (\<forall>r. committed ds r \<longrightarrow> br_round r \<le> last_commit_round ds)"

lemma commit_ready_linear:
  assumes "commit_ready c G ds"
  shows "linear_ready ds"
proof -
  have nv: "node_view c G ds" and v: "verified_dag G" using assms by (simp_all add: commit_ready_def)
  show ?thesis
    unfolding linear_ready_def
    using node_viewD(1,2)[OF nv] node_viewD(5)[OF nv] v by (auto simp: verified_dag_def)
qed

lemma commit_ready_parents:
  assumes "bft_dag c F G" and "commit_ready c G ds" and "lookup_block ds (reference l) = Some l"
    and "last_commit_round ds < vb_round l"
  shows "\<forall>r \<in> set (vb_ancestors l). Suc (br_round r) = vb_round l \<longrightarrow> lookup_block ds r \<noteq> None"
proof (intro ballI impI)
  fix r assume r: "r \<in> set (vb_ancestors l)" "Suc (br_round r) = vb_round l"
  have nv: "node_view c G ds" using assms(2) by (simp add: commit_ready_def)
  obtain d where d: "G r = Some d" using bft_dagD(7)[OF assms(1) node_viewD(5)[OF nv assms(3)] r(1)] by blast
  show "lookup_block ds r \<noteq> None"
  proof (cases "br_round r = 0")
    case True
    then show ?thesis using assms(2) d by (simp add: commit_ready_def)
  next
    case False
    then have "gc_round ds < br_round r"
      using assms(2,4) r(2) unfolding commit_ready_def gc_round_def calculate_gc_round_def by linarith
    then show ?thesis using node_viewD(6)[OF nv assms(3) r(1)] d by simp
  qed
qed

lemma add_commit_frame:
  assumes "add_commit now c ds = Some ds'"
  shows "ds_recent_blocks ds' = ds_recent_blocks ds" "ds_context ds' = ds_context ds"
  using assms by (auto simp: add_commit_def bind_eq_Some_conv bind_rust_assert Let_def split: if_splits)

lemma causal_lookup: "causal ds a \<Longrightarrow> lookup_block ds' = lookup_block ds \<Longrightarrow> a \<le> b \<Longrightarrow> causal ds' b"
  using causal_mono[of ds a b] by (simp add: causal_def)

section \<open>One leader\<close>

text \<open>The contract of one step: what the new sub-dag \<open>sd\<close> and its commit \<open>tc\<close> are.\<close>

definition commit_step :: "dag_state \<Rightarrow> verified_block \<Rightarrow> committed_sub_dag \<Rightarrow> trusted_commit \<Rightarrow> dag_state \<Rightarrow> bool" where
  "commit_step ds l sd tc ds' \<longleftrightarrow>
     tc_index tc = last_commit_index ds + 1 \<and> last_commit_timestamp_ms ds \<le> tc_timestamp_ms tc \<and>
     commit_previous_digest (tc_inner tc) = last_commit_digest ds \<and> tc_leader tc = reference l \<and>
     tc_blocks tc = map reference (sd_blocks sd) \<and>
     sd_leader sd = reference l \<and> sd_timestamp_ms sd = tc_timestamp_ms tc \<and> sd_commit_ref sd = tc_reference tc \<and>
     (\<exists>dsm. sub_dag_of ds l (sd_blocks sd) dsm) \<and>
     (\<forall>r. committed ds' r \<longleftrightarrow> committed ds r \<or> r \<in> reference ` set (sd_blocks sd)) \<and>
     ds_last_commit ds' = Some tc \<and> ds_commits_to_write ds' = ds_commits_to_write ds @ [tc] \<and>
     lookup_block ds' = lookup_block ds"

lemma pruned_metric_ok:
  assumes wf: "length (ds_last_committed_rounds ds) = committee_size c" and c: "ctx_committee ctx = c"
    and mem: "\<And>b x. b \<in> set (sd_blocks sd) \<Longrightarrow> x \<in> set (vb_ancestors b) \<Longrightarrow> br_author x \<in> members c"
  shows "update_blocks_pruned_metric ctx ds sd = Some ()"
proof -
  let ?xs = "concat (map vb_ancestors (sd_blocks sd))"
  let ?q = "\<lambda>r. br_round r \<le> gc_round ds \<and> ds_last_committed_rounds ds ! br_author r \<noteq> br_round r"
  have m: "br_author r < committee_size c" if "r \<in> set ?xs" for r using mem that by (auto simp: members_def)
  have "try_filter (\<lambda>r. if br_round r \<le> gc_round ds
         then map_option (\<lambda>l. l \<noteq> br_round r) (vec_get (ds_last_committed_rounds ds) (br_author r))
         else Some False) ?xs = Some (filter ?q ?xs)"
    using m wf by (intro try_filter_total) (auto simp: vec_get_def)
  moreover have "try_map (\<lambda>r. committee_authority (ctx_committee ctx) (br_author r)) (filter ?q ?xs) =
      Some (map (\<lambda>r. c_authorities c ! br_author r) (filter ?q ?xs))"
    using m c by (intro try_map_total) (auto simp: committee_authority_def vec_get_def committee_size_def)
  ultimately show ?thesis by (simp add: update_blocks_pruned_metric_def)
qed

lemma sub_dag_rounds:
  assumes "linear_ready ds" and "sub_dag_of ds l bs dsm" and "b \<in> set bs"
  shows "vb_round b \<le> vb_round l"
proof -
  have "b \<in> round_mates ds l \<or> (reference l, reference b) \<in> (parent ds)\<^sup>*"
    using assms(2,3) by (auto simp: sub_dag_of_def reachable_def)
  then show ?thesis
  proof
    assume "(reference l, reference b) \<in> (parent ds)\<^sup>*"
    then have "reference b = reference l \<or> br_round (reference b) < br_round (reference l)"
      using parent_rtrancl_round assms(1) unfolding linear_ready_def by blast
    then show ?thesis by (metis less_imp_le order_refl reference_simps(1))
  qed (simp add: round_mates_def)
qed

lemma commit_step_ready:
  assumes rd: "commit_ready c G ds" and st: "commit_step ds l sd tc ds'" and inv: "dag_inv ds'"
    and ctx: "ds_context ds' = ds_context ds" and rnd: "last_commit_round ds < vb_round l"
  shows "commit_ready c G ds'"
proof -
  have nv: "node_view c G ds" using rd by (simp add: commit_ready_def)
  have look: "lookup_block ds' = lookup_block ds" and tc: "ds_last_commit ds' = Some tc" "tc_leader tc = reference l"
    using st by (simp_all add: commit_step_def)
  have last_r: "last_commit_round ds' = vb_round l" using tc by (simp add: last_commit_round_def)
  then have "gc_round ds \<le> gc_round ds'"
    using rnd ctx by (simp add: gc_round_def calculate_gc_round_def diff_le_mono)
  then have "node_view c G ds'"
    using nv inv look ctx unfolding node_view_def by (auto intro: causal_lookup)
  moreover have "br_round r \<le> vb_round l" if "committed ds' r" for r
  proof -
    have "committed ds r \<or> r \<in> reference ` set (sd_blocks sd)" using st that by (simp add: commit_step_def)
    then show ?thesis
    proof
      assume "committed ds r"
      then have "br_round r \<le> last_commit_round ds" using rd by (simp add: commit_ready_def)
      then show ?thesis using rnd by simp
    next
      assume "r \<in> reference ` set (sd_blocks sd)"
      then show ?thesis
        using st sub_dag_rounds[OF commit_ready_linear[OF rd]] by (auto simp: commit_step_def)
    qed
  qed
  ultimately show ?thesis using rd look ctx last_r unfolding commit_ready_def by auto
qed

lemma collect_ok:
  assumes bft: "bft_dag c F G" and rd: "commit_ready c G ds" and c: "ctx_committee ctx = c"
    and ser: "\<forall>x. ser x \<noteq> None" and l: "lookup_block ds (reference l) = Some l"
    and rnd: "last_commit_round ds < vb_round l"
  shows "\<exists>dsm sd tc. collect_sub_dag_and_commit ser hash ctx l ds = Some (dsm, sd, tc) \<and>
     sub_dag_of ds l (sd_blocks sd) dsm \<and> tc_index tc = last_commit_index ds + 1 \<and>
     last_commit_timestamp_ms ds \<le> tc_timestamp_ms tc \<and>
     commit_previous_digest (tc_inner tc) = last_commit_digest ds \<and> tc_leader tc = reference l \<and>
     tc_blocks tc = map reference (sd_blocks sd) \<and> sd_leader sd = reference l \<and>
     sd_timestamp_ms sd = tc_timestamp_ms tc \<and> sd_commit_ref sd = tc_reference tc"
proof -
  note lin = commit_ready_linear[OF rd]
  have nv: "node_view c G ds" using rd by (simp add: commit_ready_def)
  have unc: "\<not> committed ds (reference l)" using rd rnd by (fastforce simp: commit_ready_def)
  obtain dsm bs where bs: "linearize_sub_dag l ds = Some (dsm, bs)" "sub_dag_of ds l bs dsm"
    using linearize_sub_dag_ok[OF lin l rnd unc] by blast
  have m: "marks_only ds dsm" using bs(2) by (simp add: sub_dag_of_def)
  note fr = marks_only_frame[OF m]
  have nvm: "node_view c G dsm"
    using nv fr(1-3,5) unfolding node_view_def by (auto intro: causal_lookup)
  obtain t where t: "calculate_commit_timestamp ctx dsm l (last_commit_timestamp_ms ds) = Some t"
      "last_commit_timestamp_ms ds \<le> t"
    using calculate_commit_timestamp_ok[OF bft nvm linear_ready_marks[OF lin m] c, of l "last_commit_timestamp_ms ds"]
      commit_ready_parents[OF bft rd l rnd] l rnd fr(2) by auto
  obtain bytes where "ser (commit_new (last_commit_index ds + 1) (last_commit_digest ds) t (reference l)
      (map reference bs)) = Some bytes" using ser by blast
  then show ?thesis
    using bs t by (simp add: collect_sub_dag_and_commit_def committed_sub_dag_new_def tc_index_def tc_timestamp_ms_def
        tc_leader_def tc_blocks_def Let_def)
qed

lemma handle_commit_step_ok:
  assumes bft: "bft_dag c F G" and rd: "commit_ready c G ds" and c: "ctx_committee ctx = c"
    and ser: "\<forall>x. ser x \<noteq> None" and l: "lookup_block ds (reference l) = Some l"
    and rnd: "last_commit_round ds < vb_round l"
  shows "\<exists>ds' sd tc. handle_commit_step ser hash now ctx l (ds, sds) = Some (ds', sds @ [sd]) \<and>
     commit_step ds l sd tc ds' \<and> commit_ready c G ds'"
proof -
  have nv: "node_view c G ds" using rd by (simp add: commit_ready_def)
  obtain dsm sd tc where col: "collect_sub_dag_and_commit ser hash ctx l ds = Some (dsm, sd, tc)"
      and sub: "sub_dag_of ds l (sd_blocks sd) dsm"
      and tc: "tc_index tc = last_commit_index ds + 1" "last_commit_timestamp_ms ds \<le> tc_timestamp_ms tc"
        "commit_previous_digest (tc_inner tc) = last_commit_digest ds" "tc_leader tc = reference l"
        "tc_blocks tc = map reference (sd_blocks sd)" "sd_leader sd = reference l"
        "sd_timestamp_ms sd = tc_timestamp_ms tc" "sd_commit_ref sd = tc_reference tc"
    using collect_ok[OF assms] by blast
  have m: "marks_only ds dsm" using sub by (simp add: sub_dag_of_def)
  note fr = marks_only_frame[OF m]
  have com: "dsm = dsm\<lparr>ds_last_commit := ds_last_commit ds\<rparr>" using fr(4) by simp
  have last_eq: "last_commit_index dsm = last_commit_index ds" "last_commit_round dsm = last_commit_round ds"
      "last_commit_timestamp_ms dsm = last_commit_timestamp_ms ds"
    using fr(4) by (simp_all add: last_commit_index_def last_commit_round_def last_commit_timestamp_ms_def)
  have known: "G (reference b) = Some b" if "b \<in> set (sd_blocks sd)" for b
    using sub that node_viewD(5)[OF nv] by (simp add: sub_dag_of_def)
  have invm: "dag_inv dsm" using fr(1) node_viewD(1)[OF nv] .
  have sz: "ds_size dsm = committee_size c" using fr(5) node_viewD(3)[OF nv] by simp
  have "update_blocks_pruned_metric ctx dsm sd = Some ()"
  proof (rule pruned_metric_ok[OF _ c])
    show "length (ds_last_committed_rounds dsm) = committee_size c"
      using invm sz by (simp add: dag_inv_def cache_inv_def)
    show "br_author x \<in> members c" if "b \<in> set (sd_blocks sd)" "x \<in> set (vb_ancestors b)" for b x
      using bft_dagD(7)[OF bft known[OF that(1)] that(2)] bft_dagD(5)[OF bft] by blast
  qed
  moreover obtain ds' where ds': "add_commit now tc dsm = Some ds'" "dag_inv ds'" "lookup_block ds' = lookup_block dsm"
      "ds_last_commit ds' = Some tc" "ds_commits_to_write ds' = ds_commits_to_write dsm @ [tc]"
  proof -
    have "\<forall>r \<in> set (tc_blocks tc). br_author r < ds_size dsm"
      using bft_dagD(5)[OF bft known] sz tc(5) by (auto simp: members_def)
    moreover have "last_commit_round dsm \<le> tc_commit_round tc"
      using last_eq(2) rnd tc(4) by (simp add: tc_commit_round_leader)
    ultimately show ?thesis using add_commit_spec[OF invm, of tc now] tc(1,2) last_eq(1,3) that by auto
  qed
  ultimately have step: "handle_commit_step ser hash now ctx l (ds, sds) = Some (ds', sds @ [sd])"
    using col by (simp add: handle_commit_step_def)
  have marks: "committed ds' r \<longleftrightarrow> committed ds r \<or> r \<in> reference ` set (sd_blocks sd)" for r
    using add_commit_frame(1)[OF ds'(1)] sub unfolding sub_dag_of_def committed_def is_committed_def by simp
  have "commit_step ds l sd tc ds'"
    unfolding commit_step_def using tc sub marks ds'(3-5) fr(2,9) by auto
  moreover have "ds_context ds' = ds_context ds"
    using add_commit_frame(2)[OF ds'(1)] fr(7) by (simp add: same_frame_def)
  ultimately show ?thesis using step commit_step_ready[OF rd _ ds'(2) _ rnd] by blast
qed

section \<open>Orphans\<close>

text \<open>
  An uncommitted block that only committed blocks refer to. The work list stops at committed blocks,
  so no later leader collects it.
\<close>

definition orphan :: "dag_state \<Rightarrow> block_ref \<Rightarrow> bool" where
  "orphan ds y \<longleftrightarrow> \<not> committed ds y \<and> br_round y \<le> last_commit_round ds \<and>
     (\<forall>r b. lookup_block ds r = Some b \<and> y \<in> set (vb_ancestors b) \<longrightarrow> committed ds r)"

lemma sub_dag_child:
  assumes "sub_dag_of ds l bs dsm" and "b \<in> set bs" and "vb_round b < vb_round l"
  shows "\<exists>p. lookup_block ds (reference p) = Some p \<and> p \<notin> round_mates ds l \<and>
     reference b \<in> set (vb_ancestors p) \<and> \<not> committed ds (reference p)"
proof -
  have "b \<notin> round_mates ds l" "b \<noteq> l" using assms(3) by (auto simp: round_mates_def)
  then obtain p where "p \<in> set bs - round_mates ds l" "reference b \<in> set (vb_ancestors p)"
    using assms(1,2) unfolding sub_dag_of_def by blast
  then show ?thesis using assms(1) unfolding sub_dag_of_def by blast
qed

lemma orphan_step:
  assumes st: "commit_step ds l sd tc ds'" and y: "orphan ds y" and rnd: "last_commit_round ds < vb_round l"
  shows "orphan ds' y"
proof -
  obtain dsm where sub: "sub_dag_of ds l (sd_blocks sd) dsm" using st by (auto simp: commit_step_def)
  have "y \<notin> reference ` set (sd_blocks sd)"
  proof
    assume "y \<in> reference ` set (sd_blocks sd)"
    then obtain b where b: "b \<in> set (sd_blocks sd)" "y = reference b" by blast
    then have "vb_round b < vb_round l" using y rnd by (simp add: orphan_def)
    from sub_dag_child[OF sub b(1) this] show False using y b(2) unfolding orphan_def by blast
  qed
  moreover have "committed ds r \<Longrightarrow> committed ds' r" for r using st by (simp add: commit_step_def)
  moreover have "last_commit_round ds' = vb_round l" "lookup_block ds' = lookup_block ds"
      "\<forall>r. committed ds' r \<longleftrightarrow> committed ds r \<or> r \<in> reference ` set (sd_blocks sd)"
    using st by (simp_all add: commit_step_def last_commit_round_def)
  ultimately show ?thesis using y rnd unfolding orphan_def by auto
qed

text \<open>An ancestor that only another block of the leader's round refers to becomes an orphan.\<close>

lemma orphan_made:
  assumes rd: "commit_ready c G ds" and st: "commit_step ds l sd tc ds'" and rnd: "last_commit_round ds < vb_round l"
    and x: "x \<in> round_mates ds l" and y: "y \<in> set (vb_ancestors x)" "\<not> committed ds y"
    and only: "\<forall>b. lookup_block ds (reference b) = Some b \<and> y \<in> set (vb_ancestors b) \<longrightarrow> b = x"
  shows "x \<in> set (sd_blocks sd) \<and> orphan ds' y"
proof -
  obtain dsm where sub: "sub_dag_of ds l (sd_blocks sd) dsm" using st by (auto simp: commit_step_def)
  have xs: "x \<in> set (sd_blocks sd)" using sub x by (auto simp: sub_dag_of_def)
  have low: "br_round y < vb_round l"
    using linear_readyD(6)[OF commit_ready_linear[OF rd], of "reference x" x y] x y(1) by (simp add: round_mates_def)
  have no: "y \<notin> reference ` set (sd_blocks sd)"
  proof
    assume "y \<in> reference ` set (sd_blocks sd)"
    then obtain b where b: "b \<in> set (sd_blocks sd)" "y = reference b" by blast
    then have "vb_round b < vb_round l" using low by simp
    from sub_dag_child[OF sub b(1) this] show False using only x b(2) by blast
  qed
  have st': "last_commit_round ds' = vb_round l" "lookup_block ds' = lookup_block ds"
      "\<forall>r. committed ds' r \<longleftrightarrow> committed ds r \<or> r \<in> reference ` set (sd_blocks sd)"
    using st by (simp_all add: commit_step_def last_commit_round_def)
  have "committed ds' r" if "lookup_block ds r = Some b" "y \<in> set (vb_ancestors b)" for r b
  proof -
    have "reference b = r" using linear_readyD(2)[OF commit_ready_linear[OF rd] that(1)] .
    then have "b = x" using only that by blast
    then show ?thesis using xs st'(3) \<open>reference b = r\<close> by blast
  qed
  then show ?thesis using xs no y(2) low st' unfolding orphan_def by auto
qed

section \<open>A sequence of leaders\<close>

fun commit_chain :: "digest \<Rightarrow> commit_index \<Rightarrow> block_timestamp_ms \<Rightarrow> trusted_commit list \<Rightarrow> bool" where
  "commit_chain prev idx ts [] \<longleftrightarrow> True"
| "commit_chain prev idx ts (c # cs) \<longleftrightarrow> commit_previous_digest (tc_inner c) = prev \<and> tc_index c = idx + 1 \<and>
     ts \<le> tc_timestamp_ms c \<and> commit_chain (tc_digest c) (tc_index c) (tc_timestamp_ms c) cs"

text \<open>What the run over the leaders returns and leaves behind.\<close>

definition committed_run :: "dag_state \<Rightarrow> verified_block list \<Rightarrow> committed_sub_dag list \<Rightarrow> trusted_commit list
    \<Rightarrow> dag_state \<Rightarrow> bool" where
  "committed_run ds leaders sds cs ds' \<longleftrightarrow>
     ds_commits_to_write ds' = ds_commits_to_write ds @ cs \<and>
     commit_chain (last_commit_digest ds) (last_commit_index ds) (last_commit_timestamp_ms ds) cs \<and>
     map tc_leader cs = map reference leaders \<and> map sd_leader sds = map reference leaders \<and>
     map sd_commit_ref sds = map tc_reference cs \<and> map sd_timestamp_ms sds = map tc_timestamp_ms cs \<and>
     map (map reference \<circ> sd_blocks) sds = map tc_blocks cs \<and>
     distinct (concat (map tc_blocks cs)) \<and>
     (\<forall>r \<in> set (concat (map tc_blocks cs)). \<not> committed ds r) \<and>
     (\<forall>r. committed ds' r \<longleftrightarrow> committed ds r \<or> r \<in> set (concat (map tc_blocks cs))) \<and>
     lookup_block ds' = lookup_block ds"

lemma committed_run_step:
  assumes st: "commit_step ds l sd tc ds1" and run: "committed_run ds1 ls sds cs ds'"
  shows "committed_run ds (l # ls) (sd # sds) (tc # cs) ds'"
proof -
  have tc: "ds_last_commit ds1 = Some tc" "tc_blocks tc = map reference (sd_blocks sd)"
    using st by (simp_all add: commit_step_def)
  then have ch: "commit_chain (tc_digest tc) (tc_index tc) (tc_timestamp_ms tc) cs"
    using run by (simp add: committed_run_def last_commit_digest_def last_commit_index_def last_commit_timestamp_ms_def)
  have new: "distinct (tc_blocks tc)" "\<forall>r \<in> set (tc_blocks tc). \<not> committed ds r \<and> committed ds1 r"
    using st tc(2) by (auto simp: commit_step_def sub_dag_of_def)
  have later: "\<not> committed ds1 r" if "r \<in> set (concat (map tc_blocks cs))" for r
    using run that by (auto simp: committed_run_def)
  have "distinct (concat (map tc_blocks (tc # cs)))"
    using new run later unfolding list.map concat.simps distinct_append committed_run_def by blast
  moreover have "\<not> committed ds r" if "r \<in> set (concat (map tc_blocks (tc # cs)))" for r
    using that new(2) later[of r] st by (auto simp: commit_step_def)
  moreover have "committed ds' r \<longleftrightarrow> committed ds r \<or> r \<in> set (concat (map tc_blocks (tc # cs)))" for r
    using run st tc(2) by (auto simp: committed_run_def commit_step_def)
  ultimately show ?thesis
    using st run ch unfolding committed_run_def commit_step_def by auto
qed

lemma handle_commits_ok:
  assumes bft: "bft_dag c F G" and c: "ctx_committee ctx = c" and ser: "\<forall>x. ser x \<noteq> None"
  shows "commit_ready c G ds \<Longrightarrow> sorted_wrt (\<lambda>a b. vb_round a < vb_round b) leaders \<Longrightarrow>
     (\<forall>l \<in> set leaders. lookup_block ds (reference l) = Some l \<and> last_commit_round ds < vb_round l) \<Longrightarrow>
     \<exists>ds' sds cs. try_fold (handle_commit_step ser hash now ctx) leaders (ds, acc) = Some (ds', acc @ sds) \<and>
       committed_run ds leaders sds cs ds' \<and> commit_ready c G ds' \<and> (\<forall>y. orphan ds y \<longrightarrow> orphan ds' y)"
proof (induction leaders arbitrary: ds acc)
  case Nil
  then show ?case by (intro exI[of _ ds] exI[of _ "[]"]) (simp add: committed_run_def)
next
  case (Cons l ls)
  obtain ds1 sd tc where st: "handle_commit_step ser hash now ctx l (ds, acc) = Some (ds1, acc @ [sd])"
      "commit_step ds l sd tc ds1" "commit_ready c G ds1"
    using handle_commit_step_ok[OF bft Cons.prems(1) c ser, of l hash now acc] Cons.prems(3) by fastforce
  have "last_commit_round ds1 = vb_round l" "lookup_block ds1 = lookup_block ds"
    using st(2) by (simp_all add: commit_step_def last_commit_round_def)
  then have "\<exists>ds' sds cs. try_fold (handle_commit_step ser hash now ctx) ls (ds1, acc @ [sd]) =
      Some (ds', (acc @ [sd]) @ sds) \<and> committed_run ds1 ls sds cs ds' \<and> commit_ready c G ds' \<and>
      (\<forall>y. orphan ds1 y \<longrightarrow> orphan ds' y)"
    using Cons.prems(2,3) st(3) by (intro Cons.IH) auto
  then obtain ds' sds cs where "try_fold (handle_commit_step ser hash now ctx) ls (ds1, acc @ [sd]) =
      Some (ds', (acc @ [sd]) @ sds)" "committed_run ds1 ls sds cs ds'" "commit_ready c G ds'"
      "\<forall>y. orphan ds1 y \<longrightarrow> orphan ds' y" by blast
  then show ?case
    using st(1) committed_run_step[OF st(2)] orphan_step[OF st(2)] Cons.prems(3)
    by (intro exI[of _ ds'] exI[of _ "sd # sds"] exI[of _ "tc # cs"]) simp
qed

end
