(* ===== verification/ListDag.thy ===== *)
theory ListDag
  imports CommitChain
begin

text \<open>
  DAGs given by an explicit list of blocks, with an executable check that such a list is a DAG of an
  epoch, and the state of a node that accepted the list. Used by the witnesses on irregular DAGs.
\<close>

section \<open>The check\<close>

type_synonym block_shape = "block_ref \<times> block_ref list"

definition shape :: "verified_block \<Rightarrow> block_shape" where
  "shape b = (reference b, vb_ancestors b)"

definition list_dag :: "verified_block list \<Rightarrow> dag_view" where
  "list_dag bs = map_of (map (\<lambda>b. (reference b, b)) bs)"

definition stake_list :: "committee \<Rightarrow> authority_index list \<Rightarrow> nat" where
  "stake_list c xs = sum_list (map (weight c) (remdups xs))"

definition block_check :: "committee \<Rightarrow> block_ref list \<Rightarrow> block_shape \<Rightarrow> bool" where
  "block_check c refs = (\<lambda>(r, as). br_author r < committee_size c \<and> distinct (map br_author as) \<and>
     list_all (\<lambda>x. br_round x < br_round r \<and> x \<in> set refs) as \<and>
     (0 < br_round r \<longrightarrow> quorum c \<le>
        stake_list c (map br_author (filter (\<lambda>x. Suc (br_round x) = br_round r) as))))"

definition chain_check :: "authority_index list \<Rightarrow> block_shape \<Rightarrow> block_shape \<Rightarrow> bool" where
  "chain_check F = (\<lambda>(r, as) (r', _). br_author r = br_author r' \<longrightarrow> br_author r \<in> set F \<or>
     (br_round r' = br_round r \<longrightarrow> r' = r) \<and>
     (br_round r' < br_round r \<longrightarrow> (case as of x # _ \<Rightarrow> br_author x = br_author r \<and> br_round r' \<le> br_round x
        | [] \<Rightarrow> False)))"

definition dag_check :: "committee \<Rightarrow> authority_index list \<Rightarrow> block_shape list \<Rightarrow> bool" where
  "dag_check c F ss \<longleftrightarrow> distinct (map fst ss) \<and> list_all (block_check c (map fst ss)) ss \<and>
     list_all (\<lambda>s. list_all (chain_check F s) ss) ss"

lemma stake_list_eq: "stake_list c xs = stake_of c (set xs)"
  unfolding stake_list_def stake_of_def by (metis set_remdups distinct_remdups sum_list_distinct_conv_sum_set)

lemma list_dag_iff:
  assumes "distinct (map reference bs)"
  shows "list_dag bs r = Some b \<longleftrightarrow> b \<in> set bs \<and> reference b = r"
proof -
  have "map fst (map (\<lambda>b. (reference b, b)) bs) = map reference bs" by simp
  then have "distinct (map fst (map (\<lambda>b. (reference b, b)) bs))" using assms by (simp only:)
  then show ?thesis unfolding list_dag_def map_of_eq_Some_iff by auto
qed

lemma dag_check_bft:
  assumes "committee_wf c" and "set F \<subseteq> members c" and "stake_of c (set F) < validity c"
    and chk: "dag_check c F (map shape bs)"
  shows "bft_dag c (set F) (list_dag bs) \<and> verified_dag (list_dag bs)"
proof -
  have refs: "map fst (map shape bs) = map reference bs" by (simp add: shape_def)
  have d: "distinct (map reference bs)" using chk unfolding dag_check_def refs by blast
  note look = list_dag_iff[OF d]
  have known: "list_dag bs x \<noteq> None \<longleftrightarrow> x \<in> reference ` set bs" for x
    using look[of x] by auto
  have one: "block_check c (map reference bs) (shape b)" if "b \<in> set bs" for b
    using chk that unfolding dag_check_def refs by (simp add: list_all_iff)
  have two: "chain_check F (shape b) (shape b')" if "b \<in> set bs" "b' \<in> set bs" for b b'
    using chk that unfolding dag_check_def by (simp add: list_all_iff)
  have blk: "reference b = r \<and> br_author r \<in> members c \<and>
        (\<forall>x \<in> set (vb_ancestors b). br_round x < br_round r \<and> list_dag bs x \<noteq> None) \<and>
        (0 < br_round r \<longrightarrow> quorum c \<le>
           stake_of c (br_author ` {x \<in> set (vb_ancestors b). Suc (br_round x) = br_round r}))"
    if "list_dag bs r = Some b" for r b
  proof -
    have b: "b \<in> set bs" "reference b = r" using that look by auto
    then show ?thesis
      using one[OF b(1)] unfolding known block_check_def shape_def
      by (simp add: stake_list_eq members_def list_all_iff)
  qed
  have chain: "(br_round r' = br_round r \<longrightarrow> r' = r) \<and> (br_round r' < br_round r \<longrightarrow>
      (\<exists>x xs. vb_ancestors b = x # xs \<and> br_author x = br_author r \<and> br_round r' \<le> br_round x))"
    if r: "list_dag bs r = Some b" "list_dag bs r' = Some b'" "br_author r = br_author r'" "br_author r \<notin> set F"
    for r r' b b'
  proof -
    have b: "b \<in> set bs" "reference b = r" "b' \<in> set bs" "reference b' = r'" using r(1,2) look by auto
    then show ?thesis
      using two[OF b(1,3)] r(3,4) unfolding chain_check_def shape_def
      by (auto split: list.splits)
  qed
  have "verified_dag (list_dag bs)"
    unfolding verified_dag_def look using one by (auto simp: block_check_def shape_def)
  moreover have "\<forall>r r' b. list_dag bs r = Some b \<and> list_dag bs r' \<noteq> None \<and> br_author r = br_author r' \<and>
      br_author r \<notin> set F \<longrightarrow> (br_round r' = br_round r \<longrightarrow> r' = r) \<and> (br_round r' < br_round r \<longrightarrow>
      (\<exists>x xs. vb_ancestors b = x # xs \<and> br_author x = br_author r \<and> br_round r' \<le> br_round x))"
    by (intro allI impI, elim conjE) (drule not_None_eq[THEN iffD1], elim exE, rule chain)
  moreover have "\<forall>r b. list_dag bs r = Some b \<longrightarrow> reference b = r \<and> br_author r \<in> members c \<and>
        (\<forall>x \<in> set (vb_ancestors b). br_round x < br_round r \<and> list_dag bs x \<noteq> None) \<and>
        (0 < br_round r \<longrightarrow> quorum c \<le>
           stake_of c (br_author ` {x \<in> set (vb_ancestors b). Suc (br_round x) = br_round r}))"
    by (intro allI impI blk)
  ultimately show ?thesis unfolding bft_dag_def using assms(1-3) by (intro conjI)
qed

section \<open>The state of a node\<close>

lemma accept_block_unmarked:
  assumes "accept_block now b ds = Some ds'" and "committed ds' r"
  shows "committed ds r"
  using assms
  by (auto simp: accept_block_def update_block_metadata_def bind_eq_Some_conv bind_rust_assert Let_def
      committed_def is_committed_def block_info_new_def split: if_splits)

lemma accept_blocks_unmarked:
  "accept_blocks now bs ds = Some ds' \<Longrightarrow> committed ds' r \<Longrightarrow> committed ds r"
  unfolding accept_blocks_def
  by (induction bs arbitrary: ds) (auto simp: bind_eq_Some_conv dest: accept_block_unmarked)

lemma example_genesis_shape:
  "map shape example_genesis = [(BlockRef 0 0 0, []), (BlockRef 0 1 1, []), (BlockRef 0 2 2, []), (BlockRef 0 3 3, [])]"
  by (simp add: example_genesis_def shape_def reference_def new_verified_def signed_block_new_genesis_def
      genesis_block_v1_def block_v1_new_def vb_round_def vb_author_def vb_ancestors_def inner_def example_hash_def
      GENESIS_ROUND_def)

lemma list_state:
  assumes chk: "dag_check committee4 F (map shape (example_genesis @ bs))"
    and slots: "distinct (map (slot_of_ref \<circ> reference) bs)" and pos: "\<forall>b \<in> set bs. 0 < vb_round b"
    and F: "set F \<subseteq> members committee4" "stake_of committee4 (set F) < validity committee4"
  shows "\<exists>ds. accept_blocks 8 bs (fresh_state example_ctx 7 example_genesis) = Some ds \<and>
     commit_ready committee4 (list_dag (example_genesis @ bs)) ds \<and> ds_context ds = example_ctx \<and>
     ds_last_commit ds = None \<and> lookup_block ds = list_dag (example_genesis @ bs) \<and> (\<forall>r. \<not> committed ds r)"
proof -
  let ?ds = "fresh_state example_ctx 7 example_genesis" and ?G = "list_dag (example_genesis @ bs)"
  note fresh = fresh_inv[OF example_genesis_blocks example_ctx_ok, of 7]
  have f: "ds_context ?ds = example_ctx" "ds_last_commit ?ds = None" "ds_size ?ds = 4"
      "ds_recent_blocks ?ds = fmempty"
    by (simp_all add: fresh_state_def example_ctx_def committee4_def committee_size_def)
  have gen: "vb_round b = 0" if "b \<in> set example_genesis" for b
  proof -
    have "shape b \<in> set (map shape example_genesis)" using that by simp
    then have "br_round (fst (shape b)) = 0" unfolding example_genesis_shape by auto
    then show ?thesis by (simp add: shape_def)
  qed
  have refs: "map fst (map shape (example_genesis @ bs)) = map reference (example_genesis @ bs)" by (simp add: shape_def)
  have d: "distinct (map reference (example_genesis @ bs))" using chk unfolding dag_check_def refs by blast
  have bft: "bft_dag committee4 (set F) ?G" and ver: "verified_dag ?G"
    using dag_check_bft[OF committee4_wf F chk] by blast+
  have auth: "vb_author b < 4" if "b \<in> set bs" for b
    using bft_dagD(5)[OF bft, of "reference b" b] that list_dag_iff[OF d] by (auto simp: committee4_members)
  have "\<exists>ds'. accept_blocks 8 bs ?ds = Some ds' \<and> dag_inv ds' \<and> same_frame ?ds ds' \<and>
     (\<forall>r b. lookup_block ds' r = Some b \<longleftrightarrow> lookup_block ?ds r = Some b \<or> b \<in> set bs \<and> reference b = r) \<and>
     ds_highest_accepted_round ds' = fold max (map vb_round bs) (ds_highest_accepted_round ?ds)"
    using slots pos f auth gen by (intro accept_blocks_ok fresh(1)) (fastforce simp: fresh(2) slot_of_ref_def)+
  then obtain ds where ds: "accept_blocks 8 bs ?ds = Some ds" "dag_inv ds" "same_frame ?ds ds"
      "\<And>r b. lookup_block ds r = Some b \<longleftrightarrow> lookup_block ?ds r = Some b \<or> b \<in> set bs \<and> reference b = r"
    by auto
  have "lookup_block ds r = Some b \<longleftrightarrow> ?G r = Some b" for r b
    unfolding ds(4) fresh(2) list_dag_iff[OF d] by auto
  then have look: "lookup_block ds = ?G" by (metis ext option.exhaust)
  have un: "\<not> committed ds r" for r
    using accept_blocks_unmarked[OF ds(1), of r] f(4) by (auto simp: committed_def is_committed_def)
  have "causal ds (Suc (gc_round ds))"
    unfolding causal_def look using bft_dagD(6,7)[OF bft] by blast
  then have "node_view committee4 ?G ds"
    using ds(2,3) f by (simp add: node_view_def look same_frame_def example_ctx_def)
  then have "commit_ready committee4 ?G ds"
    using ver un ds(3) f
    by (simp add: commit_ready_def look same_frame_def example_ctx_def example_config_def gc_depth_def)
  then show ?thesis using ds(1,3) f look un by (auto simp: same_frame_def)
qed

text \<open>A node may know only a part of the DAG.\<close>

lemma commit_ready_mono:
  assumes "commit_ready c G ds" and "G \<subseteq>\<^sub>m G'" and "verified_dag G'" and "\<forall>r. br_round r = 0 \<longrightarrow> G' r = G r"
  shows "commit_ready c G' ds"
  using assms node_view_mono[OF _ assms(2)] by (simp add: commit_ready_def)

section \<open>A thin DAG\<close>

text \<open>
  Three rounds of four authorities. From round 2 on the authorities 0, 1 and 2 refer only to each
  other; the block of authority 3 in round 2 is referred to by nobody, and is the only one that
  refers to its block of round 1.
\<close>

definition late_block :: verified_block where
  "late_block = mk_block 2 3 23 203 [BlockRef 1 3 13, BlockRef 1 0 10, BlockRef 1 1 11, BlockRef 1 2 12]"

definition thin_blocks :: "verified_block list" where
  "thin_blocks =
     [mk_block 1 0 10 100 [BlockRef 0 0 0, BlockRef 0 1 1, BlockRef 0 2 2, BlockRef 0 3 3],
      mk_block 1 1 11 101 [BlockRef 0 1 1, BlockRef 0 0 0, BlockRef 0 2 2, BlockRef 0 3 3],
      mk_block 1 2 12 102 [BlockRef 0 2 2, BlockRef 0 0 0, BlockRef 0 1 1, BlockRef 0 3 3],
      mk_block 1 3 13 103 [BlockRef 0 3 3, BlockRef 0 0 0, BlockRef 0 1 1, BlockRef 0 2 2],
      mk_block 2 0 20 200 [BlockRef 1 0 10, BlockRef 1 1 11, BlockRef 1 2 12],
      mk_block 2 1 21 201 [BlockRef 1 1 11, BlockRef 1 0 10, BlockRef 1 2 12],
      mk_block 2 2 22 202 [BlockRef 1 2 12, BlockRef 1 0 10, BlockRef 1 1 11],
      mk_block 3 0 30 300 [BlockRef 2 0 20, BlockRef 2 1 21, BlockRef 2 2 22],
      mk_block 3 1 31 301 [BlockRef 2 1 21, BlockRef 2 0 20, BlockRef 2 2 22],
      mk_block 3 2 32 302 [BlockRef 2 2 22, BlockRef 2 0 20, BlockRef 2 1 21]]"

lemmas thin_shapes = thin_blocks_def late_block_def shape_def mk_block_simps

lemma thin_check:
  "dag_check committee4 [3] (map shape (example_genesis @ thin_blocks))"
  "dag_check committee4 [3] (map shape (example_genesis @ thin_blocks @ [late_block]))"
proof -
  have quo: "quorum committee4 = 3" "committee_size committee4 = 4"
    by (simp_all add: quorum_def committee4_def committee_size_def)
  show "dag_check committee4 [3] (map shape (example_genesis @ thin_blocks))"
    by (simp add: example_genesis_shape thin_shapes dag_check_def block_check_def chain_check_def quo
        stake_list_def committee4_weight)
  show "dag_check committee4 [3] (map shape (example_genesis @ thin_blocks @ [late_block]))"
    by (simp add: example_genesis_shape thin_shapes dag_check_def block_check_def chain_check_def quo
        stake_list_def committee4_weight)
qed

definition thin_dag :: dag_view where
  "thin_dag = list_dag (example_genesis @ thin_blocks @ [late_block])"

lemma check_distinct: "dag_check c F (map shape bs) \<Longrightarrow> distinct (map reference bs)"
  by (simp add: dag_check_def comp_def shape_def)

lemma faulty3: "set [3] \<subseteq> members committee4" "stake_of committee4 (set [3]) < validity committee4"
  by (simp_all add: committee4_members stake_of_def committee4_weight validity_def) (simp add: committee4_def)

lemma thin_dag_ok: "bft_dag committee4 {3} thin_dag" "verified_dag thin_dag"
  using dag_check_bft[OF committee4_wf faulty3 thin_check(2)] by (simp_all add: thin_dag_def)

lemma thin_dag_iff: "thin_dag r = Some b \<longleftrightarrow> b \<in> set (example_genesis @ thin_blocks @ [late_block]) \<and> reference b = r"
  unfolding thin_dag_def by (rule list_dag_iff[OF check_distinct[OF thin_check(2)]])

lemma thin_sub_iff: "list_dag (example_genesis @ thin_blocks) r = Some b \<longleftrightarrow>
    b \<in> set (example_genesis @ thin_blocks) \<and> reference b = r"
  by (rule list_dag_iff[OF check_distinct[OF thin_check(1)]])

text \<open>A node that has the late block and one that has not.\<close>

lemma thin_states:
  "\<exists>ds1 ds2. commit_ready committee4 thin_dag ds1 \<and> commit_ready committee4 thin_dag ds2 \<and>
     ds_last_commit ds1 = None \<and> ds_last_commit ds2 = None \<and> lookup_block ds1 = thin_dag \<and>
     lookup_block ds2 = list_dag (example_genesis @ thin_blocks) \<and> (\<forall>r. \<not> committed ds1 r) \<and> (\<forall>r. \<not> committed ds2 r)"
proof -
  have slots: "distinct (map (slot_of_ref \<circ> reference) thin_blocks)"
      "distinct (map (slot_of_ref \<circ> reference) (thin_blocks @ [late_block]))"
    by (simp_all add: thin_blocks_def late_block_def slot_of_ref_def)
  have pos: "\<forall>b \<in> set thin_blocks. 0 < vb_round b" "\<forall>b \<in> set (thin_blocks @ [late_block]). 0 < vb_round b"
    by (simp_all add: thin_blocks_def late_block_def)
  obtain ds1 where ds1: "commit_ready committee4 thin_dag ds1" "ds_last_commit ds1 = None"
      "lookup_block ds1 = thin_dag" "\<forall>r. \<not> committed ds1 r"
    using list_state[OF thin_check(2) slots(2) pos(2) faulty3] unfolding thin_dag_def by blast
  obtain ds2 where ds2: "commit_ready committee4 (list_dag (example_genesis @ thin_blocks)) ds2"
      "ds_last_commit ds2 = None" "lookup_block ds2 = list_dag (example_genesis @ thin_blocks)"
      "\<forall>r. \<not> committed ds2 r"
    using list_state[OF thin_check(1) slots(1) pos(1) faulty3] by blast
  have sub: "list_dag (example_genesis @ thin_blocks) \<subseteq>\<^sub>m thin_dag"
    unfolding map_le_def
  proof
    fix r assume "r \<in> dom (list_dag (example_genesis @ thin_blocks))"
    then obtain b where b: "list_dag (example_genesis @ thin_blocks) r = Some b" by blast
    then have "thin_dag r = Some b" unfolding thin_sub_iff thin_dag_iff by auto
    with b show "list_dag (example_genesis @ thin_blocks) r = thin_dag r" by simp
  qed
  have gen: "thin_dag r = list_dag (example_genesis @ thin_blocks) r" if "br_round r = 0" for r
  proof -
    have "reference late_block \<noteq> r" using that by (auto simp: late_block_def)
    then have "thin_dag r = Some b \<longleftrightarrow> list_dag (example_genesis @ thin_blocks) r = Some b" for b
      unfolding thin_sub_iff thin_dag_iff by auto
    then show ?thesis by (metis option.exhaust)
  qed
  have "commit_ready committee4 thin_dag ds2"
    by (rule commit_ready_mono[OF ds2(1) sub thin_dag_ok(2)]) (use gen in blast)
  with ds1 ds2 show ?thesis by blast
qed

lemma thin_known:
  "b \<in> set thin_blocks \<Longrightarrow> thin_dag (reference b) = Some b"
  "b \<in> set thin_blocks \<Longrightarrow> list_dag (example_genesis @ thin_blocks) (reference b) = Some b"
  "thin_dag (reference late_block) = Some late_block"
  "list_dag (example_genesis @ thin_blocks) (reference late_block) = None"
proof -
  show "b \<in> set thin_blocks \<Longrightarrow> thin_dag (reference b) = Some b"
      "b \<in> set thin_blocks \<Longrightarrow> list_dag (example_genesis @ thin_blocks) (reference b) = Some b"
      "thin_dag (reference late_block) = Some late_block"
    by (simp_all add: thin_dag_iff thin_sub_iff)
  have "distinct (map reference (example_genesis @ thin_blocks @ [late_block]))"
    by (rule check_distinct[OF thin_check(2)])
  then have "reference late_block \<notin> reference ` set (example_genesis @ thin_blocks)" by auto
  then show "list_dag (example_genesis @ thin_blocks) (reference late_block) = None"
    using thin_sub_iff[of "reference late_block"] by (metis imageI not_None_eq)
qed

definition thin_leader :: "round \<Rightarrow> verified_block" where
  "thin_leader k = thin_blocks ! (3 * k - 1)"

lemma thin_leader_simps:
  "thin_leader 2 \<in> set thin_blocks" "vb_round (thin_leader 2) = 2" "thin_leader 2 \<noteq> late_block"
  "thin_leader 3 \<in> set thin_blocks" "vb_round (thin_leader 3) = 3" "vb_round late_block = 2"
proof -
  have 2: "thin_leader 2 = mk_block 2 1 21 201 [BlockRef 1 1 11, BlockRef 1 0 10, BlockRef 1 2 12]"
    by (simp add: thin_leader_def thin_blocks_def eval_nat_numeral)
  have 3: "thin_leader 3 = mk_block 3 1 31 301 [BlockRef 2 1 21, BlockRef 2 0 20, BlockRef 2 2 22]"
    by (simp add: thin_leader_def thin_blocks_def eval_nat_numeral)
  show "thin_leader 2 \<in> set thin_blocks" "thin_leader 3 \<in> set thin_blocks"
    unfolding 2 3 by (simp_all add: thin_blocks_def)
  show "vb_round (thin_leader 2) = 2" "vb_round (thin_leader 3) = 3" "vb_round late_block = 2"
    unfolding 2 3 late_block_def by simp_all
  have "vb_author (thin_leader 2) \<noteq> vb_author late_block" unfolding 2 late_block_def by simp
  then show "thin_leader 2 \<noteq> late_block" by auto
qed

lemma thin_only:
  assumes "b \<in> set (example_genesis @ thin_blocks)"
  shows "BlockRef 1 3 13 \<notin> set (vb_ancestors b)"
proof -
  have "list_all (\<lambda>s. BlockRef 1 3 13 \<notin> set (snd s)) (map shape (example_genesis @ thin_blocks))"
    by (simp add: example_genesis_shape thin_shapes)
  moreover have "shape b \<in> set (map shape (example_genesis @ thin_blocks))"
    unfolding set_map using assms by (rule imageI)
  ultimately have "BlockRef 1 3 13 \<notin> set (snd (shape b))" unfolding list_all_iff by blast
  then show ?thesis by (simp add: shape_def)
qed

end
