(* ===== verification/LinearizerProperties.thy ===== *)
theory LinearizerProperties
  imports ListDag
begin

text \<open>The properties of the linearizer, with witnesses on explicit DAGs.\<close>

section \<open>The order of a commit\<close>

text \<open>
  The blocks of two sub-dags of one leader: every block that is neither the leader nor another block
  of its round is an ancestor of one that was traversed.
\<close>

lemma sub_dag_subset:
  assumes rd: "linear_ready ds1" and nv1: "node_view c G ds1" and nv2: "node_view c G ds2"
    and gc: "gc_round ds1 = gc_round ds2"
    and marks: "\<forall>r. gc_round ds1 < br_round r \<longrightarrow> committed ds1 r = committed ds2 r"
    and s1: "sub_dag_of ds1 l bs1 d1" and s2: "sub_dag_of ds2 l bs2 d2"
    and mates: "round_mates ds1 l = round_mates ds2 l"
  shows "set bs1 \<subseteq> set bs2"
proof
  fix b assume "b \<in> set bs1"
  then show "b \<in> set bs2"
  proof (induction "vb_round l - vb_round b" arbitrary: b rule: less_induct)
    case less
    have b: "lookup_block ds1 (reference b) = Some b" "gc_round ds1 < vb_round b" "\<not> committed ds1 (reference b)"
      using s1 less.prems by (auto simp: sub_dag_of_def)
    consider "b \<in> round_mates ds1 l" | "b = l"
      | p where "p \<in> set bs1" "p \<notin> round_mates ds1 l" "reference b \<in> set (vb_ancestors p)"
      using s1 less.prems unfolding sub_dag_of_def by blast
    then show ?case
    proof cases
      case 3
      have p: "lookup_block ds1 (reference p) = Some p" using s1 3(1) by (auto simp: sub_dag_of_def)
      have "vb_round b < vb_round p" using linear_readyD(6)[OF rd p 3(3)] by simp
      then have "p \<in> set bs2" using less.hyps[OF _ 3(1)] sub_dag_rounds[OF rd s1 3(1)] by simp
      then have "parents_committed d2 p" using s2 3(2) mates by (auto simp: sub_dag_of_def)
      moreover have "gc_round d2 = gc_round ds1" using s2 marks_only_frame(3)[of ds2 d2] gc by (simp add: sub_dag_of_def)
      ultimately have "committed d2 (reference b)" using 3(3) b(2) by (simp add: parents_committed_def)
      then have "reference b \<in> reference ` set bs2"
        using s2 marks b(2,3) unfolding sub_dag_of_def by auto
      then obtain b' where b': "reference b = reference b'" "b' \<in> set bs2" by (rule imageE)
      have "lookup_block ds2 (reference b') = Some b'" using s2 b'(2) unfolding sub_dag_of_def by blast
      then have "G (reference b') = Some b'" "G (reference b) = Some b"
        using node_viewD(5)[OF nv2] node_viewD(5)[OF nv1 b(1)] by blast+
      then have "b = b'" using b'(1) by (metis option.inject)
      then show ?thesis using b'(2) by simp
    qed (use s2 mates in \<open>auto simp: sub_dag_of_def\<close>)
  qed
qed

lemma sub_dag_same:
  assumes "linear_ready ds1" "linear_ready ds2" and "node_view c G ds1" and "node_view c G ds2"
    and "gc_round ds1 = gc_round ds2"
    and "\<forall>r. gc_round ds1 < br_round r \<longrightarrow> committed ds1 r = committed ds2 r"
    and "sub_dag_of ds1 l bs1 d1" and "sub_dag_of ds2 l bs2 d2" and "round_mates ds1 l = round_mates ds2 l"
  shows "mset bs1 = mset bs2"
proof -
  have "set bs1 \<subseteq> set bs2" using sub_dag_subset[OF assms(1,3-9)] .
  moreover have "set bs2 \<subseteq> set bs1"
    using sub_dag_subset[OF assms(2,4,3) assms(5)[symmetric] _ assms(8,7) assms(9)[symmetric]] assms(5,6) by simp
  moreover have "distinct bs1" "distinct bs2" using assms(7,8) by (auto simp: sub_dag_of_def distinct_map)
  ultimately show ?thesis using set_eq_iff_mset_eq_distinct by blast
qed

text \<open>The two nodes of the thin DAG, with the facts the witnesses use.\<close>

lemma thin_nodes:
  obtains ds1 ds2 where "commit_ready committee4 thin_dag ds1" "commit_ready committee4 thin_dag ds2"
    "ds_last_commit ds1 = ds_last_commit ds2" "last_commit_round ds1 = 0" "last_commit_round ds2 = 0"
    "gc_round ds1 = 0" "gc_round ds2 = 0" "\<forall>r. \<not> committed ds1 r" "\<forall>r. \<not> committed ds2 r"
    "lookup_block ds1 = thin_dag" "lookup_block ds2 = list_dag (example_genesis @ thin_blocks)"
proof -
  obtain ds1 ds2 where ds: "commit_ready committee4 thin_dag ds1" "commit_ready committee4 thin_dag ds2"
      "ds_last_commit ds1 = None" "ds_last_commit ds2 = None" "lookup_block ds1 = thin_dag"
      "lookup_block ds2 = list_dag (example_genesis @ thin_blocks)" "\<forall>r. \<not> committed ds1 r" "\<forall>r. \<not> committed ds2 r"
    using thin_states by blast
  show ?thesis using that[of ds1 ds2] ds example_open[OF ds(3)] example_open[OF ds(4)] by simp
qed

lemma thin_leader_known:
  "thin_dag (reference (thin_leader 2)) = Some (thin_leader 2)" "thin_dag (reference (thin_leader 3)) = Some (thin_leader 3)"
  "list_dag (example_genesis @ thin_blocks) (reference (thin_leader 2)) = Some (thin_leader 2)"
  using thin_known(1,2) thin_leader_simps by simp_all

section \<open>Properties\<close>

text \<open>
  C11. \<open>linearize_sub_dag\<close> is exact: for a known leader above the last commit that is not committed, in
  a state whose history above the garbage collection round is known, it returns without a panic. The
  blocks it returns are in committed order (round, then author), each once, all known, above the
  garbage collection round and not committed before. They are the other uncommitted blocks of the
  leader's round and exactly the open history of the leader: the leader and every block above the
  garbage collection round that it reaches through blocks that were not committed. Exactly they
  become committed. Nothing else of the state changes.
\<close>

theorem linearize_sub_dag_exact:
  assumes "linear_ready ds" and "lookup_block ds (reference l) = Some l"
    and "last_commit_round ds < vb_round l" and "\<not> committed ds (reference l)"
  shows "\<exists>ds' bs. linearize_sub_dag l ds = Some (ds', bs) \<and> marks_only ds ds' \<and>
     distinct (map reference bs) \<and>
     sorted_wrt (\<lambda>a b. (vb_round a, vb_author a) \<le> (vb_round b, vb_author b)) bs \<and>
     (\<forall>b \<in> set bs. lookup_block ds (reference b) = Some b \<and> gc_round ds < vb_round b \<and> \<not> committed ds (reference b)) \<and>
     reference ` set bs = reference ` round_mates ds l \<union> {r. open_history ds (reference l) r} \<and>
     (\<forall>r. committed ds' r \<longleftrightarrow> committed ds r \<or> r \<in> reference ` set bs)"
proof -
  obtain ds' bs where lin: "linearize_sub_dag l ds = Some (ds', bs)" and sub: "sub_dag_of ds l bs ds'"
    using linearize_sub_dag_ok[OF assms] by blast
  note exact = sub_dag_exact[OF assms(1) sub]
  show ?thesis
    by (intro exI[of _ ds'] exI[of _ bs] conjI lin exact) (use sub in \<open>unfold sub_dag_of_def, blast\<close>)+
qed

theorem linearize_sub_dag_exact_witness:
  "\<exists>ds ds' bs. linear_ready ds \<and> linearize_sub_dag (thin_leader 2) ds = Some (ds', bs) \<and>
     distinct (map reference bs) \<and> reference late_block \<in> reference ` set bs \<and>
     (\<forall>r. open_history ds (reference (thin_leader 2)) r \<longrightarrow> committed ds' r)"
proof -
  obtain ds ds2 where ds: "commit_ready committee4 thin_dag ds" "last_commit_round ds = 0" "\<forall>r. \<not> committed ds r"
      "lookup_block ds = thin_dag"
    by (rule thin_nodes) blast
  have mate: "late_block \<in> round_mates ds (thin_leader 2)"
    using ds(3,4) thin_known(3) thin_leader_simps by (simp add: round_mates_def)
  have "lookup_block ds (reference (thin_leader 2)) = Some (thin_leader 2)" "last_commit_round ds < vb_round (thin_leader 2)"
    using ds(2,4) thin_leader_known thin_leader_simps by simp_all
  from linearize_sub_dag_exact[OF commit_ready_linear[OF ds(1)] this] mate ds(3) commit_ready_linear[OF ds(1)]
  show ?thesis by blast
qed

text \<open>
  C3. \<open>handle_commit\<close> keeps the commits of a node a chain. For known leaders of ascending rounds above
  the last commit it returns one sub-dag per leader and never panics: every commit has the next
  index, the digest of the commit before it and a timestamp that does not go back; it is buffered
  for the store and names the leader and the blocks of its sub-dag; no block is in two commits, nor
  in one when it was committed before. The state stays one that can commit.
\<close>

theorem handle_commit_chain:
  assumes "bft_dag c F G" and "commit_ready c G ds" and "ctx_committee ctx = c" and "\<forall>x. ser x \<noteq> None"
    and "sorted_wrt (\<lambda>a b. vb_round a < vb_round b) leaders"
    and "\<forall>l \<in> set leaders. lookup_block ds (reference l) = Some l \<and> last_commit_round ds < vb_round l"
  shows "\<exists>ds' sds cs. handle_commit ser hash now ctx leaders ds = Some (ds', sds) \<and>
     ds_commits_to_write ds' = ds_commits_to_write ds @ cs \<and>
     commit_chain (last_commit_digest ds) (last_commit_index ds) (last_commit_timestamp_ms ds) cs \<and>
     map tc_leader cs = map reference leaders \<and> map sd_leader sds = map reference leaders \<and>
     map sd_commit_ref sds = map tc_reference cs \<and> map sd_timestamp_ms sds = map tc_timestamp_ms cs \<and>
     map (map reference \<circ> sd_blocks) sds = map tc_blocks cs \<and>
     distinct (concat (map tc_blocks cs)) \<and>
     (\<forall>r \<in> set (concat (map tc_blocks cs)). \<not> committed ds r) \<and>
     (\<forall>r. committed ds' r \<longleftrightarrow> committed ds r \<or> r \<in> set (concat (map tc_blocks cs))) \<and>
     lookup_block ds' = lookup_block ds \<and> commit_ready c G ds'"
proof -
  obtain ds' sds cs where "try_fold (handle_commit_step ser hash now ctx) leaders (ds, []) = Some (ds', [] @ sds)"
      "committed_run ds leaders sds cs ds'" "commit_ready c G ds'"
    using handle_commits_ok[OF assms(1,3,4,2,5,6), of hash now "[]"] by blast
  then show ?thesis unfolding handle_commit_def committed_run_def by auto
qed

theorem handle_commit_chain_witness:
  "\<exists>ds ds' sds cs. commit_ready committee4 thin_dag ds \<and>
     handle_commit (\<lambda>_. Some []) (\<lambda>_. 7) 9 example_ctx [thin_leader 2, thin_leader 3] ds = Some (ds', sds) \<and>
     commit_chain (last_commit_digest ds) (last_commit_index ds) (last_commit_timestamp_ms ds) cs \<and>
     map tc_leader cs = map reference [thin_leader 2, thin_leader 3] \<and>
     distinct (concat (map tc_blocks cs)) \<and> commit_ready committee4 thin_dag ds'"
proof -
  obtain ds ds2 where ds: "commit_ready committee4 thin_dag ds" "last_commit_round ds = 0" "lookup_block ds = thin_dag"
    by (rule thin_nodes) blast
  have leaders: "sorted_wrt (\<lambda>a b. vb_round a < vb_round b) [thin_leader 2, thin_leader 3]"
      "\<forall>l \<in> set [thin_leader 2, thin_leader 3]. lookup_block ds (reference l) = Some l \<and> last_commit_round ds < vb_round l"
    using ds(2,3) thin_leader_known thin_leader_simps by simp_all
  have "ctx_committee example_ctx = committee4" "\<forall>x. (\<lambda>_ :: commit. Some [] :: bytes option) x \<noteq> None"
    by (simp_all add: example_ctx_def)
  from handle_commit_chain[OF thin_dag_ok(1) ds(1) this leaders, of "\<lambda>_. 7" 9] ds(1)
  show ?thesis by blast
qed

text \<open>
  C12. A faulty minority cannot move the commit timestamp: with faulty stake below the validity
  threshold, the timestamp of a leader lies between the timestamps of two parents of honest authors,
  unless the last commit's timestamp is later and replaces it.
\<close>

theorem commit_timestamp_honest:
  assumes "bft_dag c F G" and "commit_ready c G ds" and "ctx_committee ctx = c"
    and "lookup_block ds (reference l) = Some l" and "last_commit_round ds < vb_round l"
  shows "\<exists>t p q. calculate_commit_timestamp ctx ds l last_ts = Some t \<and>
     lookup_block ds (reference p) = Some p \<and> reference p \<in> set (vb_ancestors l) \<and> vb_author p \<notin> F \<and>
     lookup_block ds (reference q) = Some q \<and> reference q \<in> set (vb_ancestors l) \<and> vb_author q \<notin> F \<and>
     max (vb_timestamp_ms p) last_ts \<le> t \<and> t \<le> max (vb_timestamp_ms q) last_ts"
proof -
  have nv: "node_view c G ds" using assms(2) by (simp add: commit_ready_def)
  show ?thesis
    using calculate_commit_timestamp_ok[OF assms(1) nv commit_ready_linear[OF assms(2)] assms(3,4)]
      commit_ready_parents[OF assms(1,2,4,5)] assms(5) by simp
qed

theorem commit_timestamp_honest_witness:
  "\<exists>ds t p q. calculate_commit_timestamp example_ctx ds (thin_leader 2) 5 = Some t \<and>
     thin_dag (reference p) = Some p \<and> reference p \<in> set (vb_ancestors (thin_leader 2)) \<and> vb_author p \<notin> {3} \<and>
     thin_dag (reference q) = Some q \<and> reference q \<in> set (vb_ancestors (thin_leader 2)) \<and> vb_author q \<notin> {3} \<and>
     max (vb_timestamp_ms p) 5 \<le> t \<and> t \<le> max (vb_timestamp_ms q) 5"
proof -
  obtain ds ds2 where ds: "commit_ready committee4 thin_dag ds" "last_commit_round ds = 0" "lookup_block ds = thin_dag"
    by (rule thin_nodes) blast
  have "lookup_block ds (reference (thin_leader 2)) = Some (thin_leader 2)" "last_commit_round ds < vb_round (thin_leader 2)"
    using ds(2,3) thin_leader_known thin_leader_simps by simp_all
  from commit_timestamp_honest[OF thin_dag_ok(1) ds(1) _ this, of example_ctx 5]
  show ?thesis unfolding ds(3) by (auto simp: example_ctx_def)
qed

text \<open>
  C28. The order of a commit is a function of the DAG and of what the node counts as the leader's round:
  two nodes with the same garbage collection round and the same marks above it, that know the same
  uncommitted blocks of the leader's round, collect the same blocks, and, where no authority has two
  of them in one round, the same list.
\<close>

theorem linearization_deterministic:
  assumes "commit_ready c G ds1" and "commit_ready c G ds2" and "gc_round ds1 = gc_round ds2"
    and "\<forall>r. gc_round ds1 < br_round r \<longrightarrow> committed ds1 r = committed ds2 r"
    and "lookup_block ds1 (reference l) = Some l" and "lookup_block ds2 (reference l) = Some l"
    and "last_commit_round ds1 < vb_round l" and "last_commit_round ds2 < vb_round l"
    and "round_mates ds1 l = round_mates ds2 l"
  shows "\<exists>d1 d2 bs1 bs2. linearize_sub_dag l ds1 = Some (d1, bs1) \<and> linearize_sub_dag l ds2 = Some (d2, bs2) \<and>
     mset bs1 = mset bs2 \<and> (inj_on (\<lambda>b. (vb_round b, vb_author b)) (set bs1) \<longrightarrow> bs1 = bs2)"
proof -
  have unc: "\<not> committed ds1 (reference l)" "\<not> committed ds2 (reference l)"
    using assms(1,2,7,8) by (fastforce simp: commit_ready_def)+
  note lin = commit_ready_linear[OF assms(1)] commit_ready_linear[OF assms(2)]
  obtain d1 bs1 where 1: "linearize_sub_dag l ds1 = Some (d1, bs1)" "sub_dag_of ds1 l bs1 d1"
    using linearize_sub_dag_ok[OF lin(1) assms(5,7) unc(1)] by blast
  obtain d2 bs2 where 2: "linearize_sub_dag l ds2 = Some (d2, bs2)" "sub_dag_of ds2 l bs2 d2"
    using linearize_sub_dag_ok[OF lin(2) assms(6,8) unc(2)] by blast
  have ms: "mset bs1 = mset bs2"
    using sub_dag_same[OF lin _ _ assms(3,4) 1(2) 2(2) assms(9)] assms(1,2) unfolding commit_ready_def by blast
  moreover have "bs1 = bs2" if "inj_on (\<lambda>b. (vb_round b, vb_author b)) (set bs1)"
  proof -
    have key: "sort_sub_dag_blocks bs = bs"
      if "sorted_wrt (\<lambda>a b. (vb_round a, vb_author a) \<le> (vb_round b, vb_author b)) bs" for bs
      unfolding sort_sub_dag_blocks_def by (rule sort_key_id_if_sorted) (use that in \<open>simp only: sorted_map\<close>)
    have "sort_sub_dag_blocks bs1 = sort_sub_dag_blocks bs2" using sort_sub_dag_blocks_unique[OF ms that] .
    moreover have "sort_sub_dag_blocks bs1 = bs1" "sort_sub_dag_blocks bs2 = bs2"
      using 1(2) 2(2) unfolding sub_dag_of_def by (blast intro: key)+
    ultimately show ?thesis by simp
  qed
  ultimately show ?thesis using 1(1) 2(1) by blast
qed

theorem linearization_deterministic_witness:
  "\<exists>ds1 ds2 d1 d2 bs1 bs2. lookup_block ds1 (reference late_block) = Some late_block \<and>
     lookup_block ds2 (reference late_block) = None \<and> linearize_sub_dag (thin_leader 3) ds1 = Some (d1, bs1) \<and>
     linearize_sub_dag (thin_leader 3) ds2 = Some (d2, bs2) \<and> mset bs1 = mset bs2"
proof -
  obtain ds1 ds2 where ds: "commit_ready committee4 thin_dag ds1" "commit_ready committee4 thin_dag ds2"
      "last_commit_round ds1 = 0" "last_commit_round ds2 = 0" "gc_round ds1 = 0" "gc_round ds2 = 0"
      "\<forall>r. \<not> committed ds1 r" "\<forall>r. \<not> committed ds2 r"
      "lookup_block ds1 = thin_dag" "lookup_block ds2 = list_dag (example_genesis @ thin_blocks)"
    by (rule thin_nodes) blast
  have "lookup_block ds1 (reference (thin_leader 3)) = Some (thin_leader 3)"
      "lookup_block ds2 (reference (thin_leader 3)) = Some (thin_leader 3)"
      "last_commit_round ds1 < vb_round (thin_leader 3)" "last_commit_round ds2 < vb_round (thin_leader 3)"
    using ds(3,4,9,10) thin_leader_known thin_leader_simps thin_known(2) by simp_all
  moreover have "round_mates ds1 (thin_leader 3) = round_mates ds2 (thin_leader 3)"
    unfolding round_mates_def ds(9,10) thin_dag_iff thin_sub_iff using ds(7,8) thin_leader_simps by auto
  ultimately obtain d1 d2 bs1 bs2 where "linearize_sub_dag (thin_leader 3) ds1 = Some (d1, bs1)"
      "linearize_sub_dag (thin_leader 3) ds2 = Some (d2, bs2)" "mset bs1 = mset bs2"
    using linearization_deterministic[OF ds(1,2), of "thin_leader 3"] ds(5-8) by auto
  then show ?thesis using ds(9,10) thin_known(3,4) by metis
qed

text \<open>
  C29. Committing the other blocks of the leader's round breaks agreement. Two nodes with views of one
  DAG and the same last commit handle the same leader; if the first knows an uncommitted block of
  the leader's round that has not reached the second, both return a commit of the same index for the
  same leader, and the commit of the first contains that block while the commit of the second does
  not. The commit digests the block list, so the two nodes are on different chains. No block has to
  be faulty for this.
\<close>

theorem same_round_blocks_fork:
  assumes "bft_dag c F G" and "commit_ready c G ds1" and "commit_ready c G ds2"
    and "ds_last_commit ds1 = ds_last_commit ds2" and "ctx_committee ctx = c" and "\<forall>x. ser x \<noteq> None"
    and "lookup_block ds1 (reference l) = Some l" and "lookup_block ds2 (reference l) = Some l"
    and "last_commit_round ds1 < vb_round l"
    and "lookup_block ds1 (reference x) = Some x" and "vb_round x = vb_round l" and "x \<noteq> l"
    and "lookup_block ds2 (reference x) = None"
  shows "\<exists>d1 d2 sd1 sd2. handle_commit ser hash now ctx [l] ds1 = Some (d1, [sd1]) \<and>
     handle_commit ser hash now ctx [l] ds2 = Some (d2, [sd2]) \<and>
     cr_index (sd_commit_ref sd1) = cr_index (sd_commit_ref sd2) \<and> sd_leader sd1 = sd_leader sd2 \<and>
     x \<in> set (sd_blocks sd1) \<and> x \<notin> set (sd_blocks sd2)"
proof -
  have eq: "last_commit_round ds1 = last_commit_round ds2" "last_commit_index ds1 = last_commit_index ds2"
    using assms(4) by (simp_all add: last_commit_round_def last_commit_index_def)
  obtain d1 sd1 tc1 where 1: "handle_commit_step ser hash now ctx l (ds1, []) = Some (d1, [] @ [sd1])"
      "commit_step ds1 l sd1 tc1 d1"
    using handle_commit_step_ok[OF assms(1,2,5,6,7,9), of hash now "[]"] by blast
  obtain d2 sd2 tc2 where 2: "handle_commit_step ser hash now ctx l (ds2, []) = Some (d2, [] @ [sd2])"
      "commit_step ds2 l sd2 tc2 d2"
    using handle_commit_step_ok[OF assms(1,3,5,6,8), of hash now "[]"] assms(9) eq(1) by auto
  have "\<not> committed ds1 (reference x)" using assms(2,9,11) by (fastforce simp: commit_ready_def)
  then have "x \<in> round_mates ds1 l" using assms(10-12) by (simp add: round_mates_def)
  then have "x \<in> set (sd_blocks sd1)" using 1(2) by (auto simp: commit_step_def sub_dag_of_def)
  moreover have "x \<notin> set (sd_blocks sd2)" using 2(2) assms(13) by (auto simp: commit_step_def sub_dag_of_def)
  moreover have "cr_index (sd_commit_ref sd1) = cr_index (sd_commit_ref sd2)" "sd_leader sd1 = sd_leader sd2"
    using 1(2) 2(2) eq(2) by (simp_all add: commit_step_def tc_reference_def tc_index_def)
  ultimately show ?thesis using 1(1) 2(1) by (auto simp: handle_commit_def)
qed

theorem same_round_blocks_fork_witness:
  "\<exists>ds1 ds2 d1 d2 sd1 sd2. commit_ready committee4 thin_dag ds1 \<and> commit_ready committee4 thin_dag ds2 \<and>
     handle_commit (\<lambda>_. Some []) (\<lambda>_. 7) 9 example_ctx [thin_leader 2] ds1 = Some (d1, [sd1]) \<and>
     handle_commit (\<lambda>_. Some []) (\<lambda>_. 7) 9 example_ctx [thin_leader 2] ds2 = Some (d2, [sd2]) \<and>
     cr_index (sd_commit_ref sd1) = cr_index (sd_commit_ref sd2) \<and> sd_leader sd1 = sd_leader sd2 \<and>
     late_block \<in> set (sd_blocks sd1) \<and> late_block \<notin> set (sd_blocks sd2)"
proof -
  obtain ds1 ds2 where ds: "commit_ready committee4 thin_dag ds1" "commit_ready committee4 thin_dag ds2"
      "ds_last_commit ds1 = ds_last_commit ds2" "last_commit_round ds1 = 0"
      "lookup_block ds1 = thin_dag" "lookup_block ds2 = list_dag (example_genesis @ thin_blocks)"
    by (rule thin_nodes) blast
  have l: "lookup_block ds1 (reference (thin_leader 2)) = Some (thin_leader 2)"
      "lookup_block ds2 (reference (thin_leader 2)) = Some (thin_leader 2)" "last_commit_round ds1 < vb_round (thin_leader 2)"
    using ds(4-6) thin_leader_known thin_leader_simps by simp_all
  have x: "lookup_block ds1 (reference late_block) = Some late_block" "vb_round late_block = vb_round (thin_leader 2)"
      "late_block \<noteq> thin_leader 2" "lookup_block ds2 (reference late_block) = None"
    using ds(5,6) thin_known(3,4) thin_leader_simps by auto
  have "ctx_committee example_ctx = committee4" "\<forall>x. (\<lambda>_ :: commit. Some [] :: bytes option) x \<noteq> None"
    by (simp_all add: example_ctx_def)
  from same_round_blocks_fork[OF thin_dag_ok(1) ds(1-3) this l x, of "\<lambda>_. 7" 9] ds(1,2)
  show ?thesis by blast
qed

text \<open>
  C30. Committing the other blocks of the leader's round without their ancestors loses blocks. When an
  uncommitted block \<open>y\<close> above the garbage collection round is referred to only by a block \<open>x\<close> of the
  leader's round other than the leader, the commit contains \<open>x\<close> but not its ancestor \<open>y\<close>; and as the
  traversal stops at committed blocks, no later leader of the DAG commits \<open>y\<close> either.
\<close>

theorem same_round_blocks_lose_ancestors:
  assumes "bft_dag c F G" and "commit_ready c G ds" and "ctx_committee ctx = c" and "\<forall>x. ser x \<noteq> None"
    and "sorted_wrt (\<lambda>a b. vb_round a < vb_round b) (l # ls)"
    and "\<forall>l \<in> set (l # ls). lookup_block ds (reference l) = Some l \<and> last_commit_round ds < vb_round l"
    and "lookup_block ds (reference x) = Some x" and "vb_round x = vb_round l" and "x \<noteq> l"
    and "y \<in> set (vb_ancestors x)" and "gc_round ds < br_round y" and "\<not> committed ds y"
    and "\<forall>b. lookup_block ds (reference b) = Some b \<and> y \<in> set (vb_ancestors b) \<longrightarrow> b = x"
  shows "\<exists>ds' sd sds. handle_commit ser hash now ctx (l # ls) ds = Some (ds', sd # sds) \<and>
     x \<in> set (sd_blocks sd) \<and> \<not> committed ds' y \<and>
     (\<forall>s \<in> set (sd # sds). y \<notin> reference ` set (sd_blocks s))"
proof -
  have l: "lookup_block ds (reference l) = Some l" "last_commit_round ds < vb_round l" using assms(6) by auto
  obtain ds1 sd tc where st: "handle_commit_step ser hash now ctx l (ds, []) = Some (ds1, [] @ [sd])"
      "commit_step ds l sd tc ds1" "commit_ready c G ds1"
    using handle_commit_step_ok[OF assms(1-4) l, of hash now "[]"] by blast
  have "\<not> committed ds (reference x)" using assms(2,8) l(2) by (fastforce simp: commit_ready_def)
  then have "x \<in> round_mates ds l" using assms(7-9) by (simp add: round_mates_def)
  then have made: "x \<in> set (sd_blocks sd)" "orphan ds1 y"
    using orphan_made[OF assms(2) st(2) l(2) _ assms(10,12,13)] by blast+
  have "last_commit_round ds1 = vb_round l" "lookup_block ds1 = lookup_block ds"
    using st(2) by (simp_all add: commit_step_def last_commit_round_def)
  then have ls: "\<forall>k \<in> set ls. lookup_block ds1 (reference k) = Some k \<and> last_commit_round ds1 < vb_round k"
    using assms(5,6) by auto
  have "sorted_wrt (\<lambda>a b. vb_round a < vb_round b) ls" using assms(5) by simp
  from handle_commits_ok[OF assms(1,3,4) st(3) this ls, of hash now "[sd]"]
  obtain ds' sds cs where run: "try_fold (handle_commit_step ser hash now ctx) ls (ds1, [sd]) = Some (ds', [sd] @ sds)"
      "committed_run ds1 ls sds cs ds'" "orphan ds1 y \<longrightarrow> orphan ds' y" by blast
  have "committed_run ds (l # ls) (sd # sds) (tc # cs) ds'" using committed_run_step[OF st(2) run(2)] .
  then have "\<forall>r. r \<in> set (concat (map (map reference \<circ> sd_blocks) (sd # sds))) \<longrightarrow> committed ds' r"
    unfolding committed_run_def by (metis (no_types, lifting))
  moreover have "\<not> committed ds' y" using run(3) made(2) by (simp add: orphan_def)
  ultimately have "\<not> committed ds' y \<and> (\<forall>s \<in> set (sd # sds). y \<notin> reference ` set (sd_blocks s))" by auto
  then show ?thesis using st(1) run(1) made(1) by (auto simp: handle_commit_def)
qed

theorem same_round_blocks_lose_ancestors_witness:
  "\<exists>ds ds' sd sds. commit_ready committee4 thin_dag ds \<and>
     handle_commit (\<lambda>_. Some []) (\<lambda>_. 7) 9 example_ctx [thin_leader 2, thin_leader 3] ds = Some (ds', sd # sds) \<and>
     late_block \<in> set (sd_blocks sd) \<and> BlockRef 1 3 13 \<in> set (vb_ancestors late_block) \<and>
     (\<forall>s \<in> set (sd # sds). BlockRef 1 3 13 \<notin> reference ` set (sd_blocks s))"
proof -
  obtain ds ds2 where ds: "commit_ready committee4 thin_dag ds" "last_commit_round ds = 0" "gc_round ds = 0"
      "\<forall>r. \<not> committed ds r" "lookup_block ds = thin_dag"
    by (rule thin_nodes) blast
  have leaders: "sorted_wrt (\<lambda>a b. vb_round a < vb_round b) [thin_leader 2, thin_leader 3]"
      "\<forall>l \<in> set [thin_leader 2, thin_leader 3]. lookup_block ds (reference l) = Some l \<and> last_commit_round ds < vb_round l"
    using ds(2,5) thin_leader_known thin_leader_simps by simp_all
  have x: "lookup_block ds (reference late_block) = Some late_block" "vb_round late_block = vb_round (thin_leader 2)"
      "late_block \<noteq> thin_leader 2"
    using ds(5) thin_known(3) thin_leader_simps by auto
  have y: "BlockRef 1 3 13 \<in> set (vb_ancestors late_block)" "gc_round ds < br_round (BlockRef 1 3 13)"
      "\<not> committed ds (BlockRef 1 3 13)"
    using ds(3,4) by (simp_all add: late_block_def)
  have only: "\<forall>b. lookup_block ds (reference b) = Some b \<and> BlockRef 1 3 13 \<in> set (vb_ancestors b) \<longrightarrow> b = late_block"
    unfolding ds(5) thin_dag_iff using thin_only by auto
  have "ctx_committee example_ctx = committee4" "\<forall>x. (\<lambda>_ :: commit. Some [] :: bytes option) x \<noteq> None"
    by (simp_all add: example_ctx_def)
  from same_round_blocks_lose_ancestors[OF thin_dag_ok(1) ds(1) this leaders x y only, of "\<lambda>_. 7" 9] ds(1) y(1)
  show ?thesis by blast
qed

end
