(* ===== verification/ConsensusError.thy ===== *)
theory ConsensusError
  imports Commit
begin

text \<open>
  The error type of the consensus core (\<open>core/src/error.rs\<close>) and the sequencing of fallible calls.

  A call of the source can return \<open>Ok\<close>, return \<open>Err\<close>, or panic. It is a value of \<open>'a fallible\<close>:
  \<open>Some (Inr x)\<close>, \<open>Some (Inl e)\<close>, or \<open>None\<close>. \<open>and_then\<close> is the question mark operator, \<open>ensure\<close> the
  macro of that name. The errors of other crates that variants wrap are strings.
\<close>

datatype (plugins only: code size) consensus_error =
    MalformedBlock string
  | MalformedCommit string
  | SerializationFailure string
  | TransactionTooLarge nat nat
  | TooManyTransactions nat nat
  | TooManyTransactionBytes nat nat
  | UnexpectedAuthority authority_index authority_index
  | WrongEpoch epoch epoch
  | UnexpectedGenesisBlock
  | UnexpectedGenesisBlockRequested
  | UnexpectedNumberOfBlocksFetched authority_index nat nat
  | UnexpectedFetchedBlock authority_index block_ref
  | UnexpectedLastOwnBlock authority_index block_ref
  | TooManyFetchedBlocksReturned authority_index
  | TooManyAuthoritiesProvided authority_index
  | InvalidSizeOfHighestAcceptedRounds nat nat
  | InvalidAuthorityIndex authority_index nat
  | MalformedSignature string
  | SignatureVerificationFailure string
  | SynchronizerSaturated authority_index
  | BlockRejected block_ref string
  | InvalidAncestorPosition authority_index authority_index nat
  | InvalidAncestorRound round round
  | InvalidGenesisAncestor block_ref
  | TooManyAncestors nat nat
  | DuplicatedAncestorsAuthority authority_index
  | InsufficientParentStakes stake stake
  | InvalidTransaction string
  | NoCommitReceived authority_index
  | UnexpectedStartCommit authority_index commit_index commit
  | UnexpectedCommitSequence authority_index commit commit
  | NotEnoughCommitVotes stake authority_index commit
  | UnexpectedBlockForCommit authority_index block_ref block_ref
  | UnexpectedCertifiedCommitIndex commit_index commit_index
  | RocksDBFailure string
  | UnknownNetworkPeer string
  | PeerDisconnected string
  | NetworkConfig string
  | NetworkClientConnection string
  | NetworkRequest string
  | NetworkRequestTimeout string
  | Shutdown

type_synonym 'a consensus_result = "consensus_error + 'a"
type_synonym 'a fallible = "'a consensus_result option"

definition ok :: "'a \<Rightarrow> 'a fallible" where
  "ok x = Some (Inr x)"

definition err :: "consensus_error \<Rightarrow> 'a fallible" where
  "err e = Some (Inl e)"

definition ensure :: "bool \<Rightarrow> consensus_error \<Rightarrow> unit fallible" where
  "ensure b e = (if b then ok () else err e)"

definition and_then :: "'a fallible \<Rightarrow> ('a \<Rightarrow> 'b fallible) \<Rightarrow> 'b fallible" where
  "and_then x f = (case x of None \<Rightarrow> None | Some (Inl e) \<Rightarrow> Some (Inl e) | Some (Inr y) \<Rightarrow> f y)"

text \<open>A value that may panic, and a result that may not.\<close>

definition may_panic :: "'a option \<Rightarrow> 'a fallible" where
  "may_panic x = map_option Inr x"

definition check :: "'a consensus_result \<Rightarrow> 'a fallible" where
  "check r = Some r"

named_theorems result_simps \<open>how fallible calls reduce\<close>

lemma and_then_ok [simp, result_simps]: "and_then (ok x) f = f x"
  by (simp add: and_then_def ok_def)

lemma and_then_err [simp, result_simps]: "and_then (err e) f = err e"
  by (simp add: and_then_def err_def)

lemma and_then_panic [simp, result_simps]: "and_then None f = None"
  by (simp add: and_then_def)

lemma ok_err [simp, result_simps]:
  "ok x = ok y \<longleftrightarrow> x = y" "err e = err e' \<longleftrightarrow> e = e'" "ok x \<noteq> err e" "err e \<noteq> ok x"
  "ok x \<noteq> None" "err e \<noteq> None" "None \<noteq> ok x" "None \<noteq> err e"
  by (simp_all add: ok_def err_def)

lemma ensure_simps [simp, result_simps]: "ensure True e = ok ()" "ensure False e = err e"
  by (simp_all add: ensure_def)

lemma ensure_ok_iff [result_simps]: "ensure b e = ok u \<longleftrightarrow> b"
  by (simp add: ensure_def)

lemma may_panic_simps [simp, result_simps]: "may_panic (Some x) = ok x" "may_panic None = None"
  by (simp_all add: may_panic_def ok_def)

lemma check_simps [simp, result_simps]: "check (Inr x) = ok x" "check (Inl e) = err e"
  by (simp_all add: check_def ok_def err_def)

lemma and_then_ok_iff [result_simps]: "and_then x f = ok z \<longleftrightarrow> (\<exists>y. x = ok y \<and> f y = ok z)"
  by (auto simp: and_then_def ok_def split: option.splits sum.splits)

lemma and_then_panic_iff [result_simps]: "and_then x f = None \<longleftrightarrow> x = None \<or> (\<exists>y. x = ok y \<and> f y = None)"
  by (auto simp: and_then_def ok_def split: option.splits sum.splits)

lemma fallible_cases [case_names panic err ok]:
  obtains "x = None" | e where "x = err e" | y where "x = ok y"
proof (cases x)
  case (Some r)
  then show ?thesis using that by (cases r) (simp_all add: ok_def err_def)
qed (use that in simp)

end
