(* ===== verification/BlockVerifier.thy ===== *)
theory BlockVerifier
  imports ConsensusError
begin

text \<open>
  Signing and verifying blocks: the signature functions of \<open>core/src/block.rs\<close> and
  \<open>core/src/block_verifier.rs\<close>.

  The serializer (\<open>bcs\<close>), the hash function and the signature scheme (\<open>fastcrypto\<close>) are the fields of
  \<open>crypto\<close>, and the transaction verifier of the application is \<open>transaction_verifier\<close>: what the code
  relies on is a hypothesis of the theorems that need it.
\<close>

section \<open>Signatures\<close>

record crypto =
  cry_block_bytes :: "block \<Rightarrow> string + bytes"
  cry_intent_bytes :: "digest \<Rightarrow> string + bytes"
  cry_hash :: "bytes \<Rightarrow> digest"
  cry_sign :: "bytes \<Rightarrow> bytes \<Rightarrow> bytes"
  cry_parse_signature :: "bytes \<Rightarrow> string + bytes"
  cry_verify :: "bytes \<Rightarrow> bytes \<Rightarrow> bytes \<Rightarrow> string + unit"

definition map_err :: "(string \<Rightarrow> consensus_error) \<Rightarrow> string + 'a \<Rightarrow> 'a fallible" where
  "map_err f r = (case r of Inl e \<Rightarrow> err (f e) | Inr x \<Rightarrow> ok x)"

definition compute_inner_block_digest :: "crypto \<Rightarrow> block \<Rightarrow> digest fallible" where
  "compute_inner_block_digest k b =
     and_then (map_err SerializationFailure (cry_block_bytes k b)) (\<lambda>bs. ok (cry_hash k bs))"

definition compute_block_signature :: "crypto \<Rightarrow> block \<Rightarrow> bytes \<Rightarrow> bytes fallible" where
  "compute_block_signature k b keypair =
     and_then (compute_inner_block_digest k b) (\<lambda>d.
     and_then (map_err SerializationFailure (cry_intent_bytes k d)) (\<lambda>message.
     ok (cry_sign k keypair message)))"

definition verify_block_signature :: "crypto \<Rightarrow> block \<Rightarrow> bytes \<Rightarrow> bytes \<Rightarrow> unit fallible" where
  "verify_block_signature k b signature pubkey =
     and_then (compute_inner_block_digest k b) (\<lambda>d.
     and_then (map_err SerializationFailure (cry_intent_bytes k d)) (\<lambda>message.
     and_then (map_err MalformedSignature (cry_parse_signature k signature)) (\<lambda>sig.
     map_err SignatureVerificationFailure (cry_verify k pubkey message sig))))"

definition signed_block_new :: "crypto \<Rightarrow> block \<Rightarrow> bytes \<Rightarrow> signed_block fallible" where
  "signed_block_new k b keypair =
     and_then (compute_block_signature k b keypair) (\<lambda>signature.
     ok \<lparr>sb_inner = b, sb_signature = signature\<rparr>)"

definition verify_signature :: "crypto \<Rightarrow> node_context \<Rightarrow> signed_block \<Rightarrow> unit fallible" where
  "verify_signature k ctx sb =
     (let b = sb_inner sb; c = ctx_committee ctx
      in and_then (ensure (is_valid_index c (block_author b))
           (InvalidAuthorityIndex (block_author b) (committee_size c - 1))) (\<lambda>_.
         and_then (may_panic (committee_authority c (block_author b))) (\<lambda>a.
         verify_block_signature k b (sb_signature sb) (a_protocol_key a))))"

section \<open>The verifier\<close>

record transaction_verifier =
  tv_verify_batch :: "bytes list \<Rightarrow> string + unit"
  tv_verify_and_vote_batch :: "block_ref \<Rightarrow> bytes list \<Rightarrow> string + transaction_index list"

record signed_block_verifier =
  sv_context :: node_context
  sv_genesis :: "block_ref fset"
  sv_transaction_verifier :: transaction_verifier

definition signed_block_verifier_new :: "(signed_block \<Rightarrow> bytes option) \<Rightarrow> (bytes \<Rightarrow> digest) \<Rightarrow> node_context
    \<Rightarrow> transaction_verifier \<Rightarrow> signed_block_verifier option" where
  "signed_block_verifier_new ser hash ctx tv = do {
     gs \<leftarrow> genesis_blocks ser hash ctx;
     Some \<lparr>sv_context = ctx, sv_genesis = fset_of_list (map reference gs), sv_transaction_verifier = tv\<rparr>
   }"

definition max_transaction_size_bytes :: "protocol_config \<Rightarrow> nat" where
  "max_transaction_size_bytes pc =
     (case pc_consensus_max_transaction_size_bytes pc of Some n \<Rightarrow> n | None \<Rightarrow> 256 * 1024)"

fun check_sizes :: "nat \<Rightarrow> bytes list \<Rightarrow> unit fallible" where
  "check_sizes limit [] = ok ()"
| "check_sizes limit (t # ts) =
     (if length t > limit \<and> limit > 0 then err (TransactionTooLarge (length t) limit)
      else check_sizes limit ts)"

definition check_transactions :: "protocol_config \<Rightarrow> bytes list \<Rightarrow> unit fallible" where
  "check_transactions pc batch =
     and_then (check_sizes (max_transaction_size_bytes pc) batch) (\<lambda>_.
     let limit = max_num_transactions_in_block pc in
     if length batch > limit \<and> limit > 0 then err (TooManyTransactions (length batch) limit)
     else let total_limit = max_transactions_in_block_bytes pc in
     if sum_list (map length batch) > total_limit \<and> total_limit > 0
     then err (TooManyTransactionBytes (length batch) total_limit)
     else ok ())"

text \<open>The loop over the ancestors, from position \<open>i\<close>.\<close>

fun check_ancestors :: "committee \<Rightarrow> block_ref fset \<Rightarrow> block \<Rightarrow> nat \<Rightarrow> bool list \<Rightarrow> stake \<Rightarrow> block_ref list
    \<Rightarrow> stake fallible" where
  "check_ancestors c genesis b i seen parent_stakes [] = ok parent_stakes"
| "check_ancestors c genesis b i seen parent_stakes (a # as) =
     (if \<not> is_valid_index c (br_author a) then err (InvalidAuthorityIndex (br_author a) (committee_size c - 1))
      else if i = 0 \<and> br_author a \<noteq> block_author b \<or> i > 0 \<and> br_author a = block_author b
      then err (InvalidAncestorPosition (block_author b) (br_author a) i)
      else if br_round a \<ge> block_round b then err (InvalidAncestorRound (br_round a) (block_round b))
      else if br_round a = GENESIS_ROUND \<and> a |\<notin>| genesis then err (InvalidGenesisAncestor a)
      else and_then (may_panic (vec_get seen (br_author a))) (\<lambda>dup.
        if dup then err (DuplicatedAncestorsAuthority (br_author a))
        else and_then (may_panic (vec_set seen (br_author a) True)) (\<lambda>seen'.
          if br_round a = block_round b - 1
          then and_then (may_panic (committee_stake c (br_author a))) (\<lambda>s.
            check_ancestors c genesis b (Suc i) seen' (parent_stakes + s) as)
          else check_ancestors c genesis b (Suc i) seen' parent_stakes as)))"

definition verify_block :: "crypto \<Rightarrow> signed_block_verifier \<Rightarrow> signed_block \<Rightarrow> unit fallible" where
  "verify_block k v sb =
     (let b = sb_inner sb; ctx = sv_context v; c = ctx_committee ctx in
      if block_epoch b \<noteq> c_epoch c then err (WrongEpoch (c_epoch c) (block_epoch b))
      else if block_round b = 0 then err UnexpectedGenesisBlock
      else if \<not> is_valid_index c (block_author b)
      then err (InvalidAuthorityIndex (block_author b) (committee_size c - 1))
      else and_then (verify_signature k ctx sb) (\<lambda>_.
        if length (block_ancestors b) > committee_size c
        then err (TooManyAncestors (length (block_ancestors b)) (committee_size c))
        else if block_ancestors b = [] then err (InsufficientParentStakes 0 (c_quorum_threshold c))
        else and_then (check_ancestors c (sv_genesis v) b 0 (replicate (committee_size c) False) 0
            (block_ancestors b)) (\<lambda>parent_stakes.
          if \<not> reached_quorum c parent_stakes
          then err (InsufficientParentStakes parent_stakes (c_quorum_threshold c))
          else check_transactions (ctx_protocol_config ctx) (block_transactions b))))"

definition sv_vote :: "signed_block_verifier \<Rightarrow> verified_block \<Rightarrow> transaction_index list fallible" where
  "sv_vote v b = map_err InvalidTransaction
     (tv_verify_and_vote_batch (sv_transaction_verifier v) (reference b) (block_transactions (inner b)))"

definition verify_and_vote :: "crypto \<Rightarrow> signed_block_verifier \<Rightarrow> signed_block \<Rightarrow> bytes
    \<Rightarrow> (verified_block \<times> transaction_index list) fallible" where
  "verify_and_vote k v sb serialized =
     and_then (verify_block k v sb) (\<lambda>_.
     let vb = new_verified (cry_hash k) sb serialized in
     and_then (if pc_mysticeti_fastpath (ctx_protocol_config (sv_context v)) then sv_vote v vb
       else and_then (map_err InvalidTransaction
              (tv_verify_batch (sv_transaction_verifier v) (block_transactions (inner vb)))) (\<lambda>_. ok []))
     (\<lambda>rejected. ok (vb, rejected)))"

definition noop_verify_and_vote :: "crypto \<Rightarrow> signed_block \<Rightarrow> bytes
    \<Rightarrow> (verified_block \<times> transaction_index list) fallible" where
  "noop_verify_and_vote k sb serialized = ok (new_verified (cry_hash k) sb serialized, [])"

definition noop_vote :: "verified_block \<Rightarrow> transaction_index list fallible" where
  "noop_vote b = ok []"

section \<open>What the checks accept\<close>

definition valid_ancestors :: "committee \<Rightarrow> block_ref fset \<Rightarrow> block \<Rightarrow> bool" where
  "valid_ancestors c genesis b \<longleftrightarrow> block_ancestors b \<noteq> [] \<and> br_author (hd (block_ancestors b)) = block_author b \<and>
     distinct (map br_author (block_ancestors b)) \<and>
     (\<forall>a \<in> set (block_ancestors b). br_author a \<in> members c \<and> br_round a < block_round b \<and>
        (br_round a = GENESIS_ROUND \<longrightarrow> a |\<in>| genesis))"

definition parents_of :: "block \<Rightarrow> block_ref list" where
  "parents_of b = filter (\<lambda>a. Suc (br_round a) = block_round b) (block_ancestors b)"

definition valid_transactions :: "protocol_config \<Rightarrow> bytes list \<Rightarrow> bool" where
  "valid_transactions pc ts \<longleftrightarrow>
     (0 < max_transaction_size_bytes pc \<longrightarrow> (\<forall>t \<in> set ts. length t \<le> max_transaction_size_bytes pc)) \<and>
     (0 < max_num_transactions_in_block pc \<longrightarrow> length ts \<le> max_num_transactions_in_block pc) \<and>
     (0 < max_transactions_in_block_bytes pc \<longrightarrow> sum_list (map length ts) \<le> max_transactions_in_block_bytes pc)"

lemma check_sizes_iff: "check_sizes limit ts = ok () \<longleftrightarrow> (0 < limit \<longrightarrow> (\<forall>t \<in> set ts. length t \<le> limit))"
  by (induction ts) auto

lemma check_sizes_returns: "check_sizes limit ts \<noteq> None"
  by (induction ts) (simp_all del: not_None_eq)

lemma check_transactions_iff: "check_transactions pc ts = ok () \<longleftrightarrow> valid_transactions pc ts"
  by (auto simp: check_transactions_def valid_transactions_def and_then_ok_iff check_sizes_iff Let_def)

lemma check_transactions_returns: "check_transactions pc ts \<noteq> None"
  using check_sizes_returns by (simp add: check_transactions_def and_then_panic_iff Let_def del: not_None_eq)

text \<open>The loop invariant: \<open>seen\<close> marks the authors of the ancestors before position \<open>i\<close>.\<close>

definition parent_stake :: "committee \<Rightarrow> round \<Rightarrow> block_ref list \<Rightarrow> stake" where
  "parent_stake c rnd as = sum_list (map (\<lambda>a. a_stake (c_authorities c ! br_author a))
     (filter (\<lambda>a. br_round a = rnd - 1) as))"

lemma check_ancestors_iff:
  "length seen = committee_size c \<Longrightarrow> check_ancestors c genesis b i seen acc as = ok s \<longleftrightarrow>
     s = acc + parent_stake c (block_round b) as \<and> distinct (map br_author as) \<and>
     (\<forall>a \<in> set as. br_author a \<in> members c \<and> br_round a < block_round b \<and> \<not> seen ! br_author a \<and>
        (br_round a = GENESIS_ROUND \<longrightarrow> a |\<in>| genesis)) \<and>
     (\<forall>j < length as. br_author (as ! j) = block_author b \<longleftrightarrow> i + j = 0)"
proof (induction as arbitrary: i seen acc)
  case Nil
  then show ?case by (auto simp: parent_stake_def)
next
  case (Cons a as)
  let ?seen = "seen[br_author a := True]"
  have pos: "(\<forall>j < length (a # as). br_author ((a # as) ! j) = block_author b \<longleftrightarrow> i + j = 0) \<longleftrightarrow>
      (br_author a = block_author b \<longleftrightarrow> i = 0) \<and>
      (\<forall>j < length as. br_author (as ! j) = block_author b \<longleftrightarrow> Suc i + j = 0)"
    by (auto simp: less_Suc_eq_0_disj)
  have mem: "br_author a \<in> members c \<longleftrightarrow> br_author a < length seen"
    using Cons.prems by (simp add: members_def)
  have IH: "check_ancestors c genesis b (Suc i) ?seen acc' as = ok s \<longleftrightarrow>
     s = acc' + parent_stake c (block_round b) as \<and> distinct (map br_author as) \<and>
     (\<forall>x \<in> set as. br_author x \<in> members c \<and> br_round x < block_round b \<and> \<not> ?seen ! br_author x \<and>
        (br_round x = GENESIS_ROUND \<longrightarrow> x |\<in>| genesis)) \<and>
     (\<forall>j < length as. br_author (as ! j) = block_author b \<longleftrightarrow> Suc i + j = 0)" for acc'
    using Cons.prems by (intro Cons.IH) simp
  show ?case
  proof (cases "br_author a < length seen")
    case False
    then show ?thesis using mem Cons.prems by (auto simp: is_valid_index_def)
  next
    case True
    then have st: "committee_stake c (br_author a) = Some (a_stake (c_authorities c ! br_author a))"
      using Cons.prems by (simp add: committee_stake_def committee_size_def)
    have "(\<forall>x \<in> set as. br_author x \<in> members c \<and> br_round x < block_round b \<and> \<not> ?seen ! br_author x \<and>
          (br_round x = GENESIS_ROUND \<longrightarrow> x |\<in>| genesis)) \<longleftrightarrow>
        (\<forall>x \<in> set as. br_author x \<in> members c \<and> br_round x < block_round b \<and> \<not> seen ! br_author x \<and>
          (br_round x = GENESIS_ROUND \<longrightarrow> x |\<in>| genesis)) \<and> br_author a \<notin> br_author ` set as"
      using True by (auto simp: nth_list_update image_iff)
    note IH' = IH[unfolded this]
    have ps: "parent_stake c (block_round b) (a # as) = (if br_round a = block_round b - 1
        then a_stake (c_authorities c ! br_author a) + parent_stake c (block_round b) as
        else parent_stake c (block_round b) as)"
      by (simp add: parent_stake_def)
    show ?thesis
      unfolding pos check_ancestors.simps ps
      using True Cons.prems mem st IH' by (simp add: is_valid_index_def add.assoc) blast
  qed
qed

lemma check_ancestors_returns:
  "length seen = committee_size c \<Longrightarrow> check_ancestors c genesis b i seen acc as \<noteq> None"
proof (induction as arbitrary: i seen acc)
  case (Cons a as)
  have "check_ancestors c genesis b (Suc i) (seen[br_author a := True]) acc' as \<noteq> None" for acc'
    using Cons.prems by (intro Cons.IH) simp
  then show ?case
    using Cons.prems
    by (simp add: is_valid_index_def committee_stake_def committee_size_def del: not_None_eq)
qed simp

lemma map_err_returns: "map_err f r \<noteq> None"
  by (cases r) (simp_all add: map_err_def)

lemma map_err_ok_iff [result_simps]: "map_err f r = ok x \<longleftrightarrow> r = Inr x"
  by (cases r) (simp_all add: map_err_def)

lemma verify_signature_returns: "verify_signature k ctx sb \<noteq> None"
proof -
  have "compute_inner_block_digest k b \<noteq> None" for b
    by (simp add: compute_inner_block_digest_def and_then_panic_iff map_err_returns del: not_None_eq)
  then have "verify_block_signature k b s p \<noteq> None" for b s p
    by (simp add: verify_block_signature_def and_then_panic_iff map_err_returns del: not_None_eq)
  then show ?thesis
    by (simp add: verify_signature_def Let_def ensure_def committee_authority_def is_valid_index_def
        committee_size_def and_then_panic_iff del: not_None_eq)
qed

text \<open>The stake of parents of distinct members does not wrap around.\<close>

lemma parent_stake_exact:
  assumes wf: "committee_wf c" and va: "valid_ancestors c genesis b" and r: "0 < block_round b"
  shows "unat (parent_stake c (block_round b) (block_ancestors b)) = stake_of c (br_author ` set (parents_of b))"
proof -
  have eq: "filter (\<lambda>a. br_round a = block_round b - 1) (block_ancestors b) = parents_of b"
    unfolding parents_of_def using r by (intro filter_cong) auto
  have d: "distinct (map br_author (parents_of b))"
    unfolding parents_of_def using va by (auto simp: valid_ancestors_def intro: distinct_map_filter)
  have m: "set (map br_author (parents_of b)) \<subseteq> members c"
    using va by (auto simp: valid_ancestors_def parents_of_def)
  have "sum_list (map (weight c) (map br_author (parents_of b))) = stake_of c (set (map br_author (parents_of b)))"
    unfolding stake_of_def by (rule sum_list_distinct_conv_sum_set[OF d])
  then have sum: "sum_list (map unat (map (\<lambda>a. a_stake (c_authorities c ! br_author a)) (parents_of b))) =
      stake_of c (br_author ` set (parents_of b))"
    by (simp add: comp_def weight_def)
  also have "\<dots> < 2 ^ LENGTH(64)"
    using stake_of_le_total[OF wf m] unsigned_less[of "c_total_stake c", where 'a = nat] by simp
  finally show ?thesis
    unfolding parent_stake_def eq
    using unat_sum_list_no_wrap[of "map (\<lambda>a. a_stake (c_authorities c ! br_author a)) (parents_of b)"] sum by simp
qed

lemma check_ancestors_valid:
  assumes "block_ancestors b \<noteq> []"
  shows "check_ancestors c genesis b 0 (replicate (committee_size c) False) 0 (block_ancestors b) = ok s \<longleftrightarrow>
     valid_ancestors c genesis b \<and> s = parent_stake c (block_round b) (block_ancestors b)"
proof -
  let ?xs = "block_ancestors b"
  have "0 < length ?xs" and hd: "hd ?xs = ?xs ! 0" using assms by (simp_all add: hd_conv_nth)
  have pos: "(\<forall>j < length ?xs. br_author (?xs ! j) = block_author b \<longleftrightarrow> 0 + j = 0) \<longleftrightarrow>
      br_author (hd ?xs) = block_author b" if d: "distinct (map br_author ?xs)"
  proof
    assume *: "br_author (hd ?xs) = block_author b"
    have "br_author (?xs ! j) = br_author (?xs ! 0) \<longleftrightarrow> j = 0" if "j < length ?xs" for j
      using nth_eq_iff_index_eq[OF d, of j 0] that \<open>0 < length ?xs\<close> by (simp add: nth_map)
    then show "\<forall>j < length ?xs. br_author (?xs ! j) = block_author b \<longleftrightarrow> 0 + j = 0"
      using * hd by simp
  qed (use \<open>0 < length ?xs\<close> hd in auto)
  show ?thesis
    using check_ancestors_iff[of "replicate (committee_size c) False" c genesis b 0 0 "block_ancestors b" s] pos assms
    by (auto simp: valid_ancestors_def members_def)
qed

text \<open>
  The well-formed blocks of an epoch, and that \<open>verify_block\<close> accepts exactly these.
\<close>

definition valid_block :: "crypto \<Rightarrow> signed_block_verifier \<Rightarrow> signed_block \<Rightarrow> bool" where
  "valid_block k v sb \<longleftrightarrow> (let b = sb_inner sb; c = ctx_committee (sv_context v) in
     block_epoch b = c_epoch c \<and> 0 < block_round b \<and> block_author b \<in> members c \<and>
     verify_signature k (sv_context v) sb = ok () \<and> valid_ancestors c (sv_genesis v) b \<and>
     quorum c \<le> stake_of c (br_author ` set (parents_of b)) \<and>
     valid_transactions (ctx_protocol_config (sv_context v)) (block_transactions b))"

lemma valid_ancestors_length: "valid_ancestors c genesis b \<Longrightarrow> length (block_ancestors b) \<le> committee_size c"
proof -
  assume va: "valid_ancestors c genesis b"
  then have "length (map br_author (block_ancestors b)) = card (set (map br_author (block_ancestors b)))"
    by (simp only: valid_ancestors_def distinct_card)
  also have "\<dots> \<le> card (members c)"
    using va by (intro card_mono) (auto simp: valid_ancestors_def)
  finally show ?thesis by (simp add: members_def)
qed

lemma verify_block_iff:
  assumes wf: "committee_wf (ctx_committee (sv_context v))"
  shows "verify_block k v sb = ok () \<longleftrightarrow> valid_block k v sb"
proof -
  let ?b = "sb_inner sb" and ?c = "ctx_committee (sv_context v)"
  have q: "reached_quorum ?c (parent_stake ?c (block_round ?b) (block_ancestors ?b)) \<longleftrightarrow>
      quorum ?c \<le> stake_of ?c (br_author ` set (parents_of ?b))"
    if "valid_ancestors ?c (sv_genesis v) ?b" "0 < block_round ?b"
    using parent_stake_exact[OF wf that] by (simp add: reached_quorum_def quorum_def word_le_nat_alt)
  have ne: "block_ancestors ?b \<noteq> []" if "valid_ancestors ?c (sv_genesis v) ?b"
    using that by (simp add: valid_ancestors_def)
  show ?thesis
    using q ne valid_ancestors_length[of ?c "sv_genesis v" ?b]
    by (auto simp: verify_block_def valid_block_def Let_def and_then_ok_iff check_ancestors_valid
        check_transactions_iff is_valid_index_def members_def split: if_splits)
qed

lemma verify_block_returns: "verify_block k v sb \<noteq> None"
  by (simp add: verify_block_def Let_def and_then_panic_iff verify_signature_returns check_ancestors_returns
      check_transactions_returns del: not_None_eq)

section \<open>A concrete verifier\<close>

definition toy_crypto :: crypto where
  "toy_crypto = \<lparr>cry_block_bytes = (\<lambda>b. Inr [word_of_nat (block_round b), word_of_nat (block_author b)]),
     cry_intent_bytes = (\<lambda>d. Inr [ucast d]), cry_hash = (\<lambda>bs. case bs of [] \<Rightarrow> 0 | x # _ \<Rightarrow> ucast x),
     cry_sign = (\<lambda>key m. key @ m), cry_parse_signature = Inr,
     cry_verify = (\<lambda>key m sig. if sig = key @ m then Inr () else Inl ''invalid'')\<rparr>"

definition verifier4 :: signed_block_verifier where
  "verifier4 = \<lparr>sv_context = \<lparr>ctx_epoch_start_timestamp_ms = 0, ctx_own_index = 0, ctx_committee = committee4,
       ctx_parameters = parameters_default,
       ctx_protocol_config = \<lparr>pc_consensus_gc_depth = Some 3, pc_consensus_bad_nodes_stake_threshold = Some 20,
         pc_consensus_max_transactions_in_block_bytes = Some 8,
         pc_consensus_max_num_transactions_in_block = Some 2, pc_consensus_max_transaction_size_bytes = Some 4,
         pc_mysticeti_num_leaders_per_round = Some 1, pc_mysticeti_fastpath = False\<rparr>\<rparr>,
     sv_genesis = {|BlockRef 0 0 0, BlockRef 0 1 1, BlockRef 0 2 2, BlockRef 0 3 3|},
     sv_transaction_verifier = \<lparr>tv_verify_batch = (\<lambda>_. Inr ()), tv_verify_and_vote_batch = (\<lambda>_ _. Inr [])\<rparr>\<rparr>"

definition block4 :: block where
  "block4 = V1 (block_v1_new 0 1 2 5 [BlockRef 0 2 2, BlockRef 0 0 0, BlockRef 0 1 1] [[1, 2, 3]] [] [])"

lemmas verifier4_simps = verifier4_def block4_def block_v1_new_def committee4_def committee_size_def test_authority_def

section \<open>Properties\<close>

text \<open>
  C31. \<open>verify_block\<close> is a type check: it never panics, and for a well-formed committee it accepts
  exactly the blocks of the epoch that are above the genesis round, have a member as author and a
  valid signature, refer to at most one ancestor per author, its own first, all of members, of lower
  rounds and, at the genesis round, genesis blocks, whose parents hold a quorum of stake (without
  wrap-around of the 64-bit sum), and whose transactions keep the three limits, a limit of 0 meaning
  none.
\<close>

theorem verify_block_exact:
  assumes "committee_wf (ctx_committee (sv_context v))"
  shows "verify_block k v sb \<noteq> None \<and> (verify_block k v sb = ok () \<longleftrightarrow>
     block_epoch (sb_inner sb) = c_epoch (ctx_committee (sv_context v)) \<and> 0 < block_round (sb_inner sb) \<and>
     block_author (sb_inner sb) \<in> members (ctx_committee (sv_context v)) \<and>
     verify_signature k (sv_context v) sb = ok () \<and>
     valid_ancestors (ctx_committee (sv_context v)) (sv_genesis v) (sb_inner sb) \<and>
     quorum (ctx_committee (sv_context v)) \<le>
       stake_of (ctx_committee (sv_context v)) (br_author ` set (parents_of (sb_inner sb))) \<and>
     valid_transactions (ctx_protocol_config (sv_context v)) (block_transactions (sb_inner sb)))"
  using verify_block_iff[OF assms] verify_block_returns by (simp add: valid_block_def Let_def)

lemma verifier4_committee: "ctx_committee (sv_context verifier4) = committee4"
  by (simp add: verifier4_def)

theorem verify_block_exact_witness:
  "\<exists>sb. signed_block_new toy_crypto block4 (a_protocol_key (c_authorities committee4 ! 2)) = ok sb \<and>
     verify_block toy_crypto verifier4 sb = ok () \<and> valid_ancestors committee4 (sv_genesis verifier4) (sb_inner sb) \<and>
     quorum committee4 \<le> stake_of committee4 (br_author ` set (parents_of (sb_inner sb)))"
proof -
  obtain sb where sb: "signed_block_new toy_crypto block4 (a_protocol_key (c_authorities committee4 ! 2)) = ok sb"
      "verify_block toy_crypto verifier4 sb = ok ()"
    by (simp add: signed_block_new_def compute_block_signature_def compute_inner_block_digest_def toy_crypto_def
        map_err_def verify_block_def verifier4_simps verify_signature_def verify_block_signature_def
        is_valid_index_def committee_authority_def check_transactions_def Let_def GENESIS_ROUND_def
        max_transaction_size_bytes_def max_num_transactions_in_block_def max_transactions_in_block_bytes_def
        committee_stake_def reached_quorum_def vec_get_def vec_set_def ensure_def numeral_2_eq_2)
  have "committee_wf (ctx_committee (sv_context verifier4))" using committee4_wf by (simp add: verifier4_committee)
  from verify_block_exact[OF this, of toy_crypto sb] sb show ?thesis unfolding verifier4_committee by blast
qed

end
