(* ===== verification/BlockManager.thy ===== *)
theory BlockManager
  imports CommitterSafety
begin

text \<open>
  The block manager (\<open>core/src/block_manager.rs\<close>): it suspends blocks until their causal history is in
  the DAG and accepts them, with the blocks that waited for them, once it is.

  The shared DAG state is an argument and a result of the operations that write it; \<open>now\<close> is
  \<open>Instant::now()\<close>. The metrics are left out, but the lookups of authorities they make, which panic
  for an unknown one, are kept.
\<close>

section \<open>State\<close>

record suspended_block =
  su_block :: verified_block
  su_missing_ancestors :: "block_ref fset"
  su_timestamp :: nat

definition suspended_block_new :: "nat \<Rightarrow> verified_block \<Rightarrow> block_ref fset \<Rightarrow> suspended_block" where
  "suspended_block_new now b missing = \<lparr>su_block = b, su_missing_ancestors = missing, su_timestamp = now\<rparr>"

record block_manager =
  bm_context :: node_context
  bm_suspended_blocks :: "(block_ref, suspended_block) fmap"
  bm_missing_ancestors :: "(block_ref, block_ref fset) fmap"
  bm_missing_blocks :: "block_ref fset"
  bm_received_block_rounds :: "(round \<times> round) option list"

definition block_manager_new :: "node_context \<Rightarrow> block_manager" where
  "block_manager_new ctx =
     \<lparr>bm_context = ctx, bm_suspended_blocks = fmempty, bm_missing_ancestors = fmempty,
      bm_missing_blocks = {||},
      bm_received_block_rounds = replicate (committee_size (ctx_committee ctx)) None\<rparr>"

abbreviation bm_committee :: "block_manager \<Rightarrow> committee" where
  "bm_committee bm \<equiv> ctx_committee (bm_context bm)"

datatype try_accept_result =
    Accepted verified_block
  | Suspended "block_ref fset"
  | Processed
  | Skipped

section \<open>Unsuspending\<close>

definition try_unsuspend_block :: "block_ref \<Rightarrow> block_ref \<Rightarrow> block_manager
    \<Rightarrow> (block_manager \<times> suspended_block option) option" where
  "try_unsuspend_block block_ref dependency bm = do {
     sb \<leftarrow> fmlookup (bm_suspended_blocks bm) block_ref;
     rust_assert (dependency |\<in>| su_missing_ancestors sb);
     let sb' = sb\<lparr>su_missing_ancestors := su_missing_ancestors sb |-| {|dependency|}\<rparr>;
     if su_missing_ancestors sb' = {||}
     then Some (bm\<lparr>bm_suspended_blocks := fmdrop block_ref (bm_suspended_blocks bm)\<rparr>, Some sb')
     else Some (bm\<lparr>bm_suspended_blocks := fmupd block_ref sb' (bm_suspended_blocks bm)\<rparr>, None)
   }"

definition unsuspend_child :: "block_ref \<Rightarrow> block_ref \<Rightarrow> block_manager \<times> suspended_block list
    \<Rightarrow> (block_manager \<times> suspended_block list) option" where
  "unsuspend_child dependency r = (\<lambda>(bm, unsuspended). do {
     (bm', res) \<leftarrow> try_unsuspend_block r dependency bm;
     Some (bm', case res of Some sb \<Rightarrow> unsuspended @ [sb] | None \<Rightarrow> unsuspended)
   })"

definition unsuspend_direct :: "block_ref \<Rightarrow> block_manager \<Rightarrow> (block_manager \<times> suspended_block list) option" where
  "unsuspend_direct dependency bm =
     (case fmlookup (bm_missing_ancestors bm) dependency of
        None \<Rightarrow> Some (bm, [])
      | Some rs \<Rightarrow> try_fold (unsuspend_child dependency) (sorted_list_of_fset rs)
          (bm\<lparr>bm_missing_ancestors := fmdrop dependency (bm_missing_ancestors bm)\<rparr>, []))"

lemma try_unsuspend_block_card:
  assumes "try_unsuspend_block r d bm = Some (bm', res)"
  shows "fcard (fmdom (bm_suspended_blocks bm)) =
      fcard (fmdom (bm_suspended_blocks bm')) + (case res of Some _ \<Rightarrow> 1 | None \<Rightarrow> 0)"
    and "bm_missing_ancestors bm' = bm_missing_ancestors bm"
proof -
  obtain sb where sb: "fmlookup (bm_suspended_blocks bm) r = Some sb"
    using assms by (auto simp: try_unsuspend_block_def bind_eq_Some_conv)
  then have dom: "r |\<in>| fmdom (bm_suspended_blocks bm)" by (rule fmdomI)
  then have "fcard (fmdom (bm_suspended_blocks bm)) = Suc (fcard (fmdom (bm_suspended_blocks bm) |-| {|r|}))"
    by (metis fcard_Suc_fminus1)
  then show "fcard (fmdom (bm_suspended_blocks bm)) =
      fcard (fmdom (bm_suspended_blocks bm')) + (case res of Some _ \<Rightarrow> 1 | None \<Rightarrow> 0)"
    using assms sb dom
    by (auto simp: try_unsuspend_block_def bind_rust_assert Let_def finsert_absorb split: if_splits)
  show "bm_missing_ancestors bm' = bm_missing_ancestors bm"
    using assms by (auto simp: try_unsuspend_block_def bind_eq_Some_conv bind_rust_assert Let_def split: if_splits)
qed

lemma unsuspend_child_iff:
  "unsuspend_child d r (bm, us) = Some (bm', us') \<longleftrightarrow> (\<exists>res. try_unsuspend_block r d bm = Some (bm', res) \<and>
     us' = (case res of Some sb \<Rightarrow> us @ [sb] | None \<Rightarrow> us))"
  by (auto simp: unsuspend_child_def bind_eq_Some_conv)

lemma unsuspend_children_card:
  "try_fold (unsuspend_child d) rs (bm, us) = Some (bm', us') \<Longrightarrow>
   (\<exists>new. us' = us @ new \<and> fcard (fmdom (bm_suspended_blocks bm)) =
      fcard (fmdom (bm_suspended_blocks bm')) + length new) \<and> bm_missing_ancestors bm' = bm_missing_ancestors bm"
proof (induction rs arbitrary: bm us)
  case (Cons r rs)
  obtain bm1 res where 1: "try_unsuspend_block r d bm = Some (bm1, res)"
      "try_fold (unsuspend_child d) rs (bm1, case res of Some sb \<Rightarrow> us @ [sb] | None \<Rightarrow> us) = Some (bm', us')"
    using Cons.prems by (auto simp: bind_eq_Some_conv unsuspend_child_iff)
  note card = try_unsuspend_block_card[OF 1(1)]
  show ?case using Cons.IH[OF 1(2)] card by (cases res) auto
qed simp

lemma unsuspend_direct_card:
  assumes "unsuspend_direct d bm = Some (bm', new)"
  shows "fcard (fmdom (bm_suspended_blocks bm)) = fcard (fmdom (bm_suspended_blocks bm')) + length new"
    and "bm_missing_ancestors bm' = fmdrop d (bm_missing_ancestors bm)"
  using assms unsuspend_children_card[of d _ "bm\<lparr>bm_missing_ancestors := fmdrop d (bm_missing_ancestors bm)\<rparr>" "[]" bm' new]
  by (auto simp: unsuspend_direct_def fmdrop_idle fmdom_notI split: option.splits)

text \<open>
  The work list, its top first. Every block it pushes leaves the suspended blocks, so twice their
  number plus the length of the list decreases.
\<close>

function unsuspend_loop :: "block_ref list \<Rightarrow> block_manager \<Rightarrow> suspended_block list
    \<Rightarrow> (block_manager \<times> suspended_block list) option" where
  "unsuspend_loop [] bm unsuspended = Some (bm, unsuspended)"
| "unsuspend_loop (r # stack) bm unsuspended =
     (case unsuspend_direct r bm of
        None \<Rightarrow> None
      | Some (bm', new) \<Rightarrow>
          unsuspend_loop (rev (map (reference \<circ> su_block) new) @ stack) bm' (unsuspended @ new))"
  by pat_completeness auto
termination
proof (relation "measure (\<lambda>(stack, bm, _). 2 * fcard (fmdom (bm_suspended_blocks bm)) + length stack)", simp)
  fix r stack bm unsuspended p bm' new
  assume "unsuspend_direct r bm = Some p" "(bm', new) = p"
  then have "unsuspend_direct r bm = Some (bm', new)" by simp
  from unsuspend_direct_card(1)[OF this]
  show "((rev (map (reference \<circ> su_block) new) @ stack, bm', unsuspended @ new), r # stack, bm, unsuspended)
      \<in> measure (\<lambda>(stack, bm, _). 2 * fcard (fmdom (bm_suspended_blocks bm)) + length stack)"
    by simp
qed

declare unsuspend_loop.simps(2) [simp del]

definition try_unsuspend_children_blocks :: "block_ref \<Rightarrow> block_manager
    \<Rightarrow> (block_manager \<times> verified_block list) option" where
  "try_unsuspend_children_blocks accepted_block bm = do {
     (bm', unsuspended) \<leftarrow> unsuspend_loop [accepted_block] bm [];
     _ \<leftarrow> try_map (\<lambda>sb. committee_authority (bm_committee bm) (vb_author (su_block sb))) unsuspended;
     Some (bm', map su_block unsuspended)
   }"

section \<open>Accepting blocks\<close>

definition update_block_received_metrics :: "verified_block \<Rightarrow> block_manager \<Rightarrow> block_manager option" where
  "update_block_received_metrics b bm = do {
     cur \<leftarrow> vec_get (bm_received_block_rounds bm) (vb_author b);
     let rounds = (case cur of Some (lo, hi) \<Rightarrow> (min lo (vb_round b), max hi (vb_round b))
                   | None \<Rightarrow> (vb_round b, vb_round b));
     received \<leftarrow> vec_set (bm_received_block_rounds bm) (vb_author b) (Some rounds);
     _ \<leftarrow> committee_authority (bm_committee bm) (vb_author b);
     Some (bm\<lparr>bm_received_block_rounds := received\<rparr>)
   }"

text \<open>One missing ancestor of the block \<open>r\<close>.\<close>

definition miss_ancestor :: "block_ref \<Rightarrow> block_ref \<Rightarrow> block_manager \<times> block_ref fset \<times> block_ref fset
    \<Rightarrow> (block_manager \<times> block_ref fset \<times> block_ref fset) option" where
  "miss_ancestor r a = (\<lambda>(bm, missing, to_fetch). do {
     let waiting = (case fmlookup (bm_missing_ancestors bm) a of Some rs \<Rightarrow> rs | None \<Rightarrow> {||});
     let bm1 = bm\<lparr>bm_missing_ancestors := fmupd a (finsert r waiting) (bm_missing_ancestors bm)\<rparr>;
     _ \<leftarrow> committee_authority (bm_committee bm) (br_author a);
     Some (if a |\<notin>| fmdom (bm_suspended_blocks bm)
       then (bm1\<lparr>bm_missing_blocks := finsert a (bm_missing_blocks bm)\<rparr>, finsert a missing, finsert a to_fetch)
       else (bm1, finsert a missing, to_fetch))
   })"

definition try_accept_one_block :: "nat \<Rightarrow> dag_state \<Rightarrow> verified_block \<Rightarrow> block_manager
    \<Rightarrow> (block_manager \<times> try_accept_result) option" where
  "try_accept_one_block now ds b bm = do {
     let r = reference b;
     processed \<leftarrow> (if r |\<in>| fmdom (bm_suspended_blocks bm) then Some True else contains_block ds r);
     if processed then Some (bm, Processed)
     else if vb_round b \<le> gc_round ds then do {
       _ \<leftarrow> committee_authority (bm_committee bm) (vb_author b);
       Some (bm, Skipped)
     } else do {
       let ancestors = filter (\<lambda>a. br_round a = GENESIS_ROUND \<or> br_round a > gc_round ds) (vb_ancestors b);
       found \<leftarrow> contains_blocks ds ancestors;
       (bm1, missing, to_fetch) \<leftarrow> try_fold (miss_ancestor r)
         (map snd (filter (\<lambda>(f, _). \<not> f) (zip found ancestors))) (bm, {||}, {||});
       let bm2 = bm1\<lparr>bm_missing_blocks := bm_missing_blocks bm1 |-| {|r|}\<rparr>;
       if missing \<noteq> {||} then do {
         _ \<leftarrow> committee_authority (bm_committee bm) (vb_author b);
         Some (bm2\<lparr>bm_suspended_blocks := fmupd r (suspended_block_new now b missing) (bm_suspended_blocks bm2)\<rparr>,
               Suspended to_fetch)
       } else Some (bm2, Accepted b)
     }
   }"

text \<open>A committed block is accepted at once; it stops waiting for its ancestors.\<close>

definition forget_waiting :: "block_ref \<Rightarrow> block_ref fset \<Rightarrow> (block_ref, block_ref fset) fmap
    \<Rightarrow> (block_ref, block_ref fset) fmap" where
  "forget_waiting r missing m = fmmap_keys (\<lambda>a rs. if a |\<in>| missing then rs |-| {|r|} else rs) m"

definition try_accept_one_committed_block :: "nat \<Rightarrow> verified_block \<Rightarrow> block_manager \<times> dag_state
    \<Rightarrow> ((block_manager \<times> dag_state) \<times> try_accept_result) option" where
  "try_accept_one_committed_block now b = (\<lambda>(bm, ds). do {
     let r = reference b;
     known \<leftarrow> contains_block ds r;
     if known then Some ((bm, ds), Processed)
     else do {
       let bm1 = bm\<lparr>bm_missing_blocks := bm_missing_blocks bm |-| {|r|}\<rparr>;
       let bm2 = (case fmlookup (bm_suspended_blocks bm1) r of
           None \<Rightarrow> bm1
         | Some sb \<Rightarrow> bm1\<lparr>bm_suspended_blocks := fmdrop r (bm_suspended_blocks bm1),
             bm_missing_ancestors := forget_waiting r (su_missing_ancestors sb) (bm_missing_ancestors bm1)\<rparr>);
       ds' \<leftarrow> accept_blocks now [b] ds;
       Some ((bm2, ds'), Accepted b)
     }
   })"

text \<open>The body of the loop over the blocks; \<open>is_committed_batch\<close> is the flag of the source.\<close>

definition accept_with_children :: "nat \<Rightarrow> block_ref \<Rightarrow> verified_block list \<Rightarrow> block_manager \<times> dag_state
    \<Rightarrow> ((block_manager \<times> dag_state) \<times> verified_block list) option" where
  "accept_with_children now r to_accept = (\<lambda>(bm, ds). do {
     (bm', unsuspended) \<leftarrow> try_unsuspend_children_blocks r bm;
     let to_accept' = to_accept @ unsuspended;
     ds' \<leftarrow> accept_blocks now to_accept' ds;
     Some ((bm', ds'), to_accept')
   })"

definition try_accept_step :: "nat \<Rightarrow> bool \<Rightarrow> verified_block
    \<Rightarrow> (block_manager \<times> dag_state) \<times> verified_block list \<times> block_ref fset
    \<Rightarrow> ((block_manager \<times> dag_state) \<times> verified_block list \<times> block_ref fset) option" where
  "try_accept_step now is_committed_batch b = (\<lambda>((bm, ds), accepted, missing). do {
     bm1 \<leftarrow> update_block_received_metrics b bm;
     if is_committed_batch then do {
       (st, res) \<leftarrow> try_accept_one_committed_block now b (bm1, ds);
       (case res of
          Accepted b' \<Rightarrow> do {
            (st', more) \<leftarrow> accept_with_children now (reference b) [] st;
            Some (st', accepted @ [b'] @ more, missing)
          }
        | Processed \<Rightarrow> Some (st, accepted, missing)
        | _ \<Rightarrow> None)
     } else do {
       (bm2, res) \<leftarrow> try_accept_one_block now ds b bm1;
       (case res of
          Accepted b' \<Rightarrow> do {
            (st', more) \<leftarrow> accept_with_children now (reference b) [b'] (bm2, ds);
            Some (st', accepted @ more, missing)
          }
        | Suspended to_fetch \<Rightarrow> Some ((bm2, ds), accepted, missing |\<union>| to_fetch)
        | _ \<Rightarrow> Some ((bm2, ds), accepted, missing))
     }
   })"

definition try_accept_blocks_internal :: "nat \<Rightarrow> verified_block list \<Rightarrow> bool \<Rightarrow> block_manager \<times> dag_state
    \<Rightarrow> ((block_manager \<times> dag_state) \<times> verified_block list \<times> block_ref fset) option" where
  "try_accept_blocks_internal now bs is_committed_batch st =
     try_fold (try_accept_step now is_committed_batch) (sort_key vb_round bs) (st, [], {||})"

definition try_accept_blocks :: "nat \<Rightarrow> verified_block list \<Rightarrow> block_manager \<times> dag_state
    \<Rightarrow> ((block_manager \<times> dag_state) \<times> verified_block list \<times> block_ref fset) option" where
  "try_accept_blocks now bs st = try_accept_blocks_internal now bs False st"

definition try_accept_committed_blocks :: "nat \<Rightarrow> verified_block list \<Rightarrow> block_manager \<times> dag_state
    \<Rightarrow> ((block_manager \<times> dag_state) \<times> verified_block list) option" where
  "try_accept_committed_blocks now bs st = do {
     (st', accepted, missing) \<leftarrow> try_accept_blocks_internal now bs True st;
     rust_assert (missing = {||});
     Some (st', accepted)
   }"

section \<open>Finding blocks and garbage collection\<close>

definition find_missing :: "block_ref \<Rightarrow> block_manager \<times> block_ref fset \<Rightarrow> (block_manager \<times> block_ref fset) option" where
  "find_missing r = (\<lambda>(bm, missing).
     if r |\<in>| fmdom (bm_suspended_blocks bm) then Some (bm, missing)
     else if r |\<in>| bm_missing_blocks bm then Some (bm, finsert r missing)
     else do {
       _ \<leftarrow> committee_authority (bm_committee bm) (br_author r);
       Some (bm\<lparr>bm_missing_blocks := finsert r (bm_missing_blocks bm),
           bm_missing_ancestors := (case fmlookup (bm_missing_ancestors bm) r of
               Some _ \<Rightarrow> bm_missing_ancestors bm
             | None \<Rightarrow> fmupd r {||} (bm_missing_ancestors bm))\<rparr>, finsert r missing)
     })"

definition try_find_blocks :: "dag_state \<Rightarrow> block_ref list \<Rightarrow> block_manager \<Rightarrow> (block_manager \<times> block_ref fset) option" where
  "try_find_blocks ds refs bm =
     (let refs' = sort_key br_round (filter (\<lambda>r. br_round r > gc_round ds) refs)
      in if refs' = [] then Some (bm, {||})
         else do {
           found \<leftarrow> contains_blocks ds refs';
           try_fold find_missing (map snd (filter (\<lambda>(f, _). \<not> f) (zip found refs'))) (bm, {||})
         })"

lemma unsuspend_loop_missing:
  "unsuspend_loop stack bm us = Some (bm', us') \<Longrightarrow> fmdom (bm_missing_ancestors bm') |\<subseteq>| fmdom (bm_missing_ancestors bm)
     \<and> (\<forall>r \<in> set stack. r |\<notin>| fmdom (bm_missing_ancestors bm'))"
proof (induction stack bm us rule: unsuspend_loop.induct)
  case (2 r stack bm us)
  obtain bm1 new where 1: "unsuspend_direct r bm = Some (bm1, new)"
      "unsuspend_loop (rev (map (reference \<circ> su_block) new) @ stack) bm1 (us @ new) = Some (bm', us')"
    using "2.prems" by (auto simp: unsuspend_loop.simps(2) split: option.splits)
  from "2.IH"[OF 1(1) refl 1(2)] unsuspend_direct_card(2)[OF 1(1)] show ?case by auto
qed simp

function gc_loop :: "nat \<Rightarrow> round \<Rightarrow> block_manager \<times> dag_state \<Rightarrow> (block_manager \<times> dag_state) option" where
  "gc_loop now gc (bm, ds) =
     (case fs_first (fmdom (bm_missing_ancestors bm)) of
        None \<Rightarrow> Some (bm, ds)
      | Some r \<Rightarrow>
          if br_round r > gc then Some (bm, ds)
          else if committee_authority (bm_committee bm) (br_author r) = None then None
          else if r |\<in>| fmdom (bm_suspended_blocks bm) then None
          else (case try_unsuspend_children_blocks r (bm\<lparr>bm_missing_blocks := bm_missing_blocks bm |-| {|r|}\<rparr>) of
                  None \<Rightarrow> None
                | Some (bm', unsuspended) \<Rightarrow>
                    (case accept_blocks now unsuspended ds of
                       None \<Rightarrow> None
                     | Some ds' \<Rightarrow> gc_loop now gc (bm', ds'))))"
  by pat_completeness auto
termination
proof (relation "measure (\<lambda>(_, _, bm, _). fcard (fmdom (bm_missing_ancestors bm)))", simp)
  fix now gc and bm :: block_manager and ds r p bm' unsuspended ds'
  assume r: "fs_first (fmdom (bm_missing_ancestors bm)) = Some r" and "(bm', unsuspended) = p"
    and "try_unsuspend_children_blocks r (bm\<lparr>bm_missing_blocks := bm_missing_blocks bm |-| {|r|}\<rparr>) = Some p"
  then obtain us where "unsuspend_loop [r] (bm\<lparr>bm_missing_blocks := bm_missing_blocks bm |-| {|r|}\<rparr>) [] = Some (bm', us)"
    by (auto simp: try_unsuspend_children_blocks_def bind_eq_Some_conv)
  from unsuspend_loop_missing[OF this]
  have "fmdom (bm_missing_ancestors bm') |\<subset>| fmdom (bm_missing_ancestors bm)"
    using fs_first_SomeD[OF r] by auto
  then show "((now, gc, bm', ds'), now, gc, bm, ds) \<in> measure (\<lambda>(_, _, bm, _). fcard (fmdom (bm_missing_ancestors bm)))"
    by (simp add: pfsubset_fcard_mono)
qed

declare gc_loop.simps [simp del]

definition try_unsuspend_blocks_for_latest_gc_round :: "nat \<Rightarrow> block_manager \<times> dag_state
    \<Rightarrow> (block_manager \<times> dag_state) option" where
  "try_unsuspend_blocks_for_latest_gc_round now = (\<lambda>(bm, ds). gc_loop now (gc_round ds) (bm, ds))"

definition missing_blocks :: "block_manager \<Rightarrow> block_ref fset" where
  "missing_blocks bm = bm_missing_blocks bm"

end
