(* ===== verification/BlockManagerInv.thy ===== *)
theory BlockManagerInv
  imports BlockManager
begin

text \<open>
  What the block manager keeps. The invariant relates the three tables of the manager (the suspended
  blocks, the blocks waiting for each missing ancestor, the blocks to fetch) to the blocks known to the
  DAG state. The operations are shown to keep it, never to panic, and to accept blocks in causal
  order. \<open>G\<close> holds the verified blocks that exist in the epoch; a node knows a part of them.
\<close>

section \<open>The blocks of the epoch\<close>

definition sources :: "committee \<Rightarrow> authority_index \<Rightarrow> dag_view \<Rightarrow> bool" where
  "sources c me G \<longleftrightarrow> (\<forall>r b. G r = Some b \<longrightarrow> reference b = r \<and> br_author r < committee_size c \<and>
     (\<forall>x \<in> set (vb_ancestors b). br_author x < committee_size c \<and> br_round x < br_round r \<and>
        (br_round x = 0 \<longrightarrow> G x \<noteq> None)) \<and>
     (\<forall>r'. G r' \<noteq> None \<and> br_author r = me \<and> slot_of_ref r' = slot_of_ref r \<longrightarrow> r' = r))"

lemma sourcesD:
  assumes "sources c me G" "G r = Some b"
  shows "reference b = r" "br_author r < committee_size c" "vb_author b < committee_size c"
    and "x \<in> set (vb_ancestors b) \<Longrightarrow> br_author x < committee_size c"
    and "x \<in> set (vb_ancestors b) \<Longrightarrow> br_round x < br_round r"
    and "x \<in> set (vb_ancestors b) \<Longrightarrow> br_round x = 0 \<Longrightarrow> G x \<noteq> None"
    and "G r' \<noteq> None \<Longrightarrow> br_author r = me \<Longrightarrow> slot_of_ref r' = slot_of_ref r \<Longrightarrow> r' = r"
proof -
  show "reference b = r" "br_author r < committee_size c" using assms by (auto simp: sources_def)
  then show "vb_author b < committee_size c" by auto
qed (use assms in \<open>auto simp: sources_def\<close>)

abbreviation known :: "dag_state \<Rightarrow> block_ref set" where
  "known ds \<equiv> dom (lookup_block ds)"

definition dag_ok :: "dag_view \<Rightarrow> dag_state \<Rightarrow> bool" where
  "dag_ok G ds \<longleftrightarrow> dag_inv ds \<and> sources (ds_committee ds) (ds_own_index ds) G \<and> lookup_block ds \<subseteq>\<^sub>m G \<and>
     (\<forall>r. br_round r = 0 \<longrightarrow> lookup_block ds r = G r) \<and> causal ds (Suc (gc_round ds))"

lemma dag_okD:
  assumes "dag_ok G ds"
  shows "dag_inv ds" "sources (ds_committee ds) (ds_own_index ds) G" "lookup_block ds \<subseteq>\<^sub>m G"
    and "br_round r = 0 \<Longrightarrow> lookup_block ds r = G r" "causal ds (Suc (gc_round ds))"
    and "lookup_block ds r = Some b \<Longrightarrow> G r = Some b"
  using assms unfolding dag_ok_def by (blast, blast, blast, blast, blast, metis domI map_le_def)

lemma own_slot_free:
  assumes ok: "dag_ok G ds" and b: "G (reference b) = Some b" "vb_author b = ds_own_index ds"
    and new: "reference b \<notin> known ds"
  shows "get_uncommitted_blocks_at_slot ds (slot_of_ref (reference b)) = []"
proof (rule ccontr)
  assume "\<not> ?thesis"
  then obtain k bi where k: "fmlookup (ds_recent_blocks ds) k = Some bi" "slot_of_ref k = slot_of_ref (reference b)"
    by (cases "slot_of_ref (reference b)")
      (auto simp: get_uncommitted_blocks_at_slot_def ref_in_slot_range set_fm_range
        dest!: hd_in_set[of "fm_range _ _"])
  have "0 < br_round k" using dag_okD(1)[OF ok] k(1) unfolding dag_inv_def cache_inv_def by blast
  with k(1) have "lookup_block ds k \<noteq> None" by (simp add: lookup_block_def GENESIS_ROUND_def)
  moreover from this have "G k \<noteq> None" using dag_okD(6)[OF ok] by fastforce
  then have "k = reference b" using sourcesD(7)[OF dag_okD(2)[OF ok] b(1)] k(2) b(2) by simp
  ultimately show False using new by auto
qed

lemma accept_block_ok:
  assumes ok: "dag_ok G ds" and b: "G (reference b) = Some b" "0 < vb_round b"
    and anc: "\<And>x. x \<in> set (vb_ancestors b) \<Longrightarrow> gc_round ds < br_round x \<Longrightarrow> x \<in> known ds"
  shows "\<exists>ds'. accept_block now b ds = Some ds' \<and> dag_ok G ds' \<and> same_frame ds ds' \<and>
     known ds' = insert (reference b) (known ds)"
proof -
  note src = sourcesD[OF dag_okD(2)[OF ok] b(1)]
  obtain ds' where ds': "accept_block now b ds = Some ds'" "dag_inv ds'" "same_frame ds ds'"
      "lookup_block ds' = (if lookup_block ds (reference b) = None
         then (lookup_block ds)(reference b \<mapsto> b) else lookup_block ds)"
    using accept_block_spec[OF dag_okD(1)[OF ok] b(2) src(3)] own_slot_free[OF ok b(1)] by (metis domIff)
  have gc: "gc_round ds' = gc_round ds" using ds'(3) by (intro gc_round_cong) (simp_all add: same_frame_def)
  have upd: "lookup_block ds' r = (if r = reference b then Some b else lookup_block ds r)" for r
    using ds'(4) dag_okD(6)[OF ok] b(1) by (auto split: if_splits)
  have "causal ds' (Suc (gc_round ds'))"
    using dag_okD(5)[OF ok] src(5) anc unfolding causal_def gc upd by (auto simp: domIff Suc_le_eq)
  moreover have "lookup_block ds' \<subseteq>\<^sub>m G"
    using dag_okD(6)[OF ok] b(1) by (auto simp: map_le_def upd)
  moreover have "lookup_block ds' r = G r" if "br_round r = 0" for r
    using dag_okD(4)[OF ok that] b(1) by (auto simp: upd)
  ultimately have "dag_ok G ds'"
    using ds'(2,3) dag_okD(2)[OF ok] by (auto simp: dag_ok_def same_frame_def)
  moreover have "known ds' = insert (reference b) (known ds)" by (auto simp: upd dom_def)
  ultimately show ?thesis using ds' by blast
qed

text \<open>A list of blocks in causal order: each finds its ancestors above the round among \<open>K\<close> or before it.\<close>

fun causal_order :: "round \<Rightarrow> block_ref set \<Rightarrow> verified_block list \<Rightarrow> bool" where
  "causal_order gc K [] = True"
| "causal_order gc K (b # bs) = ((\<forall>x \<in> set (vb_ancestors b). gc < br_round x \<longrightarrow> x \<in> K) \<and>
     causal_order gc (insert (reference b) K) bs)"

lemma causal_order_append [simp]:
  "causal_order gc K (as @ bs) \<longleftrightarrow> causal_order gc K as \<and> causal_order gc (K \<union> reference ` set as) bs"
  by (induction as arbitrary: K) (auto simp: insert_commute)

lemma accept_all_ok:
  assumes "dag_ok G ds" and "\<forall>b \<in> set bs. G (reference b) = Some b \<and> 0 < vb_round b"
    and "causal_order (gc_round ds) (known ds) bs"
  shows "\<exists>ds'. accept_blocks now bs ds = Some ds' \<and> dag_ok G ds' \<and> same_frame ds ds' \<and>
     known ds' = known ds \<union> reference ` set bs"
  using assms unfolding accept_blocks_def
proof (induction bs arbitrary: ds)
  case (Cons b bs)
  have b: "G (reference b) = Some b" "0 < vb_round b" using Cons.prems(2) by auto
  obtain ds1 where 1: "accept_block now b ds = Some ds1" "dag_ok G ds1" "same_frame ds ds1"
      "known ds1 = insert (reference b) (known ds)"
    using accept_block_ok[OF Cons.prems(1) b, of now] Cons.prems(3) by auto
  have "gc_round ds1 = gc_round ds" using 1(3) by (intro gc_round_cong) (simp_all add: same_frame_def)
  then obtain ds2 where "try_fold (accept_block now) bs ds1 = Some ds2" "dag_ok G ds2" "same_frame ds1 ds2"
      "known ds2 = known ds1 \<union> reference ` set bs"
    using Cons.IH[OF 1(2)] Cons.prems(2,3) 1(4) by auto
  then show ?case using 1 same_frame_trans[OF 1(3)] by auto
qed simp

section \<open>The tables of the manager\<close>

abbreviation suspended :: "block_manager \<Rightarrow> block_ref set" where
  "suspended bm \<equiv> fset (fmdom (bm_suspended_blocks bm))"

text \<open>
  A suspended block waits for some of its ancestors, is listed under each of them, and knows every
  other ancestor above the garbage collection round. \<open>K\<close> are the known blocks; \<open>W\<close> are blocks that
  no longer hold anything back but whose waiting children have not been visited.
\<close>

definition parked :: "dag_view \<Rightarrow> round \<Rightarrow> block_ref set \<Rightarrow> block_ref set \<Rightarrow> block_manager
    \<Rightarrow> block_ref \<Rightarrow> suspended_block \<Rightarrow> bool" where
  "parked G gc K W bm r su \<longleftrightarrow> G r = Some (su_block su) \<and> 0 < br_round r \<and> r \<notin> K \<union> W \<and>
     su_missing_ancestors su \<noteq> {||} \<and>
     (\<forall>x. x |\<in>| su_missing_ancestors su \<longrightarrow> x \<in> set (vb_ancestors (su_block su)) \<and>
        (\<exists>rs. fmlookup (bm_missing_ancestors bm) x = Some rs \<and> r |\<in>| rs)) \<and>
     (\<forall>x \<in> set (vb_ancestors (su_block su)). gc < br_round x \<longrightarrow> x \<in> K \<or> x |\<in>| su_missing_ancestors su)"

definition awaited :: "block_ref set \<Rightarrow> block_ref set \<Rightarrow> block_manager \<Rightarrow> block_ref \<Rightarrow> block_ref fset \<Rightarrow> bool" where
  "awaited K W bm x rs \<longleftrightarrow> (x \<in> K \<longrightarrow> x \<in> W) \<and> br_author x < committee_size (bm_committee bm) \<and>
     (\<forall>r. r |\<in>| rs \<longrightarrow> (\<exists>su. fmlookup (bm_suspended_blocks bm) r = Some su \<and> x |\<in>| su_missing_ancestors su))"

definition waiting :: "dag_view \<Rightarrow> round \<Rightarrow> block_ref set \<Rightarrow> block_ref set \<Rightarrow> block_manager \<Rightarrow> bool" where
  "waiting G gc K W bm \<longleftrightarrow>
     (\<forall>r su. fmlookup (bm_suspended_blocks bm) r = Some su \<longrightarrow> parked G gc K W bm r su) \<and>
     (\<forall>x rs. fmlookup (bm_missing_ancestors bm) x = Some rs \<longrightarrow> awaited K W bm x rs) \<and>
     (\<forall>x. x |\<in>| bm_missing_blocks bm \<longleftrightarrow> fmlookup (bm_missing_ancestors bm) x \<noteq> None \<and>
        fmlookup (bm_suspended_blocks bm) x = None \<and> x \<notin> W)"

lemma waitingD:
  assumes "waiting G gc K W bm"
  shows "fmlookup (bm_suspended_blocks bm) r = Some su \<Longrightarrow> parked G gc K W bm r su"
    and "fmlookup (bm_missing_ancestors bm) x = Some rs \<Longrightarrow> awaited K W bm x rs"
    and "x |\<in>| bm_missing_blocks bm \<longleftrightarrow> fmlookup (bm_missing_ancestors bm) x \<noteq> None \<and>
      fmlookup (bm_suspended_blocks bm) x = None \<and> x \<notin> W"
  using assms unfolding waiting_def by blast+

lemma waitingI:
  assumes "\<And>r su. fmlookup (bm_suspended_blocks bm) r = Some su \<Longrightarrow> parked G gc K W bm r su"
    and "\<And>x rs. fmlookup (bm_missing_ancestors bm) x = Some rs \<Longrightarrow> awaited K W bm x rs"
    and "\<And>x. x |\<in>| bm_missing_blocks bm \<longleftrightarrow> fmlookup (bm_missing_ancestors bm) x \<noteq> None \<and>
      fmlookup (bm_suspended_blocks bm) x = None \<and> x \<notin> W"
  shows "waiting G gc K W bm"
  using assms unfolding waiting_def by blast

lemma parkedI:
  assumes "G r = Some (su_block su)" "0 < br_round r" "r \<notin> K" "r \<notin> W" "su_missing_ancestors su \<noteq> {||}"
    and "\<And>x. x |\<in>| su_missing_ancestors su \<Longrightarrow> x \<in> set (vb_ancestors (su_block su))"
    and "\<And>x. x |\<in>| su_missing_ancestors su \<Longrightarrow> \<exists>rs. fmlookup (bm_missing_ancestors bm) x = Some rs \<and> r |\<in>| rs"
    and "\<And>x. x \<in> set (vb_ancestors (su_block su)) \<Longrightarrow> gc < br_round x \<Longrightarrow> x \<in> K \<or> x |\<in>| su_missing_ancestors su"
  shows "parked G gc K W bm r su"
  using assms unfolding parked_def by blast

lemma parkedD:
  assumes "parked G gc K W bm r su"
  shows "G r = Some (su_block su)" "0 < br_round r" "r \<notin> K" "r \<notin> W" "su_missing_ancestors su \<noteq> {||}"
    and "x |\<in>| su_missing_ancestors su \<Longrightarrow> x \<in> set (vb_ancestors (su_block su))"
    and "x |\<in>| su_missing_ancestors su \<Longrightarrow> \<exists>rs. fmlookup (bm_missing_ancestors bm) x = Some rs \<and> r |\<in>| rs"
    and "x \<in> set (vb_ancestors (su_block su)) \<Longrightarrow> gc < br_round x \<Longrightarrow> x \<in> K \<or> x |\<in>| su_missing_ancestors su"
  using assms unfolding parked_def by blast+

text \<open>The children of \<open>d\<close> that have not been visited yet, as an entry of the table.\<close>

definition ghost :: "block_ref \<Rightarrow> block_ref fset \<Rightarrow> block_manager \<Rightarrow> block_manager" where
  "ghost d rs bm = bm\<lparr>bm_missing_ancestors := fmupd d rs (bm_missing_ancestors bm)\<rparr>"

lemma ghost_simps [simp]:
  "bm_suspended_blocks (ghost d rs bm) = bm_suspended_blocks bm"
  "bm_missing_blocks (ghost d rs bm) = bm_missing_blocks bm"
  "bm_missing_ancestors (ghost d rs bm) = fmupd d rs (bm_missing_ancestors bm)"
  "bm_context (ghost d rs bm) = bm_context bm"
  by (simp_all add: ghost_def)

lemma ghost_listed:
  "\<exists>rs'. fmlookup (fmupd d rs m) x = Some rs' \<and> r' |\<in>| rs' \<Longrightarrow> x = d \<longrightarrow> r' \<noteq> r \<Longrightarrow>
   \<exists>rs'. fmlookup (fmupd d (rs |-| {|r|}) m) x = Some rs' \<and> r' |\<in>| rs'"
  by (auto split: if_splits)

lemma visit_keep:
  assumes w: "waiting G gc K W (ghost d rs bm)" and r: "r |\<in>| rs"
    and su: "fmlookup (bm_suspended_blocks bm) r = Some su"
    and d: "d \<in> K \<or> br_round d \<le> gc" and ne: "su_missing_ancestors su |-| {|d|} \<noteq> {||}"
  shows "waiting G gc K W (ghost d (rs |-| {|r|}) (bm\<lparr>bm_suspended_blocks :=
      fmupd r (su\<lparr>su_missing_ancestors := su_missing_ancestors su |-| {|d|}\<rparr>) (bm_suspended_blocks bm)\<rparr>))"
    (is "waiting G gc K W ?bm")
proof (rule waitingI)
  fix r' su' assume "fmlookup (bm_suspended_blocks ?bm) r' = Some su'"
  then have *: "if r' = r then su' = su\<lparr>su_missing_ancestors := su_missing_ancestors su |-| {|d|}\<rparr>
      else fmlookup (bm_suspended_blocks bm) r' = Some su'" by (auto split: if_splits)
  show "parked G gc K W ?bm r' su'"
  proof (cases "r' = r")
    case True
    then have su': "su_block su' = su_block su" "su_missing_ancestors su' = su_missing_ancestors su |-| {|d|}"
      using * by simp_all
    have "fmlookup (bm_suspended_blocks (ghost d rs bm)) r = Some su" using su by simp
    note p = parkedD[OF waitingD(1)[OF w this]]
    show ?thesis
    proof (rule parkedI)
      fix x assume "x |\<in>| su_missing_ancestors su'"
      then have x: "x |\<in>| su_missing_ancestors su" "x \<noteq> d" using su' by auto
      then show "\<exists>rs. fmlookup (bm_missing_ancestors ?bm) x = Some rs \<and> r' |\<in>| rs"
        using p(7)[OF x(1)] True by simp
    qed (use True su' p(1-4,6,8) ne d in auto)
  next
    case False
    then have s: "fmlookup (bm_suspended_blocks (ghost d rs bm)) r' = Some su'" using * by simp
    note p = parkedD[OF waitingD(1)[OF w s]]
    show ?thesis
    proof (rule parkedI)
      fix x assume "x |\<in>| su_missing_ancestors su'"
      then show "\<exists>rs. fmlookup (bm_missing_ancestors ?bm) x = Some rs \<and> r' |\<in>| rs"
        using ghost_listed[of d rs "bm_missing_ancestors bm" x r' r] p(7) False by simp
    qed (use p in auto)
  qed
next
  fix x rs' assume x: "fmlookup (bm_missing_ancestors ?bm) x = Some rs'"
  show "awaited K W ?bm x rs'"
  proof (cases "x = d")
    case True
    then show ?thesis using x waitingD(2)[OF w, of d rs] unfolding awaited_def by auto
  next
    case False
    then have "awaited K W (ghost d rs bm) x rs'" using x by (intro waitingD(2)[OF w]) simp
    then show ?thesis using False su unfolding awaited_def by fastforce
  qed
next
  fix x show "x |\<in>| bm_missing_blocks ?bm \<longleftrightarrow> fmlookup (bm_missing_ancestors ?bm) x \<noteq> None \<and>
      fmlookup (bm_suspended_blocks ?bm) x = None \<and> x \<notin> W"
    using waitingD(3)[OF w, of x] su by auto
qed

lemma visit_release:
  assumes w: "waiting G gc K W (ghost d rs bm)" and r: "r |\<in>| rs"
    and su: "fmlookup (bm_suspended_blocks bm) r = Some su"
    and e: "su_missing_ancestors su |-| {|d|} = {||}"
  shows "waiting G gc (insert r K) (insert r W) (ghost d (rs |-| {|r|}) (bm\<lparr>bm_suspended_blocks :=
      fmdrop r (bm_suspended_blocks bm)\<rparr>))" (is "waiting G gc ?K ?W ?bm")
proof (rule waitingI)
  have only: "x = d" if "x |\<in>| su_missing_ancestors su" for x using e that by auto
  {
    fix r' su' assume "fmlookup (bm_suspended_blocks ?bm) r' = Some su'"
    then have s: "r' \<noteq> r" "fmlookup (bm_suspended_blocks (ghost d rs bm)) r' = Some su'"
      by (auto split: if_splits)
    note p = parkedD[OF waitingD(1)[OF w s(2)]]
    show "parked G gc ?K ?W ?bm r' su'"
    proof (rule parkedI)
      fix x assume "x |\<in>| su_missing_ancestors su'"
      then show "\<exists>rs. fmlookup (bm_missing_ancestors ?bm) x = Some rs \<and> r' |\<in>| rs"
        using ghost_listed[of d rs "bm_missing_ancestors bm" x r' r] p(7) s(1) by simp
    qed (use p s(1) in auto)
  next
    fix x rs' assume x: "fmlookup (bm_missing_ancestors ?bm) x = Some rs'"
    show "awaited ?K ?W ?bm x rs'"
    proof (cases "x = d")
      case True
      then show ?thesis using x waitingD(2)[OF w, of d rs] unfolding awaited_def by auto
    next
      case False
      then have "awaited K W (ghost d rs bm) x rs'" using x by (intro waitingD(2)[OF w]) simp
      then show ?thesis using False su only unfolding awaited_def by fastforce
    qed
  next
    fix x show "x |\<in>| bm_missing_blocks ?bm \<longleftrightarrow> fmlookup (bm_missing_ancestors ?bm) x \<noteq> None \<and>
        fmlookup (bm_suspended_blocks ?bm) x = None \<and> x \<notin> ?W"
      using waitingD(3)[OF w, of x] su by auto
  }
qed

section \<open>Releasing suspended blocks\<close>

text \<open>The manager \<open>bm'\<close> is \<open>bm\<close> after the blocks \<open>bs\<close> were released, in this order.\<close>

definition released :: "dag_view \<Rightarrow> round \<Rightarrow> block_ref set \<Rightarrow> block_manager \<Rightarrow> verified_block list \<Rightarrow> block_manager \<Rightarrow> bool" where
  "released G gc K bm bs bm' \<longleftrightarrow> causal_order gc K bs \<and> distinct (map reference bs) \<and>
     (\<forall>b \<in> set bs. G (reference b) = Some b \<and> 0 < vb_round b \<and> reference b \<notin> K) \<and>
     suspended bm' = suspended bm - reference ` set bs \<and> reference ` set bs \<subseteq> suspended bm \<and>
     fmlookup (bm_missing_ancestors bm') \<subseteq>\<^sub>m fmlookup (bm_missing_ancestors bm) \<and>
     bm_missing_blocks bm' = bm_missing_blocks bm \<and> bm_context bm' = bm_context bm \<and>
     bm_received_block_rounds bm' = bm_received_block_rounds bm"

lemma releasedD:
  assumes "released G gc K bm bs bm'"
  shows "causal_order gc K bs" "distinct (map reference bs)"
    and "b \<in> set bs \<Longrightarrow> G (reference b) = Some b" "b \<in> set bs \<Longrightarrow> 0 < vb_round b" "b \<in> set bs \<Longrightarrow> reference b \<notin> K"
    and "suspended bm' = suspended bm - reference ` set bs" "reference ` set bs \<subseteq> suspended bm"
    and "fmlookup (bm_missing_ancestors bm') \<subseteq>\<^sub>m fmlookup (bm_missing_ancestors bm)"
    and "bm_missing_blocks bm' = bm_missing_blocks bm" "bm_context bm' = bm_context bm"
    and "bm_received_block_rounds bm' = bm_received_block_rounds bm"
  using assms unfolding released_def by simp_all

lemma released_refl: "released G gc K bm [] bm"
  by (simp add: released_def)

lemma released_trans:
  assumes "released G gc K bm as bm1" "released G gc (K \<union> reference ` set as) bm1 bs bm2"
  shows "released G gc K bm (as @ bs) bm2"
proof -
  note a = releasedD[OF assms(1)] and b = releasedD[OF assms(2)]
  have "reference b \<notin> reference ` set as" if "b \<in> set bs" for b using b(5)[OF that] by simp
  then have "reference ` set as \<inter> reference ` set bs = {}" by (simp add: disjoint_iff image_iff) metis
  then have "distinct (map reference (as @ bs))" using a(2) b(2) by simp
  moreover have "causal_order gc K (as @ bs)" using a(1) b(1) by simp
  moreover have "G (reference b) = Some b \<and> 0 < vb_round b \<and> reference b \<notin> K" if "b \<in> set (as @ bs)" for b
    using that a(3-5) b(3-5) by auto
  moreover have "suspended bm2 = suspended bm - reference ` set (as @ bs)"
    unfolding b(6) a(6) by auto
  moreover have "reference ` set (as @ bs) \<subseteq> suspended bm"
    using a(7) b(7) unfolding a(6) by auto
  moreover have "fmlookup (bm_missing_ancestors bm2) \<subseteq>\<^sub>m fmlookup (bm_missing_ancestors bm)"
    using b(8) a(8) by (rule map_le_trans)
  ultimately show ?thesis using a(9-11) b(9-11) unfolding released_def by simp
qed

lemma unsuspend_children_ok:
  assumes "sources c me G" "waiting G gc K W (ghost d (fset_of_list rs) bm)" "distinct rs"
    and "d \<in> K \<or> br_round d \<le> gc"
  shows "\<exists>bm' new. try_fold (unsuspend_child d) rs (bm, us) = Some (bm', us @ new) \<and>
     released G gc K bm (map su_block new) bm' \<and> bm_missing_ancestors bm' = bm_missing_ancestors bm \<and>
     waiting G gc (K \<union> (reference \<circ> su_block) ` set new) (W \<union> (reference \<circ> su_block) ` set new) (ghost d {||} bm')"
  using assms
proof (induction rs arbitrary: bm us K W)
  case Nil
  then show ?case by (auto simp: released_refl)
next
  case (Cons r rs)
  let ?rs = "fset_of_list (r # rs)"
  have rs: "?rs |-| {|r|} = fset_of_list rs" using Cons.prems(3) by (auto simp: fset_of_list_elem)
  have "awaited K W (ghost d ?rs bm) d ?rs" by (rule waitingD(2)[OF Cons.prems(2)]) simp
  then obtain su where su: "fmlookup (bm_suspended_blocks bm) r = Some su" "d |\<in>| su_missing_ancestors su"
    by (auto simp: awaited_def)
  then have g: "fmlookup (bm_suspended_blocks (ghost d ?rs bm)) r = Some su" by simp
  note p = parkedD[OF waitingD(1)[OF Cons.prems(2) g]]
  have ref: "reference (su_block su) = r" by (rule sourcesD(1)[OF Cons.prems(1) p(1)])
  let ?m = "su_missing_ancestors su |-| {|d|}"
  show ?case
  proof (cases "?m = {||}")
    case True
    let ?bm = "bm\<lparr>bm_suspended_blocks := fmdrop r (bm_suspended_blocks bm)\<rparr>"
    let ?su = "su\<lparr>su_missing_ancestors := {||}\<rparr>"
    have step: "unsuspend_child d r (bm, us) = Some (?bm, us @ [?su])"
      using su True by (simp add: unsuspend_child_def try_unsuspend_block_def bind_rust_assert)
    have "waiting G gc (insert r K) (insert r W) (ghost d (fset_of_list rs) ?bm)"
      using visit_release[OF Cons.prems(2) _ su(1) True] rs by simp
    from Cons.IH[OF Cons.prems(1) this, of "us @ [?su]"] Cons.prems(3,4)
    obtain bm' new where 1: "try_fold (unsuspend_child d) rs (?bm, us @ [?su]) = Some (bm', us @ [?su] @ new)"
        "released G gc (insert r K) ?bm (map su_block new) bm'" "bm_missing_ancestors bm' = bm_missing_ancestors ?bm"
        "waiting G gc (insert r K \<union> (reference \<circ> su_block) ` set new) (insert r W \<union> (reference \<circ> su_block) ` set new)
           (ghost d {||} bm')" by auto
    have "x \<in> K" if "x \<in> set (vb_ancestors (su_block su))" "gc < br_round x" for x
      using p(8)[OF that] True Cons.prems(4) that(2) by auto
    then have "released G gc K bm [su_block su] ?bm"
      using p(1-3) ref su(1) by (auto simp: released_def fmdom'_alt_def[symmetric] fmdom'I)
    from released_trans[OF this, of "map su_block new" bm'] 1 ref
    have "released G gc K bm (map su_block (?su # new)) bm'" by simp
    then show ?thesis using step 1 ref by (intro exI[of _ bm'] exI[of _ "?su # new"]) simp
  next
    case False
    let ?bm = "bm\<lparr>bm_suspended_blocks := fmupd r (su\<lparr>su_missing_ancestors := ?m\<rparr>) (bm_suspended_blocks bm)\<rparr>"
    have step: "unsuspend_child d r (bm, us) = Some (?bm, us)"
      using su False by (simp add: unsuspend_child_def try_unsuspend_block_def bind_rust_assert)
    have "waiting G gc K W (ghost d (fset_of_list rs) ?bm)"
      using visit_keep[OF Cons.prems(2) _ su(1) Cons.prems(4) False] rs by simp
    from Cons.IH[OF Cons.prems(1) this, of us] Cons.prems(3,4)
    obtain bm' new where 1: "try_fold (unsuspend_child d) rs (?bm, us) = Some (bm', us @ new)"
        "released G gc K ?bm (map su_block new) bm'" "bm_missing_ancestors bm' = bm_missing_ancestors ?bm"
        "waiting G gc (K \<union> (reference \<circ> su_block) ` set new) (W \<union> (reference \<circ> su_block) ` set new)
           (ghost d {||} bm')" by auto
    have "released G gc K bm [] ?bm" using su(1) by (auto simp: released_def fmdomI)
    from released_trans[OF this, of "map su_block new" bm'] 1(2)
    have "released G gc K bm (map su_block new) bm'" by simp
    then show ?thesis using step 1 by (intro exI[of _ bm'] exI[of _ new]) simp
  qed
qed

lemma waiting_visited:
  assumes w: "waiting G gc K W (ghost d {||} bm)" and d: "d \<in> W" "W' \<subseteq> W" "W \<subseteq> insert d W'"
    and m: "fmlookup (bm_missing_ancestors bm) d = None"
  shows "waiting G gc K W' bm"
proof (rule waitingI)
  fix r su assume "fmlookup (bm_suspended_blocks bm) r = Some su"
  then have "fmlookup (bm_suspended_blocks (ghost d {||} bm)) r = Some su" by simp
  note p = parkedD[OF waitingD(1)[OF w this]]
  show "parked G gc K W' bm r su"
  proof (rule parkedI)
    fix x assume "x |\<in>| su_missing_ancestors su"
    from p(7)[OF this] show "\<exists>rs. fmlookup (bm_missing_ancestors bm) x = Some rs \<and> r |\<in>| rs"
      by (auto split: if_splits)
  qed (use p d in auto)
next
  fix x rs assume x: "fmlookup (bm_missing_ancestors bm) x = Some rs"
  then have "x \<noteq> d" using m by auto
  moreover from this x have "awaited K W (ghost d {||} bm) x rs" by (intro waitingD(2)[OF w]) simp
  ultimately show "awaited K W' bm x rs" using d by (auto simp: awaited_def)
next
  fix x show "x |\<in>| bm_missing_blocks bm \<longleftrightarrow> fmlookup (bm_missing_ancestors bm) x \<noteq> None \<and>
      fmlookup (bm_suspended_blocks bm) x = None \<and> x \<notin> W'"
    using waitingD(3)[OF w, of x] d m by (cases "x = d") auto
qed

lemma waiting_unlisted:
  assumes w: "waiting G gc K (insert d W) bm" and m: "fmlookup (bm_missing_ancestors bm) d = None"
  shows "waiting G gc K W bm"
proof (rule waitingI)
  fix r su assume "fmlookup (bm_suspended_blocks bm) r = Some su"
  from parkedD[OF waitingD(1)[OF w this]] show "parked G gc K W bm r su" by (intro parkedI) auto
next
  fix x rs assume x: "fmlookup (bm_missing_ancestors bm) x = Some rs"
  then have "x \<noteq> d" using m by auto
  with waitingD(2)[OF w x] show "awaited K W bm x rs" by (auto simp: awaited_def)
next
  fix x show "x |\<in>| bm_missing_blocks bm \<longleftrightarrow> fmlookup (bm_missing_ancestors bm) x \<noteq> None \<and>
      fmlookup (bm_suspended_blocks bm) x = None \<and> x \<notin> W"
    using waitingD(3)[OF w, of x] m by (cases "x = d") auto
qed

lemma unsuspend_direct_ok:
  assumes src: "sources c me G" and w: "waiting G gc K (insert d W) bm" and d: "d \<in> K \<or> br_round d \<le> gc"
  shows "\<exists>bm' new. unsuspend_direct d bm = Some (bm', new) \<and> released G gc K bm (map su_block new) bm' \<and>
     waiting G gc (K \<union> (reference \<circ> su_block) ` set new) (W \<union> (reference \<circ> su_block) ` set new) bm'"
proof (cases "fmlookup (bm_missing_ancestors bm) d")
  case None
  then show ?thesis using waiting_unlisted[OF w None] by (auto simp: unsuspend_direct_def released_refl)
next
  case (Some rs)
  let ?bm = "bm\<lparr>bm_missing_ancestors := fmdrop d (bm_missing_ancestors bm)\<rparr>"
  have "fmupd d rs (fmdrop d (bm_missing_ancestors bm)) = bm_missing_ancestors bm"
    using Some by (intro fmap_ext) auto
  then have "ghost d (fset_of_list (sorted_list_of_fset rs)) ?bm = bm" by (simp add: ghost_def)
  then have "waiting G gc K (insert d W) (ghost d (fset_of_list (sorted_list_of_fset rs)) ?bm)" using w by simp
  moreover have "distinct (sorted_list_of_fset rs)" by (simp add: sorted_list_of_fset.rep_eq)
  ultimately have *: "waiting G gc K (insert d W) (ghost d (fset_of_list (sorted_list_of_fset rs)) ?bm)"
    "distinct (sorted_list_of_fset rs)" by blast+
  from unsuspend_children_ok[OF src * d, of "[]"] obtain bm' new where
    1: "try_fold (unsuspend_child d) (sorted_list_of_fset rs) (?bm, []) = Some (bm', new)"
      "released G gc K ?bm (map su_block new) bm'" "bm_missing_ancestors bm' = fmdrop d (bm_missing_ancestors bm)"
      "waiting G gc (K \<union> (reference \<circ> su_block) ` set new) (insert d W \<union> (reference \<circ> su_block) ` set new)
         (ghost d {||} bm')" by auto
  have "released G gc K bm [] ?bm" by (auto simp: released_def map_le_def)
  from released_trans[OF this, of "map su_block new" bm'] 1(2)
  have "released G gc K bm (map su_block new) bm'" by simp
  moreover have "waiting G gc (K \<union> (reference \<circ> su_block) ` set new) (W \<union> (reference \<circ> su_block) ` set new) bm'"
    by (rule waiting_visited[OF 1(4)]) (use 1(3) in auto)
  ultimately show ?thesis using Some 1(1) by (auto simp: unsuspend_direct_def)
qed

lemma unsuspend_loop_ok:
  "sources c me G \<Longrightarrow> waiting G gc K (set stack) bm \<Longrightarrow> \<forall>d \<in> set stack. d \<in> K \<or> br_round d \<le> gc \<Longrightarrow>
   \<exists>bm' new. unsuspend_loop stack bm us = Some (bm', us @ new) \<and> released G gc K bm (map su_block new) bm' \<and>
     waiting G gc (K \<union> (reference \<circ> su_block) ` set new) {} bm'"
proof (induction stack bm us arbitrary: K rule: unsuspend_loop.induct)
  case (1 bm us)
  then show ?case by (auto simp: released_refl)
next
  case (2 d stack bm us)
  have "waiting G gc K (insert d (set stack)) bm" using "2.prems"(2) by simp
  from unsuspend_direct_ok[OF "2.prems"(1) this] "2.prems"(3) obtain bm1 new where
    1: "unsuspend_direct d bm = Some (bm1, new)" "released G gc K bm (map su_block new) bm1"
      "waiting G gc (K \<union> (reference \<circ> su_block) ` set new) (set stack \<union> (reference \<circ> su_block) ` set new) bm1" by auto
  have "waiting G gc (K \<union> (reference \<circ> su_block) ` set new) (set (rev (map (reference \<circ> su_block) new) @ stack)) bm1"
    using 1(3) by (simp add: Un_commute)
  from "2.IH"[OF 1(1) refl "2.prems"(1) this] "2.prems"(3) obtain bm2 new2 where
    2: "unsuspend_loop (rev (map (reference \<circ> su_block) new) @ stack) bm1 (us @ new) = Some (bm2, (us @ new) @ new2)"
      "released G gc (K \<union> (reference \<circ> su_block) ` set new) bm1 (map su_block new2) bm2"
      "waiting G gc (K \<union> (reference \<circ> su_block) ` set new \<union> (reference \<circ> su_block) ` set new2) {} bm2" by auto
  have "released G gc K bm (map su_block (new @ new2)) bm2"
    using released_trans[OF 1(2), of "map su_block new2" bm2] 2(2) by (simp add: image_comp)
  then show ?case using 1(1) 2
    by (intro exI[of _ bm2] exI[of _ "new @ new2"]) (simp add: unsuspend_loop.simps(2) Un_assoc image_Un)
qed

lemma try_unsuspend_children_ok:
  assumes src: "sources (bm_committee bm) me G" and w: "waiting G gc K {d} bm" and d: "d \<in> K \<or> br_round d \<le> gc"
  shows "\<exists>bm' bs. try_unsuspend_children_blocks d bm = Some (bm', bs) \<and> released G gc K bm bs bm' \<and>
     waiting G gc (K \<union> reference ` set bs) {} bm'"
proof -
  from unsuspend_loop_ok[OF src, of gc K "[d]" bm "[]"] w d obtain bm' new where
    1: "unsuspend_loop [d] bm [] = Some (bm', new)" "released G gc K bm (map su_block new) bm'"
      "waiting G gc (K \<union> (reference \<circ> su_block) ` set new) {} bm'" by auto
  have "committee_authority (bm_committee bm) (vb_author (su_block sb)) =
      Some (c_authorities (bm_committee bm) ! vb_author (su_block sb))" if "sb \<in> set new" for sb
    using sourcesD(3)[OF src releasedD(3)[OF 1(2), of "su_block sb"]] that
    by (simp add: committee_authority_def committee_size_def)
  then show ?thesis using 1 by (auto simp: try_unsuspend_children_blocks_def try_map_total image_comp)
qed

end
