(* ===== verification/BlockManagerSafety.thy ===== *)
theory BlockManagerSafety
  imports BlockManagerInv
begin

text \<open>
  The operations of the block manager keep its invariant and never panic; what they accept, suspend
  and ask for is determined by the blocks received so far.
\<close>

section \<open>Receiving one block\<close>

definition manager_ok :: "dag_view \<Rightarrow> block_manager \<Rightarrow> dag_state \<Rightarrow> bool" where
  "manager_ok G bm ds \<longleftrightarrow> dag_ok G ds \<and> waiting G (gc_round ds) (known ds) {} bm \<and>
     bm_context bm = ds_context ds \<and> length (bm_received_block_rounds bm) = ds_size ds"

lemma manager_okD:
  assumes "manager_ok G bm ds"
  shows "dag_ok G ds" "waiting G (gc_round ds) (known ds) {} bm" "bm_context bm = ds_context ds"
    and "length (bm_received_block_rounds bm) = ds_size ds"
    and "sources (bm_committee bm) (ds_own_index ds) G"
  using assms dag_okD(2) by (auto simp: manager_ok_def)

lemma waiting_metrics [simp]:
  "waiting G gc K W (bm\<lparr>bm_received_block_rounds := x\<rparr>) = waiting G gc K W bm"
  by (simp add: waiting_def parked_def awaited_def)

text \<open>The part of the manager that its metrics do not touch.\<close>

definition same_tables :: "block_manager \<Rightarrow> block_manager \<Rightarrow> bool" where
  "same_tables bm bm' \<longleftrightarrow> bm_suspended_blocks bm' = bm_suspended_blocks bm \<and>
     bm_missing_ancestors bm' = bm_missing_ancestors bm \<and> bm_missing_blocks bm' = bm_missing_blocks bm"

lemma authority_found:
  "a < committee_size c \<Longrightarrow> committee_authority c a = Some (c_authorities c ! a)"
  by (simp add: committee_authority_def committee_size_def)

lemma update_block_received_metrics_ok:
  assumes "manager_ok G bm ds" "G (reference b) = Some b"
  shows "\<exists>bm'. update_block_received_metrics b bm = Some bm' \<and> manager_ok G bm' ds \<and> same_tables bm bm'"
proof -
  have "vb_author b < ds_size ds" by (rule sourcesD(3)[OF dag_okD(2)[OF manager_okD(1)[OF assms(1)]] assms(2)])
  then show ?thesis
    using manager_okD[OF assms(1)]
    by (auto simp: update_block_received_metrics_def authority_found manager_ok_def same_tables_def Let_def)
qed

definition enlist :: "block_ref \<Rightarrow> block_ref \<Rightarrow> (block_ref, block_ref fset) fmap \<Rightarrow> (block_ref, block_ref fset) fmap" where
  "enlist r a m = fmupd a (finsert r (case fmlookup m a of Some rs \<Rightarrow> rs | None \<Rightarrow> {||})) m"

lemma lookup_enlist:
  "fmlookup (fold (enlist r) xs m) x =
     (if x \<in> set xs then Some (finsert r (case fmlookup m x of Some rs \<Rightarrow> rs | None \<Rightarrow> {||})) else fmlookup m x)"
  by (induction xs arbitrary: m) (auto simp: enlist_def split: option.splits)

definition to_fetch :: "block_manager \<Rightarrow> block_ref list \<Rightarrow> block_ref fset" where
  "to_fetch bm xs = fset_of_list (filter (\<lambda>x. x |\<notin>| fmdom (bm_suspended_blocks bm)) xs)"

lemma miss_ancestors_eq:
  assumes "\<forall>a \<in> set xs. br_author a < committee_size (bm_committee bm)"
  shows "try_fold (miss_ancestor r) xs (bm, m, f) = Some (bm\<lparr>
      bm_missing_ancestors := fold (enlist r) xs (bm_missing_ancestors bm),
      bm_missing_blocks := bm_missing_blocks bm |\<union>| to_fetch bm xs\<rparr>,
    m |\<union>| fset_of_list xs, f |\<union>| to_fetch bm xs)"
  using assms
proof (induction xs arbitrary: bm m f)
  case (Cons a xs)
  then show ?case
    by (auto simp: miss_ancestor_def authority_found enlist_def to_fetch_def Let_def)
qed (simp add: to_fetch_def)

definition needed :: "dag_state \<Rightarrow> verified_block \<Rightarrow> block_ref list" where
  "needed ds b = filter (\<lambda>x. gc_round ds < br_round x \<and> x \<notin> known ds) (vb_ancestors b)"

lemma fset_of_list_empty_iff: "fset_of_list xs = {||} \<longleftrightarrow> xs = []"
  by (cases xs) auto

lemma not_found_eq: "map snd (filter (\<lambda>(f, _). \<not> f) (zip (map P xs) xs)) = filter (\<lambda>x. \<not> P x) xs"
  by (induction xs) auto

lemma ancestors_found:
  assumes ok: "dag_ok G ds" and b: "G (reference b) = Some b"
  defines "xs \<equiv> filter (\<lambda>a. br_round a = GENESIS_ROUND \<or> br_round a > gc_round ds) (vb_ancestors b)"
  shows "\<exists>found. contains_blocks ds xs = Some found \<and>
     map snd (filter (\<lambda>(f, _). \<not> f) (zip found xs)) = needed ds b"
proof -
  note src = sourcesD[OF dag_okD(2)[OF ok] b]
  have "contains_blocks ds xs = Some (map (\<lambda>r. lookup_block ds r \<noteq> None) xs)"
    using src(4) by (intro contains_blocks_eq dag_okD(1)[OF ok]) (auto simp: xs_def)
  moreover have "filter (\<lambda>r. \<not> lookup_block ds r \<noteq> None) xs = needed ds b"
    unfolding xs_def needed_def filter_filter
    using src(6) dag_okD(4)[OF ok] by (intro filter_cong) (fastforce simp: GENESIS_ROUND_def domIff)+
  ultimately show ?thesis using not_found_eq[of "\<lambda>r. lookup_block ds r \<noteq> None" xs] by auto
qed

text \<open>The manager once \<open>b\<close> is received: its missing ancestors are listed, the block is no longer fetched.\<close>

definition received :: "dag_state \<Rightarrow> verified_block \<Rightarrow> block_manager \<Rightarrow> block_manager" where
  "received ds b bm = bm\<lparr>
      bm_missing_ancestors := fold (enlist (reference b)) (needed ds b) (bm_missing_ancestors bm),
      bm_missing_blocks := (bm_missing_blocks bm |\<union>| to_fetch bm (needed ds b)) |-| {|reference b|}\<rparr>"

definition suspend :: "nat \<Rightarrow> dag_state \<Rightarrow> verified_block \<Rightarrow> block_manager \<Rightarrow> block_manager" where
  "suspend now ds b bm = (received ds b bm)\<lparr>bm_suspended_blocks := fmupd (reference b)
      (suspended_block_new now b (fset_of_list (needed ds b))) (bm_suspended_blocks bm)\<rparr>"

lemma try_accept_one_block_eq:
  assumes ok: "manager_ok G bm ds" and b: "G (reference b) = Some b"
  shows "try_accept_one_block now ds b bm =
    (if reference b \<in> suspended bm \<union> known ds then Some (bm, Processed)
     else if vb_round b \<le> gc_round ds then Some (bm, Skipped)
     else if needed ds b = [] then Some (received ds b bm, Accepted b)
     else Some (suspend now ds b bm, Suspended (to_fetch bm (needed ds b))))"
proof -
  note m = manager_okD[OF ok]
  note src = sourcesD[OF m(5) b]
  have "br_author (reference b) < ds_size ds" using src(2) m(3) by simp
  then have known: "contains_block ds (reference b) = Some (reference b \<in> known ds)"
    by (subst contains_block_eq[OF dag_okD(1)[OF m(1)]]) auto
  obtain found where found:
    "contains_blocks ds (filter (\<lambda>a. br_round a = GENESIS_ROUND \<or> br_round a > gc_round ds) (vb_ancestors b)) = Some found"
    "map snd (filter (\<lambda>(f, _). \<not> f) (zip found
       (filter (\<lambda>a. br_round a = GENESIS_ROUND \<or> br_round a > gc_round ds) (vb_ancestors b)))) = needed ds b"
    using ancestors_found[OF m(1) b] by auto
  have "\<forall>a \<in> set (needed ds b). br_author a < committee_size (bm_committee bm)"
    using src(4) by (auto simp: needed_def)
  note fold = miss_ancestors_eq[OF this]
  show ?thesis
    by (simp add: try_accept_one_block_def known found fold authority_found[OF src(3)] received_def suspend_def
        fset_of_list_empty_iff Let_def)
qed

lemma waiting_accept:
  assumes w: "waiting G gc K {} bm" and r: "r \<notin> suspended bm" and K: "K \<subseteq> K'" "K' \<subseteq> insert r K"
  shows "waiting G gc K' {r} (bm\<lparr>bm_missing_blocks := bm_missing_blocks bm |-| {|r|}\<rparr>)"
    (is "waiting G gc _ _ ?bm")
proof (rule waitingI)
  fix r' su assume *: "fmlookup (bm_suspended_blocks ?bm) r' = Some su"
  then have "r' \<noteq> r" using r by (auto dest: fmdomI)
  moreover from * have s: "fmlookup (bm_suspended_blocks bm) r' = Some su" by simp
  ultimately show "parked G gc K' {r} ?bm r' su"
    using parkedD[OF waitingD(1)[OF w s]] K by (intro parkedI) auto
next
  fix x rs assume "fmlookup (bm_missing_ancestors ?bm) x = Some rs"
  with waitingD(2)[OF w, of x rs] show "awaited K' {r} ?bm x rs" using K by (auto simp: awaited_def)
next
  fix x show "x |\<in>| bm_missing_blocks ?bm \<longleftrightarrow> fmlookup (bm_missing_ancestors ?bm) x \<noteq> None \<and>
      fmlookup (bm_suspended_blocks ?bm) x = None \<and> x \<notin> {r}"
    using waitingD(3)[OF w, of x] by auto
qed

lemma lookup_forget_waiting:
  "fmlookup (forget_waiting r ms m) x = map_option (\<lambda>rs. if x |\<in>| ms then rs |-| {|r|} else rs) (fmlookup m x)"
  by (simp add: forget_waiting_def)

lemma waiting_forget:
  assumes w: "waiting G gc K {} bm" and su: "fmlookup (bm_suspended_blocks bm) r = Some su"
  shows "waiting G gc (insert r K) {r} (bm\<lparr>bm_suspended_blocks := fmdrop r (bm_suspended_blocks bm),
      bm_missing_ancestors := forget_waiting r (su_missing_ancestors su) (bm_missing_ancestors bm)\<rparr>)"
    (is "waiting G gc _ _ ?bm")
proof (rule waitingI)
  fix r' su' assume "fmlookup (bm_suspended_blocks ?bm) r' = Some su'"
  then have s: "r' \<noteq> r" "fmlookup (bm_suspended_blocks bm) r' = Some su'" by (auto split: if_splits)
  note p = parkedD[OF waitingD(1)[OF w s(2)]]
  show "parked G gc (insert r K) {r} ?bm r' su'"
  proof (rule parkedI)
    fix x assume "x |\<in>| su_missing_ancestors su'"
    from p(7)[OF this] s(1) show "\<exists>rs. fmlookup (bm_missing_ancestors ?bm) x = Some rs \<and> r' |\<in>| rs"
      by (auto simp: lookup_forget_waiting)
  qed (use p s(1) in auto)
next
  fix x rs assume "fmlookup (bm_missing_ancestors ?bm) x = Some rs"
  then obtain rs0 where rs: "fmlookup (bm_missing_ancestors bm) x = Some rs0"
      "rs = (if x |\<in>| su_missing_ancestors su then rs0 |-| {|r|} else rs0)"
    by (auto simp: lookup_forget_waiting)
  from waitingD(2)[OF w rs(1)] show "awaited (insert r K) {r} ?bm x rs"
    using su unfolding awaited_def rs(2) by (auto split: if_splits)
next
  fix x show "x |\<in>| bm_missing_blocks ?bm \<longleftrightarrow> fmlookup (bm_missing_ancestors ?bm) x \<noteq> None \<and>
      fmlookup (bm_suspended_blocks ?bm) x = None \<and> x \<notin> {r}"
    using waitingD(3)[OF w, of x] su by (auto simp: lookup_forget_waiting)
qed

lemma waiting_suspend:
  assumes ok: "manager_ok G bm ds" and b: "G (reference b) = Some b" and new: "reference b \<notin> suspended bm \<union> known ds"
    and gc: "gc_round ds < vb_round b" and ne: "needed ds b \<noteq> []"
  shows "waiting G (gc_round ds) (known ds) {} (suspend now ds b bm)" (is "waiting G ?gc ?K {} ?bm")
proof -
  note w = manager_okD(2)[OF ok]
  note src = sourcesD[OF manager_okD(5)[OF ok] b]
  let ?r = "reference b"
  have self: "?r \<notin> set (needed ds b)" using src(5)[of "reference b"] by (auto simp: needed_def)
  have sus: "fmlookup (bm_suspended_blocks ?bm) r' = (if r' = ?r
      then Some (suspended_block_new now b (fset_of_list (needed ds b))) else fmlookup (bm_suspended_blocks bm) r')" for r'
    by (simp add: suspend_def received_def)
  have ma: "fmlookup (bm_missing_ancestors ?bm) x = (if x \<in> set (needed ds b)
      then Some (finsert ?r (case fmlookup (bm_missing_ancestors bm) x of Some rs \<Rightarrow> rs | None \<Rightarrow> {||}))
      else fmlookup (bm_missing_ancestors bm) x)" for x
    by (simp add: suspend_def received_def lookup_enlist)
  show ?thesis
  proof (rule waitingI)
    fix r' su assume *: "fmlookup (bm_suspended_blocks ?bm) r' = Some su"
    show "parked G ?gc ?K {} ?bm r' su"
    proof (cases "r' = ?r")
      case True
      then have su: "su_block su = b" "su_missing_ancestors su = fset_of_list (needed ds b)"
        using * by (auto simp: sus suspended_block_new_def)
      then have "su_missing_ancestors su \<noteq> {||}" using ne by (simp add: fset_of_list_empty_iff)
      moreover have "x |\<in>| su_missing_ancestors su \<longleftrightarrow> x \<in> set (needed ds b)" for x
        using su(2) by (simp add: fset_of_list_elem)
      ultimately show ?thesis using True b new gc su(1)
        by (intro parkedI) (auto simp: ma needed_def domIff)
    next
      case False
      then have "fmlookup (bm_suspended_blocks bm) r' = Some su" using * by (simp add: sus)
      note p = parkedD[OF waitingD(1)[OF w this]]
      show ?thesis
      proof (rule parkedI)
        fix x assume "x |\<in>| su_missing_ancestors su"
        from p(7)[OF this] show "\<exists>rs. fmlookup (bm_missing_ancestors ?bm) x = Some rs \<and> r' |\<in>| rs"
          by (auto simp: ma)
      qed (use p in auto)
    qed
  next
    fix x rs assume x: "fmlookup (bm_missing_ancestors ?bm) x = Some rs"
    have old: "\<exists>su. fmlookup (bm_suspended_blocks ?bm) r' = Some su \<and> x |\<in>| su_missing_ancestors su"
      if "fmlookup (bm_missing_ancestors bm) x = Some rs0" "r' |\<in>| rs0" for r' rs0
      using waitingD(2)[OF w that(1)] that(2) new by (auto simp: awaited_def sus dest!: fmdomI)
    have "r' = ?r \<and> x \<in> set (needed ds b) \<or> (\<exists>rs0. fmlookup (bm_missing_ancestors bm) x = Some rs0 \<and> r' |\<in>| rs0)"
      if "r' |\<in>| rs" for r' using x that by (auto simp: ma split: if_splits option.splits)
    moreover have "\<exists>su. fmlookup (bm_suspended_blocks ?bm) ?r = Some su \<and> x |\<in>| su_missing_ancestors su"
      if "x \<in> set (needed ds b)" using that by (simp add: sus suspended_block_new_def fset_of_list_elem)
    moreover have "x \<notin> ?K"
      using x waitingD(2)[OF w] by (auto simp: ma needed_def awaited_def split: if_splits)
    moreover have "bm_context ?bm = bm_context bm" by (simp add: suspend_def received_def)
    moreover have "br_author x < committee_size (bm_committee bm)"
      using x waitingD(2)[OF w, of x] src(4)[of x]
      by (auto simp: ma needed_def awaited_def split: if_splits)
    ultimately show "awaited ?K {} ?bm x rs" using old unfolding awaited_def by simp blast
  next
    fix x
    have "x |\<in>| bm_missing_blocks ?bm \<longleftrightarrow> x \<noteq> ?r \<and> (x |\<in>| bm_missing_blocks bm \<or>
        x \<in> set (needed ds b) \<and> fmlookup (bm_suspended_blocks bm) x = None)"
      by (auto simp: suspend_def received_def to_fetch_def fset_of_list_elem fmdom_notD fmdom_notI)
    then show "x |\<in>| bm_missing_blocks ?bm \<longleftrightarrow> fmlookup (bm_missing_ancestors ?bm) x \<noteq> None \<and>
        fmlookup (bm_suspended_blocks ?bm) x = None \<and> x \<notin> {}"
      using waitingD(3)[OF w, of x] self unfolding sus ma by auto
  qed
qed

section \<open>Accepting blocks\<close>

text \<open>
  Entries for missing ancestors are kept, extended, or new above the garbage collection round; the
  acceptance of committed blocks (\<open>cb\<close>) may also shorten them.
\<close>

definition listed :: "bool \<Rightarrow> round \<Rightarrow> block_manager \<Rightarrow> block_manager \<Rightarrow> bool" where
  "listed cb gc bm bm' \<longleftrightarrow> (\<forall>x rs. fmlookup (bm_missing_ancestors bm') x = Some rs \<longrightarrow>
     (gc < br_round x \<and> (cb \<or> rs \<noteq> {||})) \<or> (\<exists>rs0. fmlookup (bm_missing_ancestors bm) x = Some rs0 \<and> (cb \<or> rs0 |\<subseteq>| rs)))"

lemma listed_refl: "bm_missing_ancestors bm' = bm_missing_ancestors bm \<Longrightarrow> listed cb gc bm bm'"
  by (auto simp: listed_def)

lemma listed_trans:
  assumes a: "listed cb gc bm bm1" and b: "listed cb gc bm1 bm2"
  shows "listed cb gc bm bm2"
  unfolding listed_def
proof (intro allI impI)
  fix x rs assume "fmlookup (bm_missing_ancestors bm2) x = Some rs"
  with b consider "gc < br_round x \<and> (cb \<or> rs \<noteq> {||})"
    | rs1 where "fmlookup (bm_missing_ancestors bm1) x = Some rs1" "cb \<or> rs1 |\<subseteq>| rs" unfolding listed_def by blast
  then show "(gc < br_round x \<and> (cb \<or> rs \<noteq> {||})) \<or> (\<exists>rs0. fmlookup (bm_missing_ancestors bm) x = Some rs0 \<and> (cb \<or> rs0 |\<subseteq>| rs))"
  proof cases
    case 2
    from a 2(1) have "(gc < br_round x \<and> (cb \<or> rs1 \<noteq> {||})) \<or>
        (\<exists>rs0. fmlookup (bm_missing_ancestors bm) x = Some rs0 \<and> (cb \<or> rs0 |\<subseteq>| rs1))" unfolding listed_def by blast
    moreover have "rs \<noteq> {||}" if "rs1 \<noteq> {||}" "rs1 |\<subseteq>| rs" using that by auto
    ultimately show ?thesis using 2(2) by (meson order_trans)
  qed simp
qed

lemma listed_released: "released G gc K bm bs bm' \<Longrightarrow> listed cb gc0 bm bm'"
  using releasedD(8) by (fastforce simp: listed_def map_le_def dom_def)

text \<open>
  The node moved from \<open>(bm, ds)\<close> to \<open>(bm', ds')\<close> by accepting the blocks \<open>acc\<close>, in causal order, after
  the references \<open>R\<close> were received.
\<close>

definition progress :: "bool \<Rightarrow> dag_view \<Rightarrow> block_manager \<Rightarrow> dag_state \<Rightarrow> verified_block list \<Rightarrow> block_ref set
    \<Rightarrow> block_manager \<Rightarrow> dag_state \<Rightarrow> bool" where
  "progress cb G bm ds acc R bm' ds' \<longleftrightarrow> manager_ok G bm' ds' \<and> same_frame ds ds' \<and>
     known ds' = known ds \<union> reference ` set acc \<and> causal_order (gc_round ds) (known ds) acc \<and>
     distinct (map reference acc) \<and> reference ` set acc \<inter> known ds = {} \<and>
     (\<forall>b \<in> set acc. G (reference b) = Some b) \<and>
     known ds' \<union> suspended bm' = known ds \<union> suspended bm \<union> R \<and> listed cb (gc_round ds) bm bm'"

lemma progressD:
  assumes "progress cb G bm ds acc R bm' ds'"
  shows "manager_ok G bm' ds'" "same_frame ds ds'" "known ds' = known ds \<union> reference ` set acc"
    and "causal_order (gc_round ds) (known ds) acc" "distinct (map reference acc)"
    and "reference ` set acc \<inter> known ds = {}" "b \<in> set acc \<Longrightarrow> G (reference b) = Some b"
    and "known ds' \<union> suspended bm' = known ds \<union> suspended bm \<union> R" "listed cb (gc_round ds) bm bm'"
    and "gc_round ds' = gc_round ds" "ds_context ds' = ds_context ds"
proof -
  show "same_frame ds ds'" using assms by (simp add: progress_def)
  then show "gc_round ds' = gc_round ds" "ds_context ds' = ds_context ds"
    by (auto simp: same_frame_def intro: gc_round_cong)
qed (use assms in \<open>unfold progress_def, blast+\<close>)

lemma progress_refl:
  assumes "manager_ok G bm' ds" "same_tables bm bm'" "R \<subseteq> known ds \<union> suspended bm"
  shows "progress cb G bm ds [] R bm' ds"
  using assms by (auto simp: progress_def same_tables_def listed_refl)

lemma progress_trans:
  assumes "progress cb G bm ds as R bm1 ds1" "progress cb G bm1 ds1 bs R' bm2 ds2"
  shows "progress cb G bm ds (as @ bs) (R \<union> R') bm2 ds2"
proof -
  note a = progressD[OF assms(1)] and b = progressD[OF assms(2)]
  have "reference ` set as \<inter> reference ` set bs = {}" using b(6) a(3) by auto
  then have "distinct (map reference (as @ bs))" using a(5) b(5) by simp
  moreover have "causal_order (gc_round ds) (known ds) (as @ bs)" using a(4) b(4) a(3,10) by simp
  moreover have "reference ` set (as @ bs) \<inter> known ds = {}" using a(6) b(6) a(3) by auto
  moreover have "known ds2 = known ds \<union> reference ` set (as @ bs)" unfolding b(3) a(3) by auto
  moreover have "known ds2 \<union> suspended bm2 = known ds \<union> suspended bm \<union> (R \<union> R')" unfolding b(8) a(8) by auto
  moreover have "G (reference b) = Some b" if "b \<in> set (as @ bs)" for b using that a(7) b(7) by auto
  ultimately show ?thesis
    unfolding progress_def using b(1) same_frame_trans[OF a(2) b(2)] listed_trans[OF a(9)] b(9) a(10) by simp
qed

lemma accept_with_children_ok:
  assumes ok: "dag_ok G ds" "bm_context bm = ds_context ds" "length (bm_received_block_rounds bm) = ds_size ds"
    and w: "waiting G (gc_round ds) (known ds \<union> reference ` set bs) {r} bm" and r: "r \<in> known ds \<union> reference ` set bs"
    and bs: "causal_order (gc_round ds) (known ds) bs" "\<forall>b \<in> set bs. G (reference b) = Some b \<and> 0 < vb_round b"
  shows "\<exists>bm' ds' us. accept_with_children now r bs (bm, ds) = Some ((bm', ds'), bs @ us) \<and> manager_ok G bm' ds' \<and>
     same_frame ds ds' \<and> known ds' = known ds \<union> reference ` set (bs @ us) \<and>
     released G (gc_round ds) (known ds \<union> reference ` set bs) bm us bm'"
proof -
  have src: "sources (bm_committee bm) (ds_own_index ds) G" using dag_okD(2)[OF ok(1)] ok(2) by simp
  obtain bm' us where 1: "try_unsuspend_children_blocks r bm = Some (bm', us)"
      "released G (gc_round ds) (known ds \<union> reference ` set bs) bm us bm'"
      "waiting G (gc_round ds) (known ds \<union> reference ` set bs \<union> reference ` set us) {} bm'"
    using try_unsuspend_children_ok[OF src w] r by auto
  note rel = releasedD[OF 1(2)]
  have "\<forall>b \<in> set (bs @ us). G (reference b) = Some b \<and> 0 < vb_round b" using bs(2) rel(3,4) by auto
  moreover have "causal_order (gc_round ds) (known ds) (bs @ us)" using bs(1) rel(1) by simp
  ultimately obtain ds' where 2: "accept_blocks now (bs @ us) ds = Some ds'" "dag_ok G ds'" "same_frame ds ds'"
      "known ds' = known ds \<union> reference ` set (bs @ us)"
    using accept_all_ok[OF ok(1)] by blast
  have gc: "gc_round ds' = gc_round ds" using 2(3) by (intro gc_round_cong) (simp_all add: same_frame_def)
  have "waiting G (gc_round ds') (known ds') {} bm'" using 1(3) gc 2(4) by (simp add: Un_assoc image_Un)
  then have "manager_ok G bm' ds'"
    using 2(2,3) rel(10,11) ok(2,3) by (simp add: manager_ok_def same_frame_def)
  then show ?thesis using 1(1,2) 2 by (auto simp: accept_with_children_def)
qed

lemma listed_suspend: "listed False (gc_round ds) bm (suspend now ds b bm)"
  by (auto simp: listed_def suspend_def received_def lookup_enlist needed_def split: if_splits option.splits)

lemma progress_suspend:
  assumes ok: "manager_ok G bm ds" and b: "G (reference b) = Some b" and new: "reference b \<notin> suspended bm \<union> known ds"
    and gc: "gc_round ds < vb_round b" and ne: "needed ds b \<noteq> []"
  shows "progress False G bm ds [] {reference b} (suspend now ds b bm) ds"
proof -
  have "manager_ok G (suspend now ds b bm) ds"
    using waiting_suspend[OF assms, of now] manager_okD[OF ok] by (simp add: manager_ok_def suspend_def received_def)
  then show ?thesis
    unfolding progress_def using listed_suspend[of ds bm now b] by (simp add: suspend_def received_def)
qed

lemma progress_accept:
  assumes ok: "manager_ok G bm ds" and b: "G (reference b) = Some b" and new: "reference b \<notin> suspended bm \<union> known ds"
    and gc: "gc_round ds < vb_round b" and ne: "needed ds b = []"
  shows "\<exists>bm' ds' us. accept_with_children now (reference b) [b] (received ds b bm, ds) = Some ((bm', ds'), b # us) \<and>
     progress False G bm ds (b # us) {reference b} bm' ds' \<and> bm_missing_blocks bm' = bm_missing_blocks bm |-| {|reference b|}"
proof -
  note m = manager_okD[OF ok]
  have rec: "received ds b bm = bm\<lparr>bm_missing_blocks := bm_missing_blocks bm |-| {|reference b|}\<rparr>"
    using ne by (simp add: received_def to_fetch_def)
  have w: "waiting G (gc_round ds) (known ds \<union> reference ` set [b]) {reference b} (received ds b bm)"
    unfolding rec using waiting_accept[OF m(2), of "reference b" "insert (reference b) (known ds)"] new by auto
  have order: "causal_order (gc_round ds) (known ds) [b]"
    using ne by (auto simp: needed_def filter_empty_conv)
  obtain bm' ds' us where 1: "accept_with_children now (reference b) [b] (received ds b bm, ds) = Some ((bm', ds'), [b] @ us)"
      "manager_ok G bm' ds'" "same_frame ds ds'" "known ds' = known ds \<union> reference ` set ([b] @ us)"
      "released G (gc_round ds) (known ds \<union> reference ` set [b]) (received ds b bm) us bm'"
    using accept_with_children_ok[OF m(1) _ _ w _ order, of now] m(3,4) b gc by (auto simp: rec)
  note rel = releasedD[OF 1(5)]
  have sus: "suspended (received ds b bm) = suspended bm" by (simp add: rec)
  have not_b: "reference x \<noteq> reference b \<and> reference x \<notin> known ds" if "x \<in> set us" for x using rel(5)[OF that] by auto
  then have "reference b \<notin> reference ` set us" "reference ` set (b # us) \<inter> known ds = {}" using new by auto metis
  moreover have "known ds' \<union> suspended bm' = known ds \<union> suspended bm \<union> {reference b}"
    unfolding 1(4) rel(6) sus using rel(7) sus by auto
  moreover have "listed False (gc_round ds) bm bm'"
    using listed_released[OF 1(5), of False "gc_round ds"] by (simp add: listed_def rec)
  moreover have "\<forall>x \<in> set (b # us). G (reference x) = Some x" using b rel(3) by auto
  ultimately have "progress False G bm ds (b # us) {reference b} bm' ds'"
    unfolding progress_def using 1(2,3,4) rel(1,2) order by simp
  moreover have "bm_missing_blocks bm' = bm_missing_blocks bm |-| {|reference b|}" using rel(9) by (simp add: rec)
  ultimately show ?thesis using 1(1) by auto
qed

text \<open>What a received block asks for is still to be fetched, and is older than the block.\<close>

definition asks :: "verified_block \<Rightarrow> block_ref fset \<Rightarrow> block_manager \<Rightarrow> block_manager \<Rightarrow> bool" where
  "asks b fetch bm bm' \<longleftrightarrow> fetch |\<subseteq>| bm_missing_blocks bm' \<and> (\<forall>x. x |\<in>| fetch \<longrightarrow> br_round x < vb_round b) \<and>
     bm_missing_blocks bm |-| {|reference b|} |\<subseteq>| bm_missing_blocks bm'"

lemma asks_suspend:
  assumes "manager_ok G bm ds" "G (reference b) = Some b"
  shows "asks b (to_fetch bm (needed ds b)) bm (suspend now ds b bm)"
proof -
  have "br_round x < vb_round b \<and> x \<noteq> reference b" if "x \<in> set (needed ds b)" for x
    using sourcesD(5)[OF manager_okD(5)[OF assms(1)] assms(2), of x] that by (auto simp: needed_def)
  from this this[of "reference b"] show ?thesis
    by (auto simp: asks_def suspend_def received_def to_fetch_def fset_of_list_elem)
qed

lemma try_accept_step_ok:
  assumes ok: "manager_ok G bm ds" and b: "G (reference b) = Some b"
  shows "\<exists>bm' ds' new fetch. try_accept_step now False b ((bm, ds), acc, missing) =
       Some ((bm', ds'), acc @ new, missing |\<union>| fetch) \<and> asks b fetch bm bm' \<and>
     progress False G bm ds new ({reference b} \<inter> {r. gc_round ds < br_round r}) bm' ds'"
proof -
  let ?R = "{reference b} \<inter> {r. gc_round ds < br_round r}"
  obtain bm1 where 1: "update_block_received_metrics b bm = Some bm1" "manager_ok G bm1 ds" "same_tables bm bm1"
    using update_block_received_metrics_ok[OF assms] by blast
  have eqs: "suspended bm1 = suspended bm" "bm_missing_blocks bm1 = bm_missing_blocks bm"
    using 1(3) by (simp_all add: same_tables_def)
  have first: "progress False G bm ds [] {} bm1 ds" by (rule progress_refl[OF 1(2,3)]) simp
  note eq = try_accept_one_block_eq[OF 1(2) b, of now]
  show ?thesis
  proof (cases "reference b \<in> suspended bm1 \<union> known ds \<or> vb_round b \<le> gc_round ds")
    case True
    then have "progress False G bm ds [] ?R bm1 ds" using eqs(1) by (intro progress_refl[OF 1(2,3)]) auto
    moreover have "try_accept_step now False b ((bm, ds), acc, missing) = Some ((bm1, ds), acc, missing)"
      using True eq 1(1) by (auto simp: try_accept_step_def)
    ultimately show ?thesis
      by (intro exI[of _ bm1] exI[of _ ds] exI[of _ "[]"] exI[of _ "{||}"]) (auto simp: asks_def eqs)
  next
    case False
    then have new: "reference b \<notin> suspended bm1 \<union> known ds" "gc_round ds < vb_round b" by auto
    show ?thesis
    proof (cases "needed ds b = []")
      case True
      obtain bm' ds' us where
        2: "accept_with_children now (reference b) [b] (received ds b bm1, ds) = Some ((bm', ds'), b # us)"
          "progress False G bm1 ds (b # us) {reference b} bm' ds'"
          "bm_missing_blocks bm' = bm_missing_blocks bm1 |-| {|reference b|}"
        using progress_accept[OF 1(2) b new True] by blast
      have "progress False G bm ds (b # us) ?R bm' ds'"
        using progress_trans[OF first 2(2)] new(2) by (simp add: Int_absorb2)
      moreover have "try_accept_step now False b ((bm, ds), acc, missing) = Some ((bm', ds'), acc @ b # us, missing)"
        using 1(1) eq 2(1) new True by (simp add: try_accept_step_def)
      ultimately show ?thesis
        by (intro exI[of _ bm'] exI[of _ ds'] exI[of _ "b # us"] exI[of _ "{||}"]) (simp add: asks_def 2(3) eqs)
    next
      case False
      have "progress False G bm ds [] ?R (suspend now ds b bm1) ds"
        using progress_trans[OF first progress_suspend[OF 1(2) b new False, of now]] new(2) by (simp add: Int_absorb2)
      moreover have "asks b (to_fetch bm1 (needed ds b)) bm (suspend now ds b bm1)"
        using asks_suspend[OF 1(2) b, of now] by (simp add: asks_def eqs)
      moreover have "try_accept_step now False b ((bm, ds), acc, missing) =
          Some ((suspend now ds b bm1, ds), acc, missing |\<union>| to_fetch bm1 (needed ds b))"
        using 1(1) eq new False by (simp add: try_accept_step_def)
      ultimately show ?thesis
        by (intro exI[of _ "suspend now ds b bm1"] exI[of _ ds] exI[of _ "[]"] exI) simp
    qed
  qed
qed

lemma try_accept_fold_ok:
  assumes "manager_ok G bm ds" "\<forall>b \<in> set bs. G (reference b) = Some b" "sorted (map vb_round bs)"
    and "missing |\<subseteq>| bm_missing_blocks bm" "\<forall>b \<in> set bs. \<forall>x. x |\<in>| missing \<longrightarrow> br_round x < vb_round b"
  shows "\<exists>bm' ds' new missing'. try_fold (try_accept_step now False) bs ((bm, ds), acc, missing) =
       Some ((bm', ds'), acc @ new, missing') \<and> missing' |\<subseteq>| bm_missing_blocks bm' \<and>
     progress False G bm ds new (reference ` set bs \<inter> {r. gc_round ds < br_round r}) bm' ds'"
  using assms
proof (induction bs arbitrary: bm ds acc missing)
  case Nil
  then show ?case by (auto intro!: progress_refl simp: same_tables_def)
next
  case (Cons b bs)
  have b: "G (reference b) = Some b" using Cons.prems(2) by simp
  obtain bm1 ds1 new1 fetch where
    1: "try_accept_step now False b ((bm, ds), acc, missing) = Some ((bm1, ds1), acc @ new1, missing |\<union>| fetch)"
      "asks b fetch bm bm1" "progress False G bm ds new1 ({reference b} \<inter> {r. gc_round ds < br_round r}) bm1 ds1"
    using try_accept_step_ok[OF Cons.prems(1) b] by blast
  have "reference b |\<notin>| missing" using Cons.prems(5) by auto
  then have m: "missing |\<union>| fetch |\<subseteq>| bm_missing_blocks bm1"
    using 1(2) Cons.prems(4) unfolding asks_def by auto
  have "\<forall>b' \<in> set bs. \<forall>x. x |\<in>| missing |\<union>| fetch \<longrightarrow> br_round x < vb_round b'"
    using 1(2) Cons.prems(3,5) unfolding asks_def by (auto intro: less_le_trans)
  from Cons.IH[OF progressD(1)[OF 1(3)] _ _ m this, of "acc @ new1"] Cons.prems(2,3)
  obtain bm2 ds2 new2 missing' where
    2: "try_fold (try_accept_step now False) bs ((bm1, ds1), acc @ new1, missing |\<union>| fetch) =
        Some ((bm2, ds2), (acc @ new1) @ new2, missing')" "missing' |\<subseteq>| bm_missing_blocks bm2"
      "progress False G bm1 ds1 new2 (reference ` set bs \<inter> {r. gc_round ds1 < br_round r}) bm2 ds2" by auto
  have "progress False G bm ds (new1 @ new2) (reference ` set (b # bs) \<inter> {r. gc_round ds < br_round r}) bm2 ds2"
    using progress_trans[OF 1(3) 2(3)] progressD(10)[OF 1(3)] by (simp add: Int_Un_distrib2[symmetric] insert_is_Un[symmetric])
  then show ?case using 1(1) 2(1,2) by (intro exI[of _ bm2] exI[of _ ds2] exI[of _ "new1 @ new2"] exI[of _ missing']) simp
qed

lemma try_accept_blocks_ok:
  assumes "manager_ok G bm ds" "\<forall>b \<in> set bs. G (reference b) = Some b"
  shows "\<exists>bm' ds' acc missing. try_accept_blocks now bs (bm, ds) = Some ((bm', ds'), acc, missing) \<and>
     missing |\<subseteq>| bm_missing_blocks bm' \<and> progress False G bm ds acc (reference ` set bs \<inter> {r. gc_round ds < br_round r}) bm' ds'"
  using try_accept_fold_ok[OF assms(1), of "sort_key vb_round bs" "{||}" now "[]"] assms(2)
  by (simp add: try_accept_blocks_def try_accept_blocks_internal_def)

end
