(* ===== verification/BlockManagerGc.thy ===== *)
theory BlockManagerGc
  imports BlockManagerSafety
begin

text \<open>
  The other operations of the block manager: accepting the blocks of certified commits, looking for
  referenced blocks, and giving up on ancestors that fell behind the garbage collection round.
\<close>

section \<open>Committed blocks\<close>

lemma accept_committed_ok:
  assumes ok: "manager_ok G bm ds" and b: "G (reference b) = Some b" and new: "reference b \<notin> known ds"
    and anc: "\<And>x. x \<in> set (vb_ancestors b) \<Longrightarrow> gc_round ds < br_round x \<Longrightarrow> x \<in> known ds"
  shows "\<exists>bm' ds'. try_accept_one_committed_block now b (bm, ds) = Some ((bm', ds'), Accepted b) \<and>
     dag_ok G ds' \<and> same_frame ds ds' \<and> known ds' = insert (reference b) (known ds) \<and>
     waiting G (gc_round ds) (known ds') {reference b} bm' \<and> suspended bm' = suspended bm - {reference b} \<and>
     listed True (gc_round ds) bm bm' \<and> bm_context bm' = bm_context bm \<and>
     bm_received_block_rounds bm' = bm_received_block_rounds bm"
proof -
  note m = manager_okD[OF ok]
  note src = sourcesD[OF m(5) b]
  have "vb_round b \<noteq> 0" using dag_okD(4)[OF m(1), of "reference b"] new b by auto
  then obtain ds' where ds': "accept_block now b ds = Some ds'" "dag_ok G ds'" "same_frame ds ds'"
      "known ds' = insert (reference b) (known ds)"
    using accept_block_ok[OF m(1) b _ anc, of now] by auto
  have "contains_block ds (reference b) = Some False"
    using contains_block_eq[OF dag_okD(1)[OF m(1)], of "reference b"] src(2) m(3) new by auto
  note run = try_accept_one_committed_block_def this ds'(1) accept_blocks_def
  show ?thesis
  proof (cases "fmlookup (bm_suspended_blocks bm) (reference b)")
    case None
    then have "waiting G (gc_round ds) (known ds') {reference b}
        (bm\<lparr>bm_missing_blocks := bm_missing_blocks bm |-| {|reference b|}\<rparr>)"
      unfolding ds'(4) by (intro waiting_accept[OF m(2)]) (auto simp: fmdom_notI)
    then show ?thesis using None ds' by (simp add: run listed_refl fmdom_notI)
  next
    case (Some su)
    then have "bm_missing_blocks bm |-| {|reference b|} = bm_missing_blocks bm"
      using waitingD(3)[OF m(2), of "reference b"] by auto
    moreover note waiting_forget[OF m(2) Some]
    ultimately show ?thesis using Some ds'
      by (auto simp: run Let_def listed_def lookup_forget_waiting)
  qed
qed

lemma try_accept_committed_step_ok:
  assumes ok: "manager_ok G bm ds" and b: "G (reference b) = Some b"
    and anc: "\<And>x. x \<in> set (vb_ancestors b) \<Longrightarrow> gc_round ds < br_round x \<Longrightarrow> x \<in> known ds"
  shows "\<exists>bm' ds' new. try_accept_step now True b ((bm, ds), acc, missing) = Some ((bm', ds'), acc @ new, missing) \<and>
     progress True G bm ds new {reference b} bm' ds' \<and> reference b \<in> known ds'"
proof -
  obtain bm1 where 1: "update_block_received_metrics b bm = Some bm1" "manager_ok G bm1 ds" "same_tables bm bm1"
    using update_block_received_metrics_ok[OF ok b] by blast
  note m = manager_okD[OF 1(2)]
  have eqs: "suspended bm1 = suspended bm" "bm_missing_ancestors bm1 = bm_missing_ancestors bm"
    using 1(3) by (simp_all add: same_tables_def)
  show ?thesis
  proof (cases "reference b \<in> known ds")
    case True
    then have "contains_block ds (reference b) = Some True"
      using contains_block_eq[OF dag_okD(1)[OF m(1)], of "reference b"] sourcesD(2)[OF m(5) b] m(3) by auto
    then have "try_accept_step now True b ((bm, ds), acc, missing) = Some ((bm1, ds), acc @ [], missing)"
      using 1(1) by (simp add: try_accept_step_def try_accept_one_committed_block_def)
    moreover have "progress True G bm ds [] {reference b} bm1 ds" using True by (intro progress_refl[OF 1(2,3)]) auto
    ultimately show ?thesis using True by blast
  next
    case False
    obtain bm2 ds2 where 2: "try_accept_one_committed_block now b (bm1, ds) = Some ((bm2, ds2), Accepted b)"
        "dag_ok G ds2" "same_frame ds ds2" "known ds2 = insert (reference b) (known ds)"
        "waiting G (gc_round ds) (known ds2) {reference b} bm2" "suspended bm2 = suspended bm1 - {reference b}"
        "listed True (gc_round ds) bm1 bm2" "bm_context bm2 = bm_context bm1"
        "bm_received_block_rounds bm2 = bm_received_block_rounds bm1"
      using accept_committed_ok[OF 1(2) b False anc, of now] by blast
    have frame: "gc_round ds2 = gc_round ds" "ds_context ds2 = ds_context ds"
      using 2(3) by (auto simp: same_frame_def intro: gc_round_cong)
    obtain bm3 ds3 us where 3: "accept_with_children now (reference b) [] (bm2, ds2) = Some ((bm3, ds3), [] @ us)"
        "manager_ok G bm3 ds3" "same_frame ds2 ds3" "known ds3 = known ds2 \<union> reference ` set ([] @ us)"
        "released G (gc_round ds2) (known ds2 \<union> reference ` set []) bm2 us bm3"
      using accept_with_children_ok[OF 2(2), of bm2 "[]" "reference b" now] 2(4,5,8,9) frame m(3,4) by auto
    note rel = releasedD[OF 3(5)]
    have fresh: "reference x \<noteq> reference b" "reference x \<notin> known ds" if "x \<in> set us" for x
      using rel(5)[OF that] 2(4) by auto
    then have "reference b \<notin> reference ` set us" "reference ` set (b # us) \<inter> known ds = {}" using False by auto metis
    moreover have "known ds3 \<union> suspended bm3 = known ds \<union> suspended bm \<union> {reference b}"
      unfolding 3(4) 2(4) rel(6) 2(6) eqs using rel(7) unfolding 2(6) eqs by auto
    moreover have "listed True (gc_round ds) bm bm3"
      using listed_trans[OF 2(7) listed_released[OF 3(5)]] by (simp add: listed_def eqs)
    moreover have "causal_order (gc_round ds) (known ds) (b # us)" using rel(1) anc 2(4) frame by simp
    moreover have "\<forall>x \<in> set (b # us). G (reference x) = Some x" using b rel(3) by auto
    ultimately have "progress True G bm ds (b # us) {reference b} bm3 ds3"
      unfolding progress_def using 3(2,4) 2(4) rel(2) same_frame_trans[OF 2(3) 3(3)] by simp
    moreover have "try_accept_step now True b ((bm, ds), acc, missing) = Some ((bm3, ds3), acc @ b # us, missing)"
      using 1(1) 2(1) 3(1) by (simp add: try_accept_step_def)
    moreover have "reference b \<in> known ds3" using 3(4) 2(4) by auto
    ultimately show ?thesis by blast
  qed
qed

lemma try_accept_committed_fold_ok:
  assumes "manager_ok G bm ds" "\<forall>b \<in> set bs. G (reference b) = Some b" "sorted (map vb_round bs)"
    and "\<forall>b \<in> set bs. \<forall>x \<in> set (vb_ancestors b). gc_round ds < br_round x \<longrightarrow> x \<in> known ds \<union> reference ` set bs"
  shows "\<exists>bm' ds' new. try_fold (try_accept_step now True) bs ((bm, ds), acc, missing) = Some ((bm', ds'), acc @ new, missing) \<and>
     progress True G bm ds new (reference ` set bs) bm' ds' \<and> reference ` set bs \<subseteq> known ds'"
  using assms
proof (induction bs arbitrary: bm ds acc)
  case Nil
  then show ?case by (auto intro!: progress_refl simp: same_tables_def)
next
  case (Cons b bs)
  have b: "G (reference b) = Some b" using Cons.prems(2) by simp
  have "x \<in> known ds" if "x \<in> set (vb_ancestors b)" "gc_round ds < br_round x" for x
  proof -
    have "br_round x < vb_round b" using sourcesD(5)[OF manager_okD(5)[OF Cons.prems(1)] b that(1)] by simp
    then have "x \<notin> reference ` set (b # bs)" using Cons.prems(3) by fastforce
    then show ?thesis using Cons.prems(4) that by auto
  qed
  then obtain bm1 ds1 new1 where
    1: "try_accept_step now True b ((bm, ds), acc, missing) = Some ((bm1, ds1), acc @ new1, missing)"
      "progress True G bm ds new1 {reference b} bm1 ds1" "reference b \<in> known ds1"
    using try_accept_committed_step_ok[OF Cons.prems(1) b] by blast
  note p = progressD[OF 1(2)]
  have kn: "insert (reference b) (known ds) \<subseteq> known ds1" using p(3) 1(3) by simp
  have "x \<in> known ds1 \<union> reference ` set bs" if "a \<in> set bs" "x \<in> set (vb_ancestors a)" "gc_round ds1 < br_round x" for a x
  proof -
    have "x \<in> known ds \<union> reference ` set (b # bs)" using Cons.prems(4) that unfolding p(10) by (metis list.set_intros(2))
    then show ?thesis using kn by auto
  qed
  then have "\<forall>a \<in> set bs. \<forall>x \<in> set (vb_ancestors a). gc_round ds1 < br_round x \<longrightarrow> x \<in> known ds1 \<union> reference ` set bs"
    by blast
  from Cons.IH[OF p(1) _ _ this, of "acc @ new1"] Cons.prems(2,3)
  obtain bm2 ds2 new2 where
    2: "try_fold (try_accept_step now True) bs ((bm1, ds1), acc @ new1, missing) = Some ((bm2, ds2), (acc @ new1) @ new2, missing)"
      "progress True G bm1 ds1 new2 (reference ` set bs) bm2 ds2" "reference ` set bs \<subseteq> known ds2" by auto
  have "progress True G bm ds (new1 @ new2) (reference ` set (b # bs)) bm2 ds2"
    using progress_trans[OF 1(2) 2(2)] by simp
  moreover have "reference b \<in> known ds2" using 1(3) progressD(3)[OF 2(2)] by simp
  ultimately show ?case using 1(1) 2(1,3) by (intro exI[of _ bm2] exI[of _ ds2] exI[of _ "new1 @ new2"]) simp
qed

lemma try_accept_committed_blocks_ok:
  assumes "manager_ok G bm ds" "\<forall>b \<in> set bs. G (reference b) = Some b"
    and "\<forall>b \<in> set bs. \<forall>x \<in> set (vb_ancestors b). gc_round ds < br_round x \<longrightarrow> x \<in> known ds \<union> reference ` set bs"
  shows "\<exists>bm' ds' acc. try_accept_committed_blocks now bs (bm, ds) = Some ((bm', ds'), acc) \<and>
     progress True G bm ds acc (reference ` set bs) bm' ds' \<and> reference ` set bs \<subseteq> known ds'"
  using try_accept_committed_fold_ok[OF assms(1), of "sort_key vb_round bs" now "[]" "{||}"] assms(2,3)
  by (auto simp: try_accept_committed_blocks_def try_accept_blocks_internal_def bind_rust_assert)

section \<open>Garbage collection\<close>

text \<open>Nothing is awaited at or below the round.\<close>

definition gc_clean :: "round \<Rightarrow> block_manager \<Rightarrow> bool" where
  "gc_clean gc bm \<longleftrightarrow> (\<forall>x. fmlookup (bm_missing_ancestors bm) x \<noteq> None \<longrightarrow> gc < br_round x)"

lemma gc_clean_listed: "gc_clean gc bm \<Longrightarrow> listed cb gc bm bm' \<Longrightarrow> gc_clean gc bm'"
  by (fastforce simp: gc_clean_def listed_def)

text \<open>The oldest missing ancestor is not suspended: its own missing ancestors would be older.\<close>

lemma oldest_missing:
  assumes src: "sources c me G" and w: "waiting G gc K {} bm"
    and x: "fs_first (fmdom (bm_missing_ancestors bm)) = Some x"
  shows "x \<notin> suspended bm"
proof
  assume "x \<in> suspended bm"
  then obtain su where su: "fmlookup (bm_suspended_blocks bm) x = Some su" by (auto simp: fmlookup_dom_iff)
  note p = parkedD[OF waitingD(1)[OF w su]]
  obtain y where y: "y |\<in>| su_missing_ancestors su" using p(5) by auto
  then have "br_round y < br_round x" using sourcesD(5)[OF src p(1)] p(6) by blast
  moreover have "y |\<in>| fmdom (bm_missing_ancestors bm)" using p(7)[OF y] by (auto intro: fmdomI)
  then have "x \<le> y" using fs_first_SomeD[OF x] by blast
  ultimately show False using block_ref_le_round by fastforce
qed

lemma gc_loop_ok:
  assumes "manager_ok G bm ds" "gc = gc_round ds"
  shows "\<exists>bm' ds' acc. gc_loop now gc (bm, ds) = Some (bm', ds') \<and> gc_clean gc bm' \<and>
     progress True G bm ds acc {} bm' ds'"
  using assms
proof (induction now gc "(bm, ds)" arbitrary: bm ds rule: gc_loop.induct)
  case (1 now gc bm ds)
  note m = manager_okD[OF "1.prems"(1)]
  have stay: "progress True G bm ds [] {} bm ds"
    by (rule progress_refl[OF "1.prems"(1)]) (simp_all add: same_tables_def)
  show ?case
  proof (cases "fs_first (fmdom (bm_missing_ancestors bm))")
    case None
    then have "bm_missing_ancestors bm = fmempty" by (simp add: fmap_ext fmdom_notD)
    then show ?thesis using stay None by (auto simp: gc_loop.simps gc_clean_def)
  next
    case (Some x)
    note first = fs_first_SomeD[OF Some]
    show ?thesis
    proof (cases "gc < br_round x")
      case True
      then have "gc_clean gc bm"
        using first block_ref_le_round by (fastforce simp: gc_clean_def intro: fmdomI)
      then show ?thesis using stay Some True by (auto simp: gc_loop.simps)
    next
      case False
      let ?bm = "bm\<lparr>bm_missing_blocks := bm_missing_blocks bm |-| {|x|}\<rparr>"
      obtain rs where "fmlookup (bm_missing_ancestors bm) x = Some rs" using first by (auto simp: fmlookup_dom_iff)
      then have author: "br_author x < committee_size (bm_committee bm)" using waitingD(2)[OF m(2)] by (auto simp: awaited_def)
      have free: "x \<notin> suspended bm" by (rule oldest_missing[OF m(5,2) Some])
      then have "waiting G (gc_round ds) (known ds) {x} ?bm" by (intro waiting_accept[OF m(2)]) auto
      then obtain bm1 us where 2: "try_unsuspend_children_blocks x ?bm = Some (bm1, us)"
          "released G (gc_round ds) (known ds) ?bm us bm1"
          "waiting G (gc_round ds) (known ds \<union> reference ` set us) {} bm1"
        using try_unsuspend_children_ok[of ?bm "ds_own_index ds" G] m(5) False "1.prems"(2) by fastforce
      note rel = releasedD[OF 2(2)]
      obtain ds1 where 3: "accept_blocks now us ds = Some ds1" "dag_ok G ds1" "same_frame ds ds1"
          "known ds1 = known ds \<union> reference ` set us"
        using accept_all_ok[OF m(1) _ rel(1)] rel(3,4) by blast
      have frame: "gc_round ds1 = gc_round ds" "ds_context ds1 = ds_context ds"
        using 3(3) by (auto simp: same_frame_def intro: gc_round_cong)
      have ok1: "manager_ok G bm1 ds1" using 2(3) 3(2,4) frame rel(10,11) m(3,4) by (simp add: manager_ok_def)
      have "listed True (gc_round ds) bm bm1"
        using listed_released[OF 2(2), of True "gc_round ds"] by (simp add: listed_def)
      moreover have "reference ` set us \<inter> known ds = {}" using rel(5) by auto
      moreover have "known ds1 \<union> suspended bm1 = known ds \<union> suspended bm \<union> {}"
        unfolding 3(4) rel(6) using rel(7) by auto
      ultimately have p1: "progress True G bm ds us {} bm1 ds1"
        unfolding progress_def using ok1 3(3,4) rel(1,2,3) by simp
      have eq: "gc_loop now gc (bm, ds) = gc_loop now gc (bm1, ds1)"
        using Some False author free 2(1) 3(1) by (simp add: gc_loop.simps[of now gc bm ds] authority_found)
      have "\<exists>bm' ds' acc. gc_loop now gc (bm1, ds1) = Some (bm', ds') \<and> gc_clean gc bm' \<and> progress True G bm1 ds1 acc {} bm' ds'"
        by (rule "1.hyps"[OF Some False _ _ 2(1) refl 3(1) ok1]) (use author free frame "1.prems"(2) in \<open>simp_all add: authority_found\<close>)
      then show ?thesis using progress_trans[OF p1] eq by fastforce
    qed
  qed
qed

section \<open>Looking for blocks\<close>

lemma waiting_find:
  assumes w: "waiting G gc K {} bm" and r: "r \<notin> K" "r \<notin> suspended bm" "br_author r < committee_size (bm_committee bm)"
    and ma: "fmlookup (bm_missing_ancestors bm) r = None"
  shows "waiting G gc K {} (bm\<lparr>bm_missing_blocks := finsert r (bm_missing_blocks bm),
      bm_missing_ancestors := fmupd r {||} (bm_missing_ancestors bm)\<rparr>)" (is "waiting G gc K {} ?bm")
proof (rule waitingI)
  fix r' su assume "fmlookup (bm_suspended_blocks ?bm) r' = Some su"
  then have "fmlookup (bm_suspended_blocks bm) r' = Some su" by simp
  note p = parkedD[OF waitingD(1)[OF w this]]
  show "parked G gc K {} ?bm r' su"
  proof (rule parkedI)
    fix x assume "x |\<in>| su_missing_ancestors su"
    from p(7)[OF this] ma show "\<exists>rs. fmlookup (bm_missing_ancestors ?bm) x = Some rs \<and> r' |\<in>| rs" by auto
  qed (use p in auto)
next
  fix x rs assume x: "fmlookup (bm_missing_ancestors ?bm) x = Some rs"
  show "awaited K {} ?bm x rs"
  proof (cases "x = r")
    case True
    then show ?thesis using x r by (auto simp: awaited_def)
  next
    case False
    then show ?thesis using x waitingD(2)[OF w, of x rs] by (auto simp: awaited_def)
  qed
next
  fix x show "x |\<in>| bm_missing_blocks ?bm \<longleftrightarrow> fmlookup (bm_missing_ancestors ?bm) x \<noteq> None \<and>
      fmlookup (bm_suspended_blocks ?bm) x = None \<and> x \<notin> {}"
    using waitingD(3)[OF w, of x] r(2) by (auto simp: fmdom_notD)
qed

lemma find_missing_ok:
  assumes ok: "manager_ok G bm ds" and r: "r \<notin> known ds" "br_author r < ds_size ds" "gc_round ds < br_round r"
  defines "new \<equiv> ffilter (\<lambda>x. x |\<notin>| fmdom (bm_suspended_blocks bm)) {|r|}"
  shows "\<exists>bm'. find_missing r (bm, m) = Some (bm', m |\<union>| new) \<and> manager_ok G bm' ds \<and>
     bm_suspended_blocks bm' = bm_suspended_blocks bm \<and> bm_missing_blocks bm' = bm_missing_blocks bm |\<union>| new \<and>
     (gc_clean (gc_round ds) bm \<longrightarrow> gc_clean (gc_round ds) bm')"
proof -
  note mo = manager_okD[OF ok]
  consider "r |\<in>| fmdom (bm_suspended_blocks bm)" | "r |\<notin>| fmdom (bm_suspended_blocks bm)" "r |\<in>| bm_missing_blocks bm"
    | "r |\<notin>| fmdom (bm_suspended_blocks bm)" "r |\<notin>| bm_missing_blocks bm" by blast
  then show ?thesis
  proof cases
    case 1
    moreover from this have "new = {||}" by (auto simp: new_def)
    ultimately show ?thesis using ok by (auto simp: find_missing_def)
  next
    case 2
    moreover from this have "new = {|r|}" by (auto simp: new_def)
    ultimately show ?thesis using ok by (auto simp: find_missing_def finsert_absorb)
  next
    case 3
    have new: "new = {|r|}" using 3 by (auto simp: new_def)
    have ma: "fmlookup (bm_missing_ancestors bm) r = None"
      using waitingD(3)[OF mo(2), of r] 3 by (auto simp: fmdom_notD)
    have "waiting G (gc_round ds) (known ds) {} (bm\<lparr>bm_missing_blocks := finsert r (bm_missing_blocks bm),
        bm_missing_ancestors := fmupd r {||} (bm_missing_ancestors bm)\<rparr>)"
      using waiting_find[OF mo(2) r(1) 3(1)] r(2) mo(3) ma by simp
    then have "manager_ok G (bm\<lparr>bm_missing_blocks := finsert r (bm_missing_blocks bm),
        bm_missing_ancestors := fmupd r {||} (bm_missing_ancestors bm)\<rparr>) ds"
      using mo by (simp add: manager_ok_def)
    then show ?thesis using 3 ma r(2,3) mo(3)
      by (auto simp: find_missing_def authority_found new gc_clean_def)
  qed
qed

lemma find_fold_ok:
  assumes "manager_ok G bm ds" "\<forall>r \<in> set rs. r \<notin> known ds \<and> br_author r < ds_size ds \<and> gc_round ds < br_round r"
  shows "\<exists>bm'. try_fold find_missing rs (bm, m) = Some (bm', m |\<union>| to_fetch bm rs) \<and> manager_ok G bm' ds \<and>
     bm_suspended_blocks bm' = bm_suspended_blocks bm \<and> bm_missing_blocks bm' = bm_missing_blocks bm |\<union>| to_fetch bm rs \<and>
     (gc_clean (gc_round ds) bm \<longrightarrow> gc_clean (gc_round ds) bm')"
  using assms
proof (induction rs arbitrary: bm m)
  case (Cons r rs)
  let ?new = "ffilter (\<lambda>x. x |\<notin>| fmdom (bm_suspended_blocks bm)) {|r|}"
  obtain bm1 where 1: "find_missing r (bm, m) = Some (bm1, m |\<union>| ?new)" "manager_ok G bm1 ds"
      "bm_suspended_blocks bm1 = bm_suspended_blocks bm" "bm_missing_blocks bm1 = bm_missing_blocks bm |\<union>| ?new"
      "gc_clean (gc_round ds) bm \<longrightarrow> gc_clean (gc_round ds) bm1"
    using find_missing_ok[OF Cons.prems(1), of r m] Cons.prems(2) by auto
  have "to_fetch bm (r # rs) = ?new |\<union>| to_fetch bm1 rs" using 1(3) by (auto simp: to_fetch_def)
  then show ?case using 1 Cons.IH[OF 1(2), of "m |\<union>| ?new"] Cons.prems(2) by (auto simp: funion_assoc)
qed (simp add: to_fetch_def)

lemma try_find_blocks_ok:
  assumes ok: "manager_ok G bm ds" and refs: "\<forall>r \<in> set refs. br_author r < ds_size ds"
  shows "\<exists>bm' missing. try_find_blocks ds refs bm = Some (bm', missing) \<and> manager_ok G bm' ds \<and>
     fset missing = {r \<in> set refs. gc_round ds < br_round r \<and> r \<notin> known ds \<union> suspended bm} \<and>
     bm_suspended_blocks bm' = bm_suspended_blocks bm \<and> bm_missing_blocks bm' = bm_missing_blocks bm |\<union>| missing \<and>
     (gc_clean (gc_round ds) bm \<longrightarrow> gc_clean (gc_round ds) bm')"
proof -
  let ?rs = "sort_key br_round (filter (\<lambda>r. br_round r > gc_round ds) refs)"
  let ?xs = "filter (\<lambda>r. r \<notin> known ds) ?rs"
  have found: "contains_blocks ds ?rs = Some (map (\<lambda>r. lookup_block ds r \<noteq> None) ?rs)"
    using refs by (intro contains_blocks_eq dag_okD(1)[OF manager_okD(1)[OF ok]]) auto
  have xs: "map snd (filter (\<lambda>(f, _). \<not> f) (zip (map (\<lambda>r. lookup_block ds r \<noteq> None) ?rs) ?rs)) = ?xs"
    by (simp add: not_found_eq domIff)
  obtain bm' where 1: "try_fold find_missing ?xs (bm, {||}) = Some (bm', {||} |\<union>| to_fetch bm ?xs)" "manager_ok G bm' ds"
      "bm_suspended_blocks bm' = bm_suspended_blocks bm" "bm_missing_blocks bm' = bm_missing_blocks bm |\<union>| to_fetch bm ?xs"
      "gc_clean (gc_round ds) bm \<longrightarrow> gc_clean (gc_round ds) bm'"
    using find_fold_ok[OF ok, of ?xs "{||}"] refs by auto
  have "fset (to_fetch bm ?xs) = {r \<in> set refs. gc_round ds < br_round r \<and> r \<notin> known ds \<union> suspended bm}"
    by (auto simp: to_fetch_def fset_of_list.rep_eq)
  moreover have "try_find_blocks ds refs bm = Some (bm', to_fetch bm ?xs)"
  proof (cases "?rs = []")
    case True
    then show ?thesis using 1(1) by (simp add: try_find_blocks_def to_fetch_def)
  next
    case False
    then show ?thesis using 1(1) found xs by (simp add: try_find_blocks_def Let_def)
  qed
  ultimately show ?thesis using 1 by blast
qed

end
