(* ===== verification/BlockManagerProperties.thy ===== *)
theory BlockManagerProperties
  imports BlockManagerGc ExampleDag
begin

text \<open>
  What the block manager promises: which blocks are accepted, that the order of arrival does not
  matter, that a suspended block always has something to wait for, and that a node run through the
  manager keeps the view the commit rule relies on.
\<close>

section \<open>What is accepted\<close>

text \<open>
  The specification: from the known blocks \<open>K\<close>, a received block is accepted when its ancestors above
  the garbage collection round are.
\<close>

inductive deliverable :: "dag_view \<Rightarrow> round \<Rightarrow> block_ref set \<Rightarrow> block_ref set \<Rightarrow> block_ref \<Rightarrow> bool"
  for G gc K R where
  deliverable_known: "r \<in> K \<Longrightarrow> deliverable G gc K R r"
| deliverable_received: "r \<in> R \<Longrightarrow> G r = Some b \<Longrightarrow>
    (\<And>x. x \<in> set (vb_ancestors b) \<Longrightarrow> gc < br_round x \<Longrightarrow> deliverable G gc K R x) \<Longrightarrow> deliverable G gc K R r"

text \<open>The missing ancestors of the suspended blocks.\<close>

definition fetchable :: "dag_view \<Rightarrow> round \<Rightarrow> block_ref set \<Rightarrow> block_ref set \<Rightarrow> block_ref set" where
  "fetchable G gc K S = {x. gc < br_round x \<and> x \<notin> K \<union> S \<and>
     (\<exists>r \<in> S. \<exists>b. G r = Some b \<and> x \<in> set (vb_ancestors b))}"

text \<open>Only suspended blocks keep entries, and only for ancestors above the round.\<close>

definition tidy :: "round \<Rightarrow> block_manager \<Rightarrow> bool" where
  "tidy gc bm \<longleftrightarrow> (\<forall>x rs. fmlookup (bm_missing_ancestors bm) x = Some rs \<longrightarrow> gc < br_round x \<and> rs \<noteq> {||})"

lemma tidy_listed:
  assumes "tidy gc bm" "listed False gc bm bm'"
  shows "tidy gc bm'"
  unfolding tidy_def
proof (intro allI impI)
  fix x rs assume "fmlookup (bm_missing_ancestors bm') x = Some rs"
  with assms(2) consider "gc < br_round x" "rs \<noteq> {||}"
    | rs0 where "fmlookup (bm_missing_ancestors bm) x = Some rs0" "rs0 |\<subseteq>| rs" unfolding listed_def by blast
  then show "gc < br_round x \<and> rs \<noteq> {||}" using assms(1) unfolding tidy_def by cases blast+
qed

lemma suspended_known_disjoint:
  assumes "waiting G gc K {} bm"
  shows "suspended bm \<inter> K = {}"
  using parkedD(3)[OF waitingD(1)[OF assms]] by (auto simp: fmlookup_dom_iff)

lemma rest_eq: "K' \<union> S' = K \<union> S \<union> N \<Longrightarrow> K \<subseteq> K' \<Longrightarrow> S' \<inter> K' = {} \<Longrightarrow> S' = S \<union> N - K'"
  by blast

lemma progress_suspended:
  assumes "progress cb G bm ds acc R bm' ds'"
  shows "suspended bm' = suspended bm \<union> R - known ds'"
proof (rule rest_eq)
  note p = progressD[OF assms]
  show "known ds' \<union> suspended bm' = known ds \<union> suspended bm \<union> R" by (rule p(8))
  show "known ds \<subseteq> known ds'" unfolding p(3) by simp
  show "suspended bm' \<inter> known ds' = {}" by (rule suspended_known_disjoint[OF manager_okD(2)[OF p(1)]])
qed

lemma progress_known:
  assumes p: "progress cb G bm ds acc R bm' ds'" and ok: "manager_ok G bm ds" and clean: "gc_clean (gc_round ds) bm"
  shows "known ds' = {r. deliverable G (gc_round ds) (known ds) (suspended bm \<union> R) r}" (is "_ = {r. ?D r}")
proof
  note pd = progressD[OF p]
  note m = manager_okD[OF pd(1)]
  show "known ds' \<subseteq> {r. ?D r}"
  proof
    fix r assume "r \<in> known ds'"
    then have "?D r"
    proof (induction "br_round r" arbitrary: r rule: less_induct)
      case less
      then obtain b where b: "lookup_block ds' r = Some b" by auto
      have anc: "br_round x < br_round r" "gc_round ds < br_round x \<Longrightarrow> x \<in> known ds'" if "x \<in> set (vb_ancestors b)" for x
        using dag_okD(5)[OF m(1)] b that unfolding causal_def pd(10) by auto
      show ?case
      proof (cases "r \<in> known ds")
        case False
        then have "r \<in> suspended bm \<union> R" using pd(8) less.prems by blast
        then show ?thesis using dag_okD(6)[OF m(1) b]
          by (rule deliverable_received) (use less.hyps anc in blast)
      qed (rule deliverable_known)
    qed
    then show "r \<in> {r. ?D r}" by simp
  qed
  have clean': "gc_clean (gc_round ds) bm'" by (rule gc_clean_listed[OF clean pd(9)])
  have "r \<in> known ds'" if "?D r" for r
    using that
  proof (induction rule: deliverable.induct)
    case (deliverable_received r b)
    then have "r \<in> known ds' \<union> suspended bm'" using pd(8) by blast
    moreover have False if r: "r \<in> suspended bm'"
    proof -
      obtain su where su: "fmlookup (bm_suspended_blocks bm') r = Some su" using r by (auto simp: fmlookup_dom_iff)
      note pk = parkedD[OF waitingD(1)[OF m(2) su]]
      obtain x where x: "x |\<in>| su_missing_ancestors su" using pk(5) by auto
      obtain rs where rs: "fmlookup (bm_missing_ancestors bm') x = Some rs" using pk(7)[OF x] by blast
      have "gc_round ds < br_round x" using clean' rs by (simp add: gc_clean_def)
      then have "x \<in> known ds'" using deliverable_received pk(1) pk(6)[OF x] by auto
      then show False using waitingD(2)[OF m(2) rs] by (simp add: awaited_def)
    qed
    ultimately show ?case by blast
  qed (use pd(3) in auto)
  then show "{r. ?D r} \<subseteq> known ds'" by blast
qed

lemma missing_exact:
  assumes ok: "manager_ok G bm ds" and tidy: "tidy (gc_round ds) bm"
  shows "fset (bm_missing_blocks bm) = fetchable G (gc_round ds) (known ds) (suspended bm)"
proof (intro set_eqI iffI)
  note w = manager_okD(2)[OF ok]
  {
    fix x assume "x \<in> fset (bm_missing_blocks bm)"
    then have x: "x |\<in>| bm_missing_blocks bm" by simp
    then obtain rs where rs: "fmlookup (bm_missing_ancestors bm) x = Some rs" "fmlookup (bm_suspended_blocks bm) x = None"
      using waitingD(3)[OF w] by blast
    then obtain r where "gc_round ds < br_round x" "r |\<in>| rs" using tidy by (auto simp: tidy_def)
    moreover obtain su where su: "fmlookup (bm_suspended_blocks bm) r = Some su" "x |\<in>| su_missing_ancestors su"
      using waitingD(2)[OF w rs(1)] calculation(2) by (auto simp: awaited_def)
    moreover have "x \<notin> known ds" using waitingD(2)[OF w rs(1)] by (simp add: awaited_def)
    ultimately show "x \<in> fetchable G (gc_round ds) (known ds) (suspended bm)"
      using parkedD(1,6)[OF waitingD(1)[OF w su(1)]] rs(2) by (auto simp: fetchable_def fmlookup_dom_iff intro: bexI[of _ r])
  next
    fix x assume "x \<in> fetchable G (gc_round ds) (known ds) (suspended bm)"
    then obtain r where x: "gc_round ds < br_round x" "x \<notin> known ds" "x \<notin> suspended bm" "r \<in> suspended bm"
        "\<exists>b. G r = Some b \<and> x \<in> set (vb_ancestors b)" unfolding fetchable_def by blast
    then obtain su where su: "fmlookup (bm_suspended_blocks bm) r = Some su" by (auto simp: fmlookup_dom_iff)
    note pk = parkedD[OF waitingD(1)[OF w su]]
    have "x |\<in>| su_missing_ancestors su" using pk(1) pk(8)[of x] x by auto
    then show "x \<in> fset (bm_missing_blocks bm)" using pk(7) waitingD(3)[OF w, of x] x(3) by (auto simp: fmdom_notD)
  }
qed

lemma suspended_waits:
  assumes ok: "manager_ok G bm ds" and r: "r \<in> suspended bm"
  shows "\<exists>x. x |\<in>| bm_missing_blocks bm \<and> (x, r) \<in> {(x, r). \<exists>b. G r = Some b \<and> x \<in> set (vb_ancestors b)}\<^sup>+"
  using r
proof (induction "br_round r" arbitrary: r rule: less_induct)
  case less
  note w = manager_okD(2)[OF ok]
  obtain su where su: "fmlookup (bm_suspended_blocks bm) r = Some su" using less.prems by (auto simp: fmlookup_dom_iff)
  note pk = parkedD[OF waitingD(1)[OF w su]]
  obtain y where y: "y |\<in>| su_missing_ancestors su" using pk(5) by auto
  then have yr: "(y, r) \<in> {(x, r). \<exists>b. G r = Some b \<and> x \<in> set (vb_ancestors b)}" using pk(1,6) by auto
  show ?case
  proof (cases "y \<in> suspended bm")
    case True
    have "br_round y < br_round r" by (rule sourcesD(5)[OF manager_okD(5)[OF ok] pk(1) pk(6)[OF y]])
    from less.hyps[OF this True] yr show ?thesis by (meson trancl_into_trancl)
  next
    case False
    then have "y |\<in>| bm_missing_blocks bm" using pk(7)[OF y] waitingD(3)[OF w, of y] by (auto simp: fmdom_notD)
    then show ?thesis using yr by blast
  qed
qed

section \<open>Nodes\<close>

lemma bft_sources:
  assumes "bft_dag c F G" "me \<notin> F"
  shows "sources c me G"
proof -
  have "br_author r < committee_size c" if "G r = Some b" for r b
    using assms(1) that unfolding bft_dag_def by (auto simp: members_def)
  moreover have "br_author x < committee_size c \<and> br_round x < br_round r \<and> G x \<noteq> None"
    if "G r = Some b" "x \<in> set (vb_ancestors b)" for r b x
  proof -
    have "br_round x < br_round r" "G x \<noteq> None" using assms(1) that unfolding bft_dag_def by blast+
    then show ?thesis using calculation by auto
  qed
  moreover have "r' = r" if "G r = Some b" "G r' \<noteq> None" "br_author r = me" "slot_of_ref r' = slot_of_ref r" for r b r'
    using assms that unfolding bft_dag_def by (auto simp: slot_of_ref_def)
  moreover have "reference b = r" if "G r = Some b" for r b using assms(1) that unfolding bft_dag_def by blast
  ultimately show ?thesis unfolding sources_def by blast
qed

lemma fresh_manager_ok:
  assumes gs: "genesis_blocks ser hash ctx = Some gs" and ctx: "committee_wf (ctx_committee ctx)"
      "ctx_own_index ctx < committee_size (ctx_committee ctx)" "0 < p_dag_state_cached_rounds (ctx_parameters ctx)"
    and src: "sources (ctx_committee ctx) (ctx_own_index ctx) G"
    and gen: "\<forall>r b. br_round r = 0 \<longrightarrow> (G r = Some b \<longleftrightarrow> b \<in> set gs \<and> reference b = r)"
  shows "manager_ok G (block_manager_new ctx) (fresh_state ctx now gs)" "tidy gc (block_manager_new ctx)"
proof -
  let ?ds = "fresh_state ctx now gs"
  note fresh = fresh_inv[OF gs ctx]
  have zero: "br_round r = 0 \<and> vb_ancestors b = []" if "lookup_block ?ds r = Some b" for r b
    using fresh(1)[of now] that unfolding dag_inv_def genesis_inv_def
    by (auto simp: lookup_block_def fresh_state_def GENESIS_ROUND_def mem_lookup_def mem_store_new_def split: if_splits)
  have agree: "lookup_block ?ds r = G r" if "br_round r = 0" for r
    using gen that fresh(2)[of now r] by (metis option.exhaust)
  have "lookup_block ?ds \<subseteq>\<^sub>m G" using zero agree by (force simp: map_le_def)
  moreover have "causal ?ds (Suc (gc_round ?ds))" using zero by (auto simp: causal_def)
  ultimately have "dag_ok G ?ds"
    using fresh(1) src agree by (simp add: dag_ok_def) (simp add: fresh_state_def)
  moreover have "waiting G (gc_round ?ds) (known ?ds) {} (block_manager_new ctx)"
    by (rule waitingI) (simp_all add: block_manager_new_def)
  ultimately show "manager_ok G (block_manager_new ctx) ?ds"
    by (simp add: manager_ok_def) (simp add: block_manager_new_def fresh_state_def)
  show "tidy gc (block_manager_new ctx)" by (simp add: tidy_def block_manager_new_def)
qed

lemma example_sources: "sources (ctx_committee example_ctx) (ctx_own_index example_ctx) (example_dag n)"
  using bft_sources[OF example_dag_bft, of "ctx_own_index example_ctx" n] by (simp add: example_ctx_def)

lemma example_genesis_dag:
  "\<forall>r b. br_round r = 0 \<longrightarrow> (example_dag n r = Some b \<longleftrightarrow> b \<in> set example_genesis \<and> reference b = r)"
proof (intro allI impI)
  fix r b assume r: "br_round r = 0"
  have "length example_genesis = 4" by (simp add: example_genesis_def)
  then have gen: "b \<in> set example_genesis \<longleftrightarrow> (\<exists>a < 4. b = dag_block 0 a)"
    by (auto simp: in_set_conv_nth dag_block_def)
  show "example_dag n r = Some b \<longleftrightarrow> b \<in> set example_genesis \<and> reference b = r"
    unfolding gen
  proof (intro iffI)
    assume "example_dag n r = Some b"
    then show "(\<exists>a<4. b = dag_block 0 a) \<and> reference b = r" using r by (auto simp: example_dag_iff)
  qed auto
qed

lemma example_manager:
  "manager_ok (example_dag n) (block_manager_new example_ctx) (fresh_state example_ctx 7 example_genesis)"
  "tidy gc (block_manager_new example_ctx)"
  "gc_round (fresh_state example_ctx 7 example_genesis) = 0"
proof -
  show "manager_ok (example_dag n) (block_manager_new example_ctx) (fresh_state example_ctx 7 example_genesis)"
      "tidy gc (block_manager_new example_ctx)"
    by (rule fresh_manager_ok[OF example_genesis_blocks example_ctx_ok example_sources example_genesis_dag])+
  show "gc_round (fresh_state example_ctx 7 example_genesis) = 0"
    by (simp add: gc_round_def calculate_gc_round_def last_commit_round_def fresh_state_def)
qed

lemma gc_round_same:
  "ds_last_commit ds' = ds_last_commit ds \<Longrightarrow> ds_context ds' = ds_context ds \<Longrightarrow> gc_round ds \<le> gc_round ds'"
  using gc_round_cong[of ds' ds] by simp

lemma dag_exec_frame:
  assumes inv: "dag_inv ds" and ok: "op_ok ds opn" and ex: "dag_exec now opn ds = Some ds'" and no: "\<nexists>b. opn = OpAccept b"
  shows "lookup_block ds' = lookup_block ds \<and> ds_context ds' = ds_context ds \<and> gc_round ds \<le> gc_round ds'"
proof (cases opn)
  case (OpAccept b)
  with no show ?thesis by blast
next
  case OpFlush
  with ex flush_spec[OF inv] show ?thesis by (auto simp: same_frame_def intro: gc_round_same)
next
  case (OpAddCommit c)
  then obtain d where d: "add_commit now c ds = Some d" "lookup_block d = lookup_block ds" "ds_last_commit d = Some c"
      "last_commit_round ds \<le> tc_commit_round c"
    using ok add_commit_spec[OF inv, of c now] by auto
  have "ds_context d = ds_context ds"
    using d(1) by (auto simp: add_commit_def bind_eq_Some_conv Let_def split: if_splits)
  with d show ?thesis using ex OpAddCommit
    by (auto simp: gc_round_def calculate_gc_round_def last_commit_round_def tc_commit_round_def commit_round_leader tc_leader_def diff_le_mono split: option.splits)
next
  case (OpSetCommitted r)
  with ex obtain f where f: "set_committed r ds = Some (ds', f)" by auto
  with set_committed_inv[OF inv f] show ?thesis
    by (auto simp: set_committed_def bind_eq_Some_conv split: if_splits intro!: gc_round_same)
next
  case (OpLink r)
  with ex obtain f where f: "link_causal_history r ds = Some (ds', f)" by auto
  with link_causal_history_inv[OF inv f] show ?thesis
    by (auto simp: link_causal_history_def bind_eq_Some_conv intro!: gc_round_same)
qed (use ex in \<open>auto simp: add_commit_info_def add_finalized_commit_def take_commit_votes_def
      add_scoring_subdags_def clear_scoring_subdag_def bind_eq_Some_conv lookup_block_def Let_def bind_rust_assert
      intro!: gc_round_same split: prod.splits if_splits\<close>)

lemma waiting_mono:
  assumes "waiting G gc K W bm" "gc \<le> gc'"
  shows "waiting G gc' K W bm"
proof (rule waitingI)
  fix r su assume "fmlookup (bm_suspended_blocks bm) r = Some su"
  note p = parkedD[OF waitingD(1)[OF assms(1) this]]
  show "parked G gc' K W bm r su" using p assms(2) by (intro parkedI) auto
qed (use waitingD(2,3)[OF assms(1)] in blast)+

lemma manager_ok_dag_exec:
  assumes ok: "manager_ok G bm ds" and "op_ok ds opn" "dag_exec now opn ds = Some ds'" "\<nexists>b. opn = OpAccept b"
  shows "manager_ok G bm ds'"
proof -
  note m = manager_okD[OF ok] and d = dag_okD[OF manager_okD(1)[OF ok]]
  have f: "lookup_block ds' = lookup_block ds" "ds_context ds' = ds_context ds" "gc_round ds \<le> gc_round ds'"
    using dag_exec_frame[OF d(1) assms(2-4)] by auto
  have "dag_inv ds'" using dag_exec_inv[OF d(1) assms(2,3)] by blast
  moreover have "causal ds' (Suc (gc_round ds'))" using d(5) f unfolding causal_def by force
  ultimately have "dag_ok G ds'" using d(2,3,4) f by (simp add: dag_ok_def)
  then show ?thesis using m waiting_mono[OF m(2) f(3)] f by (simp add: manager_ok_def)
qed

text \<open>
  A node that feeds its DAG state through the block manager. The verified blocks of a batch belong
  to \<open>G\<close>; a committed batch comes with the history of its blocks above the garbage collection round.
\<close>

datatype node_op =
    Receive "verified_block list"
  | ReceiveCommitted "verified_block list"
  | FindBlocks "block_ref list"
  | CollectGarbage
  | DagOp dag_op

fun node_exec :: "nat \<Rightarrow> node_op \<Rightarrow> block_manager \<times> dag_state \<Rightarrow> (block_manager \<times> dag_state) option" where
  "node_exec now (Receive bs) st = map_option fst (try_accept_blocks now bs st)"
| "node_exec now (ReceiveCommitted bs) st = map_option fst (try_accept_committed_blocks now bs st)"
| "node_exec now (FindBlocks refs) (bm, ds) = map_option (\<lambda>(bm', _). (bm', ds)) (try_find_blocks ds refs bm)"
| "node_exec now CollectGarbage st = try_unsuspend_blocks_for_latest_gc_round now st"
| "node_exec now (DagOp opn) (bm, ds) = map_option (Pair bm) (dag_exec now opn ds)"

fun node_ok :: "dag_view \<Rightarrow> node_op \<Rightarrow> dag_state \<Rightarrow> bool" where
  "node_ok G (Receive bs) ds \<longleftrightarrow> (\<forall>b \<in> set bs. G (reference b) = Some b)"
| "node_ok G (ReceiveCommitted bs) ds \<longleftrightarrow> (\<forall>b \<in> set bs. G (reference b) = Some b \<and>
     (\<forall>x \<in> set (vb_ancestors b). gc_round ds < br_round x \<longrightarrow> x \<in> known ds \<union> reference ` set bs))"
| "node_ok G (FindBlocks refs) ds \<longleftrightarrow> (\<forall>r \<in> set refs. br_author r < ds_size ds)"
| "node_ok G CollectGarbage ds \<longleftrightarrow> True"
| "node_ok G (DagOp opn) ds \<longleftrightarrow> op_ok ds opn \<and> (\<nexists>b. opn = OpAccept b)"

inductive node_steps :: "dag_view \<Rightarrow> block_manager \<times> dag_state \<Rightarrow> block_manager \<times> dag_state \<Rightarrow> bool" for G where
  node_start: "node_steps G st st"
| node_step: "node_steps G st (bm, ds) \<Longrightarrow> node_ok G opn ds \<Longrightarrow> node_exec now opn (bm, ds) = Some st' \<Longrightarrow> node_steps G st st'"

lemma node_exec_ok:
  assumes ok: "manager_ok G bm ds" and op: "node_ok G opn ds"
  shows "(\<nexists>d. opn = DagOp d) \<Longrightarrow> \<exists>st'. node_exec now opn (bm, ds) = Some st'"
    and "node_exec now opn (bm, ds) = Some (bm', ds') \<Longrightarrow> manager_ok G bm' ds' \<and> ds_context ds' = ds_context ds"
proof -
  have "(case opn of DagOp d \<Rightarrow> True | _ \<Rightarrow> node_exec now opn (bm, ds) \<noteq> None) \<and>
      (\<forall>bm' ds'. node_exec now opn (bm, ds) = Some (bm', ds') \<longrightarrow> manager_ok G bm' ds' \<and> ds_context ds' = ds_context ds)"
  proof (cases opn)
    case (Receive bs)
    then show ?thesis using try_accept_blocks_ok[OF ok, of bs now] op progressD(1,11) by fastforce
  next
    case (ReceiveCommitted bs)
    then show ?thesis using try_accept_committed_blocks_ok[OF ok, of bs now] op progressD(1,11) by fastforce
  next
    case (FindBlocks refs)
    then show ?thesis using try_find_blocks_ok[OF ok, of refs] op by fastforce
  next
    case CollectGarbage
    then show ?thesis using gc_loop_ok[OF ok refl, of now] progressD(1,11)
      by (fastforce simp: try_unsuspend_blocks_for_latest_gc_round_def)
  next
    case (DagOp d)
    then have d: "op_ok ds d" "\<nexists>b. d = OpAccept b" using op by simp_all
    have "manager_ok G bm ds1 \<and> ds_context ds1 = ds_context ds" if "dag_exec now d ds = Some ds1" for ds1
      using manager_ok_dag_exec[OF ok d(1) that d(2)] dag_exec_frame[OF dag_okD(1)[OF manager_okD(1)[OF ok]] d(1) that d(2)]
      by simp
    moreover have "\<exists>ds1. bm' = bm \<and> ds' = ds1 \<and> dag_exec now d ds = Some ds1"
      if "node_exec now opn (bm, ds) = Some (bm', ds')" for bm' ds' using that DagOp by auto
    ultimately show ?thesis using DagOp by (simp only: node_op.case) blast
  qed
  then show "(\<nexists>d. opn = DagOp d) \<Longrightarrow> \<exists>st'. node_exec now opn (bm, ds) = Some st'"
      "node_exec now opn (bm, ds) = Some (bm', ds') \<Longrightarrow> manager_ok G bm' ds' \<and> ds_context ds' = ds_context ds"
    by (auto split: node_op.splits)
qed

lemma node_steps_ok:
  assumes "node_steps G st st'" "manager_ok G (fst st) (snd st)"
  shows "manager_ok G (fst st') (snd st') \<and> ds_context (snd st') = ds_context (snd st)"
  using assms
proof (induction rule: node_steps.induct)
  case (node_step st bm ds opn now st')
  then show ?case using node_exec_ok(2)[of G bm ds opn now "fst st'" "snd st'"] by simp
qed simp

text \<open>Batches delivered one after the other.\<close>

definition deliver_all :: "nat \<Rightarrow> verified_block list list \<Rightarrow> block_manager \<times> dag_state
    \<Rightarrow> (block_manager \<times> dag_state) option" where
  "deliver_all now bss st = try_fold (\<lambda>bs st. map_option fst (try_accept_blocks now bs st)) bss st"

lemma deliver_all_ok:
  assumes "manager_ok G bm ds" "\<forall>bs \<in> set bss. \<forall>b \<in> set bs. G (reference b) = Some b"
  shows "\<exists>bm' ds' acc. deliver_all now bss (bm, ds) = Some (bm', ds') \<and>
     progress False G bm ds acc (reference ` set (concat bss) \<inter> {r. gc_round ds < br_round r}) bm' ds'"
  using assms
proof (induction bss arbitrary: bm ds)
  case Nil
  then have "progress False G bm ds [] {} bm ds" by (intro progress_refl) (simp_all add: same_tables_def)
  then show ?case by (auto simp: deliver_all_def)
next
  case (Cons bs bss)
  obtain bm1 ds1 acc1 missing where 1: "try_accept_blocks now bs (bm, ds) = Some ((bm1, ds1), acc1, missing)"
      "progress False G bm ds acc1 (reference ` set bs \<inter> {r. gc_round ds < br_round r}) bm1 ds1"
    using try_accept_blocks_ok[OF Cons.prems(1), of bs now] Cons.prems(2) by auto
  obtain bm2 ds2 acc2 where 2: "deliver_all now bss (bm1, ds1) = Some (bm2, ds2)"
      "progress False G bm1 ds1 acc2 (reference ` set (concat bss) \<inter> {r. gc_round ds1 < br_round r}) bm2 ds2"
    using Cons.IH[OF progressD(1)[OF 1(2)]] Cons.prems(2) by auto
  have "progress False G bm ds (acc1 @ acc2) (reference ` set (concat (bs # bss)) \<inter> {r. gc_round ds < br_round r}) bm2 ds2"
    using progress_trans[OF 1(2) 2(2)] progressD(10)[OF 1(2)] by (simp add: Int_Un_distrib2[symmetric] image_Un)
  moreover have "deliver_all now (bs # bss) (bm, ds) = Some (bm2, ds2)" using 1(1) 2(1) by (simp add: deliver_all_def)
  ultimately show ?case by blast
qed

lemma same_known_lookup:
  assumes "dag_ok G ds" "dag_ok G ds'" "known ds = known ds'"
  shows "lookup_block ds = lookup_block ds'"
proof
  fix r show "lookup_block ds r = lookup_block ds' r"
  proof (cases "r \<in> known ds")
    case True
    then have "r \<in> known ds'" using assms(3) by blast
    then show ?thesis using True dag_okD(3)[OF assms(1)] dag_okD(3)[OF assms(2)] by (simp add: map_le_def)
  next
    case False
    moreover from this have "r \<notin> known ds'" using assms(3) by blast
    ultimately show ?thesis by (simp add: domIff)
  qed
qed

section \<open>Properties\<close>

text \<open>
  C4. The block manager accepts exactly the blocks whose history has arrived. For a batch of
  verified blocks it never panics and keeps its invariant; afterwards the known blocks are those
  deliverable from what was known, suspended and received above the garbage collection round, all
  other received blocks are suspended, and the blocks to fetch are the missing ancestors of the
  suspended ones. The returned blocks are the newly known ones, without duplicates and in causal
  order; the returned missing references are still to be fetched.
\<close>

theorem try_accept_blocks_exact:
  assumes "manager_ok G bm ds" "tidy (gc_round ds) bm" "\<forall>b \<in> set bs. G (reference b) = Some b"
  shows "\<exists>bm' ds' acc missing. try_accept_blocks now bs (bm, ds) = Some ((bm', ds'), acc, missing) \<and>
     manager_ok G bm' ds' \<and> tidy (gc_round ds') bm' \<and>
     (let R = suspended bm \<union> {r \<in> reference ` set bs. gc_round ds < br_round r} in
      known ds' = {r. deliverable G (gc_round ds) (known ds) R r} \<and> suspended bm' = R - known ds') \<and>
     fset (missing_blocks bm') = fetchable G (gc_round ds) (known ds') (suspended bm') \<and>
     reference ` set acc = known ds' - known ds \<and> distinct (map reference acc) \<and>
     causal_order (gc_round ds) (known ds) acc \<and> missing |\<subseteq>| missing_blocks bm'"
proof -
  let ?N = "reference ` set bs \<inter> {r. gc_round ds < br_round r}"
  obtain bm' ds' acc missing where 1: "try_accept_blocks now bs (bm, ds) = Some ((bm', ds'), acc, missing)"
      "missing |\<subseteq>| bm_missing_blocks bm'" "progress False G bm ds acc ?N bm' ds'"
    using try_accept_blocks_ok[OF assms(1,3)] by blast
  note p = progressD[OF 1(3)]
  have N: "{r \<in> reference ` set bs. gc_round ds < br_round r} = ?N" by blast
  have tidy: "tidy (gc_round ds') bm'" using tidy_listed[OF assms(2) p(9)] p(10) by simp
  have "gc_clean (gc_round ds) bm" using assms(2) by (auto simp: gc_clean_def tidy_def)
  note kn = progress_known[OF 1(3) assms(1) this]
  note progress_suspended[OF 1(3)]
  moreover have "fset (missing_blocks bm') = fetchable G (gc_round ds) (known ds') (suspended bm')"
    using missing_exact[OF p(1) tidy] p(10) by (simp add: missing_blocks_def)
  moreover have "reference ` set acc = known ds' - known ds" using p(3,6) by auto
  ultimately show ?thesis
    using 1(1,2) p(1,4,5) tidy kn unfolding N Let_def missing_blocks_def by blast
qed

theorem try_accept_blocks_exact_witness:
  "\<exists>bm' ds' acc missing. try_accept_blocks 9 [dag_block 2 0, dag_block 1 1]
       (block_manager_new example_ctx, fresh_state example_ctx 7 example_genesis) = Some ((bm', ds'), acc, missing) \<and>
     missing |\<subseteq>| missing_blocks bm'"
  using try_accept_blocks_exact[OF example_manager(1,2), of "[dag_block 2 0, dag_block 1 1]" 2 9] by auto

text \<open>
  C32. The order of arrival does not matter. However the same verified blocks are cut into batches
  and ordered, the manager never panics, and the node ends with the same known blocks, the same
  suspended blocks and the same blocks to fetch.
\<close>

theorem delivery_order_irrelevant:
  assumes "manager_ok G bm ds" "tidy (gc_round ds) bm" "\<forall>b \<in> set (concat bss). G (reference b) = Some b"
    and "set (concat bss) = set (concat bss')"
  shows "\<exists>bm1 ds1 bm2 ds2. deliver_all now bss (bm, ds) = Some (bm1, ds1) \<and>
     deliver_all now' bss' (bm, ds) = Some (bm2, ds2) \<and> lookup_block ds1 = lookup_block ds2 \<and>
     suspended bm1 = suspended bm2 \<and> missing_blocks bm1 = missing_blocks bm2"
proof -
  let ?N = "reference ` set (concat bss) \<inter> {r. gc_round ds < br_round r}"
  have G: "\<forall>bs \<in> set bss. \<forall>b \<in> set bs. G (reference b) = Some b" "\<forall>bs \<in> set bss'. \<forall>b \<in> set bs. G (reference b) = Some b"
    using assms(3,4) by auto
  obtain bm1 ds1 acc1 where 1: "deliver_all now bss (bm, ds) = Some (bm1, ds1)" "progress False G bm ds acc1 ?N bm1 ds1"
    using deliver_all_ok[OF assms(1) G(1), of now] by blast
  obtain bm2 ds2 acc2 where 2: "deliver_all now' bss' (bm, ds) = Some (bm2, ds2)" "progress False G bm ds acc2 ?N bm2 ds2"
    using deliver_all_ok[OF assms(1) G(2), of now'] unfolding assms(4) by blast
  note p = progressD[OF 1(2)] and q = progressD[OF 2(2)]
  have "gc_clean (gc_round ds) bm" using assms(2) by (auto simp: gc_clean_def tidy_def)
  note kn = progress_known[OF 1(2) assms(1) this] progress_known[OF 2(2) assms(1) this]
  have eq: "known ds1 = known ds2" unfolding kn by simp
  have sus: "suspended bm1 = suspended bm2" unfolding progress_suspended[OF 1(2)] progress_suspended[OF 2(2)] eq by simp
  have tidy: "tidy (gc_round ds1) bm1" "tidy (gc_round ds2) bm2"
    using tidy_listed[OF assms(2) p(9)] tidy_listed[OF assms(2) q(9)] p(10) q(10) by simp_all
  have "fset (bm_missing_blocks bm1) = fset (bm_missing_blocks bm2)"
    unfolding missing_exact[OF p(1) tidy(1)] missing_exact[OF q(1) tidy(2)] p(10) q(10) eq sus by simp
  moreover have "lookup_block ds1 = lookup_block ds2"
    by (rule same_known_lookup[OF manager_okD(1)[OF p(1)] manager_okD(1)[OF q(1)] eq])
  ultimately show ?thesis using 1(1) 2(1) sus by (auto simp: missing_blocks_def fset_inject)
qed

theorem delivery_order_irrelevant_witness:
  "\<exists>bm1 ds1 bm2 ds2.
     deliver_all 9 [[dag_block 2 0], dag_blocks 1] (block_manager_new example_ctx, fresh_state example_ctx 7 example_genesis) = Some (bm1, ds1) \<and>
     deliver_all 10 [dag_blocks 1 @ [dag_block 2 0]] (block_manager_new example_ctx, fresh_state example_ctx 7 example_genesis) = Some (bm2, ds2) \<and>
     lookup_block ds1 = lookup_block ds2 \<and> suspended bm1 = suspended bm2 \<and> missing_blocks bm1 = missing_blocks bm2"
proof (rule delivery_order_irrelevant[OF example_manager(1)[of 2] example_manager(2)])
  show "\<forall>b \<in> set (concat [[dag_block 2 0], dag_blocks 1]). example_dag 2 (reference b) = Some b"
    by (auto simp: set_dag_blocks)
qed auto

text \<open>
  C33. Garbage collection unblocks. When the garbage collection round has advanced, the manager
  gives up every missing ancestor at or below it, never panics and ends; no block is lost (each is
  known or still suspended), and every block that stays suspended has, somewhere in its history, a
  block above the round that is being fetched.
\<close>

theorem gc_leaves_only_fetchable:
  assumes "manager_ok G bm ds"
  shows "\<exists>bm' ds'. try_unsuspend_blocks_for_latest_gc_round now (bm, ds) = Some (bm', ds') \<and> manager_ok G bm' ds' \<and>
     known ds \<subseteq> known ds' \<and> known ds' \<union> suspended bm' = known ds \<union> suspended bm \<and>
     (\<forall>r \<in> suspended bm'. \<exists>x. x |\<in>| missing_blocks bm' \<and> gc_round ds' < br_round x \<and>
        (x, r) \<in> {(x, r). \<exists>b. G r = Some b \<and> x \<in> set (vb_ancestors b)}\<^sup>+)"
proof -
  obtain bm' ds' acc where 1: "gc_loop now (gc_round ds) (bm, ds) = Some (bm', ds')" "gc_clean (gc_round ds) bm'"
      "progress True G bm ds acc {} bm' ds'"
    using gc_loop_ok[OF assms refl] by blast
  note p = progressD[OF 1(3)]
  have "gc_round ds' < br_round x" if "x |\<in>| bm_missing_blocks bm'" for x
    using 1(2) that waitingD(3)[OF manager_okD(2)[OF p(1)], of x] p(10) by (simp add: gc_clean_def)
  moreover have "known ds \<subseteq> known ds'" unfolding p(3) by simp
  moreover have "known ds' \<union> suspended bm' = known ds \<union> suspended bm" using p(8) by simp
  ultimately show ?thesis
    using 1(1) p(1) suspended_waits[OF p(1)]
    unfolding try_unsuspend_blocks_for_latest_gc_round_def missing_blocks_def prod.case by blast
qed

theorem gc_leaves_only_fetchable_witness:
  "\<exists>bm' ds'. try_unsuspend_blocks_for_latest_gc_round 9 (block_manager_new example_ctx, fresh_state example_ctx 7 example_genesis) =
     Some (bm', ds')"
  using gc_leaves_only_fetchable[OF example_manager(1), of 9] by blast

text \<open>
  C34. Committed blocks are accepted at once. When every block of a certified batch has its
  ancestors above the garbage collection round known or in the batch, all of the batch becomes
  known, also blocks that were suspended; nothing panics, nothing is lost, and the returned blocks
  are the newly known ones in causal order.
\<close>

theorem committed_batch_accepted:
  assumes "manager_ok G bm ds" "\<forall>b \<in> set bs. G (reference b) = Some b"
    and "\<forall>b \<in> set bs. \<forall>x \<in> set (vb_ancestors b). gc_round ds < br_round x \<longrightarrow> x \<in> known ds \<union> reference ` set bs"
  shows "\<exists>bm' ds' acc. try_accept_committed_blocks now bs (bm, ds) = Some ((bm', ds'), acc) \<and> manager_ok G bm' ds' \<and>
     reference ` set bs \<subseteq> known ds' \<and> suspended bm' = suspended bm - known ds' \<and>
     reference ` set acc = known ds' - known ds \<and> distinct (map reference acc) \<and>
     causal_order (gc_round ds) (known ds) acc"
proof -
  obtain bm' ds' acc where 1: "try_accept_committed_blocks now bs (bm, ds) = Some ((bm', ds'), acc)"
      "progress True G bm ds acc (reference ` set bs) bm' ds'" "reference ` set bs \<subseteq> known ds'"
    using try_accept_committed_blocks_ok[OF assms] by blast
  note p = progressD[OF 1(2)]
  have "suspended bm' = suspended bm - known ds'" using progress_suspended[OF 1(2)] 1(3) by blast
  moreover have "reference ` set acc = known ds' - known ds" using p(3,6) by blast
  ultimately show ?thesis using 1 p(1,4,5) by blast
qed

theorem committed_batch_accepted_witness:
  "\<exists>bm' ds' acc. try_accept_committed_blocks 9 (dag_blocks 2)
       (block_manager_new example_ctx, fresh_state example_ctx 7 example_genesis) = Some ((bm', ds'), acc) \<and>
     manager_ok (example_dag 2) bm' ds' \<and> reference ` set (dag_blocks 2) \<subseteq> known ds' \<and>
     suspended bm' = suspended (block_manager_new example_ctx) - known ds' \<and>
     reference ` set acc = known ds' - known (fresh_state example_ctx 7 example_genesis) \<and> distinct (map reference acc) \<and>
     causal_order (gc_round (fresh_state example_ctx 7 example_genesis)) (known (fresh_state example_ctx 7 example_genesis)) acc"
proof -
  let ?ds = "fresh_state example_ctx 7 example_genesis"
  have "x \<in> reference ` set (dag_blocks 2)" if x: "k \<le> 2" "a < 4" "0 < k" "x \<in> set (vb_ancestors (dag_block k a))" "0 < br_round x" for x k a
  proof -
    obtain i where i: "i < 4" "x = dag_ref (k - 1) i" using x(4) dag_ancestors[OF x(2,3)] by blast
    then have "0 < k - 1" "k - 1 \<le> 2" using x(1,5) by simp_all
    then have "dag_block (k - 1) i \<in> set (dag_blocks 2)" unfolding set_dag_blocks using i(1) by blast
    moreover have "x = reference (dag_block (k - 1) i)" using i by simp
    ultimately show ?thesis by blast
  qed
  then have anc: "\<forall>b \<in> set (dag_blocks 2). \<forall>x \<in> set (vb_ancestors b). gc_round ?ds < br_round x \<longrightarrow>
      x \<in> known ?ds \<union> reference ` set (dag_blocks 2)"
    unfolding example_manager(3) Ball_def set_dag_blocks by blast
  have G: "\<forall>b \<in> set (dag_blocks 2). example_dag 2 (reference b) = Some b" by (auto simp: set_dag_blocks)
  show ?thesis by (rule committed_batch_accepted[OF example_manager(1) G anc])
qed

text \<open>
  C5. A node that feeds its DAG state through the block manager always has the view the commit
  rule needs. Start from an empty store and an empty manager; deliver batches of verified blocks,
  certified batches, searches, garbage collections and all other operations of the DAG state in any
  order. In every state reached the DAG state satisfies its invariant, its blocks are blocks of the
  DAG, complete above the garbage collection round, and no operation of the manager panics.
\<close>

theorem managed_node_view:
  assumes "genesis_blocks ser hash ctx = Some gs" "committee_wf (ctx_committee ctx)"
    and "ctx_own_index ctx < committee_size (ctx_committee ctx)" "0 < p_dag_state_cached_rounds (ctx_parameters ctx)"
    and "sources (ctx_committee ctx) (ctx_own_index ctx) G"
    and "\<forall>r b. br_round r = 0 \<longrightarrow> (G r = Some b \<longleftrightarrow> b \<in> set gs \<and> reference b = r)"
    and "node_steps G (block_manager_new ctx, fresh_state ctx now gs) (bm, ds)"
  shows "node_view (ctx_committee ctx) G ds \<and>
     (\<forall>opn now'. node_ok G opn ds \<and> (\<nexists>d. opn = DagOp d) \<longrightarrow> node_exec now' opn (bm, ds) \<noteq> None)"
proof -
  have "manager_ok G bm ds" and ctx: "ds_context ds = ctx"
    using node_steps_ok[OF assms(7)] fresh_manager_ok(1)[OF assms(1-6), of now] by (auto simp: fresh_state_def)
  then have ok: "manager_ok G bm ds" and "dag_ok G ds" by (auto dest: manager_okD(1))
  then have "node_view (ctx_committee ctx) G ds" using ctx by (simp add: dag_ok_def node_view_def)
  then show ?thesis using node_exec_ok(1)[OF ok] by auto
qed

theorem managed_node_view_witness:
  "\<exists>bm ds. node_steps (example_dag 2) (block_manager_new example_ctx, fresh_state example_ctx 7 example_genesis) (bm, ds) \<and>
     node_exec 9 (Receive (dag_blocks 2)) (block_manager_new example_ctx, fresh_state example_ctx 7 example_genesis) = Some (bm, ds) \<and>
     node_view (ctx_committee example_ctx) (example_dag 2) ds"
proof -
  let ?st = "(block_manager_new example_ctx, fresh_state example_ctx 7 example_genesis)"
  have G: "node_ok (example_dag 2) (Receive (dag_blocks 2)) (snd ?st)" by (auto simp: set_dag_blocks)
  obtain bm ds where run: "node_exec 9 (Receive (dag_blocks 2)) ?st = Some (bm, ds)"
    using node_exec_ok(1)[OF example_manager(1)[of 2] G[simplified snd_conv], of 9] by auto
  then have steps: "node_steps (example_dag 2) ?st (bm, ds)"
    using node_step[OF node_start G[simplified snd_conv]] by blast
  show ?thesis
    using managed_node_view[OF example_genesis_blocks example_ctx_ok example_sources example_genesis_dag steps] run steps by blast
qed

end
