(* ===== verification/VerifiedDag.thy ===== *)
theory VerifiedDag
  imports BlockVerifier BlockManagerProperties CommitChain
begin

text \<open>
  What block verification gives the rest of the node: the blocks that pass the block verifier,
  together with the genesis blocks, are the DAG that the block manager, the commit rule and the
  linearizer rely on.
\<close>

text \<open>Every block of \<open>G\<close> is a genesis block or passed the verifier; all genesis blocks are there.\<close>

definition checked :: "crypto \<Rightarrow> signed_block_verifier \<Rightarrow> verified_block list \<Rightarrow> dag_view \<Rightarrow> bool" where
  "checked k v gs G \<longleftrightarrow> (\<forall>b \<in> set gs. G (reference b) = Some b) \<and>
     (\<forall>r b. G r = Some b \<longrightarrow> reference b = r \<and> (b \<in> set gs \<or> verify_block k v (vb_block b) = ok ()))"

text \<open>An authority that follows the protocol proposes one block per round, on top of its last one.\<close>

definition own_chain :: "authority_index \<Rightarrow> dag_view \<Rightarrow> bool" where
  "own_chain a G \<longleftrightarrow> (\<forall>r r' b. G r = Some b \<and> G r' \<noteq> None \<and> br_author r = a \<and> br_author r' = a \<longrightarrow>
     (br_round r' = br_round r \<longrightarrow> r' = r) \<and>
     (br_round r' < br_round r \<longrightarrow> (\<exists>x xs. vb_ancestors b = x # xs \<and> br_round r' \<le> br_round x)))"

lemma checked_block:
  assumes ctx: "sv_context v = ctx" "sv_genesis v = fset_of_list (map reference gs)"
    and gs: "genesis_blocks ser hash ctx = Some gs" and wf: "committee_wf (ctx_committee ctx)"
    and G: "checked k v gs G" "G r = Some b"
  shows "reference b = r" "br_author r \<in> members (ctx_committee ctx)"
    and "x \<in> set (vb_ancestors b) \<Longrightarrow> br_author x \<in> members (ctx_committee ctx) \<and> br_round x < br_round r \<and>
       (br_round x = 0 \<longrightarrow> G x \<noteq> None)"
    and "distinct (map br_author (vb_ancestors b))"
    and "0 < br_round r \<Longrightarrow> vb_ancestors b \<noteq> [] \<and> br_author (hd (vb_ancestors b)) = br_author r \<and>
       quorum (ctx_committee ctx) \<le> stake_of (ctx_committee ctx) (br_author ` {x \<in> set (vb_ancestors b). Suc (br_round x) = br_round r})"
proof -
  show ref: "reference b = r" using G by (simp add: checked_def)
  then have r: "br_round r = vb_round b" "br_author r = vb_author b" by auto
  have gen: "vb_author b \<in> members (ctx_committee ctx) \<and> vb_round b = 0 \<and> vb_ancestors b = []" if "b \<in> set gs"
    using genesis_blocks_shape[OF gs] that by (auto simp: in_set_conv_nth members_def)
  have ver: "0 < vb_round b \<and> vb_author b \<in> members (ctx_committee ctx) \<and>
      valid_ancestors (ctx_committee ctx) (sv_genesis v) (inner b) \<and>
      quorum (ctx_committee ctx) \<le> stake_of (ctx_committee ctx) (br_author ` set (parents_of (inner b)))" if "b \<notin> set gs"
  proof -
    have "verify_block k v (vb_block b) = ok ()" using G that by (auto simp: checked_def)
    then have "valid_block k v (vb_block b)" using verify_block_iff[of v] wf ctx by simp
    then show ?thesis using ctx(1) by (simp add: valid_block_def Let_def vb_round_def vb_author_def inner_def)
  qed
  show "br_author r \<in> members (ctx_committee ctx)" using r gen ver by auto
  show "distinct (map br_author (vb_ancestors b))"
    using gen ver by (cases "b \<in> set gs") (auto simp: valid_ancestors_def vb_ancestors_def)
  have known: "G x \<noteq> None" if "x |\<in>| sv_genesis v" for x
    using that G(1) ctx(2) by (auto simp: checked_def fset_of_list_elem)
  show "br_author x \<in> members (ctx_committee ctx) \<and> br_round x < br_round r \<and> (br_round x = 0 \<longrightarrow> G x \<noteq> None)"
    if "x \<in> set (vb_ancestors b)"
    using that gen ver known r
    by (cases "b \<in> set gs") (auto simp: valid_ancestors_def vb_ancestors_def vb_round_def GENESIS_ROUND_def)
  show "vb_ancestors b \<noteq> [] \<and> br_author (hd (vb_ancestors b)) = br_author r \<and>
      quorum (ctx_committee ctx) \<le> stake_of (ctx_committee ctx) (br_author ` {x \<in> set (vb_ancestors b). Suc (br_round x) = br_round r})"
    if "0 < br_round r"
  proof -
    have "b \<notin> set gs" using gen that r by auto
    then show ?thesis using ver r
      by (auto simp: valid_ancestors_def parents_of_def vb_ancestors_def vb_round_def vb_author_def)
  qed
qed

section \<open>An example\<close>

text \<open>A signature scheme that accepts every signature, and the example DAG as verified blocks.\<close>

definition trusting_crypto :: crypto where
  "trusting_crypto = \<lparr>cry_block_bytes = (\<lambda>_. Inr []), cry_intent_bytes = (\<lambda>_. Inr []), cry_hash = (\<lambda>_. 0),
     cry_sign = (\<lambda>_ _. []), cry_parse_signature = Inr, cry_verify = (\<lambda>_ _ _. Inr ())\<rparr>"

definition example_verifier :: signed_block_verifier where
  "example_verifier = \<lparr>sv_context = example_ctx, sv_genesis = fset_of_list (map reference example_genesis),
     sv_transaction_verifier = \<lparr>tv_verify_batch = (\<lambda>_. Inr ()), tv_verify_and_vote_batch = (\<lambda>_ _. Inr [])\<rparr>\<rparr>"

lemma example_verifier_new:
  "signed_block_verifier_new example_ser example_hash example_ctx
     \<lparr>tv_verify_batch = (\<lambda>_. Inr ()), tv_verify_and_vote_batch = (\<lambda>_ _. Inr [])\<rparr> = Some example_verifier"
  by (simp add: signed_block_verifier_new_def example_genesis_blocks example_verifier_def)

lemma example_genesis_nth_mem: "a < 4 \<Longrightarrow> example_genesis ! a \<in> set example_genesis"
proof -
  assume "a < 4"
  then have "a < length example_genesis" by (simp add: example_genesis_def)
  then show ?thesis by (rule nth_mem)
qed

lemma example_block_valid:
  assumes "0 < k" "a < 4"
  shows "valid_block trusting_crypto example_verifier (vb_block (dag_block k a))"
proof -
  let ?b = "dag_block k a"
  have sh: "block_round (sb_inner (vb_block ?b)) = k" "block_author (sb_inner (vb_block ?b)) = a"
      "block_ancestors (sb_inner (vb_block ?b)) = vb_ancestors ?b"
    using dag_ref_simps[OF assms(2), of k] by (simp_all add: vb_round_def vb_author_def vb_ancestors_def inner_def)
  have ep: "block_epoch (sb_inner (vb_block ?b)) = 0" "block_transactions (sb_inner (vb_block ?b)) = []"
    using assms by (simp_all add: dag_block_def mk_block_def block_v1_new_def)
  have c: "ctx_committee (sv_context example_verifier) = committee4" "members committee4 = {..<4}"
    by (simp_all add: example_verifier_def example_ctx_def members_def committee4_def committee_size_def)
  have "x |\<in>| sv_genesis example_verifier" if "x = dag_ref 0 i" "i < 4" for x i
    using that example_genesis_nth_mem by (simp add: example_verifier_def fset_of_list_elem dag_ref_def)
  then have anc: "valid_ancestors committee4 (sv_genesis example_verifier) (sb_inner (vb_block ?b))"
    unfolding valid_ancestors_def sh c using assms by (auto simp: all4 GENESIS_ROUND_def)
  have "br_author ` set (parents_of (sb_inner (vb_block ?b))) = br_author ` {x \<in> set (vb_ancestors ?b). Suc (br_round x) = k}"
    by (simp add: parents_of_def sh)
  moreover have "example_dag k (dag_ref k a) = Some ?b" using assms by simp
  ultimately have "quorum committee4 \<le> stake_of committee4 (br_author ` set (parents_of (sb_inner (vb_block ?b))))"
    using bft_dagD(8)[OF example_dag_bft, of k "dag_ref k a" ?b] assms by simp
  moreover have "verify_signature trusting_crypto (sv_context example_verifier) (vb_block ?b) = ok ()"
    using assms c sh by (simp add: verify_signature_def verify_block_signature_def compute_inner_block_digest_def
        trusting_crypto_def map_err_def is_valid_index_def committee_authority_def committee4_def committee_size_def Let_def)
  ultimately show ?thesis
    using anc assms by (simp add: valid_block_def Let_def sh ep c valid_transactions_def) (simp add: committee4_def)
qed

lemma example_checked: "checked trusting_crypto example_verifier example_genesis (example_dag n)"
proof -
  have wf: "committee_wf (ctx_committee (sv_context example_verifier))"
    using committee4_wf by (simp add: example_verifier_def example_ctx_def)
  have gen: "dag_block 0 a \<in> set example_genesis" if "a < 4" for a
    using that example_genesis_nth_mem by (simp add: dag_block_def)
  have "example_dag n (reference b) = Some b" if "b \<in> set example_genesis" for b
  proof -
    have "br_round (reference b) = 0" using that by (auto simp: example_genesis_def new_verified_def vb_round_def inner_def
        signed_block_new_genesis_def genesis_block_v1_def block_v1_new_def GENESIS_ROUND_def)
    then show ?thesis using example_genesis_dag that by blast
  qed
  moreover have "b \<in> set example_genesis \<or> verify_block trusting_crypto example_verifier (vb_block b) = ok ()"
    if d: "example_dag n r = Some b" for r b
  proof -
    obtain k a where b: "a < 4" "b = dag_block k a" using d unfolding example_dag_iff by blast
    show ?thesis using gen[OF b(1)] example_block_valid[of k a] verify_block_iff[OF wf] b by (cases "k = 0") auto
  qed
  moreover have "reference b = r" if "example_dag n r = Some b" for r b
    using that by (auto simp: example_dag_iff)
  ultimately show ?thesis unfolding checked_def by blast
qed

lemma example_own_chain:
  assumes "a \<noteq> 3"
  shows "own_chain a (example_dag n)"
  unfolding own_chain_def
proof (intro allI impI)
  fix r r' b assume r: "example_dag n r = Some b \<and> example_dag n r' \<noteq> None \<and> br_author r = a \<and> br_author r' = a"
  then obtain b' where b': "example_dag n r = Some b" "example_dag n r' = Some b'" by auto
  have "br_author r = br_author r'" "br_author r \<notin> {3}" using r assms by simp_all
  note d = bft_dagD(9,10)[OF example_dag_bft b' this]
  show "(br_round r' = br_round r \<longrightarrow> r' = r) \<and>
      (br_round r' < br_round r \<longrightarrow> (\<exists>x xs. vb_ancestors b = x # xs \<and> br_round r' \<le> br_round x))"
    using d by auto
qed

section \<open>Property\<close>

text \<open>
  C35. Verified blocks form the DAG that the other components assume. Take the genesis blocks and
  any blocks that passed the verifier of a node. If the node itself follows the protocol, they are
  what its block manager expects. If moreover all ancestors are among them, the faulty authorities
  hold less than the validity threshold of stake, and the others follow the protocol, they form the
  Byzantine-tolerant DAG on which the commit rule agrees, with at most one ancestor per authority,
  which the linearizer uses.
\<close>

theorem verified_blocks_form_dag:
  assumes "signed_block_verifier_new ser hash ctx tv = Some v" "genesis_blocks ser hash ctx = Some gs"
    and "committee_wf (ctx_committee ctx)" "checked k v gs G"
  shows "(own_chain (ctx_own_index ctx) G \<longrightarrow> sources (ctx_committee ctx) (ctx_own_index ctx) G) \<and>
     (F \<subseteq> members (ctx_committee ctx) \<and> stake_of (ctx_committee ctx) F < validity (ctx_committee ctx) \<and>
      (\<forall>r b. G r = Some b \<longrightarrow> (\<forall>x \<in> set (vb_ancestors b). G x \<noteq> None)) \<and>
      (\<forall>a. a \<notin> F \<longrightarrow> own_chain a G) \<longrightarrow> bft_dag (ctx_committee ctx) F G \<and> verified_dag G)"
proof -
  have v: "sv_context v = ctx" "sv_genesis v = fset_of_list (map reference gs)"
    using assms(1,2) by (auto simp: signed_block_verifier_new_def)
  note blk = checked_block[OF v assms(2-4)]
  have "sources (ctx_committee ctx) (ctx_own_index ctx) G" if own: "own_chain (ctx_own_index ctx) G"
    unfolding sources_def
  proof (intro allI impI conjI ballI)
    fix r b r' assume "G r = Some b" "G r' \<noteq> None \<and> br_author r = ctx_own_index ctx \<and> slot_of_ref r' = slot_of_ref r"
    then show "r' = r" using own unfolding own_chain_def slot_of_ref_def by auto
  qed (use blk in \<open>auto simp: members_def\<close>)
  moreover have "bft_dag (ctx_committee ctx) F G"
    if F: "F \<subseteq> members (ctx_committee ctx)" "stake_of (ctx_committee ctx) F < validity (ctx_committee ctx)"
      and closed: "\<forall>r b. G r = Some b \<longrightarrow> (\<forall>x \<in> set (vb_ancestors b). G x \<noteq> None)"
      and honest: "\<forall>a. a \<notin> F \<longrightarrow> own_chain a G"
  proof -
    have "(br_round r' = br_round r \<longrightarrow> r' = r) \<and> (br_round r' < br_round r \<longrightarrow>
        (\<exists>x xs. vb_ancestors b = x # xs \<and> br_author x = br_author r \<and> br_round r' \<le> br_round x))"
      if r: "G r = Some b" "G r' \<noteq> None" "br_author r = br_author r'" "br_author r \<notin> F" for r r' b
    proof -
      have "(br_round r' = br_round r \<longrightarrow> r' = r) \<and>
          (br_round r' < br_round r \<longrightarrow> (\<exists>x xs. vb_ancestors b = x # xs \<and> br_round r' \<le> br_round x))"
        using honest r unfolding own_chain_def by metis
      then show ?thesis using blk(5)[OF r(1)] by auto
    qed
    then show ?thesis unfolding bft_dag_def using assms(3) F closed blk(1,2,3,5) by blast
  qed
  moreover have "verified_dag G" using blk(4) by (simp add: verified_dag_def)
  ultimately show ?thesis by blast
qed

theorem verified_blocks_form_dag_witness:
  "sources (ctx_committee example_ctx) (ctx_own_index example_ctx) (example_dag 2) \<and>
   bft_dag (ctx_committee example_ctx) {3} (example_dag 2) \<and> verified_dag (example_dag 2)"
proof -
  have c: "ctx_committee example_ctx = committee4" by (simp add: example_ctx_def)
  have "{3} \<subseteq> members (ctx_committee example_ctx)"
      "stake_of (ctx_committee example_ctx) {3} < validity (ctx_committee example_ctx)"
    unfolding c using bft_dagD(2,3)[OF example_dag_bft[of 2]] by blast+
  moreover have "\<forall>r b. example_dag 2 r = Some b \<longrightarrow> (\<forall>x \<in> set (vb_ancestors b). example_dag 2 x \<noteq> None)"
    using bft_dagD(7)[OF example_dag_bft[of 2]] by fastforce
  moreover have "\<forall>a. a \<notin> {3} \<longrightarrow> own_chain a (example_dag 2)" using example_own_chain by blast
  moreover have "own_chain (ctx_own_index example_ctx) (example_dag 2)" by (rule example_own_chain) (simp add: example_ctx_def)
  ultimately show ?thesis
    using verified_blocks_form_dag[OF example_verifier_new example_genesis_blocks example_ctx_ok(1) example_checked, of 2 "{3}"]
    by blast
qed

end
