(* ===== verification/RoundTracker.thy ===== *)
theory RoundTracker
  imports Commit QuorumWalk
begin

text \<open>
  The round tracker (\<open>core/src/round_tracker.rs\<close>): the highest rounds that peers are known to have
  received and accepted from each other, and the quorum rounds computed from them.

  Metrics are left out; the subtraction \<open>high - low\<close> that one of them makes is kept as an assertion.
\<close>

type_synonym quorum_round = "round \<times> round"

record extended_block =
  eb_block :: verified_block
  eb_excluded_ancestors :: "block_ref list"

record peer_round_tracker =
  rt_context :: node_context
  rt_block_accepted_rounds :: "round list list"
  rt_probed_accepted_rounds :: "round list list"
  rt_probed_received_rounds :: "round list list"

definition round_tracker_new :: "node_context \<Rightarrow> peer_round_tracker" where
  "round_tracker_new ctx = (let size = committee_size (ctx_committee ctx); zeros = replicate size (replicate size 0) in
     \<lparr>rt_context = ctx, rt_block_accepted_rounds = zeros, rt_probed_accepted_rounds = zeros,
      rt_probed_received_rounds = zeros\<rparr>)"

text \<open>\<open>rounds[author][a] = rounds[author][a].max(r)\<close>.\<close>

definition raise_round :: "authority_index \<Rightarrow> authority_index \<times> round \<Rightarrow> round list list \<Rightarrow> round list list option" where
  "raise_round author = (\<lambda>(a, r) rounds. do {
     row \<leftarrow> vec_get rounds author;
     cur \<leftarrow> vec_get row a;
     row' \<leftarrow> vec_set row a (max cur r);
     vec_set rounds author row'
   })"

definition update_from_verified_block :: "extended_block \<Rightarrow> peer_round_tracker \<Rightarrow> peer_round_tracker option" where
  "update_from_verified_block eb tr = do {
     let b = eb_block eb;
     let author = vb_author b;
     rounds1 \<leftarrow> raise_round author (author, vb_round b) (rt_block_accepted_rounds tr);
     rounds2 \<leftarrow> try_fold (\<lambda>x. raise_round author (br_author x, br_round x)) (vb_ancestors b) rounds1;
     rounds3 \<leftarrow> try_fold (\<lambda>x. raise_round author (br_author x, br_round x)) (eb_excluded_ancestors eb) rounds2;
     Some (tr\<lparr>rt_block_accepted_rounds := rounds3\<rparr>)
   }"

definition update_from_probe :: "round list list \<Rightarrow> round list list \<Rightarrow> peer_round_tracker \<Rightarrow> peer_round_tracker" where
  "update_from_probe accepted received tr =
     tr\<lparr>rt_probed_accepted_rounds := accepted, rt_probed_received_rounds := received\<rparr>"

definition compute_quorum_round :: "committee \<Rightarrow> authority_index \<Rightarrow> round list list \<Rightarrow> quorum_round option" where
  "compute_quorum_round c target highest_rounds = do {
     rounds_with_stake \<leftarrow> try_map (\<lambda>(rounds, a). do { r \<leftarrow> vec_get rounds target; Some (r, a_stake a) })
       (zip highest_rounds (c_authorities c));
     let sorted_rounds = sort rounds_with_stake;
     let low = (case first_quorum (c_quorum_threshold c) 0 (rev sorted_rounds) of Some r \<Rightarrow> r | None \<Rightarrow> 0);
     let high = (case first_quorum (c_quorum_threshold c) 0 sorted_rounds of Some r \<Rightarrow> r | None \<Rightarrow> 0);
     Some (low, high)
   }"

definition highest_accepted_rounds :: "peer_round_tracker \<Rightarrow> round list list" where
  "highest_accepted_rounds tr = map (\<lambda>(probed, blocks). map (\<lambda>(p, b). max p b) (zip probed blocks))
     (zip (rt_probed_accepted_rounds tr) (rt_block_accepted_rounds tr))"

definition quorum_rounds :: "committee \<Rightarrow> round list list \<Rightarrow> quorum_round list option" where
  "quorum_rounds c rounds = try_map (\<lambda>(peer, _). compute_quorum_round c peer rounds) (committee_authorities c)"

definition compute_accepted_quorum_rounds :: "peer_round_tracker \<Rightarrow> quorum_round list option" where
  "compute_accepted_quorum_rounds tr = quorum_rounds (ctx_committee (rt_context tr)) (highest_accepted_rounds tr)"

definition compute_received_quorum_rounds :: "peer_round_tracker \<Rightarrow> quorum_round list option" where
  "compute_received_quorum_rounds tr = quorum_rounds (ctx_committee (rt_context tr)) (rt_probed_received_rounds tr)"

definition calculate_propagation_delay :: "round \<Rightarrow> peer_round_tracker \<Rightarrow> round option" where
  "calculate_propagation_delay last_proposed_round tr = do {
     let own = ctx_own_index (rt_context tr);
     received \<leftarrow> compute_received_quorum_rounds tr;
     accepted \<leftarrow> compute_accepted_quorum_rounds tr;
     rust_assert (list_all (\<lambda>(low, high). low \<le> high) received);
     rust_assert (list_all (\<lambda>(low, high). low \<le> high) accepted);
     r \<leftarrow> vec_get received own;
     a \<leftarrow> vec_get accepted own;
     Some (min (last_proposed_round - fst r) (last_proposed_round - fst a))
   }"

section \<open>The matrices of rounds\<close>

definition matrix :: "nat \<Rightarrow> 'a list list \<Rightarrow> bool" where
  "matrix n rows \<longleftrightarrow> length rows = n \<and> (\<forall>row \<in> set rows. length row = n)"

lemma matrixD: "matrix n rows \<Longrightarrow> length rows = n" "matrix n rows \<Longrightarrow> i < n \<Longrightarrow> length (rows ! i) = n"
  by (auto simp: matrix_def)

lemma matrix_zeros: "matrix n (replicate n (replicate n x))"
  by (simp add: matrix_def)

lemma raise_round_ok:
  assumes "matrix n rounds" "author < n" "a < n"
  shows "\<exists>rounds'. raise_round author (a, r) rounds = Some rounds' \<and> matrix n rounds' \<and>
     (\<forall>i < n. \<forall>j < n. rounds' ! i ! j = (if i = author \<and> j = a then max (rounds ! i ! j) r else rounds ! i ! j))"
proof -
  note m = matrixD(1)[OF assms(1)] matrixD(2)[OF assms(1,2)]
  have "matrix n (rounds[author := (rounds ! author)[a := max (rounds ! author ! a) r]])"
    using assms m by (auto simp: matrix_def dest!: set_update_subset_insert[THEN subsetD])
  then show ?thesis using assms m by (auto simp: raise_round_def nth_list_update)
qed

lemma Max_insert_max: "finite S \<Longrightarrow> Max (insert (max a b) S) = Max (insert a (insert b S))"
  by (cases "S = {}") (simp_all add: max.assoc)

text \<open>Raising rounds for a list of references keeps the highest round per author.\<close>

lemma raise_rounds_ok:
  assumes "matrix n rounds" "author < n" "\<forall>x \<in> set xs. br_author x < n"
  shows "\<exists>rounds'. try_fold (\<lambda>x. raise_round author (br_author x, br_round x)) xs rounds = Some rounds' \<and> matrix n rounds' \<and>
     (\<forall>i < n. \<forall>j < n. rounds' ! i ! j = (if i = author
        then Max (insert (rounds ! i ! j) (br_round ` {x \<in> set xs. br_author x = j})) else rounds ! i ! j))"
  using assms
proof (induction xs arbitrary: rounds)
  case (Cons x xs)
  obtain r1 where 1: "raise_round author (br_author x, br_round x) rounds = Some r1" "matrix n r1"
      "\<forall>i < n. \<forall>j < n. r1 ! i ! j = (if i = author \<and> j = br_author x then max (rounds ! i ! j) (br_round x) else rounds ! i ! j)"
    using raise_round_ok[OF Cons.prems(1,2), of "br_author x" "br_round x"] Cons.prems(3) by auto
  obtain r2 where 2: "try_fold (\<lambda>x. raise_round author (br_author x, br_round x)) xs r1 = Some r2" "matrix n r2"
      "\<forall>i < n. \<forall>j < n. r2 ! i ! j = (if i = author
         then Max (insert (r1 ! i ! j) (br_round ` {x \<in> set xs. br_author x = j})) else r1 ! i ! j)"
    using Cons.IH[OF 1(2) Cons.prems(2)] Cons.prems(3) by auto
  have "Max (insert (r1 ! author ! j) (br_round ` {y \<in> set xs. br_author y = j})) =
      Max (insert (rounds ! author ! j) (br_round ` {y \<in> set (x # xs). br_author y = j}))" if "j < n" for j
  proof (cases "br_author x = j")
    case True
    let ?S = "br_round ` {y \<in> set xs. br_author y = j}"
    have r: "r1 ! author ! j = max (rounds ! author ! j) (br_round x)" using 1(3) True that Cons.prems(2) by simp
    have "br_round ` {y \<in> set (x # xs). br_author y = j} = insert (br_round x) ?S" using True by auto
    moreover have "finite ?S" by simp
    ultimately show ?thesis unfolding r by (simp only: Max_insert_max)
  next
    case False
    then have "{y \<in> set (x # xs). br_author y = j} = {y \<in> set xs. br_author y = j}" by auto
    then show ?thesis using 1(3) False that Cons.prems(2) by simp
  qed
  then show ?case using 1(1,3) 2 Cons.prems(2) by auto
qed simp

definition tracker_ok :: "peer_round_tracker \<Rightarrow> bool" where
  "tracker_ok tr \<longleftrightarrow> (let c = ctx_committee (rt_context tr); n = committee_size c in
     committee_wf c \<and> ctx_own_index (rt_context tr) < n \<and> matrix n (rt_block_accepted_rounds tr) \<and>
     matrix n (rt_probed_accepted_rounds tr) \<and> matrix n (rt_probed_received_rounds tr))"

lemma tracker_ok_new:
  "committee_wf (ctx_committee ctx) \<Longrightarrow> ctx_own_index ctx < committee_size (ctx_committee ctx) \<Longrightarrow>
   tracker_ok (round_tracker_new ctx)"
  by (simp add: tracker_ok_def round_tracker_new_def matrix_zeros Let_def)

lemma update_from_verified_block_ok:
  assumes ok: "tracker_ok tr" and n: "n = committee_size (ctx_committee (rt_context tr))"
    and b: "vb_author (eb_block eb) < n" "\<forall>x \<in> set (vb_ancestors (eb_block eb) @ eb_excluded_ancestors eb). br_author x < n"
  shows "\<exists>tr'. update_from_verified_block eb tr = Some tr' \<and> tracker_ok tr' \<and> rt_context tr' = rt_context tr \<and>
     (\<forall>i < n. \<forall>j < n. rt_block_accepted_rounds tr' ! i ! j = (if i = vb_author (eb_block eb)
        then Max (insert (rt_block_accepted_rounds tr ! i ! j) (br_round ` {x \<in> set (reference (eb_block eb) #
           vb_ancestors (eb_block eb) @ eb_excluded_ancestors eb). br_author x = j}))
        else rt_block_accepted_rounds tr ! i ! j))"
proof -
  let ?xs = "reference (eb_block eb) # vb_ancestors (eb_block eb) @ eb_excluded_ancestors eb"
  let ?author = "vb_author (eb_block eb)"
  have m: "matrix n (rt_block_accepted_rounds tr)" using ok n by (simp add: tracker_ok_def Let_def)
  obtain rounds where r: "try_fold (\<lambda>x. raise_round ?author (br_author x, br_round x)) ?xs (rt_block_accepted_rounds tr) = Some rounds"
      "matrix n rounds" "\<forall>i < n. \<forall>j < n. rounds ! i ! j = (if i = ?author
        then Max (insert (rt_block_accepted_rounds tr ! i ! j) (br_round ` {x \<in> set ?xs. br_author x = j}))
        else rt_block_accepted_rounds tr ! i ! j)"
    using raise_rounds_ok[OF m b(1), of ?xs] b by auto
  have "update_from_verified_block eb tr = Some (tr\<lparr>rt_block_accepted_rounds := rounds\<rparr>)"
    using r(1) by (auto simp: update_from_verified_block_def Let_def bind_eq_Some_conv)
  moreover have "tracker_ok (tr\<lparr>rt_block_accepted_rounds := rounds\<rparr>)" using ok r(2) n by (simp add: tracker_ok_def Let_def)
  ultimately show ?thesis using r(3) by auto
qed

lemma update_from_probe_ok:
  assumes "tracker_ok tr" "matrix (committee_size (ctx_committee (rt_context tr))) accepted"
    and "matrix (committee_size (ctx_committee (rt_context tr))) received"
  shows "tracker_ok (update_from_probe accepted received tr)"
  using assms by (simp add: tracker_ok_def update_from_probe_def Let_def)

section \<open>Quorum rounds\<close>

lemma compute_quorum_round_ok:
  assumes wf: "committee_wf c" and m: "matrix (committee_size c) rounds" and t: "t < committee_size c"
  shows "\<exists>low high. compute_quorum_round c t rounds = Some (low, high) \<and>
     quorum_low c (map (\<lambda>row. row ! t) rounds) low \<and> quorum_high c (map (\<lambda>row. row ! t) rounds) high"
proof -
  let ?vs = "map (\<lambda>row. row ! t) rounds"
  have len: "length ?vs = committee_size c" using m by (simp add: matrix_def)
  have "try_map (\<lambda>(rounds, a). do { r \<leftarrow> vec_get rounds t; Some (r, a_stake a) }) (zip rounds (c_authorities c)) =
      Some (map (\<lambda>(row, a). (row ! t, a_stake a)) (zip rounds (c_authorities c)))"
    using m t by (intro try_map_total) (auto simp: matrix_def dest!: set_zip_leftD)
  also have "map (\<lambda>(row, a). (row ! t, a_stake a)) (zip rounds (c_authorities c)) = stake_pairs c ?vs"
    unfolding stake_pairs_def zip_map_map by (simp add: split_def)
  finally have pairs: "try_map (\<lambda>(rounds, a). do { r \<leftarrow> vec_get rounds t; Some (r, a_stake a) })
      (zip rounds (c_authorities c)) = Some (stake_pairs c ?vs)" .
  obtain low where "first_quorum (c_quorum_threshold c) 0 (rev (sort (stake_pairs c ?vs))) = Some low" "quorum_low c ?vs low"
    using walk_down[OF wf len] by blast
  moreover obtain high where "first_quorum (c_quorum_threshold c) 0 (sort (stake_pairs c ?vs)) = Some high" "quorum_high c ?vs high"
    using walk_up[OF wf len] by blast
  ultimately show ?thesis using pairs by (simp add: compute_quorum_round_def Let_def)
qed

lemma quorum_rounds_ok:
  assumes wf: "committee_wf c" and m: "matrix (committee_size c) rounds"
  shows "\<exists>qs. quorum_rounds c rounds = Some qs \<and> length qs = committee_size c \<and>
     (\<forall>t < committee_size c. quorum_low c (map (\<lambda>row. row ! t) rounds) (fst (qs ! t)) \<and>
        quorum_high c (map (\<lambda>row. row ! t) rounds) (snd (qs ! t)))"
proof -
  define f where "f t = the (compute_quorum_round c t rounds)" for t
  have f: "compute_quorum_round c t rounds = Some (f t) \<and> quorum_low c (map (\<lambda>row. row ! t) rounds) (fst (f t)) \<and>
      quorum_high c (map (\<lambda>row. row ! t) rounds) (snd (f t))" if "t < committee_size c" for t
    using compute_quorum_round_ok[OF wf m that] by (auto simp: f_def)
  have "quorum_rounds c rounds = Some (map (\<lambda>(t, _). f t) (committee_authorities c))"
    unfolding quorum_rounds_def using f
    by (intro try_map_total) (auto simp: committee_authorities_def committee_size_def in_set_enumerate_eq)
  moreover have "map (\<lambda>(t, _). f t) (committee_authorities c) = map f [0..<committee_size c]"
    by (rule nth_equalityI) (auto simp: committee_authorities_def committee_size_def nth_enumerate_eq)
  ultimately show ?thesis using f by simp
qed

lemma matrix_highest:
  assumes "matrix n (rt_probed_accepted_rounds tr)" "matrix n (rt_block_accepted_rounds tr)"
  shows "matrix n (highest_accepted_rounds tr)"
    and "t < n \<Longrightarrow> map (\<lambda>row. row ! t) (highest_accepted_rounds tr) =
      map (\<lambda>i. max (rt_probed_accepted_rounds tr ! i ! t) (rt_block_accepted_rounds tr ! i ! t)) [0..<n]"
proof -
  note d = matrixD[OF assms(1)] matrixD[OF assms(2)]
  show "matrix n (highest_accepted_rounds tr)"
    using assms set_zip_leftD set_zip_rightD by (fastforce simp: matrix_def highest_accepted_rounds_def)
  assume "t < n"
  then show "map (\<lambda>row. row ! t) (highest_accepted_rounds tr) =
      map (\<lambda>i. max (rt_probed_accepted_rounds tr ! i ! t) (rt_block_accepted_rounds tr ! i ! t)) [0..<n]"
    using d by (intro nth_equalityI) (auto simp: highest_accepted_rounds_def)
qed

text \<open>A block of authority 1 reported to a new tracker.\<close>

definition tracker4_ctx :: node_context where
  "tracker4_ctx = \<lparr>ctx_epoch_start_timestamp_ms = 0, ctx_own_index = 0, ctx_committee = committee4,
     ctx_parameters = parameters_default,
     ctx_protocol_config = \<lparr>pc_consensus_gc_depth = Some 3, pc_consensus_bad_nodes_stake_threshold = Some 20,
       pc_consensus_max_transactions_in_block_bytes = None, pc_consensus_max_num_transactions_in_block = None,
       pc_consensus_max_transaction_size_bytes = None, pc_mysticeti_num_leaders_per_round = Some 1,
       pc_mysticeti_fastpath = False\<rparr>\<rparr>"

lemma tracker4_ctx_simps [simp]: "ctx_committee tracker4_ctx = committee4" "ctx_own_index tracker4_ctx = 0"
  "committee_size committee4 = 4"
  by (simp_all add: tracker4_ctx_def committee4_def committee_size_def)

definition tracker4_block :: extended_block where
  "tracker4_block = \<lparr>eb_block = mk_block 3 1 9 5 [BlockRef 2 1 7, BlockRef 2 0 6, BlockRef 2 2 8],
     eb_excluded_ancestors = [BlockRef 1 3 4]\<rparr>"

lemma tracker4_ok: "\<exists>tr. update_from_verified_block tracker4_block (round_tracker_new tracker4_ctx) = Some tr \<and>
   tracker_ok tr \<and> rt_context tr = tracker4_ctx"
proof -
  have "tracker_ok (round_tracker_new tracker4_ctx)" by (rule tracker_ok_new) (simp_all add: committee4_wf)
  from update_from_verified_block_ok[OF this refl, of tracker4_block] show ?thesis
    by (auto simp: tracker4_block_def round_tracker_new_def Let_def)
qed

text \<open>
  A correct quorum round of an authority: the bounds are the quorum values of the rounds that the
  authorities report of it, in order, and honest authorities report rounds on both sides.
\<close>

definition quorum_range :: "committee \<Rightarrow> authority_index set \<Rightarrow> round list \<Rightarrow> quorum_round \<Rightarrow> bool" where
  "quorum_range c F reported = (\<lambda>(low, high).
     quorum_low c reported low \<and> quorum_high c reported high \<and> low \<le> high \<and>
     (\<exists>i \<in> members c - F. reported ! i \<le> low) \<and> (\<exists>i \<in> members c - F. high \<le> reported ! i))"

lemma quorum_rounds_range:
  assumes wf: "committee_wf c" and F: "F \<subseteq> members c" "stake_of c F < validity c" and m: "matrix (committee_size c) rounds"
  shows "\<exists>qs. quorum_rounds c rounds = Some qs \<and> length qs = committee_size c \<and>
     (\<forall>t < committee_size c. quorum_range c F (map (\<lambda>row. row ! t) rounds) (qs ! t))"
  using quorum_rounds_ok[OF wf m] quorum_values_honest[OF wf F] unfolding quorum_range_def split_def by blast

lemma matrix_column: "matrix n rounds \<Longrightarrow> map (\<lambda>row. row ! t) rounds = map (\<lambda>i. rounds ! i ! t) [0..<n]"
  by (rule nth_equalityI) (auto dest: matrixD)

section \<open>Property\<close>

text \<open>
  C38. Quorum rounds are Byzantine fault tolerant. In every well-formed tracker the received and the
  accepted quorum rounds of all authorities are computed without panic, the received ones from the
  probed rounds, the accepted ones from the higher of the probed round and the round seen in blocks.
  For each authority the low bound is the highest round that a quorum of stake has reached with it
  and the high bound the lowest round that a quorum has not passed; they are in this order, and with
  faulty stake below the validity threshold the range lies between the rounds reported by two honest
  authorities. The propagation delay is computed without panic: it is the distance from the last
  proposed round to the higher of the two low bounds of the own authority, zero when that is ahead.
\<close>

theorem quorum_rounds_bft:
  assumes "tracker_ok tr" "c = ctx_committee (rt_context tr)" "own = ctx_own_index (rt_context tr)"
    and "F \<subseteq> members c" "stake_of c F < validity c"
  shows "\<exists>rs qs. compute_received_quorum_rounds tr = Some rs \<and> length rs = committee_size c \<and>
     compute_accepted_quorum_rounds tr = Some qs \<and> length qs = committee_size c \<and>
     (\<forall>t < committee_size c.
        quorum_range c F (map (\<lambda>i. rt_probed_received_rounds tr ! i ! t) [0..<committee_size c]) (rs ! t) \<and>
        quorum_range c F (map (\<lambda>i. max (rt_probed_accepted_rounds tr ! i ! t) (rt_block_accepted_rounds tr ! i ! t))
          [0..<committee_size c]) (qs ! t)) \<and>
     calculate_propagation_delay last_proposed tr = Some (last_proposed - max (fst (rs ! own)) (fst (qs ! own)))"
proof -
  have wf: "committee_wf c" "own < committee_size c" "matrix (committee_size c) (rt_block_accepted_rounds tr)"
      "matrix (committee_size c) (rt_probed_accepted_rounds tr)" "matrix (committee_size c) (rt_probed_received_rounds tr)"
    using assms(1,2,3) by (auto simp: tracker_ok_def Let_def)
  note range = quorum_rounds_range[OF wf(1) assms(4,5)]
  obtain qs where qs: "compute_accepted_quorum_rounds tr = Some qs" "length qs = committee_size c"
      "\<forall>t < committee_size c. quorum_range c F (map (\<lambda>row. row ! t) (highest_accepted_rounds tr)) (qs ! t)"
    using range[OF matrix_highest(1)[OF wf(4,3)]] assms(2) by (auto simp: compute_accepted_quorum_rounds_def)
  obtain rs where rs: "compute_received_quorum_rounds tr = Some rs" "length rs = committee_size c"
      "\<forall>t < committee_size c. quorum_range c F (map (\<lambda>row. row ! t) (rt_probed_received_rounds tr)) (rs ! t)"
    using range[OF wf(5)] assms(2) by (auto simp: compute_received_quorum_rounds_def)
  have "list_all (\<lambda>(low, high). low \<le> high) qs" "list_all (\<lambda>(low, high). low \<le> high) rs"
    using qs(2,3) rs(2,3) by (auto simp: list_all_length quorum_range_def split_def)
  then have "calculate_propagation_delay last_proposed tr =
      Some (min (last_proposed - fst (rs ! own)) (last_proposed - fst (qs ! own)))"
    using qs(1,2) rs(1,2) wf(2) assms(3) by (simp add: calculate_propagation_delay_def bind_rust_assert Let_def split_def min.commute)
  moreover have "min (last_proposed - fst (rs ! own)) (last_proposed - fst (qs ! own)) =
      last_proposed - max (fst (rs ! own)) (fst (qs ! own))" by simp
  ultimately show ?thesis using qs rs matrix_highest(2)[OF wf(4,3)] matrix_column[OF wf(5)] by simp
qed

theorem quorum_rounds_bft_witness:
  "\<exists>tr rs qs. update_from_verified_block tracker4_block (round_tracker_new tracker4_ctx) = Some tr \<and>
     compute_received_quorum_rounds tr = Some rs \<and> compute_accepted_quorum_rounds tr = Some qs \<and> length rs = 4 \<and> length qs = 4 \<and>
     calculate_propagation_delay 2 tr = Some (2 - max (fst (rs ! 0)) (fst (qs ! 0)))"
proof -
  obtain tr where tr: "update_from_verified_block tracker4_block (round_tracker_new tracker4_ctx) = Some tr"
      "tracker_ok tr" "rt_context tr = tracker4_ctx" using tracker4_ok by blast
  have "stake_of committee4 {1} < validity committee4" "{1} \<subseteq> members committee4"
    by (simp_all add: stake_of_def committee4_weight committee4_members validity_def) (simp add: committee4_def)
  with quorum_rounds_bft[OF tr(2), of committee4 0 "{1}" 2] tr show ?thesis by auto
qed

end
