(* ===== verification/CommitVoteMonitor.thy ===== *)
theory CommitVoteMonitor
  imports RoundTracker
begin

text \<open>
  The commit vote monitor (\<open>core/src/commit_vote_monitor.rs\<close>): the highest commit each authority
  voted for, and the highest commit that a quorum voted for.
\<close>

record commit_vote_monitor =
  cvm_context :: node_context
  cvm_highest_voted_commits :: "commit_index list"

definition commit_vote_monitor_new :: "node_context \<Rightarrow> commit_vote_monitor" where
  "commit_vote_monitor_new ctx =
     \<lparr>cvm_context = ctx, cvm_highest_voted_commits = replicate (committee_size (ctx_committee ctx)) 0\<rparr>"

definition observe_vote :: "authority_index \<Rightarrow> commit_vote \<Rightarrow> commit_index list \<Rightarrow> commit_index list option" where
  "observe_vote author vote commits = do {
     highest \<leftarrow> vec_get commits author;
     if cr_index vote > highest then vec_set commits author (cr_index vote) else Some commits
   }"

definition observe_block :: "verified_block \<Rightarrow> commit_vote_monitor \<Rightarrow> commit_vote_monitor option" where
  "observe_block b m = do {
     commits \<leftarrow> try_fold (observe_vote (vb_author b)) (block_commit_votes (inner b)) (cvm_highest_voted_commits m);
     Some (m\<lparr>cvm_highest_voted_commits := commits\<rparr>)
   }"

definition quorum_commit_index :: "commit_vote_monitor \<Rightarrow> commit_index" where
  "quorum_commit_index m = (let c = ctx_committee (cvm_context m) in
     case first_quorum (c_quorum_threshold c) 0 (rev (sort (stake_pairs c (cvm_highest_voted_commits m)))) of
       Some i \<Rightarrow> i | None \<Rightarrow> GENESIS_COMMIT_INDEX)"

section \<open>What is tracked\<close>

text \<open>The highest commit index voted for in the blocks of an authority.\<close>

definition highest_vote :: "verified_block list \<Rightarrow> authority_index \<Rightarrow> commit_index" where
  "highest_vote bs a = Max (insert 0 {cr_index v | v b. b \<in> set bs \<and> vb_author b = a \<and> v \<in> set (block_commit_votes (inner b))})"

lemma observe_votes_ok:
  "author < length commits \<Longrightarrow> try_fold (observe_vote author) vs commits =
     Some (commits[author := Max (insert (commits ! author) (cr_index ` set vs))])"
proof (induction vs arbitrary: commits)
  case (Cons v vs)
  have "observe_vote author v commits = Some (commits[author := max (commits ! author) (cr_index v)])"
    using Cons.prems by (auto simp: observe_vote_def max_def)
  moreover have "Max (insert (max (commits ! author) (cr_index v)) (cr_index ` set vs)) =
      Max (insert (commits ! author) (cr_index ` set (v # vs)))"
    using Max_insert_max[of "cr_index ` set vs" "commits ! author" "cr_index v"] by simp
  ultimately show ?case using Cons.IH[of "commits[author := max (commits ! author) (cr_index v)]"] Cons.prems by simp
qed simp

lemma finite_votes: "finite {cr_index v | v b. b \<in> set bs \<and> vb_author b = a \<and> v \<in> set (block_commit_votes (inner b))}"
proof -
  have "{cr_index v | v b. b \<in> set bs \<and> vb_author b = a \<and> v \<in> set (block_commit_votes (inner b))} \<subseteq>
      cr_index ` (\<Union>b \<in> set bs. set (block_commit_votes (inner b)))" by auto
  then show ?thesis by (rule finite_subset) simp
qed

definition monitored :: "node_context \<Rightarrow> verified_block list \<Rightarrow> commit_vote_monitor \<Rightarrow> bool" where
  "monitored ctx bs m \<longleftrightarrow> cvm_context m = ctx \<and>
     cvm_highest_voted_commits m = map (highest_vote bs) [0..<committee_size (ctx_committee ctx)]"

lemma monitored_new: "monitored ctx [] (commit_vote_monitor_new ctx)"
  by (auto simp: monitored_def commit_vote_monitor_new_def highest_vote_def intro!: nth_equalityI)

lemma highest_vote_snoc:
  "highest_vote (bs @ [b]) a = (if vb_author b = a
     then Max (insert (highest_vote bs a) (cr_index ` set (block_commit_votes (inner b)))) else highest_vote bs a)"
proof (cases "vb_author b = a")
  case True
  let ?S = "{cr_index v | v b. b \<in> set bs \<and> vb_author b = a \<and> v \<in> set (block_commit_votes (inner b))}"
  have eq: "{cr_index v | v b'. b' \<in> set (bs @ [b]) \<and> vb_author b' = a \<and> v \<in> set (block_commit_votes (inner b'))} =
      ?S \<union> cr_index ` set (block_commit_votes (inner b))" using True by auto
  have "Max (insert 0 (?S \<union> cr_index ` set (block_commit_votes (inner b)))) =
      Max (insert (Max (insert 0 ?S)) (cr_index ` set (block_commit_votes (inner b))))"
  proof (cases "cr_index ` set (block_commit_votes (inner b)) = {}")
    case False
    then have "Max (insert 0 ?S \<union> cr_index ` set (block_commit_votes (inner b))) =
        max (Max (insert 0 ?S)) (Max (cr_index ` set (block_commit_votes (inner b))))"
      using finite_votes by (intro Max_Un) auto
    then show ?thesis using False by simp
  qed simp
  then show ?thesis using True unfolding highest_vote_def eq by simp
next
  case False
  then have "{cr_index v | v b'. b' \<in> set (bs @ [b]) \<and> vb_author b' = a \<and> v \<in> set (block_commit_votes (inner b'))} =
      {cr_index v | v b. b \<in> set bs \<and> vb_author b = a \<and> v \<in> set (block_commit_votes (inner b))}" by auto
  then show ?thesis using False by (simp add: highest_vote_def)
qed

lemma observe_block_ok:
  assumes m: "monitored ctx bs m" and b: "vb_author b < committee_size (ctx_committee ctx)"
  shows "\<exists>m'. observe_block b m = Some m' \<and> monitored ctx (bs @ [b]) m'"
proof -
  let ?cs = "cvm_highest_voted_commits m"
  have cs: "?cs = map (highest_vote bs) [0..<committee_size (ctx_committee ctx)]" using m by (simp add: monitored_def)
  then have "try_fold (observe_vote (vb_author b)) (block_commit_votes (inner b)) ?cs =
      Some (?cs[vb_author b := Max (insert (?cs ! vb_author b) (cr_index ` set (block_commit_votes (inner b))))])"
    using b by (intro observe_votes_ok) simp
  moreover have "?cs[vb_author b := Max (insert (?cs ! vb_author b) (cr_index ` set (block_commit_votes (inner b))))] =
      map (highest_vote (bs @ [b])) [0..<committee_size (ctx_committee ctx)]"
    unfolding cs using b by (intro nth_equalityI) (auto simp: nth_list_update highest_vote_snoc)
  ultimately show ?thesis using m by (auto simp: observe_block_def monitored_def)
qed

lemma observe_blocks_ok:
  "monitored ctx bs m \<Longrightarrow> \<forall>b \<in> set bs'. vb_author b < committee_size (ctx_committee ctx) \<Longrightarrow>
   \<exists>m'. try_fold observe_block bs' m = Some m' \<and> monitored ctx (bs @ bs') m'"
proof (induction bs' arbitrary: bs m)
  case (Cons b bs')
  obtain m1 where "observe_block b m = Some m1" "monitored ctx (bs @ [b]) m1"
    using observe_block_ok[OF Cons.prems(1), of b] Cons.prems(2) by auto
  with Cons.IH[of "bs @ [b]" m1] Cons.prems(2) show ?case by simp
qed simp

section \<open>Property\<close>

text \<open>
  C40. The quorum commit index is the highest commit index that authorities with a quorum of stake
  have voted for, where a vote for an index counts for all lower ones: after observing any blocks
  of members, in any order and without panic, a quorum has voted for it or a higher index, no higher
  index has that, and with faulty stake below the validity threshold an honest authority voted for
  at least that index.
\<close>

theorem quorum_commit_exact:
  assumes "committee_wf (ctx_committee ctx)" "\<forall>b \<in> set bs. vb_author b < committee_size (ctx_committee ctx)"
    and "F \<subseteq> members (ctx_committee ctx)" "stake_of (ctx_committee ctx) F < validity (ctx_committee ctx)"
  shows "\<exists>m. try_fold observe_block bs (commit_vote_monitor_new ctx) = Some m \<and>
     quorum (ctx_committee ctx) \<le>
       stake_of (ctx_committee ctx) {i \<in> members (ctx_committee ctx). quorum_commit_index m \<le> highest_vote bs i} \<and>
     (\<forall>w > quorum_commit_index m.
       stake_of (ctx_committee ctx) {i \<in> members (ctx_committee ctx). w \<le> highest_vote bs i} < quorum (ctx_committee ctx)) \<and>
     (\<exists>i \<in> members (ctx_committee ctx) - F. quorum_commit_index m \<le> highest_vote bs i)"
proof -
  let ?c = "ctx_committee ctx"
  obtain m where m: "try_fold observe_block bs (commit_vote_monitor_new ctx) = Some m" "monitored ctx bs m"
    using observe_blocks_ok[OF monitored_new assms(2)] by auto
  let ?vs = "cvm_highest_voted_commits m"
  have vs: "length ?vs = committee_size ?c" "\<And>i. i \<in> members ?c \<Longrightarrow> ?vs ! i = highest_vote bs i"
    using m(2) by (auto simp: monitored_def members_def)
  have "\<exists>v. quorum_commit_index m = v \<and> quorum_low ?c ?vs v"
    using walk_down[OF assms(1) vs(1)] m(2) by (auto simp: quorum_commit_index_def monitored_def)
  then have low: "quorum_low ?c ?vs (quorum_commit_index m)" by auto
  have sets: "{i \<in> members ?c. w \<le> ?vs ! i} = {i \<in> members ?c. w \<le> highest_vote bs i}" for w using vs(2) by auto
  have Q: "quorum ?c \<le> sum (weight ?c) {i \<in> members ?c. quorum_commit_index m \<le> highest_vote bs i}"
    using low unfolding quorum_low_def sets stake_of_def by blast
  have F: "sum (weight ?c) F < validity ?c" using assms(4) by (simp add: stake_of_def)
  have "\<exists>i. i \<in> {i \<in> members ?c. quorum_commit_index m \<le> highest_vote bs i} \<and> i \<notin> F"
    using cq.intersection_honest[OF assms(1) _ _ Q Q assms(3) F] by auto
  then show ?thesis using m(1) low unfolding quorum_low_def sets by auto
qed

definition voting_block :: "authority_index \<Rightarrow> commit_index \<Rightarrow> verified_block" where
  "voting_block a i = \<lparr>vb_block = \<lparr>sb_inner = V1 (block_v1_new 0 1 a 5 [] [] [CommitRef i 0] []), sb_signature = []\<rparr>,
     vb_digest = 0, vb_serialized = []\<rparr>"

theorem quorum_commit_exact_witness:
  "\<exists>m. try_fold observe_block [voting_block 0 3, voting_block 1 5, voting_block 2 2] (commit_vote_monitor_new tracker4_ctx) = Some m \<and>
     (\<forall>w > quorum_commit_index m. stake_of committee4 {i \<in> members committee4.
        w \<le> highest_vote [voting_block 0 3, voting_block 1 5, voting_block 2 2] i} < quorum committee4)"
proof -
  have F: "{} \<subseteq> members (ctx_committee tracker4_ctx)"
      "stake_of (ctx_committee tracker4_ctx) {} < validity (ctx_committee tracker4_ctx)"
    by (simp_all add: stake_of_def validity_def committee4_def)
  have wf: "committee_wf (ctx_committee tracker4_ctx)" by (simp add: committee4_wf)
  have "\<forall>b \<in> set [voting_block 0 3, voting_block 1 5, voting_block 2 2]. vb_author b < committee_size (ctx_committee tracker4_ctx)"
    by (simp add: voting_block_def vb_author_def inner_def block_v1_new_def)
  from quorum_commit_exact[OF wf this F] show ?thesis by auto
qed

end
