(* ===== verification/TransactionCertifier.thy ===== *)
theory TransactionCertifier
  imports DagTraversal ConsensusError
begin

text \<open>
  The transaction certifier (\<open>core/src/transaction_certifier.rs\<close>): for every block above its garbage
  collection round it counts the blocks that implicitly accept it and the explicit reject votes on
  its transactions, and outputs a block once every transaction of it is certified or rejected.

  The lock around the certifier state is explicit state passing, the output channel is the list of
  blocks an operation returns. The block verifier, which votes on recovered blocks, is an argument.
\<close>

record certified_block =
  cb_block :: verified_block
  cb_rejected :: "transaction_index list"

record vote_info =
  vi_block :: "verified_block option"
  vi_own_reject_txn_votes :: "transaction_index list"
  vi_accept_block_votes :: stake_aggregator
  vi_reject_txn_votes :: "(transaction_index, stake_aggregator) fmap"
  vi_is_certified :: bool

definition vote_info_default :: vote_info where
  "vote_info_default = \<lparr>vi_block = None, vi_own_reject_txn_votes = [], vi_accept_block_votes = aggregator_new,
     vi_reject_txn_votes = fmempty, vi_is_certified = False\<rparr>"

record certifier_state =
  cs_context :: node_context
  cs_votes :: "(block_ref, vote_info) fmap"
  cs_gc_round :: round

abbreviation cs_committee :: "certifier_state \<Rightarrow> committee" where
  "cs_committee cs \<equiv> ctx_committee (cs_context cs)"

definition certifier_state_new :: "node_context \<Rightarrow> certifier_state" where
  "certifier_state_new ctx = \<lparr>cs_context = ctx, cs_votes = fmempty, cs_gc_round = GENESIS_ROUND\<rparr>"

section \<open>Certifying a block\<close>

definition stake_saturating_sub :: "stake \<Rightarrow> stake \<Rightarrow> stake" where
  "stake_saturating_sub a b = (if b \<le> a then a - b else 0)"

text \<open>\<open>None\<close> here is the early return of the source: some transaction is neither certified nor rejected.\<close>

fun collect_rejected :: "committee \<Rightarrow> stake \<Rightarrow> (transaction_index \<times> stake_aggregator) list
    \<Rightarrow> transaction_index list option" where
  "collect_rejected c accept [] = Some []"
| "collect_rejected c accept ((idx, votes) # rest) =
     (if aggregator_reached_threshold QuorumThreshold votes c
      then map_option (Cons idx) (collect_rejected c accept rest)
      else if stake_saturating_sub accept (sa_stake votes) < c_quorum_threshold c then None
      else collect_rejected c accept rest)"

definition take_certified_output :: "committee \<Rightarrow> vote_info \<Rightarrow> (vote_info \<times> certified_block option) option" where
  "take_certified_output c vi =
     (if vi_is_certified vi then Some (vi, None)
      else case vi_block vi of
        None \<Rightarrow> Some (vi, None)
      | Some b \<Rightarrow> do {
          _ \<leftarrow> committee_authority c (vb_author b);
          if \<not> aggregator_reached_threshold QuorumThreshold (vi_accept_block_votes vi) c then Some (vi, None)
          else (case collect_rejected c (sa_stake (vi_accept_block_votes vi))
                       (fm_range (\<lambda>_. True) (vi_reject_txn_votes vi)) of
                  None \<Rightarrow> Some (vi, None)
                | Some rejected \<Rightarrow> Some (vi\<lparr>vi_is_certified := True\<rparr>,
                    Some \<lparr>cb_block = b, cb_rejected = rejected\<rparr>))
        })"

text \<open>Both callers write the vote information back and push the output.\<close>

definition output_certified :: "block_ref \<Rightarrow> vote_info \<Rightarrow> certifier_state \<times> certified_block list
    \<Rightarrow> (certifier_state \<times> certified_block list) option" where
  "output_certified r vi = (\<lambda>(cs, out). do {
     (vi', res) \<leftarrow> take_certified_output (cs_committee cs) vi;
     let cs' = cs\<lparr>cs_votes := fmupd r vi' (cs_votes cs)\<rparr>;
     (case res of
        None \<Rightarrow> Some (cs', out)
      | Some cb \<Rightarrow> do {
          _ \<leftarrow> committee_authority (cs_committee cs) (vb_author (cb_block cb));
          Some (cs', out @ [cb])
        })
   })"

section \<open>Received blocks\<close>

definition add_reject :: "committee \<Rightarrow> authority_index \<Rightarrow> transaction_index \<Rightarrow> vote_info \<Rightarrow> vote_info option" where
  "add_reject c author idx vi = do {
     let votes = (case fmlookup (vi_reject_txn_votes vi) idx of Some a \<Rightarrow> a | None \<Rightarrow> aggregator_new);
     (votes', _) \<leftarrow> aggregator_add_unique votes author c;
     Some (vi\<lparr>vi_reject_txn_votes := fmupd idx votes' (vi_reject_txn_votes vi)\<rparr>)
   }"

definition vote_entry :: "certifier_state \<Rightarrow> block_ref \<Rightarrow> vote_info" where
  "vote_entry cs r = (case fmlookup (cs_votes cs) r of Some vi \<Rightarrow> vi | None \<Rightarrow> vote_info_default)"

definition add_block_votes :: "authority_index \<Rightarrow> block_transaction_votes \<Rightarrow> certifier_state \<times> certified_block list
    \<Rightarrow> (certifier_state \<times> certified_block list) option" where
  "add_block_votes author bv = (\<lambda>(cs, out).
     if br_round (btv_block_ref bv) \<le> cs_gc_round cs then Some (cs, out)
     else do {
       vi \<leftarrow> try_fold (add_reject (cs_committee cs) author) (btv_rejects bv) (vote_entry cs (btv_block_ref bv));
       output_certified (btv_block_ref bv) vi (cs, out)
     })"

definition add_voted_block :: "verified_block \<Rightarrow> transaction_index list \<Rightarrow> certifier_state
    \<Rightarrow> (certifier_state \<times> certified_block list) option" where
  "add_voted_block b reject_txn_votes cs =
     (if vb_round b \<le> cs_gc_round cs then Some (cs, [])
      else do {
        _ \<leftarrow> committee_authority (cs_committee cs) (vb_author b);
        let vi = vote_entry cs (reference b);
        if vi_block vi \<noteq> None then Some (cs\<lparr>cs_votes := fmupd (reference b) vi (cs_votes cs)\<rparr>, [])
        else try_fold (add_block_votes (vb_author b)) (block_transaction_votes_of (inner b))
          (cs\<lparr>cs_votes := fmupd (reference b)
             (vi\<lparr>vi_block := Some b, vi_own_reject_txn_votes := reject_txn_votes\<rparr>) (cs_votes cs)\<rparr>, [])
      })"

definition add_voted_blocks :: "(verified_block \<times> transaction_index list) list \<Rightarrow> certifier_state
    \<Rightarrow> (certifier_state \<times> certified_block list) option" where
  "add_voted_blocks voted_blocks cs = try_fold (\<lambda>(b, rejects) (cs, out). do {
     (cs', blocks) \<leftarrow> add_voted_block b rejects cs;
     Some (cs', out @ blocks)
   }) voted_blocks (cs, [])"

section \<open>Own proposed blocks\<close>

definition add_accept_vote :: "verified_block \<Rightarrow> block_ref \<Rightarrow> certifier_state \<times> certified_block list
    \<Rightarrow> (certifier_state \<times> certified_block list) option" where
  "add_accept_vote voting_block target = (\<lambda>(cs, out).
     if br_round target + 1 \<noteq> vb_round voting_block then Some (cs, out)
     else case fmlookup (cs_votes cs) target of
       None \<Rightarrow> Some (cs, out)
     | Some vi \<Rightarrow> do {
         (votes, _) \<leftarrow> aggregator_add_unique (vi_accept_block_votes vi) (vb_author voting_block) (cs_committee cs);
         output_certified target (vi\<lparr>vi_accept_block_votes := votes\<rparr>) (cs, out)
       })"

definition add_voting_ancestor :: "round \<Rightarrow> block_ref \<Rightarrow> certifier_state \<times> certified_block list
    \<Rightarrow> (certifier_state \<times> certified_block list) option" where
  "add_voting_ancestor proposed_round voting_ancestor = (\<lambda>(cs, out).
     if br_round voting_ancestor + 1 \<noteq> proposed_round then Some (cs, out)
     else case fmlookup (cs_votes cs) voting_ancestor of
       None \<Rightarrow> Some (cs, out)
     | Some info \<Rightarrow> (case vi_block info of
         None \<Rightarrow> Some (cs, out)
       | Some voting_block \<Rightarrow> try_fold (add_accept_vote voting_block) (vb_ancestors voting_block) (cs, out)))"

definition add_proposed_block :: "verified_block \<Rightarrow> certifier_state
    \<Rightarrow> (certifier_state \<times> certified_block list) option" where
  "add_proposed_block b cs =
     (if vb_round b \<le> cs_gc_round cs + 2 then Some (cs, [])
      else if reference b |\<notin>| fmdom (cs_votes cs) then Some (cs, [])
      else try_fold (add_voting_ancestor (vb_round b)) (vb_ancestors b) (cs, []))"

section \<open>Garbage collection\<close>

function gc_votes :: "round \<Rightarrow> (block_ref, vote_info) fmap \<Rightarrow> (block_ref, vote_info) fmap" where
  "gc_votes gc votes = (case fs_first (fmdom votes) of
     None \<Rightarrow> votes
   | Some r \<Rightarrow> if br_round r \<le> gc then gc_votes gc (fmdrop r votes) else votes)"
  by pat_completeness auto
termination
proof (relation "measure (\<lambda>(_, votes). fcard (fmdom votes))")
  fix gc votes r assume "fs_first (fmdom votes) = Some r"
  then have "r |\<in>| fmdom votes" by (auto dest: fs_first_SomeD)
  then show "((gc, fmdrop r votes), gc, votes) \<in> measure (\<lambda>(_, votes). fcard (fmdom votes))"
    using pfsubset_fcard_mono[of "fmdom (fmdrop r votes)" "fmdom votes"] by auto
qed simp

declare gc_votes.simps [simp del]

definition update_gc_round :: "round \<Rightarrow> certifier_state \<Rightarrow> certifier_state" where
  "update_gc_round gc cs = cs\<lparr>cs_gc_round := gc, cs_votes := gc_votes gc (cs_votes cs)\<rparr>"

definition run_gc :: "dag_state \<Rightarrow> round \<Rightarrow> certifier_state \<Rightarrow> certifier_state option" where
  "run_gc ds gc cs = do {
     rust_assert (gc \<le> gc_round ds);
     Some (update_gc_round gc cs)
   }"

section \<open>Votes for other components\<close>

definition own_votes_on :: "certifier_state \<Rightarrow> block_ref \<Rightarrow> block_transaction_votes list
    \<Rightarrow> block_transaction_votes list option" where
  "own_votes_on cs r votes =
     (if br_round r \<le> cs_gc_round cs then Some votes
      else do {
        vi \<leftarrow> fmlookup (cs_votes cs) r;
        Some (if vi_own_reject_txn_votes vi \<noteq> []
          then votes @ [\<lparr>btv_block_ref = r, btv_rejects = vi_own_reject_txn_votes vi\<rparr>] else votes)
      })"

definition get_own_votes :: "certifier_state \<Rightarrow> block_ref list \<Rightarrow> block_transaction_votes list option" where
  "get_own_votes cs refs = try_fold (own_votes_on cs) refs []"

definition get_reject_votes :: "certifier_state \<Rightarrow> block_ref \<Rightarrow> (transaction_index \<times> stake) list option" where
  "get_reject_votes cs r = map_option (\<lambda>vi. map (\<lambda>(idx, a). (idx, sa_stake a))
     (fm_range (\<lambda>_. True) (vi_reject_txn_votes vi))) (fmlookup (cs_votes cs) r)"

section \<open>Recovery\<close>

text \<open>The argument \<open>vote\<close> is the method of the block verifier; its error panics during recovery.\<close>

definition recovered_vote :: "(verified_block \<Rightarrow> transaction_index list fallible) \<Rightarrow> dag_state \<Rightarrow> verified_block
    \<Rightarrow> (verified_block \<times> transaction_index list) option" where
  "recovered_vote vote ds b = do {
     should_vote \<leftarrow> (if vb_round b > gc_round ds then map_option Not (has_been_included ds (reference b)) else Some False);
     if \<not> should_vote then Some (b, [])
     else (case vote b of Some (Inr rejects) \<Rightarrow> Some (b, rejects) | _ \<Rightarrow> None)
   }"

definition recover_and_vote_on_blocks :: "(verified_block \<Rightarrow> transaction_index list fallible) \<Rightarrow> dag_state
    \<Rightarrow> verified_block list \<Rightarrow> certifier_state \<Rightarrow> certifier_state option" where
  "recover_and_vote_on_blocks vote ds blocks cs = do {
     voted_blocks \<leftarrow> try_map (recovered_vote vote ds) blocks;
     map_option fst (add_voted_blocks voted_blocks cs)
   }"

definition recover_blocks_after_round :: "(verified_block \<Rightarrow> transaction_index list fallible) \<Rightarrow> dag_state
    \<Rightarrow> round \<Rightarrow> certifier_state \<Rightarrow> certifier_state option" where
  "recover_blocks_after_round vote ds after_round cs =
     (if \<not> pc_mysticeti_fastpath (ctx_protocol_config (cs_context cs)) then Some cs
      else try_fold (\<lambda>a cs. do {
        blocks \<leftarrow> scan_blocks_by_author (ds_store ds) a (after_round + 1);
        _ \<leftarrow> committee_authority (cs_committee cs) a;
        recover_and_vote_on_blocks vote ds blocks cs
      }) (map fst (committee_authorities (cs_committee cs))) cs)"

end
