(* ===== verification/CertifierSafety.thy ===== *)
theory CertifierSafety
  imports TransactionCertifier
begin

text \<open>
  What the transaction certifier knows: every counted vote comes from a block, every block it has
  processed has its reject votes counted, and no block is output twice. From this, an output of the
  certifier is justified by the blocks alone (\<open>certified\<close>), whichever node computed it.
\<close>

section \<open>Votes in blocks\<close>

definition rejects_in :: "verified_block \<Rightarrow> block_ref \<Rightarrow> transaction_index \<Rightarrow> bool" where
  "rejects_in b r i \<longleftrightarrow> (\<exists>v \<in> set (block_transaction_votes_of (inner b)). btv_block_ref v = r \<and> i \<in> set (btv_rejects v))"

definition block_world :: "committee \<Rightarrow> (block_ref \<rightharpoonup> verified_block) \<Rightarrow> bool" where
  "block_world c G \<longleftrightarrow> committee_wf c \<and> (\<forall>r b. G r = Some b \<longrightarrow> reference b = r \<and> br_author r \<in> members c)"

lemma block_worldD:
  assumes "block_world c G"
  shows "committee_wf c" and "G r = Some b \<Longrightarrow> reference b = r" and "G r = Some b \<Longrightarrow> br_author r \<in> members c"
    and "G r = Some b \<Longrightarrow> vb_author b \<in> members c" and "G r = Some b \<Longrightarrow> vb_round b = br_round r"
proof -
  show wf: "committee_wf c" and ref: "G r = Some b \<Longrightarrow> reference b = r"
    and author: "G r = Some b \<Longrightarrow> br_author r \<in> members c" using assms by (auto simp: block_world_def)
  show "G r = Some b \<Longrightarrow> vb_author b \<in> members c" using ref author by auto
  show "G r = Some b \<Longrightarrow> vb_round b = br_round r" using ref by auto
qed

text \<open>An authority rejects a transaction in some block; it accepts one implicitly in the next round.\<close>

definition rejecters :: "committee \<Rightarrow> (block_ref \<rightharpoonup> verified_block) \<Rightarrow> block_ref \<Rightarrow> transaction_index \<Rightarrow> authority_index set" where
  "rejecters c G r i = {a \<in> members c. \<exists>x b. G x = Some b \<and> vb_author b = a \<and> rejects_in b r i}"

definition accepters :: "committee \<Rightarrow> (block_ref \<rightharpoonup> verified_block) \<Rightarrow> block_ref \<Rightarrow> transaction_index \<Rightarrow> authority_index set" where
  "accepters c G r i = {a \<in> members c. \<exists>x b. G x = Some b \<and> vb_author b = a \<and> vb_round b = br_round r + 1 \<and>
     r \<in> set (vb_ancestors b) \<and> \<not> rejects_in b r i}"

definition certified :: "committee \<Rightarrow> (block_ref \<rightharpoonup> verified_block) \<Rightarrow> certified_block \<Rightarrow> bool" where
  "certified c G cb \<longleftrightarrow> G (reference (cb_block cb)) = Some (cb_block cb) \<and>
     (\<forall>i. quorum c \<le> stake_of c (if i \<in> set (cb_rejected cb) then rejecters c G (reference (cb_block cb)) i
                                   else accepters c G (reference (cb_block cb)) i))"

section \<open>The votes counted for a block\<close>

definition counted_rejects :: "vote_info \<Rightarrow> transaction_index \<Rightarrow> authority_index set" where
  "counted_rejects vi i = (case fmlookup (vi_reject_txn_votes vi) i of None \<Rightarrow> {} | Some a \<Rightarrow> fset (sa_votes a))"

abbreviation counted_accepts :: "vote_info \<Rightarrow> authority_index set" where
  "counted_accepts vi \<equiv> fset (sa_votes (vi_accept_block_votes vi))"

definition vote_info_ok :: "committee \<Rightarrow> (block_ref \<rightharpoonup> verified_block) \<Rightarrow> block_ref \<Rightarrow> vote_info \<Rightarrow> bool" where
  "vote_info_ok c G r vi \<longleftrightarrow> aggregator_inv c (vi_accept_block_votes vi) \<and>
     (\<forall>i a. fmlookup (vi_reject_txn_votes vi) i = Some a \<longrightarrow> aggregator_inv c a) \<and>
     (\<forall>b. vi_block vi = Some b \<longrightarrow> G r = Some b) \<and>
     (\<forall>i. counted_rejects vi i \<subseteq> rejecters c G r i) \<and>
     (\<forall>i. counted_accepts vi - counted_rejects vi i \<subseteq> accepters c G r i)"

lemma vote_info_okD:
  assumes "vote_info_ok c G r vi"
  shows "aggregator_inv c (vi_accept_block_votes vi)"
    and "fmlookup (vi_reject_txn_votes vi) i = Some a \<Longrightarrow> aggregator_inv c a"
    and "vi_block vi = Some b \<Longrightarrow> G r = Some b"
    and "counted_rejects vi i \<subseteq> rejecters c G r i"
    and "counted_accepts vi - counted_rejects vi i \<subseteq> accepters c G r i"
  using assms unfolding vote_info_ok_def by blast+

lemma vote_info_ok_default [simp]: "vote_info_ok c G r vote_info_default"
  by (auto simp: vote_info_ok_def vote_info_default_def counted_rejects_def aggregator_new_def aggregator_inv_def stake_of_def)

lemma aggregator_add_unique_ok:
  assumes "committee_wf c" "aggregator_inv c a" "v \<in> members c"
  shows "\<exists>a' fresh. aggregator_add_unique a v c = Some (a', fresh) \<and> aggregator_inv c a' \<and>
     fset (sa_votes a') = insert v (fset (sa_votes a))"
proof (cases "v |\<in>| sa_votes a")
  case False
  then show ?thesis using assms add_voter_inv[OF assms(1-3)] committee_stake_in[OF assms(3)]
    by (auto simp: aggregator_add_unique_def)
qed (use assms in \<open>auto simp: aggregator_add_unique_def insert_absorb\<close>)

lemma unat_saturating_sub: "unat (stake_saturating_sub a b) = unat a - unat b"
  by (simp add: stake_saturating_sub_def word_le_nat_alt unat_sub_if')

lemma collect_rejected_Some:
  "collect_rejected c accept xs = Some rejected \<longleftrightarrow>
     rejected = map fst (filter (\<lambda>(_, a). quorum c \<le> unat (sa_stake a)) xs) \<and>
     (\<forall>(_, a) \<in> set xs. quorum c \<le> unat (sa_stake a) \<or> quorum c \<le> unat accept - unat (sa_stake a))"
proof (induction xs arbitrary: rejected)
  case (Cons x xs)
  obtain i a where x: "x = (i, a)" by (cases x)
  have reached: "aggregator_reached_threshold QuorumThreshold a c \<longleftrightarrow> quorum c \<le> unat (sa_stake a)"
    by (simp add: aggregator_reached_threshold_def reached_quorum_def word_le_nat_alt quorum_def)
  have few: "stake_saturating_sub accept (sa_stake a) < c_quorum_threshold c \<longleftrightarrow> \<not> quorum c \<le> unat accept - unat (sa_stake a)"
    by (simp add: word_less_nat_alt unat_saturating_sub quorum_def not_le)
  show ?case using Cons.IH by (auto simp: x reached few)
qed auto

lemma quorum_remains:
  assumes "quorum c \<le> stake_of c A - stake_of c R" "A \<subseteq> members c" "R \<subseteq> members c"
  shows "quorum c \<le> stake_of c (A - R)"
proof -
  have fin: "finite A" "finite R" using assms(2,3) finite_subset[OF _ finite_members] by blast+
  have "stake_of c A = stake_of c (A - R) + stake_of c (A \<inter> R)"
    unfolding stake_of_def using fin by (subst sum.union_disjoint[symmetric]) (auto intro: arg_cong[where f = "sum _"])
  moreover have "stake_of c (A \<inter> R) \<le> stake_of c R" using assms by (intro stake_of_mono) auto
  ultimately show ?thesis using assms(1) by simp
qed

section \<open>Outputs\<close>

lemma take_certified_ok:
  assumes wf: "block_world c G" and ok: "vote_info_ok c G r vi"
  shows "\<exists>vi' res. take_certified_output c vi = Some (vi', res) \<and>
     vi' = vi\<lparr>vi_is_certified := vi_is_certified vi \<or> res \<noteq> None\<rparr> \<and>
     (\<forall>cb. res = Some cb \<longrightarrow> \<not> vi_is_certified vi \<and> certified c G cb \<and> reference (cb_block cb) = r)"
proof (cases "vi_is_certified vi \<or> vi_block vi = None")
  case True
  then show ?thesis by (auto simp: take_certified_output_def)
next
  case False
  then obtain b where b: "vi_block vi = Some b" "\<not> vi_is_certified vi" by auto
  have G: "G r = Some b" using vote_info_okD(3)[OF ok b(1)] .
  then have r: "reference b = r" "vb_author b \<in> members c" using block_worldD(2,4)[OF wf] by auto
  then obtain au where au: "committee_authority c (vb_author b) = Some au"
    by (auto simp: committee_authority_def members_def committee_size_def)
  let ?A = "vi_accept_block_votes vi" and ?R = "fm_range (\<lambda>_. True) (vi_reject_txn_votes vi)"
  show ?thesis
  proof (cases "\<not> aggregator_reached_threshold QuorumThreshold ?A c \<or> collect_rejected c (sa_stake ?A) ?R = None")
    case True
    then show ?thesis using b au by (auto simp: take_certified_output_def)
  next
    case False
    then obtain rejected where rej: "collect_rejected c (sa_stake ?A) ?R = Some rejected"
        "aggregator_reached_threshold QuorumThreshold ?A c" by auto
    let ?cb = "\<lparr>cb_block = b, cb_rejected = rejected\<rparr>"
    have A: "unat (sa_stake ?A) = stake_of c (counted_accepts vi)" "counted_accepts vi \<subseteq> members c"
      using vote_info_okD(1)[OF ok] by (auto simp: aggregator_inv_def)
    have q: "quorum c \<le> stake_of c (counted_accepts vi)"
      using rej(2) A by (simp add: aggregator_reached_threshold_def reached_quorum_def word_le_nat_alt quorum_def)
    have "quorum c \<le> stake_of c (if i \<in> set rejected then rejecters c G r i else accepters c G r i)" for i
    proof -
      have sub: "rejecters c G r i \<subseteq> members c" "accepters c G r i \<subseteq> members c"
        by (auto simp: rejecters_def accepters_def)
      note le = vote_info_okD(4,5)[OF ok, of i]
      show ?thesis
      proof (cases "fmlookup (vi_reject_txn_votes vi) i")
        case None
        then have "i \<notin> set rejected" using rej(1) by (auto simp: collect_rejected_Some set_fm_range)
        moreover have "counted_accepts vi \<subseteq> accepters c G r i" using le(2) None by (simp add: counted_rejects_def)
        then have "quorum c \<le> stake_of c (accepters c G r i)" using q stake_of_mono[OF _ sub(2)] by (meson le_trans)
        ultimately show ?thesis by simp
      next
        case (Some a)
        have a: "unat (sa_stake a) = stake_of c (counted_rejects vi i)" "counted_rejects vi i \<subseteq> members c"
          using vote_info_okD(2)[OF ok Some] Some by (auto simp: aggregator_inv_def counted_rejects_def)
        have i: "i \<in> set rejected \<longleftrightarrow> quorum c \<le> stake_of c (counted_rejects vi i)"
          "quorum c \<le> stake_of c (counted_rejects vi i) \<or>
             quorum c \<le> stake_of c (counted_accepts vi) - stake_of c (counted_rejects vi i)"
          using rej(1) Some a(1) A(1) by (force simp: collect_rejected_Some set_fm_range image_iff)+
        show ?thesis
          using i quorum_remains[OF _ A(2) a(2)] stake_of_mono[OF le(1) sub(1)] stake_of_mono[OF le(2) sub(2)]
          by auto
      qed
    qed
    then have "certified c G ?cb" using G r(1) by (simp add: certified_def) metis
    then show ?thesis using b au rej r(1) by (auto simp: take_certified_output_def)
  qed
qed

section \<open>The state\<close>

text \<open>
  \<open>voted\<close> of a block: its reject votes on blocks above the garbage collection round are counted.
\<close>

definition voted :: "certifier_state \<Rightarrow> verified_block \<Rightarrow> block_transaction_votes list \<Rightarrow> bool" where
  "voted cs b vs \<longleftrightarrow> (\<forall>v \<in> set vs. cs_gc_round cs < br_round (btv_block_ref v) \<longrightarrow>
     (\<forall>i \<in> set (btv_rejects v). vb_author b \<in> counted_rejects (vote_entry cs (btv_block_ref v)) i))"

abbreviation processed :: "certifier_state \<Rightarrow> block_ref \<Rightarrow> verified_block option" where
  "processed cs r \<equiv> vi_block (vote_entry cs r)"

abbreviation is_certified :: "certifier_state \<Rightarrow> block_ref \<Rightarrow> bool" where
  "is_certified cs r \<equiv> vi_is_certified (vote_entry cs r)"

definition entries_ok :: "committee \<Rightarrow> (block_ref \<rightharpoonup> verified_block) \<Rightarrow> certifier_state \<Rightarrow> bool" where
  "entries_ok c G cs \<longleftrightarrow> cs_committee cs = c \<and> (\<forall>r. vote_info_ok c G r (vote_entry cs r)) \<and>
     (\<forall>r. r |\<in>| fmdom (cs_votes cs) \<longrightarrow> cs_gc_round cs < br_round r)"

definition outputs_ok :: "committee \<Rightarrow> (block_ref \<rightharpoonup> verified_block) \<Rightarrow> certifier_state \<Rightarrow> certified_block list \<Rightarrow> bool" where
  "outputs_ok c G cs out \<longleftrightarrow> distinct (map (reference \<circ> cb_block) out) \<and>
     (\<forall>cb \<in> set out. certified c G cb \<and> (cs_gc_round cs < vb_round (cb_block cb) \<longrightarrow> is_certified cs (reference (cb_block cb))))"

definition certifier_ok :: "committee \<Rightarrow> (block_ref \<rightharpoonup> verified_block) \<Rightarrow> certifier_state \<Rightarrow> bool" where
  "certifier_ok c G cs \<longleftrightarrow> block_world c G \<and> entries_ok c G cs \<and>
     (\<forall>r b. processed cs r = Some b \<longrightarrow> voted cs b (block_transaction_votes_of (inner b)))"

text \<open>Changes of a state during a loop: votes and marks are only added, blocks stay.\<close>

definition extends :: "certifier_state \<Rightarrow> certifier_state \<Rightarrow> bool" where
  "extends cs cs' \<longleftrightarrow> cs_context cs' = cs_context cs \<and> cs_gc_round cs' = cs_gc_round cs \<and>
     (\<forall>r. processed cs' r = processed cs r) \<and> (\<forall>r. is_certified cs r \<longrightarrow> is_certified cs' r) \<and>
     (\<forall>r i. counted_rejects (vote_entry cs r) i \<subseteq> counted_rejects (vote_entry cs' r) i)"

lemma extends_refl [simp]: "extends cs cs"
  by (simp add: extends_def)

lemma extends_trans: "extends cs cs1 \<Longrightarrow> extends cs1 cs2 \<Longrightarrow> extends cs cs2"
  unfolding extends_def by (metis subset_trans)

lemma extends_voted: "extends cs cs' \<Longrightarrow> voted cs b vs \<Longrightarrow> voted cs' b vs"
  unfolding extends_def voted_def by (metis subsetD)

lemma vote_entry_upd [simp]: "vote_entry (cs\<lparr>cs_votes := fmupd r vi (cs_votes cs)\<rparr>) x = (if x = r then vi else vote_entry cs x)"
  by (simp add: vote_entry_def)

lemma entries_ok_upd:
  assumes "entries_ok c G cs" "vote_info_ok c G r vi" "cs_gc_round cs < br_round r"
  shows "entries_ok c G (cs\<lparr>cs_votes := fmupd r vi (cs_votes cs)\<rparr>)"
  using assms by (auto simp: entries_ok_def)

lemma counted_certified [simp]:
  "counted_rejects (vi\<lparr>vi_is_certified := x\<rparr>) = counted_rejects vi"
  "vote_info_ok c G r (vi\<lparr>vi_is_certified := x\<rparr>) = vote_info_ok c G r vi"
proof -
  show eq: "counted_rejects (vi\<lparr>vi_is_certified := x\<rparr>) = counted_rejects vi"
    by (simp add: counted_rejects_def fun_eq_iff)
  show "vote_info_ok c G r (vi\<lparr>vi_is_certified := x\<rparr>) = vote_info_ok c G r vi"
    by (simp add: vote_info_ok_def eq)
qed

lemma output_certified_ok:
  assumes wf: "block_world c G" and es: "entries_ok c G cs" and out: "outputs_ok c G cs out"
    and vi: "vote_info_ok c G r vi" "cs_gc_round cs < br_round r"
    and le: "vi_block vi = processed cs r" "vi_is_certified vi = is_certified cs r"
      "\<And>i. counted_rejects (vote_entry cs r) i \<subseteq> counted_rejects vi i"
  shows "\<exists>cs' out'. output_certified r vi (cs, out) = Some (cs', out') \<and> entries_ok c G cs' \<and>
     outputs_ok c G cs' out' \<and> extends cs cs' \<and> (\<forall>i. counted_rejects vi i \<subseteq> counted_rejects (vote_entry cs' r) i)"
proof -
  have c: "cs_committee cs = c" using es by (simp add: entries_ok_def)
  obtain vi' res where take: "take_certified_output c vi = Some (vi', res)"
      "vi' = vi\<lparr>vi_is_certified := vi_is_certified vi \<or> res \<noteq> None\<rparr>"
      and res: "\<And>cb. res = Some cb \<Longrightarrow> \<not> vi_is_certified vi \<and> certified c G cb \<and> reference (cb_block cb) = r"
    using take_certified_ok[OF wf vi(1)] by blast
  let ?cs = "cs\<lparr>cs_votes := fmupd r vi' (cs_votes cs)\<rparr>"
  have es': "entries_ok c G ?cs" using vi take(2) by (intro entries_ok_upd[OF es]) auto
  have ext: "extends cs ?cs" using le take(2) by (auto simp: extends_def)
  have ge: "\<forall>i. counted_rejects vi i \<subseteq> counted_rejects (vote_entry ?cs r) i" using take(2) by simp
  have old: "outputs_ok c G ?cs out" using out ext by (auto simp: outputs_ok_def extends_def)
  show ?thesis
  proof (cases res)
    case None
    then show ?thesis using take(1) c es' ext ge old by (auto simp: output_certified_def)
  next
    case (Some cb)
    note cb = res[OF Some]
    then have G: "G r = Some (cb_block cb)" by (auto simp: certified_def)
    then obtain au where au: "committee_authority c (vb_author (cb_block cb)) = Some au"
      using block_worldD(4)[OF wf G] by (auto simp: committee_authority_def members_def committee_size_def)
    have "r \<notin> (reference \<circ> cb_block) ` set out"
    proof
      assume "r \<in> (reference \<circ> cb_block) ` set out"
      then obtain d where d: "d \<in> set out" "reference (cb_block d) = r" by auto
      then have "vb_round (cb_block d) = br_round r" by auto
      then have "is_certified cs r" using out d vi(2) by (auto simp: outputs_ok_def)
      then show False using le(2) cb by simp
    qed
    then have "outputs_ok c G ?cs (out @ [cb])" using old cb take(2) Some by (auto simp: outputs_ok_def)
    then show ?thesis using take(1) Some c es' ext ge au by (auto simp: output_certified_def)
  qed
qed

section \<open>Received blocks\<close>

lemma add_reject_ok:
  assumes wf: "block_world c G" and vi: "vote_info_ok c G r vi" and b: "G x = Some b" "rejects_in b r i"
  shows "\<exists>vi'. add_reject c (vb_author b) i vi = Some vi' \<and> vote_info_ok c G r vi' \<and> vi_block vi' = vi_block vi \<and>
     vi_is_certified vi' = vi_is_certified vi \<and>
     (\<forall>j. counted_rejects vi' j = (if j = i then insert (vb_author b) (counted_rejects vi i) else counted_rejects vi j))"
proof -
  let ?a = "case fmlookup (vi_reject_txn_votes vi) i of Some a \<Rightarrow> a | None \<Rightarrow> aggregator_new"
  have inv: "aggregator_inv c ?a" using vote_info_okD(2)[OF vi] by (auto split: option.split)
  have m: "vb_author b \<in> members c" using block_worldD(4)[OF wf b(1)] .
  obtain a' fresh where a': "aggregator_add_unique ?a (vb_author b) c = Some (a', fresh)" "aggregator_inv c a'"
      "fset (sa_votes a') = insert (vb_author b) (fset (sa_votes ?a))"
    using aggregator_add_unique_ok[OF block_worldD(1)[OF wf] inv m] by blast
  let ?vi = "vi\<lparr>vi_reject_txn_votes := fmupd i a' (vi_reject_txn_votes vi)\<rparr>"
  have eq: "counted_rejects ?vi j = (if j = i then insert (vb_author b) (counted_rejects vi i) else counted_rejects vi j)" for j
    using a'(3) by (auto simp: counted_rejects_def aggregator_new_def split: option.splits)
  have "vb_author b \<in> rejecters c G r i" using m b by (auto simp: rejecters_def)
  then have "vote_info_ok c G r ?vi" using vi a'(2) unfolding vote_info_ok_def eq by auto
  then show ?thesis using a'(1) eq by (simp add: add_reject_def)
qed

lemma add_rejects_ok:
  assumes "block_world c G" "G x = Some b" "vote_info_ok c G r vi" "\<forall>i \<in> set is. rejects_in b r i"
  shows "\<exists>vi'. try_fold (add_reject c (vb_author b)) is vi = Some vi' \<and> vote_info_ok c G r vi' \<and> vi_block vi' = vi_block vi \<and>
     vi_is_certified vi' = vi_is_certified vi \<and> (\<forall>j. counted_rejects vi j \<subseteq> counted_rejects vi' j) \<and>
     (\<forall>i \<in> set is. vb_author b \<in> counted_rejects vi' i)"
  using assms(3,4)
proof (induction "is" arbitrary: vi)
  case (Cons i "is")
  obtain vi1 where vi1: "add_reject c (vb_author b) i vi = Some vi1" "vote_info_ok c G r vi1" "vi_block vi1 = vi_block vi"
      "vi_is_certified vi1 = vi_is_certified vi"
      "\<And>j. counted_rejects vi1 j = (if j = i then insert (vb_author b) (counted_rejects vi i) else counted_rejects vi j)"
    using add_reject_ok[OF assms(1) Cons.prems(1) assms(2), of i] Cons.prems(2) by auto
  obtain vi2 where vi2: "try_fold (add_reject c (vb_author b)) is vi1 = Some vi2" "vote_info_ok c G r vi2"
      "vi_block vi2 = vi_block vi1" "vi_is_certified vi2 = vi_is_certified vi1"
      "\<And>j. counted_rejects vi1 j \<subseteq> counted_rejects vi2 j" "\<And>i. i \<in> set is \<Longrightarrow> vb_author b \<in> counted_rejects vi2 i"
    using Cons.IH[OF vi1(2)] Cons.prems(2) by auto
  have "counted_rejects vi j \<subseteq> counted_rejects vi2 j" for j using vi1(5)[of j] vi2(5)[of j] by (auto split: if_splits)
  moreover have "vb_author b \<in> counted_rejects vi2 i" using vi1(5)[of i] vi2(5)[of i] by auto
  ultimately show ?case using vi1 vi2 by auto
qed simp

lemma add_block_votes_ok:
  assumes wf: "block_world c G" and b: "G x = Some b" and v: "v \<in> set (block_transaction_votes_of (inner b))"
    and es: "entries_ok c G cs" and out: "outputs_ok c G cs out"
  shows "\<exists>cs' out'. add_block_votes (vb_author b) v (cs, out) = Some (cs', out') \<and> entries_ok c G cs' \<and>
     outputs_ok c G cs' out' \<and> extends cs cs' \<and> voted cs' b [v]"
proof (cases "br_round (btv_block_ref v) \<le> cs_gc_round cs")
  case True
  then show ?thesis using es out by (auto simp: add_block_votes_def voted_def)
next
  case False
  let ?r = "btv_block_ref v"
  have "\<forall>i \<in> set (btv_rejects v). rejects_in b ?r i" using v by (auto simp: rejects_in_def)
  moreover have vi0: "vote_info_ok c G ?r (vote_entry cs ?r)" "cs_committee cs = c" using es by (auto simp: entries_ok_def)
  ultimately obtain vi where vi: "try_fold (add_reject c (vb_author b)) (btv_rejects v) (vote_entry cs ?r) = Some vi"
      "vote_info_ok c G ?r vi" "vi_block vi = processed cs ?r" "vi_is_certified vi = is_certified cs ?r"
      "\<And>j. counted_rejects (vote_entry cs ?r) j \<subseteq> counted_rejects vi j"
      "\<And>i. i \<in> set (btv_rejects v) \<Longrightarrow> vb_author b \<in> counted_rejects vi i"
    using add_rejects_ok[OF wf b, of ?r "vote_entry cs ?r" "btv_rejects v"] by auto
  obtain cs' out' where o: "output_certified ?r vi (cs, out) = Some (cs', out')" "entries_ok c G cs'"
      "outputs_ok c G cs' out'" "extends cs cs'" "\<And>i. counted_rejects vi i \<subseteq> counted_rejects (vote_entry cs' ?r) i"
    using output_certified_ok[OF wf es out vi(2) _ vi(3-5)] False by auto
  have "voted cs' b [v]" using o(5) vi(6) by (auto simp: voted_def)
  then show ?thesis using o vi(1) vi0(2) False by (simp add: add_block_votes_def)
qed

lemma voted_append [simp]: "voted cs b (vs @ ws) \<longleftrightarrow> voted cs b vs \<and> voted cs b ws"
  by (auto simp: voted_def)

lemma voted_Cons: "voted cs b (v # vs) \<longleftrightarrow> voted cs b [v] \<and> voted cs b vs"
  by (auto simp: voted_def)

lemma add_votes_ok:
  assumes "block_world c G" "G x = Some b" "set vs \<subseteq> set (block_transaction_votes_of (inner b))"
    and "entries_ok c G cs" "outputs_ok c G cs out"
  shows "\<exists>cs' out'. try_fold (add_block_votes (vb_author b)) vs (cs, out) = Some (cs', out') \<and> entries_ok c G cs' \<and>
     outputs_ok c G cs' out' \<and> extends cs cs' \<and> voted cs' b vs"
  using assms(3-5)
proof (induction vs arbitrary: cs out)
  case Nil
  then show ?case by (simp add: voted_def)
next
  case (Cons v vs)
  obtain cs1 out1 where 1: "add_block_votes (vb_author b) v (cs, out) = Some (cs1, out1)" "entries_ok c G cs1"
      "outputs_ok c G cs1 out1" "extends cs cs1" "voted cs1 b [v]"
    using add_block_votes_ok[OF assms(1,2) _ Cons.prems(2,3), of v] Cons.prems(1) by auto
  obtain cs2 out2 where 2: "try_fold (add_block_votes (vb_author b)) vs (cs1, out1) = Some (cs2, out2)" "entries_ok c G cs2"
      "outputs_ok c G cs2 out2" "extends cs1 cs2" "voted cs2 b vs"
    using Cons.IH[OF _ 1(2,3)] Cons.prems(1) by auto
  have "voted cs2 b (v # vs)" using extends_voted[OF 2(4) 1(5)] 2(5) by (simp only: voted_Cons[of cs2 b v vs])
  then show ?case using 1 2 extends_trans[OF 1(4) 2(4)] by auto
qed

text \<open>Outputs accumulate.\<close>

lemma try_fold_outputs:
  assumes "\<And>x s out. f x (s, out) = map_option (\<lambda>(s', o'). (s', out @ o')) (f x (s, []))"
  shows "try_fold f xs (s, out) = map_option (\<lambda>(s', o'). (s', out @ o')) (try_fold f xs (s, []))"
proof (induction xs arbitrary: s out)
  case (Cons x xs)
  show ?case
  proof (cases "f x (s, [])")
    case None
    then show ?thesis using assms[of x s out] by simp
  next
    case (Some p)
    obtain s' o' where p: "p = (s', o')" by (cases p)
    show ?thesis using assms[of x s out] Some p Cons.IH[of s' "out @ o'"] Cons.IH[of s' o']
      by (simp add: option.map_comp comp_def case_prod_beta)
  qed
qed simp

lemma output_certified_outputs:
  "output_certified r vi (cs, out) = map_option (\<lambda>(s', o'). (s', out @ o')) (output_certified r vi (cs, []))"
  by (auto simp: output_certified_def Let_def split: option.splits bind_splits)

lemma add_block_votes_outputs:
  "add_block_votes a v (cs, out) = map_option (\<lambda>(s', o'). (s', out @ o')) (add_block_votes a v (cs, []))"
  by (auto simp: add_block_votes_def output_certified_outputs[of _ _ cs out] split: bind_splits)

lemma add_block_votes_fold_outputs:
  "try_fold (add_block_votes a) xs (cs, out) = map_option (\<lambda>(s', o'). (s', out @ o')) (try_fold (add_block_votes a) xs (cs, []))"
  by (rule try_fold_outputs) (rule add_block_votes_outputs)

lemma certifier_okD:
  assumes "certifier_ok c G cs"
  shows "block_world c G" "entries_ok c G cs" "cs_committee cs = c" "vote_info_ok c G r (vote_entry cs r)"
    and "processed cs r = Some b \<Longrightarrow> voted cs b (block_transaction_votes_of (inner b))"
    and "processed cs r = Some b \<Longrightarrow> G r = Some b"
    and "fmlookup (cs_votes cs) r = Some vi \<Longrightarrow> cs_gc_round cs < br_round r"
proof -
  show es: "block_world c G" "entries_ok c G cs"
    and "processed cs r = Some b \<Longrightarrow> voted cs b (block_transaction_votes_of (inner b))"
    using assms unfolding certifier_ok_def by blast+
  show "cs_committee cs = c" and vi: "vote_info_ok c G r (vote_entry cs r)" using es(2) by (auto simp: entries_ok_def)
  show "processed cs r = Some b \<Longrightarrow> G r = Some b" using vote_info_okD(3)[OF vi] .
  show "fmlookup (cs_votes cs) r = Some vi \<Longrightarrow> cs_gc_round cs < br_round r"
    using es(2) by (auto simp: entries_ok_def fmlookup_dom_iff)
qed

lemma add_voted_block_ok:
  assumes ok: "certifier_ok c G cs" and out: "outputs_ok c G cs out" and b: "G (reference b) = Some b"
  shows "\<exists>cs' o'. add_voted_block b rejects cs = Some (cs', o') \<and> certifier_ok c G cs' \<and> outputs_ok c G cs' (out @ o') \<and>
     cs_gc_round cs' = cs_gc_round cs"
proof (cases "vb_round b \<le> cs_gc_round cs")
  case True
  then show ?thesis using ok out by (simp add: add_voted_block_def)
next
  case gc: False
  note d = certifier_okD[OF ok]
  let ?r = "reference b" and ?vi = "vote_entry cs (reference b)"
  obtain au where au: "committee_authority c (vb_author b) = Some au"
    using block_worldD(4)[OF d(1) b] by (auto simp: committee_authority_def members_def committee_size_def)
  show ?thesis
  proof (cases "vi_block ?vi")
    case (Some b')
    then have "fmlookup (cs_votes cs) ?r = Some ?vi"
      by (auto simp: vote_entry_def vote_info_default_def split: option.splits)
    then have "fmupd ?r ?vi (cs_votes cs) = cs_votes cs" by (intro fmap_ext) auto
    then show ?thesis using Some gc au d(3) ok out by (simp add: add_voted_block_def)
  next
    case None
    let ?cs = "cs\<lparr>cs_votes := fmupd ?r (?vi\<lparr>vi_block := Some b, vi_own_reject_txn_votes := rejects\<rparr>) (cs_votes cs)\<rparr>"
    have same: "counted_rejects (vote_entry ?cs x) = counted_rejects (vote_entry cs x)" "is_certified ?cs x = is_certified cs x"
      "processed ?cs x = (if x = ?r then Some b else processed cs x)" for x
      by (auto simp: counted_rejects_def fun_eq_iff)
    have "vote_info_ok c G ?r (?vi\<lparr>vi_block := Some b, vi_own_reject_txn_votes := rejects\<rparr>)"
      using d(4)[of ?r] b by (simp add: vote_info_ok_def counted_rejects_def)
    then have es: "entries_ok c G ?cs" using gc by (intro entries_ok_upd[OF d(2)]) auto
    have o1: "outputs_ok c G ?cs out" using out same(2) by (simp add: outputs_ok_def)
    obtain cs' out' where fold: "try_fold (add_block_votes (vb_author b)) (block_transaction_votes_of (inner b)) (?cs, out) = Some (cs', out')"
        "entries_ok c G cs'" "outputs_ok c G cs' out'" "extends ?cs cs'" "voted cs' b (block_transaction_votes_of (inner b))"
      using add_votes_ok[OF d(1) b order_refl es o1] by blast
    have "voted cs' d (block_transaction_votes_of (inner d))" if "processed cs' x = Some d" for x d
    proof (cases "x = ?r")
      case False
      then have "voted cs d (block_transaction_votes_of (inner d))"
        using that fold(4) same(3)[of x] d(5)[of x d] by (simp add: extends_def)
      then have "voted ?cs d (block_transaction_votes_of (inner d))" unfolding voted_def same(1) by simp
      then show ?thesis by (rule extends_voted[OF fold(4)])
    qed (use that fold(4,5) same(3) in \<open>auto simp: extends_def\<close>)
    then have "certifier_ok c G cs'" using d(1) fold(2) by (simp add: certifier_ok_def)
    moreover obtain o' where "try_fold (add_block_votes (vb_author b)) (block_transaction_votes_of (inner b)) (?cs, []) = Some (cs', o')"
        "out' = out @ o'"
      using fold(1) add_block_votes_fold_outputs[where cs = "?cs" and out = out] by auto
    ultimately show ?thesis using fold(3,4) gc au None d(3) by (simp add: add_voted_block_def extends_def)
  qed
qed

lemma add_voted_blocks_ok:
  assumes "certifier_ok c G cs" "outputs_ok c G cs out" "\<forall>(b, _) \<in> set bs. G (reference b) = Some b"
  shows "\<exists>cs' o'. add_voted_blocks bs cs = Some (cs', o') \<and> certifier_ok c G cs' \<and> outputs_ok c G cs' (out @ o') \<and>
     cs_gc_round cs' = cs_gc_round cs"
proof -
  let ?f = "\<lambda>(b, rejects) (cs, out). do { (cs', blocks) \<leftarrow> add_voted_block b rejects cs; Some (cs', out @ blocks) }"
  let ?I = "\<lambda>(s, o'). certifier_ok c G s \<and> outputs_ok c G s (out @ o') \<and> cs_gc_round s = cs_gc_round cs"
  have "\<exists>s'. try_fold ?f bs (cs, []) = Some s' \<and> ?I s'"
  proof (rule try_fold_total)
    fix x s assume x: "x \<in> set bs" and "?I s"
    obtain b rejects where b: "x = (b, rejects)" by (cases x)
    obtain cs1 o1 where s: "s = (cs1, o1)" by (cases s)
    with \<open>?I s\<close> have I: "certifier_ok c G cs1" "outputs_ok c G cs1 (out @ o1)" "cs_gc_round cs1 = cs_gc_round cs" by auto
    have "G (reference b) = Some b" using assms(3) x b by auto
    from add_voted_block_ok[OF I(1,2) this, of rejects] show "\<exists>s'. ?f x s = Some s' \<and> ?I s'" using b s I(3) by auto
  qed (use assms(1,2) in simp)
  then show ?thesis by (auto simp: add_voted_blocks_def)
qed

section \<open>Proposed blocks\<close>

lemma add_accept_vote_ok:
  assumes ok: "certifier_ok c G cs" and out: "outputs_ok c G cs out"
    and v: "processed cs x = Some v" "target \<in> set (vb_ancestors v)"
  shows "\<exists>cs' out'. add_accept_vote v target (cs, out) = Some (cs', out') \<and> certifier_ok c G cs' \<and> outputs_ok c G cs' out' \<and>
     extends cs cs'"
proof (cases "br_round target + 1 = vb_round v \<and> fmlookup (cs_votes cs) target \<noteq> None")
  case False
  then show ?thesis using ok out by (auto simp: add_accept_vote_def)
next
  case True
  note d = certifier_okD[OF ok]
  obtain vi where vi: "fmlookup (cs_votes cs) target = Some vi" "vote_entry cs target = vi"
    using True by (auto simp: vote_entry_def)
  have G: "G x = Some v" using d(6)[OF v(1)] .
  have m: "vb_author v \<in> members c" using block_worldD(4)[OF d(1) G] .
  have viok: "vote_info_ok c G target vi" using d(4)[of target] vi by simp
  obtain a fresh where a: "aggregator_add_unique (vi_accept_block_votes vi) (vb_author v) c = Some (a, fresh)"
      "aggregator_inv c a" "fset (sa_votes a) = insert (vb_author v) (counted_accepts vi)"
    using aggregator_add_unique_ok[OF block_worldD(1)[OF d(1)] vote_info_okD(1)[OF viok] m] by blast
  let ?vi = "vi\<lparr>vi_accept_block_votes := a\<rparr>"
  have same: "counted_rejects ?vi = counted_rejects vi" by (simp add: counted_rejects_def fun_eq_iff)
  have gc: "cs_gc_round cs < br_round target" using d(7)[OF vi(1)] .
  have "vb_author v \<in> accepters c G target i" if "vb_author v \<notin> counted_rejects vi i" for i
  proof -
    have "\<not> rejects_in v target i"
      using d(5)[OF v(1)] that vi(2) gc by (auto simp: rejects_in_def voted_def)
    then show ?thesis using m G True v(2) by (auto simp: accepters_def)
  qed
  then have "vote_info_ok c G target ?vi" using viok a(2,3) unfolding vote_info_ok_def same by auto
  from output_certified_ok[OF d(1,2) out this gc] obtain cs' out' where
      o: "output_certified target ?vi (cs, out) = Some (cs', out')" "entries_ok c G cs'" "outputs_ok c G cs' out'" "extends cs cs'"
    using vi(2) same by auto
  have "certifier_ok c G cs'"
    using o(2,4) d(1) extends_voted[OF o(4) d(5)] by (simp add: certifier_ok_def extends_def)
  then show ?thesis using o a(1) vi(1) d(3) True by (simp add: add_accept_vote_def)
qed

lemma add_voting_ancestor_ok:
  assumes ok: "certifier_ok c G cs" and out: "outputs_ok c G cs out"
  shows "\<exists>cs' out'. add_voting_ancestor rnd x (cs, out) = Some (cs', out') \<and> certifier_ok c G cs' \<and> outputs_ok c G cs' out' \<and>
     extends cs cs'"
proof (cases "processed cs x")
  case None
  then show ?thesis using ok out
    by (auto simp: add_voting_ancestor_def vote_entry_def split: option.splits)
next
  case (Some v)
  let ?I = "\<lambda>(s, o'). certifier_ok c G s \<and> outputs_ok c G s o' \<and> extends cs s"
  have "\<exists>s. try_fold (add_accept_vote v) (vb_ancestors v) (cs, out) = Some s \<and> ?I s"
  proof (rule try_fold_total)
    fix t s assume t: "t \<in> set (vb_ancestors v)" and "?I s"
    obtain cs1 o1 where s: "s = (cs1, o1)" by (cases s)
    with \<open>?I s\<close> have I: "certifier_ok c G cs1" "outputs_ok c G cs1 o1" "extends cs cs1" by auto
    then have "processed cs1 x = Some v" using Some by (simp add: extends_def)
    from add_accept_vote_ok[OF I(1,2) this t] show "\<exists>s'. add_accept_vote v t s = Some s' \<and> ?I s'"
      using s extends_trans[OF I(3)] by auto
  qed (use ok out in simp)
  moreover obtain vi where "fmlookup (cs_votes cs) x = Some vi" "vi_block vi = Some v"
    using Some by (auto simp: vote_entry_def vote_info_default_def split: option.splits)
  ultimately show ?thesis using ok out by (auto simp: add_voting_ancestor_def)
qed

lemma add_accept_vote_outputs:
  "add_accept_vote v t (cs, out) = map_option (\<lambda>(s', o'). (s', out @ o')) (add_accept_vote v t (cs, []))"
  by (auto simp: add_accept_vote_def output_certified_outputs[of _ _ cs out] split: option.splits bind_splits)

lemma add_accept_vote_fold_outputs:
  "try_fold (add_accept_vote v) xs (cs, out) = map_option (\<lambda>(s', o'). (s', out @ o')) (try_fold (add_accept_vote v) xs (cs, []))"
  by (rule try_fold_outputs) (rule add_accept_vote_outputs)

lemma add_voting_ancestor_outputs:
  "add_voting_ancestor rnd x (cs, out) = map_option (\<lambda>(s', o'). (s', out @ o')) (add_voting_ancestor rnd x (cs, []))"
  by (auto simp: add_voting_ancestor_def add_accept_vote_fold_outputs[where cs = "cs" and out = out] split: option.splits)

lemma add_voting_ancestor_fold_outputs:
  "try_fold (add_voting_ancestor rnd) xs (cs, out) = map_option (\<lambda>(s', o'). (s', out @ o')) (try_fold (add_voting_ancestor rnd) xs (cs, []))"
  by (rule try_fold_outputs) (rule add_voting_ancestor_outputs)

lemma add_proposed_block_ok:
  assumes ok: "certifier_ok c G cs" and out: "outputs_ok c G cs out"
  shows "\<exists>cs' o'. add_proposed_block b cs = Some (cs', o') \<and> certifier_ok c G cs' \<and> outputs_ok c G cs' (out @ o') \<and>
     cs_gc_round cs' = cs_gc_round cs"
proof -
  let ?I = "\<lambda>(s, o'). certifier_ok c G s \<and> outputs_ok c G s o' \<and> extends cs s"
  have "\<exists>s. try_fold (add_voting_ancestor (vb_round b)) (vb_ancestors b) (cs, out) = Some s \<and> ?I s"
  proof (rule try_fold_total)
    fix x s assume "?I s"
    obtain cs1 o1 where s: "s = (cs1, o1)" by (cases s)
    with \<open>?I s\<close> have I: "certifier_ok c G cs1" "outputs_ok c G cs1 o1" "extends cs cs1" by auto
    from add_voting_ancestor_ok[OF I(1,2), of "vb_round b" x]
    show "\<exists>s'. add_voting_ancestor (vb_round b) x s = Some s' \<and> ?I s'" using s extends_trans[OF I(3)] by auto
  qed (use ok out in simp)
  then show ?thesis
    using ok out by (auto simp: add_proposed_block_def extends_def add_voting_ancestor_fold_outputs[where cs = "cs" and out = out])
qed

section \<open>Garbage collection\<close>

lemma gc_votes_filter: "gc_votes gc votes = fmfilter (\<lambda>r. gc < br_round r) votes"
proof (induction gc votes rule: gc_votes.induct)
  case (1 gc votes)
  show ?case
  proof (cases "fs_first (fmdom votes)")
    case None
    then show ?thesis by (subst gc_votes.simps) (auto intro!: fmap_ext fmdom_notD)
  next
    case (Some r)
    note r = fs_first_SomeD[OF Some]
    show ?thesis
    proof (cases "br_round r \<le> gc")
      case True
      then show ?thesis using 1 Some by (subst gc_votes.simps) (auto intro!: fmap_ext)
    next
      case False
      then have "gc < br_round x" if "x |\<in>| fmdom votes" for x using r that block_ref_le_round[of r x] by auto
      then show ?thesis using Some False by (subst gc_votes.simps) (auto intro!: fmap_ext fmdom_notD)
    qed
  qed
qed

lemma update_gc_round_ok:
  assumes ok: "certifier_ok c G cs" and out: "outputs_ok c G cs out" and gc: "cs_gc_round cs \<le> gc"
  shows "certifier_ok c G (update_gc_round gc cs)" "outputs_ok c G (update_gc_round gc cs) out"
    "cs_gc_round (update_gc_round gc cs) = gc"
proof -
  note d = certifier_okD[OF ok]
  let ?cs = "update_gc_round gc cs"
  have entry: "vote_entry ?cs r = (if gc < br_round r then vote_entry cs r else vote_info_default)" for r
    by (simp add: vote_entry_def update_gc_round_def gc_votes_filter)
  have cs: "cs_committee ?cs = c" "cs_gc_round ?cs = gc" "cs_votes ?cs = fmfilter (\<lambda>r. gc < br_round r) (cs_votes cs)"
    using d(3) by (simp_all add: update_gc_round_def gc_votes_filter)
  then show "cs_gc_round ?cs = gc" by simp
  have "entries_ok c G ?cs" using cs d(4) by (auto simp: entries_ok_def entry)
  moreover have "voted ?cs b (block_transaction_votes_of (inner b))" if "processed ?cs r = Some b" for r b
  proof -
    have "processed cs r = Some b" using that by (auto simp: entry vote_info_default_def split: if_splits)
    from d(5)[OF this] show ?thesis using gc cs(2) by (auto simp: voted_def entry)
  qed
  ultimately show "certifier_ok c G ?cs" using d(1) by (simp add: certifier_ok_def)
  show "outputs_ok c G ?cs out" using out gc cs(2) by (auto simp: outputs_ok_def entry)
qed

lemma certifier_new_ok:
  "block_world (ctx_committee ctx) G \<Longrightarrow> certifier_ok (ctx_committee ctx) G (certifier_state_new ctx)"
  by (simp add: certifier_ok_def certifier_state_new_def entries_ok_def vote_entry_def)
    (simp add: vote_info_default_def)

end
