(* ===== verification/CertifierProperties.thy ===== *)
theory CertifierProperties
  imports CertifierSafety
begin

text \<open>
  The runs of a transaction certifier and what they guarantee: each output is justified by the
  blocks, and two nodes never certify a block differently.
\<close>

inductive certifier_steps :: "(block_ref \<rightharpoonup> verified_block) \<Rightarrow> certifier_state \<Rightarrow> certifier_state \<Rightarrow> certified_block list \<Rightarrow> bool"
  for G cs0 where
  certifier_start: "certifier_steps G cs0 cs0 []"
| certifier_voted: "certifier_steps G cs0 cs out \<Longrightarrow> \<forall>(b, _) \<in> set bs. G (reference b) = Some b \<Longrightarrow>
    add_voted_blocks bs cs = Some (cs', o') \<Longrightarrow> certifier_steps G cs0 cs' (out @ o')"
| certifier_proposed: "certifier_steps G cs0 cs out \<Longrightarrow> add_proposed_block b cs = Some (cs', o') \<Longrightarrow>
    certifier_steps G cs0 cs' (out @ o')"
| certifier_gc: "certifier_steps G cs0 cs out \<Longrightarrow> cs_gc_round cs \<le> gc \<Longrightarrow> run_gc ds gc cs = Some cs' \<Longrightarrow>
    certifier_steps G cs0 cs' out"

lemma certifier_steps_ok:
  assumes "certifier_steps G (certifier_state_new ctx) cs out" "block_world (ctx_committee ctx) G"
  shows "certifier_ok (ctx_committee ctx) G cs \<and> outputs_ok (ctx_committee ctx) G cs out"
  using assms
proof (induction rule: certifier_steps.induct)
  case certifier_start
  then show ?case using certifier_new_ok by (simp add: outputs_ok_def)
next
  case (certifier_voted cs out bs cs' o')
  then show ?case using add_voted_blocks_ok[of "ctx_committee ctx" G cs out bs] by auto
next
  case (certifier_proposed cs out b cs' o')
  then show ?case using add_proposed_block_ok[of "ctx_committee ctx" G cs out b] by auto
next
  case (certifier_gc cs out gc ds cs')
  then show ?case using update_gc_round_ok[of "ctx_committee ctx" G cs out gc]
    by (auto simp: run_gc_def panic_simps split: if_splits)
qed

text \<open>
  How a correct authority votes: the block of the next round that includes a block carries its
  reject votes on the transactions of that block, and no other block of it adds one.
\<close>

definition votes_once :: "authority_index set \<Rightarrow> (block_ref \<rightharpoonup> verified_block) \<Rightarrow> bool" where
  "votes_once F G \<longleftrightarrow> (\<forall>x b y b' r i. G x = Some b \<and> G y = Some b' \<and> vb_author b = vb_author b' \<and> vb_author b \<notin> F \<and>
     r \<in> set (vb_ancestors b) \<and> vb_round b = br_round r + 1 \<and> rejects_in b' r i \<longrightarrow> rejects_in b r i)"

lemma accept_excludes_reject:
  "votes_once F G \<Longrightarrow> accepters c G r i \<inter> rejecters c G r i \<subseteq> F"
  by (auto simp: votes_once_def accepters_def rejecters_def) metis

lemma certifiedD:
  assumes "certified c G cb"
  shows "G (reference (cb_block cb)) = Some (cb_block cb)"
    and "i \<in> set (cb_rejected cb) \<Longrightarrow> quorum c \<le> stake_of c (rejecters c G (reference (cb_block cb)) i)"
    and "i \<notin> set (cb_rejected cb) \<Longrightarrow> quorum c \<le> stake_of c (accepters c G (reference (cb_block cb)) i)"
  using assms unfolding certified_def by (auto split: if_splits)

lemma no_reject_quorum:
  assumes "committee_wf c" "F \<subseteq> members c" "stake_of c F < validity c" "votes_once F G"
    and "quorum c \<le> stake_of c (accepters c G r i)"
  shows "stake_of c (rejecters c G r i) < quorum c"
proof (rule ccontr)
  assume "\<not> ?thesis"
  then have q: "quorum c \<le> sum (weight c) (rejecters c G r i)" "quorum c \<le> sum (weight c) (accepters c G r i)"
    using assms(5) by (simp_all add: stake_of_def)
  have sub: "accepters c G r i \<subseteq> members c" "rejecters c G r i \<subseteq> members c"
    by (auto simp: rejecters_def accepters_def)
  have "sum (weight c) F < validity c" using assms(3) by (simp add: stake_of_def)
  from cq.intersection_honest[OF assms(1) sub q(2,1) assms(2) this] show False
    using accept_excludes_reject[OF assms(4), of c r i] by auto
qed

lemma reject_votes_le:
  assumes "certifier_ok c G cs" "get_reject_votes cs r = Some votes" "(i, s) \<in> set votes"
  shows "unat s \<le> stake_of c (rejecters c G r i)"
proof -
  obtain vi a where vi: "fmlookup (cs_votes cs) r = Some vi" "fmlookup (vi_reject_txn_votes vi) i = Some a" "s = sa_stake a"
    using assms(2,3) by (auto simp: get_reject_votes_def set_fm_range)
  then have entry: "vote_entry cs r = vi" by (simp add: vote_entry_def)
  note d = vote_info_okD[OF certifier_okD(4)[OF assms(1), of r, unfolded entry]]
  have "unat s = stake_of c (counted_rejects vi i)"
    using d(2)[OF vi(2)] vi by (simp add: aggregator_inv_def counted_rejects_def)
  also have "\<dots> \<le> stake_of c (rejecters c G r i)" using d(4) by (rule stake_of_mono) (auto simp: rejecters_def)
  finally show ?thesis .
qed

section \<open>An example\<close>

text \<open>Authority 0 proposes a block; the others include it, and authority 3 rejects its second transaction.\<close>

definition ctx4_fastpath :: node_context where
  "ctx4_fastpath = \<lparr>ctx_epoch_start_timestamp_ms = 0, ctx_own_index = 0, ctx_committee = committee4,
     ctx_parameters = parameters_default,
     ctx_protocol_config = \<lparr>pc_consensus_gc_depth = Some 3, pc_consensus_bad_nodes_stake_threshold = Some 20,
       pc_consensus_max_transactions_in_block_bytes = None, pc_consensus_max_num_transactions_in_block = None,
       pc_consensus_max_transaction_size_bytes = None, pc_mysticeti_num_leaders_per_round = Some 1,
       pc_mysticeti_fastpath = True\<rparr>\<rparr>"

definition v2_block :: "round \<Rightarrow> authority_index \<Rightarrow> digest \<Rightarrow> block_ref list \<Rightarrow> block_transaction_votes list \<Rightarrow> verified_block" where
  "v2_block r a d ancestors votes = \<lparr>vb_block = \<lparr>sb_inner = V2 (block_v2_new 0 r a 5 ancestors [[1], [2]] [] votes []),
     sb_signature = []\<rparr>, vb_digest = d, vb_serialized = []\<rparr>"

lemma v2_block_simps [simp]:
  "vb_round (v2_block r a d as vs) = r" "vb_author (v2_block r a d as vs) = a" "vb_ancestors (v2_block r a d as vs) = as"
  "reference (v2_block r a d as vs) = BlockRef r a d" "block_transaction_votes_of (inner (v2_block r a d as vs)) = vs"
  by (simp_all add: v2_block_def vb_round_def vb_author_def vb_ancestors_def reference_def inner_def block_v2_new_def)

definition fast_blocks :: "verified_block list" where
  "fast_blocks = [v2_block 1 0 1 [] [], v2_block 2 0 2 [BlockRef 1 0 1] [], v2_block 2 1 3 [BlockRef 1 0 1] [],
     v2_block 2 2 4 [BlockRef 1 0 1] [], v2_block 3 0 6 [BlockRef 2 0 2, BlockRef 2 1 3, BlockRef 2 2 4] []]"

definition rejecting_block :: verified_block where
  "rejecting_block = v2_block 2 3 5 [BlockRef 1 0 1] [\<lparr>btv_block_ref = BlockRef 1 0 1, btv_rejects = [1]\<rparr>]"

definition fast_dag :: "block_ref \<rightharpoonup> verified_block" where
  "fast_dag = map_of (map (\<lambda>b. (reference b, b)) (rejecting_block # fast_blocks))"

lemma fast_dag_iff: "fast_dag r = Some b \<longleftrightarrow> b \<in> set (rejecting_block # fast_blocks) \<and> reference b = r"
proof -
  have "distinct (map fst (map (\<lambda>b. (reference b, b)) (rejecting_block # fast_blocks)))"
    by (simp add: fast_blocks_def rejecting_block_def)
  then show ?thesis unfolding fast_dag_def by (subst map_of_eq_Some_iff) (assumption, auto)
qed

lemma fast_dag_world: "block_world committee4 fast_dag"
  using committee4_wf
  by (auto simp: block_world_def fast_dag_iff fast_blocks_def rejecting_block_def committee4_members)

lemma fast_dag_votes: "votes_once {3} fast_dag"
  by (auto simp: votes_once_def fast_dag_iff fast_blocks_def rejecting_block_def rejects_in_def)

lemma fm_range_empty [simp]: "fm_range P fmempty = []"
  using set_fm_range[of P fmempty] by auto

lemma fast_run: "\<exists>cs cs' cb. add_voted_blocks (map (\<lambda>b. (b, [])) fast_blocks) (certifier_state_new ctx4_fastpath) = Some (cs, []) \<and>
   add_proposed_block (fast_blocks ! 4) cs = Some (cs', [cb]) \<and> reference (cb_block cb) = BlockRef 1 0 1 \<and> cb_rejected cb = []"
  by (simp add: add_voted_blocks_def add_voted_block_def certifier_state_new_def ctx4_fastpath_def fast_blocks_def
      vote_entry_def vote_info_default_def GENESIS_ROUND_def committee4_def committee_authority_def add_proposed_block_def
      add_voting_ancestor_def add_accept_vote_def output_certified_def take_certified_output_def aggregator_add_unique_def
      aggregator_new_def committee_stake_def aggregator_reached_threshold_def reached_quorum_def word_le_nat_alt test_authority_def)

lemma fast_steps: "\<exists>cs cb. certifier_steps fast_dag (certifier_state_new ctx4_fastpath) cs [cb] \<and>
   reference (cb_block cb) = BlockRef 1 0 1 \<and> cb_rejected cb = []"
proof -
  obtain cs cs' cb where run: "add_voted_blocks (map (\<lambda>b. (b, [])) fast_blocks) (certifier_state_new ctx4_fastpath) = Some (cs, [])"
      "add_proposed_block (fast_blocks ! 4) cs = Some (cs', [cb])" "reference (cb_block cb) = BlockRef 1 0 1" "cb_rejected cb = []"
    using fast_run by auto
  have "certifier_steps fast_dag (certifier_state_new ctx4_fastpath) cs []"
    using certifier_voted[OF certifier_start _ run(1), of fast_dag] by (auto simp: fast_dag_iff)
  then show ?thesis using certifier_proposed[OF _ run(2)] run(3,4) by fastforce
qed

lemma rejecting_run: "\<exists>cs. certifier_steps fast_dag (certifier_state_new ctx4_fastpath) cs [] \<and>
   get_reject_votes cs (BlockRef 1 0 1) = Some [(1, 1)]"
proof -
  have "\<exists>cs. add_voted_blocks [(rejecting_block, [])] (certifier_state_new ctx4_fastpath) = Some (cs, []) \<and>
      fmlookup (cs_votes cs) (BlockRef 1 0 1) = Some (vote_info_default\<lparr>vi_reject_txn_votes :=
        fmupd 1 \<lparr>sa_votes = {|3|}, sa_stake = 1\<rparr> fmempty\<rparr>)"
    by (simp add: add_voted_blocks_def add_voted_block_def certifier_state_new_def ctx4_fastpath_def rejecting_block_def
        vote_entry_def vote_info_default_def GENESIS_ROUND_def committee4_def committee_authority_def add_block_votes_def
        add_reject_def output_certified_def take_certified_output_def aggregator_add_unique_def
        aggregator_new_def committee_stake_def test_authority_def)
  then obtain cs where cs: "add_voted_blocks [(rejecting_block, [])] (certifier_state_new ctx4_fastpath) = Some (cs, [])"
      "fmlookup (cs_votes cs) (BlockRef 1 0 1) = Some (vote_info_default\<lparr>vi_reject_txn_votes :=
        fmupd 1 \<lparr>sa_votes = {|3|}, sa_stake = 1\<rparr> fmempty\<rparr>)" by auto
  have "certifier_steps fast_dag (certifier_state_new ctx4_fastpath) cs []"
    using certifier_voted[OF certifier_start _ cs(1), of fast_dag] by (auto simp: fast_dag_iff)
  moreover have "fm_range (\<lambda>_. True) (fmupd (1::nat) x fmempty) = [(1, x)]" for x :: stake_aggregator
    by (simp add: fm_range_def fs_range_def sorted_list_of_fset.rep_eq)
  ultimately show ?thesis using cs(2) by (auto simp: get_reject_votes_def vote_info_default_def)
qed

section \<open>Properties\<close>

text \<open>
  C7. The certifier outputs a block only when the blocks justify it, and only once. In every run from
  the start, each output block is a received block; every transaction it lists as rejected is rejected in
  blocks of a quorum, and every other transaction (certified for the fast path) is accepted by a
  quorum: by blocks of the next round that include the block without rejecting the transaction. No
  block is output twice, and no operation on received or proposed blocks panics.
\<close>

theorem certifier_outputs_justified:
  assumes "certifier_steps G (certifier_state_new ctx) cs out" "block_world (ctx_committee ctx) G"
  shows "distinct (map (reference \<circ> cb_block) out) \<and>
     (\<forall>cb \<in> set out. G (reference (cb_block cb)) = Some (cb_block cb) \<and>
        (\<forall>i. quorum (ctx_committee ctx) \<le> stake_of (ctx_committee ctx)
           (if i \<in> set (cb_rejected cb) then rejecters (ctx_committee ctx) G (reference (cb_block cb)) i
            else accepters (ctx_committee ctx) G (reference (cb_block cb)) i))) \<and>
     (\<forall>bs. (\<forall>(b, _) \<in> set bs. G (reference b) = Some b) \<longrightarrow> add_voted_blocks bs cs \<noteq> None) \<and>
     (\<forall>b. add_proposed_block b cs \<noteq> None)"
proof -
  have ok: "certifier_ok (ctx_committee ctx) G cs" and out: "outputs_ok (ctx_committee ctx) G cs out"
    using certifier_steps_ok[OF assms] by auto
  have "add_voted_blocks bs cs \<noteq> None" if "\<forall>(b, _) \<in> set bs. G (reference b) = Some b" for bs
    using add_voted_blocks_ok[OF ok out that] by auto
  moreover have "add_proposed_block b cs \<noteq> None" for b using add_proposed_block_ok[OF ok out, of b] by auto
  ultimately show ?thesis using out unfolding outputs_ok_def certified_def by blast
qed

theorem certifier_outputs_justified_witness:
  "\<exists>cs cb. certifier_steps fast_dag (certifier_state_new ctx4_fastpath) cs [cb] \<and> reference (cb_block cb) = BlockRef 1 0 1 \<and>
     quorum committee4 \<le> stake_of committee4 (accepters committee4 fast_dag (BlockRef 1 0 1) 1)"
proof -
  have c: "ctx_committee ctx4_fastpath = committee4" by (simp add: ctx4_fastpath_def)
  obtain cs cb where run: "certifier_steps fast_dag (certifier_state_new ctx4_fastpath) cs [cb]"
      "reference (cb_block cb) = BlockRef 1 0 1" "cb_rejected cb = []" using fast_steps by blast
  note res = certifier_outputs_justified[OF run(1), unfolded c, OF fast_dag_world]
  have "quorum committee4 \<le> stake_of committee4 (accepters committee4 fast_dag (BlockRef 1 0 1) 1)"
    using res run(2,3) by simp
  then show ?thesis using run by blast
qed

text \<open>
  C6. The fast path is consistent. Take any two nodes of one epoch, with the blocks of faulty
  authorities below the validity threshold arbitrary. When both output the same block they reject the
  same transactions of it, and when one certifies a transaction, the reject votes the other has counted
  for it never reach a quorum, in whatever order and selection the blocks arrived.
\<close>

theorem certification_consistent:
  assumes "ctx_committee ctx1 = c" "ctx_committee ctx2 = c" "block_world c G"
    and "F \<subseteq> members c" "stake_of c F < validity c" "votes_once F G"
    and "certifier_steps G (certifier_state_new ctx1) cs1 out1" "certifier_steps G (certifier_state_new ctx2) cs2 out2"
    and "cb1 \<in> set out1"
  shows "(\<forall>cb2 \<in> set out2. reference (cb_block cb2) = reference (cb_block cb1) \<longrightarrow>
       cb_block cb2 = cb_block cb1 \<and> set (cb_rejected cb2) = set (cb_rejected cb1)) \<and>
     (\<forall>votes i s. get_reject_votes cs2 (reference (cb_block cb1)) = Some votes \<and> (i, s) \<in> set votes \<and>
        i \<notin> set (cb_rejected cb1) \<longrightarrow> unat s < quorum c)"
proof -
  have wf: "committee_wf c" using block_worldD(1)[OF assms(3)] .
  note no = no_reject_quorum[OF wf assms(4-6)]
  have ok: "certifier_ok c G cs2" "outputs_ok c G cs1 out1" "outputs_ok c G cs2 out2"
    using certifier_steps_ok[OF assms(7)] certifier_steps_ok[OF assms(8)] assms(1-3) by auto
  have excl: "\<not> (i \<in> set (cb_rejected cb) \<and> i \<notin> set (cb_rejected cb'))"
    if "certified c G cb" "certified c G cb'" "reference (cb_block cb) = reference (cb_block cb')" for cb cb' i
  proof
    assume i: "i \<in> set (cb_rejected cb) \<and> i \<notin> set (cb_rejected cb')"
    show False using certifiedD(2)[OF that(1) conjunct1[OF i]] no[OF certifiedD(3)[OF that(2) conjunct2[OF i]]] that(3) by simp
  qed
  have c1: "certified c G cb1" using ok(2) assms(9) by (auto simp: outputs_ok_def)
  have "cb_block cb2 = cb_block cb1 \<and> set (cb_rejected cb2) = set (cb_rejected cb1)"
    if cb2: "cb2 \<in> set out2" "reference (cb_block cb2) = reference (cb_block cb1)" for cb2
  proof -
    have c2: "certified c G cb2" using ok(3) cb2(1) by (auto simp: outputs_ok_def)
    then have "cb_block cb2 = cb_block cb1" using certifiedD(1)[OF c1] certifiedD(1)[OF c2] cb2(2) by simp
    then show ?thesis using excl[OF c1 c2] excl[OF c2 c1] cb2(2) by auto
  qed
  moreover have "unat s < quorum c" if "get_reject_votes cs2 (reference (cb_block cb1)) = Some votes" "(i, s) \<in> set votes"
      "i \<notin> set (cb_rejected cb1)" for votes i s
    using reject_votes_le[OF ok(1) that(1,2)] no[OF certifiedD(3)[OF c1 that(3)]] by linarith
  ultimately show ?thesis by blast
qed

theorem certification_consistent_witness:
  "\<exists>cs1 cb cs2. certifier_steps fast_dag (certifier_state_new ctx4_fastpath) cs1 [cb] \<and>
     certifier_steps fast_dag (certifier_state_new ctx4_fastpath) cs2 [] \<and>
     get_reject_votes cs2 (reference (cb_block cb)) = Some [(1, 1)] \<and> unat (1 :: stake) < quorum committee4"
proof -
  have c: "ctx_committee ctx4_fastpath = committee4" by (simp add: ctx4_fastpath_def)
  obtain cs1 cb where run1: "certifier_steps fast_dag (certifier_state_new ctx4_fastpath) cs1 [cb]"
      "reference (cb_block cb) = BlockRef 1 0 1" "cb_rejected cb = []" using fast_steps by blast
  obtain cs2 where run2: "certifier_steps fast_dag (certifier_state_new ctx4_fastpath) cs2 []"
      "get_reject_votes cs2 (BlockRef 1 0 1) = Some [(1, 1)]" using rejecting_run by blast
  have F: "{3} \<subseteq> members committee4" "stake_of committee4 {3} < validity committee4"
    by (simp_all add: committee4_members stake_of_def committee4_weight validity_def) (simp add: committee4_def)
  have "cb \<in> set [cb]" by simp
  from certification_consistent[OF c c fast_dag_world F fast_dag_votes run1(1) run2(1) this]
  have "unat (1 :: stake) < quorum committee4" using run1(2,3) run2(2) by auto
  moreover have "get_reject_votes cs2 (reference (cb_block cb)) = Some [(1, 1)]" using run1(2) run2(2) by simp
  ultimately show ?thesis using run1(1) run2(1) by blast
qed

end
