(* ===== verification/AncestorState.thy ===== *)
theory AncestorState
  imports DagState RoundTracker
begin

text \<open>
  The ancestor states (\<open>core/src/ancestor.rs\<close>): which authorities a proposed block leaves out as
  ancestors, decided from propagation scores and quorum rounds, with a bound on the excluded stake.

  The shared DAG state is an argument of the operation that reads its clock.
\<close>

datatype ancestor_state = Include | Exclude "64 word"

record ancestor_info =
  ai_state :: ancestor_state
  ai_lock_until_round :: round

definition ancestor_info_new :: ancestor_info where
  "ancestor_info_new = \<lparr>ai_state = Include, ai_lock_until_round = 0\<rparr>"

definition is_locked :: "ancestor_info \<Rightarrow> round \<Rightarrow> bool" where
  "is_locked info current_clock_round \<longleftrightarrow> ai_lock_until_round info \<ge> current_clock_round"

definition set_lock :: "round \<Rightarrow> ancestor_info \<Rightarrow> ancestor_info" where
  "set_lock lock_until_round info = info\<lparr>ai_lock_until_round := lock_until_round\<rparr>"

record state_transition =
  st_authority_id :: authority_index
  st_score :: "64 word"
  st_stake :: stake
  st_high_quorum_round :: round

record ancestor_state_manager =
  am_context :: node_context
  am_state_map :: "ancestor_info list"
  am_excluded_nodes_stake_threshold :: stake
  am_total_excluded_stake :: stake
  am_propagation_scores :: reputation_scores

definition STATE_LOCK_CLOCK_ROUNDS :: nat where
  "STATE_LOCK_CLOCK_ROUNDS = 450"

definition SCORE_EXCLUSION_THRESHOLD_PERCENTAGE :: "64 word" where
  "SCORE_EXCLUSION_THRESHOLD_PERCENTAGE = 20"

definition ancestor_manager_new :: "node_context \<Rightarrow> ancestor_state_manager option" where
  "ancestor_manager_new ctx = do {
     bad \<leftarrow> pc_consensus_bad_nodes_stake_threshold (ctx_protocol_config ctx);
     let percentage = 2 * of_nat bad div 3;
     Some \<lparr>am_context = ctx, am_state_map = replicate (committee_size (ctx_committee ctx)) ancestor_info_new,
       am_excluded_nodes_stake_threshold = (percentage * c_total_stake (ctx_committee ctx)) div 100,
       am_total_excluded_stake = 0, am_propagation_scores = reputation_scores_default\<rparr>
   }"

definition set_propagation_scores :: "reputation_scores \<Rightarrow> ancestor_state_manager \<Rightarrow> ancestor_state_manager" where
  "set_propagation_scores scores m = m\<lparr>am_propagation_scores := scores\<rparr>"

definition get_ancestor_states :: "ancestor_state_manager \<Rightarrow> ancestor_state list" where
  "get_ancestor_states m = map ai_state (am_state_map m)"

definition calculate_network_high_quorum_round :: "committee \<Rightarrow> quorum_round list \<Rightarrow> round" where
  "calculate_network_high_quorum_round c accepted_quorum_rounds =
     (case first_quorum (c_quorum_threshold c) 0 (sort (stake_pairs c (map snd accepted_quorum_rounds))) of
        Some r \<Rightarrow> r | None \<Rightarrow> 0)"

definition apply_state_change :: "ancestor_state \<Rightarrow> round \<Rightarrow> state_transition \<Rightarrow> ancestor_state_manager
    \<Rightarrow> ancestor_state_manager option" where
  "apply_state_change new_state current_clock_round t m = do {
     _ \<leftarrow> committee_authority (ctx_committee (am_context m)) (st_authority_id t);
     info \<leftarrow> vec_get (am_state_map m) (st_authority_id t);
     total \<leftarrow> (case (ai_state info, new_state) of
         (Exclude _, Include) \<Rightarrow> if st_stake t \<le> am_total_excluded_stake m
           then Some (am_total_excluded_stake m - st_stake t) else None
       | (Include, Exclude _) \<Rightarrow> Some (am_total_excluded_stake m + st_stake t)
       | _ \<Rightarrow> None);
     infos \<leftarrow> vec_set (am_state_map m) (st_authority_id t)
       (set_lock (current_clock_round + STATE_LOCK_CLOCK_ROUNDS) (info\<lparr>ai_state := new_state\<rparr>));
     Some (m\<lparr>am_total_excluded_stake := total, am_state_map := infos\<rparr>)
   }"

text \<open>The two lists of transitions, exclude to include and include to exclude.\<close>

definition collect_transition :: "ancestor_state_manager \<Rightarrow> quorum_round list \<Rightarrow> round \<Rightarrow> 64 word \<Rightarrow> round
    \<Rightarrow> nat \<times> 64 word \<Rightarrow> state_transition list \<times> state_transition list
    \<Rightarrow> (state_transition list \<times> state_transition list) option" where
  "collect_transition m qrs clock low_score_threshold network_high = (\<lambda>(idx, score) (to_include, to_exclude). do {
     a \<leftarrow> to_authority_index (ctx_committee (am_context m)) idx;
     info \<leftarrow> vec_get (am_state_map m) idx;
     (_, high) \<leftarrow> vec_get qrs idx;
     auth \<leftarrow> committee_authority (ctx_committee (am_context m)) a;
     let t = \<lparr>st_authority_id = a, st_score = score, st_stake = a_stake auth, st_high_quorum_round = high\<rparr>;
     Some (if is_locked info clock then (to_include, to_exclude)
       else (case ai_state info of
           Include \<Rightarrow> if score \<le> low_score_threshold then (to_include, to_exclude @ [t]) else (to_include, to_exclude)
         | Exclude _ \<Rightarrow> if score > low_score_threshold \<or> high \<ge> network_high
             then (to_include @ [t], to_exclude) else (to_include, to_exclude)))
   })"

definition exclude_step :: "round \<Rightarrow> state_transition \<Rightarrow> ancestor_state_manager \<Rightarrow> ancestor_state_manager option" where
  "exclude_step clock t m =
     (if am_total_excluded_stake m + st_stake t \<le> am_excluded_nodes_stake_threshold m
      then apply_state_change (Exclude (st_score t)) clock t m else Some m)"

definition low_score_threshold :: "ancestor_state_manager \<Rightarrow> 64 word" where
  "low_score_threshold m = (highest_score (am_propagation_scores m) * SCORE_EXCLUSION_THRESHOLD_PERCENTAGE) div 100"

definition threshold_clock_round :: "dag_state \<Rightarrow> round" where
  "threshold_clock_round ds = tc_round (ds_threshold_clock ds)"

definition update_all_ancestors_state :: "quorum_round list \<Rightarrow> dag_state \<Rightarrow> ancestor_state_manager
    \<Rightarrow> ancestor_state_manager option" where
  "update_all_ancestors_state qrs ds m = do {
     let network_high = calculate_network_high_quorum_round (ctx_committee (am_context m)) qrs;
     let clock = threshold_clock_round ds;
     (to_include, to_exclude) \<leftarrow> try_fold (collect_transition m qrs clock (low_score_threshold m) network_high)
       (List.enumerate 0 (rs_scores_per_authority (am_propagation_scores m))) ([], []);
     m1 \<leftarrow> try_fold (apply_state_change Include clock) to_include m;
     try_fold (exclude_step clock) (sort_key st_score to_exclude) m1
   }"

section \<open>The bound on the excluded stake\<close>

abbreviation am_committee :: "ancestor_state_manager \<Rightarrow> committee" where
  "am_committee m \<equiv> ctx_committee (am_context m)"

definition excluded :: "ancestor_state_manager \<Rightarrow> authority_index set" where
  "excluded m = {i \<in> members (am_committee m). ai_state (am_state_map m ! i) \<noteq> Include}"

definition exclusion_inv :: "ancestor_state_manager \<Rightarrow> bool" where
  "exclusion_inv m \<longleftrightarrow> committee_wf (am_committee m) \<and> length (am_state_map m) = committee_size (am_committee m) \<and>
     unat (am_total_excluded_stake m) = stake_of (am_committee m) (excluded m) \<and>
     am_total_excluded_stake m \<le> am_excluded_nodes_stake_threshold m \<and>
     100 * unat (am_excluded_nodes_stake_threshold m) \<le> 22 * stake_of (am_committee m) (members (am_committee m))"

text \<open>What no change of state touches.\<close>

definition same_setup :: "ancestor_state_manager \<Rightarrow> ancestor_state_manager \<Rightarrow> bool" where
  "same_setup m m' \<longleftrightarrow> am_context m' = am_context m \<and> am_propagation_scores m' = am_propagation_scores m \<and>
     am_excluded_nodes_stake_threshold m' = am_excluded_nodes_stake_threshold m"

definition moved :: "round \<Rightarrow> ancestor_state \<Rightarrow> ancestor_info \<Rightarrow> ancestor_info" where
  "moved clock s info = set_lock (clock + STATE_LOCK_CLOCK_ROUNDS) (info\<lparr>ai_state := s\<rparr>)"

lemma moved_simps [simp]: "ai_state (moved clock s info) = s" "ai_lock_until_round (moved clock s info) = clock + STATE_LOCK_CLOCK_ROUNDS"
  by (simp_all add: moved_def set_lock_def)

text \<open>The transition of a member carries its stake.\<close>

definition transition_of :: "committee \<Rightarrow> state_transition \<Rightarrow> bool" where
  "transition_of c t \<longleftrightarrow> st_authority_id t \<in> members c \<and> st_stake t = a_stake (c_authorities c ! st_authority_id t)"

lemma stake_of_split: "finite A \<Longrightarrow> i \<in> A \<Longrightarrow> stake_of c A = weight c i + stake_of c (A - {i})"
  unfolding stake_of_def by (rule sum.remove)

lemma total_stake_bound:
  assumes "committee_wf c" "A \<subseteq> members c"
  shows "stake_of c A < 2 ^ 64"
  using stake_of_le_total[OF assms] unsigned_less[of "c_total_stake c", where 'a = nat] by simp

lemma include_ok:
  fixes clock :: round
  assumes inv: "exclusion_inv m" and t: "transition_of (am_committee m) t" and st: "st_authority_id t \<in> excluded m"
  defines "m' \<equiv> m\<lparr>am_total_excluded_stake := am_total_excluded_stake m - st_stake t,
     am_state_map := (am_state_map m)[st_authority_id t := moved clock Include (am_state_map m ! st_authority_id t)]\<rparr>"
  shows "apply_state_change Include clock t m = Some m' \<and> exclusion_inv m' \<and> excluded m' = excluded m - {st_authority_id t}"
proof -
  let ?c = "am_committee m" and ?i = "st_authority_id t"
  have i: "?i < committee_size ?c" "?i < length (am_state_map m)" and w: "unat (st_stake t) = weight ?c ?i"
    using t inv by (auto simp: transition_of_def members_def exclusion_inv_def weight_def)
  have ex: "excluded m' = excluded m - {?i}" using i by (auto simp: excluded_def m'_def nth_list_update)
  have sum: "stake_of ?c (excluded m) = weight ?c ?i + stake_of ?c (excluded m - {?i})"
    by (rule stake_of_split[OF _ st]) (simp add: excluded_def)
  then have le: "st_stake t \<le> am_total_excluded_stake m" using inv w by (simp add: exclusion_inv_def word_le_nat_alt)
  have "unat (am_total_excluded_stake m') = stake_of ?c (excluded m')"
    using inv le sum w unfolding ex by (simp add: exclusion_inv_def m'_def unat_sub)
  moreover have "am_total_excluded_stake m' \<le> am_excluded_nodes_stake_threshold m'"
    using inv le by (simp add: exclusion_inv_def m'_def word_le_nat_alt unat_sub) linarith
  ultimately have "exclusion_inv m'" using inv by (simp add: exclusion_inv_def m'_def)
  moreover obtain s where "ai_state (am_state_map m ! ?i) = Exclude s"
    using st by (cases "ai_state (am_state_map m ! ?i)") (auto simp: excluded_def)
  ultimately show ?thesis using i le ex
    by (simp add: apply_state_change_def committee_authority_def committee_size_def m'_def moved_def)
qed

lemma exclude_ok:
  fixes clock :: round
  assumes inv: "exclusion_inv m" and t: "transition_of (am_committee m) t" and st: "st_authority_id t \<notin> excluded m"
    and fits: "am_total_excluded_stake m + st_stake t \<le> am_excluded_nodes_stake_threshold m"
  defines "m' \<equiv> m\<lparr>am_total_excluded_stake := am_total_excluded_stake m + st_stake t,
     am_state_map := (am_state_map m)[st_authority_id t := moved clock (Exclude (st_score t)) (am_state_map m ! st_authority_id t)]\<rparr>"
  shows "apply_state_change (Exclude (st_score t)) clock t m = Some m' \<and> exclusion_inv m' \<and>
     excluded m' = insert (st_authority_id t) (excluded m)"
proof -
  let ?c = "am_committee m" and ?i = "st_authority_id t"
  have i: "?i < committee_size ?c" "?i < length (am_state_map m)" "?i \<in> members ?c" and w: "unat (st_stake t) = weight ?c ?i"
    using t inv by (auto simp: transition_of_def members_def exclusion_inv_def weight_def)
  have ex: "excluded m' = insert ?i (excluded m)" using i by (auto simp: excluded_def m'_def nth_list_update)
  have fin: "finite (excluded m)" and sub: "insert ?i (excluded m) \<subseteq> members ?c" using i by (auto simp: excluded_def)
  have sum: "stake_of ?c (insert ?i (excluded m)) = weight ?c ?i + stake_of ?c (excluded m)"
    using fin st by (simp add: stake_of_def)
  have "unat (am_total_excluded_stake m) + unat (st_stake t) < 2 ^ LENGTH(64)"
    using total_stake_bound[OF _ sub] inv sum w by (simp add: exclusion_inv_def)
  then have "unat (am_total_excluded_stake m + st_stake t) = unat (am_total_excluded_stake m) + unat (st_stake t)"
    by (rule unat_plus_no_wrap)
  then have "unat (am_total_excluded_stake m') = stake_of ?c (excluded m')"
    using inv sum w unfolding ex by (simp add: exclusion_inv_def m'_def)
  then have "exclusion_inv m'" using inv fits by (simp add: exclusion_inv_def m'_def)
  moreover have "ai_state (am_state_map m ! ?i) = Include" using st i(3) by (simp add: excluded_def)
  ultimately show ?thesis using i ex
    by (simp add: apply_state_change_def committee_authority_def committee_size_def m'_def moved_def)
qed

lemma includes_ok:
  assumes "exclusion_inv m" "distinct (map st_authority_id ts)"
    and "\<forall>t \<in> set ts. transition_of (am_committee m) t \<and> st_authority_id t \<in> excluded m"
  shows "\<exists>m'. try_fold (apply_state_change Include clock) ts m = Some m' \<and> exclusion_inv m' \<and> same_setup m m' \<and>
     excluded m' = excluded m - st_authority_id ` set ts \<and>
     (\<forall>i < committee_size (am_committee m). am_state_map m' ! i =
        (if i \<in> st_authority_id ` set ts then moved clock Include (am_state_map m ! i) else am_state_map m ! i))"
  using assms
proof (induction ts arbitrary: m)
  case (Cons t ts)
  let ?m = "m\<lparr>am_total_excluded_stake := am_total_excluded_stake m - st_stake t,
     am_state_map := (am_state_map m)[st_authority_id t := moved clock Include (am_state_map m ! st_authority_id t)]\<rparr>"
  have 1: "apply_state_change Include clock t m = Some ?m" "exclusion_inv ?m" "excluded ?m = excluded m - {st_authority_id t}"
    using include_ok[OF Cons.prems(1), of t clock] Cons.prems(3) by auto
  have ne: "st_authority_id t' \<noteq> st_authority_id t" if "t' \<in> set ts" for t'
    using Cons.prems(2) that by (auto simp: image_iff)
  have "\<forall>t' \<in> set ts. transition_of (am_committee ?m) t' \<and> st_authority_id t' \<in> excluded ?m"
    using Cons.prems(3) ne unfolding 1(3) by auto
  from Cons.IH[OF 1(2) _ this] Cons.prems(2) obtain m' where
    2: "try_fold (apply_state_change Include clock) ts ?m = Some m'" "exclusion_inv m'" "same_setup ?m m'"
      "excluded m' = excluded ?m - st_authority_id ` set ts"
      "\<forall>i < committee_size (am_committee m). am_state_map m' ! i =
        (if i \<in> st_authority_id ` set ts then moved clock Include (am_state_map ?m ! i) else am_state_map ?m ! i)"
    by auto
  have len: "length (am_state_map m) = committee_size (am_committee m)" using Cons.prems(1) by (simp add: exclusion_inv_def)
  have "\<forall>i < committee_size (am_committee m). am_state_map m' ! i =
      (if i \<in> st_authority_id ` set (t # ts) then moved clock Include (am_state_map m ! i) else am_state_map m ! i)"
    using 2(5) Cons.prems(2) len by (auto simp: nth_list_update)
  moreover have "excluded m' = excluded m - st_authority_id ` set (t # ts)" using 2(4) 1(3) by auto
  ultimately show ?case using 1(1) 2(1,2,3) by (auto simp: same_setup_def)
qed (simp add: same_setup_def)

lemma exclude_no_wrap:
  assumes inv: "exclusion_inv m" and t: "transition_of (am_committee m) t" and st: "st_authority_id t \<notin> excluded m"
  shows "unat (am_total_excluded_stake m + st_stake t) = unat (am_total_excluded_stake m) + unat (st_stake t)"
proof (rule unat_plus_no_wrap)
  let ?c = "am_committee m" and ?i = "st_authority_id t"
  have "stake_of ?c (insert ?i (excluded m)) = weight ?c ?i + stake_of ?c (excluded m)"
    using st by (simp add: stake_of_def excluded_def)
  moreover have "insert ?i (excluded m) \<subseteq> members ?c" using t by (auto simp: transition_of_def excluded_def)
  ultimately show "unat (am_total_excluded_stake m) + unat (st_stake t) < 2 ^ LENGTH(64)"
    using total_stake_bound[of ?c "insert ?i (excluded m)"] inv t by (simp add: exclusion_inv_def transition_of_def weight_def)
qed

text \<open>
  Every candidate is excluded, unless its stake does not fit below the threshold any more. The
  excluded stake only grows in this phase, so it still does not fit at the end.
\<close>

definition excluded_or_full :: "round \<Rightarrow> ancestor_state_manager \<Rightarrow> ancestor_state_manager \<Rightarrow> state_transition \<Rightarrow> bool" where
  "excluded_or_full clock m m' t \<longleftrightarrow>
     am_state_map m' ! st_authority_id t = moved clock (Exclude (st_score t)) (am_state_map m ! st_authority_id t) \<or>
     am_state_map m' ! st_authority_id t = am_state_map m ! st_authority_id t \<and>
       unat (am_excluded_nodes_stake_threshold m) < unat (am_total_excluded_stake m') + unat (st_stake t)"

lemma excludes_ok:
  assumes "exclusion_inv m" "distinct (map st_authority_id ts)"
    and "\<forall>t \<in> set ts. transition_of (am_committee m) t \<and> st_authority_id t \<notin> excluded m"
  shows "\<exists>m'. try_fold (exclude_step clock) ts m = Some m' \<and> exclusion_inv m' \<and> same_setup m m' \<and>
     unat (am_total_excluded_stake m) \<le> unat (am_total_excluded_stake m') \<and>
     (\<forall>i. i \<notin> st_authority_id ` set ts \<longrightarrow> am_state_map m' ! i = am_state_map m ! i) \<and>
     (\<forall>t \<in> set ts. excluded_or_full clock m m' t)"
  using assms
proof (induction ts arbitrary: m)
  case (Cons t ts)
  have new: "st_authority_id t \<notin> st_authority_id ` set ts" using Cons.prems(2) by simp
  have t: "transition_of (am_committee m) t" "st_authority_id t \<notin> excluded m" using Cons.prems(3) by auto
  note plus = exclude_no_wrap[OF Cons.prems(1) t]
  show ?case
  proof (cases "am_total_excluded_stake m + st_stake t \<le> am_excluded_nodes_stake_threshold m")
    case True
    let ?m = "m\<lparr>am_total_excluded_stake := am_total_excluded_stake m + st_stake t,
       am_state_map := (am_state_map m)[st_authority_id t := moved clock (Exclude (st_score t)) (am_state_map m ! st_authority_id t)]\<rparr>"
    have 1: "exclude_step clock t m = Some ?m" "exclusion_inv ?m" "excluded ?m = insert (st_authority_id t) (excluded m)"
      using exclude_ok[OF Cons.prems(1) t True, of clock] True by (auto simp: exclude_step_def)
    have "\<forall>t' \<in> set ts. transition_of (am_committee ?m) t' \<and> st_authority_id t' \<notin> excluded ?m"
      using Cons.prems(3) new unfolding 1(3) by (auto simp: image_iff)
    from Cons.IH[OF 1(2) _ this] Cons.prems(2) obtain m' where
      2: "try_fold (exclude_step clock) ts ?m = Some m'" "exclusion_inv m'" "same_setup ?m m'"
        "unat (am_total_excluded_stake ?m) \<le> unat (am_total_excluded_stake m')"
        "\<forall>i. i \<notin> st_authority_id ` set ts \<longrightarrow> am_state_map m' ! i = am_state_map ?m ! i"
        "\<forall>t \<in> set ts. excluded_or_full clock ?m m' t"
      by auto
    have i: "st_authority_id t < length (am_state_map m)"
      using t(1) Cons.prems(1) by (simp add: transition_of_def members_def exclusion_inv_def)
    have "excluded_or_full clock m m' t" using 2(5) new i by (simp add: excluded_or_full_def)
    moreover have "\<forall>t' \<in> set ts. excluded_or_full clock m m' t'"
      using 2(6) new by (auto simp: excluded_or_full_def nth_list_update image_iff)
    moreover have "unat (am_total_excluded_stake m) \<le> unat (am_total_excluded_stake m')" using 2(4) plus by simp
    moreover have "same_setup m m'" using 2(3) by (simp add: same_setup_def)
    ultimately show ?thesis using 1(1) 2(1,2,5) by simp
  next
    case False
    then have "exclude_step clock t m = Some m" by (simp add: exclude_step_def)
    moreover obtain m' where m': "try_fold (exclude_step clock) ts m = Some m'" "exclusion_inv m'" "same_setup m m'"
        "unat (am_total_excluded_stake m) \<le> unat (am_total_excluded_stake m')"
        "\<forall>i. i \<notin> st_authority_id ` set ts \<longrightarrow> am_state_map m' ! i = am_state_map m ! i"
        "\<forall>t \<in> set ts. excluded_or_full clock m m' t"
      using Cons.IH[OF Cons.prems(1)] Cons.prems(2,3) by auto
    moreover have "excluded_or_full clock m m' t"
      using False plus m'(4,5) new by (simp add: excluded_or_full_def word_le_nat_alt)
    ultimately show ?thesis by simp
  qed
qed (simp add: same_setup_def)

section \<open>Collecting the transitions\<close>

definition transition :: "committee \<Rightarrow> quorum_round list \<Rightarrow> nat \<times> 64 word \<Rightarrow> state_transition" where
  "transition c qrs = (\<lambda>(i, score). \<lparr>st_authority_id = i, st_score = score,
     st_stake = a_stake (c_authorities c ! i), st_high_quorum_round = snd (qrs ! i)\<rparr>)"

definition to_include :: "ancestor_state_manager \<Rightarrow> quorum_round list \<Rightarrow> round \<Rightarrow> round \<Rightarrow> nat \<times> 64 word \<Rightarrow> bool" where
  "to_include m qrs clock nh = (\<lambda>(i, score). \<not> is_locked (am_state_map m ! i) clock \<and> ai_state (am_state_map m ! i) \<noteq> Include \<and>
     (score > low_score_threshold m \<or> snd (qrs ! i) \<ge> nh))"

definition to_exclude :: "ancestor_state_manager \<Rightarrow> round \<Rightarrow> nat \<times> 64 word \<Rightarrow> bool" where
  "to_exclude m clock = (\<lambda>(i, score). \<not> is_locked (am_state_map m ! i) clock \<and> ai_state (am_state_map m ! i) = Include \<and>
     score \<le> low_score_threshold m)"

lemma collect_transitions_ok:
  assumes "length (am_state_map m) = committee_size (am_committee m)" "length qrs = committee_size (am_committee m)"
    and "\<forall>(i, _) \<in> set ps. i < committee_size (am_committee m)"
  shows "try_fold (collect_transition m qrs clock (low_score_threshold m) nh) ps (as, bs) =
     Some (as @ map (transition (am_committee m) qrs) (filter (to_include m qrs clock nh) ps),
           bs @ map (transition (am_committee m) qrs) (filter (to_exclude m clock) ps))"
  using assms(3)
proof (induction ps arbitrary: as bs)
  case (Cons p ps)
  obtain i sc where p: "p = (i, sc)" by (cases p)
  then have i: "i < committee_size (am_committee m)" using Cons.prems by simp
  obtain l h where q: "qrs ! i = (l, h)" by (cases "qrs ! i")
  have "collect_transition m qrs clock (low_score_threshold m) nh p (as, bs) =
      Some (if to_include m qrs clock nh p then as @ [transition (am_committee m) qrs p] else as,
            if to_exclude m clock p then bs @ [transition (am_committee m) qrs p] else bs)"
    using i assms(1,2) q
    by (cases "ai_state (am_state_map m ! i)")
      (auto simp: collect_transition_def p to_include_def to_exclude_def transition_def to_authority_index_def
        committee_authority_def committee_size_def Let_def)
  then show ?case using Cons by simp
qed simp

text \<open>
  What an update makes of the authority \<open>i\<close>: included when it was excluded and has recovered; excluded
  when it was included and its score is low, unless its stake does not fit; otherwise unchanged, as
  is every locked authority and every authority without a score.
\<close>

definition updated_state :: "quorum_round list \<Rightarrow> round \<Rightarrow> ancestor_state_manager \<Rightarrow> ancestor_state_manager \<Rightarrow> nat \<Rightarrow> bool" where
  "updated_state qrs clock m m' i \<longleftrightarrow>
     (let scores = rs_scores_per_authority (am_propagation_scores m); old = am_state_map m ! i; new = am_state_map m' ! i;
        network_high = calculate_network_high_quorum_round (am_committee m) qrs in
      if is_locked old clock \<or> length scores \<le> i then new = old
      else if ai_state old \<noteq> Include
        then new = (if low_score_threshold m < scores ! i \<or> network_high \<le> snd (qrs ! i) then moved clock Include old else old)
      else if scores ! i \<le> low_score_threshold m
        then new = moved clock (Exclude (scores ! i)) old \<or> new = old \<and>
          unat (am_excluded_nodes_stake_threshold m) < unat (am_total_excluded_stake m') + weight (am_committee m) i
      else new = old)"

lemma transition_simps [simp]: "st_authority_id (transition c qrs p) = fst p" "st_score (transition c qrs p) = snd p"
  "st_stake (transition c qrs p) = a_stake (c_authorities c ! fst p)"
  by (auto simp: transition_def split: prod.splits)

lemma enumerate_mem: "p \<in> set (List.enumerate 0 xs) \<longleftrightarrow> fst p < length xs \<and> snd p = xs ! fst p"
  by (cases p) (auto simp: in_set_enumerate_eq)

lemma transitions_distinct: "distinct (map st_authority_id (map (transition c qrs) (filter P (List.enumerate 0 xs))))"
proof -
  have "map st_authority_id (map (transition c qrs) (filter P (List.enumerate 0 xs))) = map fst (filter P (List.enumerate 0 xs))" by simp
  then show ?thesis by (metis distinct_map_filter distinct_upt map_fst_enumerate)
qed

lemma transitions_ids:
  "i \<in> st_authority_id ` set (map (transition c qrs) (filter P (List.enumerate 0 xs))) \<longleftrightarrow> i < length xs \<and> P (i, xs ! i)"
  by (force simp: enumerate_mem image_iff)

text \<open>The two phases of an update: recovered authorities are included, then candidates are excluded.\<close>

lemma phases_updated:
  fixes qrs :: "quorum_round list" and clock :: round and m :: ancestor_state_manager
  defines "ps \<equiv> List.enumerate 0 (rs_scores_per_authority (am_propagation_scores m))"
    and "nh \<equiv> calculate_network_high_quorum_round (am_committee m) qrs"
  defines "A \<equiv> map (transition (am_committee m) qrs) (filter (to_include m qrs clock nh) ps)"
    and "B \<equiv> map (transition (am_committee m) qrs) (filter (to_exclude m clock) ps)"
  assumes 1: "am_state_map m1 ! i = (if i \<in> st_authority_id ` set A then moved clock Include (am_state_map m ! i) else am_state_map m ! i)"
    and 2: "i \<notin> st_authority_id ` set B \<longrightarrow> am_state_map m2 ! i = am_state_map m1 ! i" "\<forall>t \<in> set B. excluded_or_full clock m1 m2 t"
    and kept: "same_setup m m1"
  shows "updated_state qrs clock m m2 i"
proof (cases "i \<in> st_authority_id ` set B")
  let ?sc = "rs_scores_per_authority (am_propagation_scores m)"
  case True
  then have c: "i < length ?sc" "to_exclude m clock (i, ?sc ! i)" unfolding B_def ps_def transitions_ids by auto
  then have "transition (am_committee m) qrs (i, ?sc ! i) \<in> set B" by (auto simp: B_def ps_def enumerate_mem)
  with 2(2) have e: "excluded_or_full clock m1 m2 (transition (am_committee m) qrs (i, ?sc ! i))" by blast
  have "i \<notin> st_authority_id ` set A" unfolding A_def ps_def transitions_ids using c by (simp add: to_include_def to_exclude_def)
  then show ?thesis using 1 e c kept
    by (simp add: excluded_or_full_def updated_state_def to_exclude_def Let_def weight_def same_setup_def)
next
  let ?sc = "rs_scores_per_authority (am_propagation_scores m)"
  case False
  then have "am_state_map m2 ! i =
      (if i < length ?sc \<and> to_include m qrs clock nh (i, ?sc ! i) then moved clock Include (am_state_map m ! i) else am_state_map m ! i)"
    using 1 2(1) unfolding A_def ps_def transitions_ids by simp
  moreover have "\<not> (i < length ?sc \<and> to_exclude m clock (i, ?sc ! i))" using False unfolding B_def ps_def transitions_ids .
  ultimately show ?thesis by (auto simp: updated_state_def to_exclude_def to_include_def Let_def nh_def)
qed

lemma update_all_ok:
  assumes inv: "exclusion_inv m" and q: "length qrs = committee_size (am_committee m)"
    and s: "length (rs_scores_per_authority (am_propagation_scores m)) \<le> committee_size (am_committee m)"
  shows "\<exists>m'. update_all_ancestors_state qrs ds m = Some m' \<and> exclusion_inv m' \<and> same_setup m m' \<and>
     (\<forall>i < committee_size (am_committee m). updated_state qrs (threshold_clock_round ds) m m' i)"
proof -
  let ?c = "am_committee m" and ?clock = "threshold_clock_round ds" and ?sc = "rs_scores_per_authority (am_propagation_scores m)"
  let ?nh = "calculate_network_high_quorum_round ?c qrs"
  let ?ps = "List.enumerate 0 ?sc"
  let ?A = "map (transition ?c qrs) (filter (to_include m qrs ?clock ?nh) ?ps)"
  let ?B = "map (transition ?c qrs) (filter (to_exclude m ?clock) ?ps)"
  have len: "length (am_state_map m) = committee_size ?c" using inv by (simp add: exclusion_inv_def)
  note mem = enumerate_mem[of _ ?sc] and dist = transitions_distinct[of ?c qrs _ ?sc]
  have "\<forall>(i, _) \<in> set ?ps. i < committee_size ?c" using s by (auto simp: mem)
  from collect_transitions_ok[OF len q this, of ?clock ?nh "[]" "[]"]
  have collect: "try_fold (collect_transition m qrs ?clock (low_score_threshold m) ?nh) ?ps ([], []) = Some (?A, ?B)"
    by (simp only: append_Nil)
  have trans: "transition_of ?c (transition ?c qrs p)" if "p \<in> set ?ps" for p
    using that s by (auto simp: transition_of_def members_def mem)
  have inc: "\<forall>t \<in> set ?A. transition_of ?c t \<and> st_authority_id t \<in> excluded m"
    using trans s by (auto simp: excluded_def to_include_def members_def mem split: prod.splits)
  obtain m1 where 1: "try_fold (apply_state_change Include ?clock) ?A m = Some m1" "exclusion_inv m1" "same_setup m m1"
      "excluded m1 = excluded m - st_authority_id ` set ?A"
      "\<forall>i < committee_size ?c. am_state_map m1 ! i =
        (if i \<in> st_authority_id ` set ?A then moved ?clock Include (am_state_map m ! i) else am_state_map m ! i)"
    using includes_ok[OF inv dist inc] by blast
  have c1: "am_committee m1 = ?c" using 1(3) by (simp add: same_setup_def)
  have exc: "\<forall>t \<in> set (sort_key st_score ?B). transition_of (am_committee m1) t \<and> st_authority_id t \<notin> excluded m1"
    unfolding c1 1(4) using trans by (auto simp: excluded_def to_exclude_def split: prod.splits)
  have "distinct (map st_authority_id (sort_key st_score ?B))"
    using dist[of "to_exclude m ?clock"] by (metis distinct_map distinct_sort set_sort)
  from excludes_ok[OF 1(2) this exc, of ?clock] obtain m2 where
    2: "try_fold (exclude_step ?clock) (sort_key st_score ?B) m1 = Some m2" "exclusion_inv m2" "same_setup m1 m2"
      "\<forall>i. i \<notin> st_authority_id ` set ?B \<longrightarrow> am_state_map m2 ! i = am_state_map m1 ! i" "\<forall>t \<in> set ?B. excluded_or_full ?clock m1 m2 t"
    by auto
  have "updated_state qrs ?clock m m2 i" if "i < committee_size ?c" for i
    using 1(5) 2(4,5) that by (intro phases_updated[OF _ _ _ 1(3)]) blast+
  moreover have "update_all_ancestors_state qrs ds m = Some m2"
    using collect 1(1) 2(1) by (simp add: update_all_ancestors_state_def Let_def)
  moreover have "same_setup m m2" using 1(3) 2(3) by (simp add: same_setup_def)
  ultimately show ?thesis using 2(2) by blast
qed

section \<open>Runs\<close>

lemma ancestor_manager_new_ok:
  assumes new: "ancestor_manager_new ctx = Some m" and wf: "committee_wf (ctx_committee ctx)"
    and bad: "pc_consensus_bad_nodes_stake_threshold (ctx_protocol_config ctx) = Some bad" "bad \<le> 33"
  shows "exclusion_inv m" "am_context m = ctx" "rs_scores_per_authority (am_propagation_scores m) = []"
    and "100 * unat (am_excluded_nodes_stake_threshold m) \<le> (2 * bad div 3) * unat (c_total_stake (ctx_committee ctx))"
proof -
  let ?c = "ctx_committee ctx" and ?p = "2 * of_nat bad div 3 :: 64 word"
  have m: "m = \<lparr>am_context = ctx, am_state_map = replicate (committee_size ?c) ancestor_info_new,
      am_excluded_nodes_stake_threshold = (?p * c_total_stake ?c) div 100,
      am_total_excluded_stake = 0, am_propagation_scores = reputation_scores_default\<rparr>"
    using new bad(1) by (simp add: ancestor_manager_new_def Let_def)
  have "unat (of_nat (2 * bad) :: 64 word) = 2 * bad" using bad(2) by (simp only: unsigned_of_nat take_bit_eq_mod) simp
  then have p: "unat ?p = 2 * bad div 3" by (simp add: unat_div)
  have "unat (?p * c_total_stake ?c) \<le> (2 * bad div 3) * unat (c_total_stake ?c)" by (simp add: unat_word_ariths(2) p)
  then have t: "100 * unat ((?p * c_total_stake ?c) div 100) \<le> (2 * bad div 3) * unat (c_total_stake ?c)"
    by (simp add: unat_div)
  also have "\<dots> \<le> 22 * unat (c_total_stake ?c)" using bad(2) by (intro mult_le_mono1) simp
  finally have "100 * unat ((?p * c_total_stake ?c) div 100) \<le> 22 * unat (c_total_stake ?c)" .
  moreover have "excluded m = {}" by (auto simp: excluded_def m members_def ancestor_info_new_def)
  ultimately show "exclusion_inv m" using wf unfolding exclusion_inv_def by (simp add: m stake_of_def committee_wf_def)
  show "am_context m = ctx" "rs_scores_per_authority (am_propagation_scores m) = []"
    by (simp_all add: m reputation_scores_default_def)
  show "100 * unat (am_excluded_nodes_stake_threshold m) \<le> (2 * bad div 3) * unat (c_total_stake ?c)" using t by (simp add: m)
qed

inductive ancestor_steps :: "ancestor_state_manager \<Rightarrow> ancestor_state_manager \<Rightarrow> bool" where
  ancestor_start: "ancestor_steps m m"
| ancestor_scores: "ancestor_steps m m1 \<Longrightarrow> length (rs_scores_per_authority scores) \<le> committee_size (am_committee m) \<Longrightarrow>
    ancestor_steps m (set_propagation_scores scores m1)"
| ancestor_update: "ancestor_steps m m1 \<Longrightarrow> length qrs = committee_size (am_committee m) \<Longrightarrow>
    update_all_ancestors_state qrs ds m1 = Some m2 \<Longrightarrow> ancestor_steps m m2"

lemma ancestor_steps_inv:
  "ancestor_steps m m' \<Longrightarrow> exclusion_inv m \<Longrightarrow>
   length (rs_scores_per_authority (am_propagation_scores m)) \<le> committee_size (am_committee m) \<Longrightarrow>
   exclusion_inv m' \<and> am_context m' = am_context m \<and>
   am_excluded_nodes_stake_threshold m' = am_excluded_nodes_stake_threshold m \<and>
   length (rs_scores_per_authority (am_propagation_scores m')) \<le> committee_size (am_committee m)"
proof (induction rule: ancestor_steps.induct)
  case (ancestor_scores m m1 scores)
  have "exclusion_inv (set_propagation_scores scores m1) = exclusion_inv m1"
    by (simp add: set_propagation_scores_def exclusion_inv_def excluded_def)
  then show ?case using ancestor_scores by (simp add: set_propagation_scores_def)
next
  case (ancestor_update m m1 qrs ds m2)
  then have 1: "exclusion_inv m1" "am_context m1 = am_context m"
      "am_excluded_nodes_stake_threshold m1 = am_excluded_nodes_stake_threshold m"
      "length (rs_scores_per_authority (am_propagation_scores m1)) \<le> committee_size (am_committee m1)" by auto
  from update_all_ok[OF 1(1) _ 1(4), of qrs ds] ancestor_update.hyps 1(2,3,4) show ?case by (auto simp: same_setup_def)
qed simp

lemma included_quorum:
  assumes "exclusion_inv m"
  shows "quorum (am_committee m) \<le> stake_of (am_committee m) {i \<in> members (am_committee m). ai_state (am_state_map m ! i) = Include}"
proof -
  let ?c = "am_committee m"
  have inv: "committee_wf ?c" "unat (am_total_excluded_stake m) = stake_of ?c (excluded m)"
      "unat (am_total_excluded_stake m) \<le> unat (am_excluded_nodes_stake_threshold m)"
      "100 * unat (am_excluded_nodes_stake_threshold m) \<le> 22 * stake_of ?c (members ?c)"
    using assms by (auto simp: exclusion_inv_def word_le_nat_alt)
  have "validity ?c = (stake_of ?c (members ?c) - 1) div 3 + 1" "0 < stake_of ?c (members ?c)"
    using inv(1) by (auto simp: committee_wf_def)
  then have "stake_of ?c (excluded m) < validity ?c" using inv by linarith
  moreover have "members ?c - excluded m = {i \<in> members ?c. ai_state (am_state_map m ! i) = Include}"
    by (auto simp: excluded_def)
  ultimately show ?thesis
    using cq.honest_quorum[OF inv(1), of "excluded m"] by (auto simp: stake_of_def excluded_def)
qed

section \<open>Property\<close>

text \<open>
  C39. Excluding ancestors never costs the quorum. With a bad-node threshold \<open>bad\<close> of at most 33
  percent, in every state of the manager that is reached from a new one by updates of the scores and
  of the states, the excluded stake is tracked exactly and is within the threshold that the manager
  was created with, hence at most \<open>2 * bad div 3\<close> percent of the total stake, and the included
  authorities hold a quorum, so a block can always find its parents. The next update never panics,
  keeps all of this, and settles every authority: a locked one and one without a score stay; an
  excluded one is included exactly when its score is above the low score or its high quorum round
  has caught up with the network; an included one is excluded for a score at or below the low score
  unless its stake does not fit below the threshold. What changes is locked for the lock period.
\<close>

theorem exclusion_keeps_quorum:
  assumes "ancestor_manager_new ctx = Some m0" "committee_wf (ctx_committee ctx)"
    and "pc_consensus_bad_nodes_stake_threshold (ctx_protocol_config ctx) = Some bad" "bad \<le> 33"
    and "ancestor_steps m0 m" "length qrs = committee_size (ctx_committee ctx)"
  shows "\<exists>m'. update_all_ancestors_state qrs ds m = Some m' \<and>
     (\<forall>i < committee_size (ctx_committee ctx). updated_state qrs (threshold_clock_round ds) m m' i) \<and>
     (\<forall>x \<in> {m, m'}.
        unat (am_total_excluded_stake x) = stake_of (ctx_committee ctx) (excluded x) \<and>
        am_total_excluded_stake x \<le> am_excluded_nodes_stake_threshold m0 \<and>
        100 * stake_of (ctx_committee ctx) (excluded x) \<le> (2 * bad div 3) * unat (c_total_stake (ctx_committee ctx)) \<and>
        quorum (ctx_committee ctx) \<le>
          stake_of (ctx_committee ctx) {i \<in> members (ctx_committee ctx). ai_state (am_state_map x ! i) = Include})"
proof -
  let ?c = "ctx_committee ctx"
  note new = ancestor_manager_new_ok[OF assms(1-4)]
  have m: "exclusion_inv m" "am_context m = ctx" "am_excluded_nodes_stake_threshold m = am_excluded_nodes_stake_threshold m0"
      "length (rs_scores_per_authority (am_propagation_scores m)) \<le> committee_size ?c"
    using ancestor_steps_inv[OF assms(5) new(1)] new(2,3) by auto
  obtain m' where m': "update_all_ancestors_state qrs ds m = Some m'" "exclusion_inv m'" "same_setup m m'"
      "\<forall>i < committee_size ?c. updated_state qrs (threshold_clock_round ds) m m' i"
    using update_all_ok[OF m(1), of qrs ds] m(2,4) assms(6) by auto
  have x: "exclusion_inv x" "am_context x = ctx" "am_excluded_nodes_stake_threshold x = am_excluded_nodes_stake_threshold m0"
    if "x \<in> {m, m'}" for x using that m m'(2,3) by (auto simp: same_setup_def)
  have tracked: "unat (am_total_excluded_stake x) = stake_of ?c (excluded x)"
      "am_total_excluded_stake x \<le> am_excluded_nodes_stake_threshold m0" if "x \<in> {m, m'}" for x
    using x[OF that] by (simp_all add: exclusion_inv_def)
  have bound: "100 * stake_of ?c (excluded x) \<le> (2 * bad div 3) * unat (c_total_stake ?c)" if "x \<in> {m, m'}" for x
  proof -
    have "stake_of ?c (excluded x) \<le> unat (am_excluded_nodes_stake_threshold m0)"
      using tracked[OF that] by (simp only: word_le_nat_alt)
    then show ?thesis using new(4) by linarith
  qed
  have quorum: "quorum ?c \<le> stake_of ?c {i \<in> members ?c. ai_state (am_state_map x ! i) = Include}" if "x \<in> {m, m'}" for x
    using included_quorum[OF x(1)[OF that]] unfolding x(2)[OF that] .
  show ?thesis
    by (intro exI[of _ m'] conjI ballI) (fact m'(1), fact m'(4), (rule tracked bound quorum, assumption)+)
qed

lemma tracker4_manager: "\<exists>m. ancestor_manager_new tracker4_ctx = Some m"
  by (simp add: ancestor_manager_new_def tracker4_ctx_def)

definition low_scores :: reputation_scores where
  "low_scores = \<lparr>rs_scores_per_authority = [9, 8, 0, 7], rs_commit_range = commit_range_default\<rparr>"

theorem exclusion_keeps_quorum_witness:
  "\<exists>m0 m. ancestor_manager_new tracker4_ctx = Some m0 \<and> ancestor_steps m0 m \<and> am_propagation_scores m = low_scores \<and>
     (\<forall>ds. \<exists>m'. update_all_ancestors_state [(1, 2), (1, 2), (0, 1), (1, 3)] ds m = Some m' \<and>
       100 * stake_of committee4 (excluded m') \<le> 13 * 4 \<and>
       quorum committee4 \<le> stake_of committee4 {i \<in> members committee4. ai_state (am_state_map m' ! i) = Include})"
proof -
  obtain m0 where m0: "ancestor_manager_new tracker4_ctx = Some m0" using tracker4_manager by blast
  have bad: "pc_consensus_bad_nodes_stake_threshold (ctx_protocol_config tracker4_ctx) = Some 20"
    by (simp add: tracker4_ctx_def)
  have wf: "committee_wf (ctx_committee tracker4_ctx)" by (simp add: committee4_wf)
  let ?m = "set_propagation_scores low_scores m0"
  have "am_context m0 = tracker4_ctx" by (rule ancestor_manager_new_ok(2)[OF m0 wf bad]) simp
  then have steps: "ancestor_steps m0 ?m"
    using ancestor_scores[OF ancestor_start, of low_scores m0] by (simp add: low_scores_def)
  note res = exclusion_keeps_quorum[OF m0 wf bad _ steps, of "[(1, 2), (1, 2), (0, 1), (1, 3)]"]
  have "am_propagation_scores ?m = low_scores" by (simp add: set_propagation_scores_def)
  moreover have "unat (c_total_stake committee4) = 4" by (simp add: committee4_def)
  ultimately show ?thesis using m0 steps res by (intro exI[of _ m0] exI[of _ ?m]) auto
qed

end
