(* ===== verification/TransactionPool.thy ===== *)
theory TransactionPool
  imports BlockVerifier
begin

text \<open>
  The transaction pool (\<open>core/src/transaction.rs\<close>): the client that submits bundles of transactions,
  the consumer that puts them into proposed blocks, and the status notifications of own blocks.

  The bounded channel between client and consumer is the list of the bundles in it. A oneshot sender
  is a number: the acknowledgement of a bundle and the later block status go to the same submitter.
  \<open>TransactionIndex\<close> is 16 bits wide; the casts to it are written out.
\<close>

definition txn_index_max :: nat where
  "txn_index_max = 2 ^ 16 - 1"

definition NUM_RESERVED_TRANSACTION_INDICES :: nat where
  "NUM_RESERVED_TRANSACTION_INDICES = 8"

definition PING_TRANSACTION_INDEX :: nat where
  "PING_TRANSACTION_INDEX = txn_index_max"

definition as_txn_index :: "nat \<Rightarrow> nat" where
  "as_txn_index n = n mod 2 ^ 16"

definition MAX_PENDING_TRANSACTIONS :: nat where
  "MAX_PENDING_TRANSACTIONS = 2000"

record transactions_guard =
  tg_transactions :: "transaction list"
  tg_included_in_block_ack :: nat

datatype block_status = Sequenced block_ref | GarbageCollected block_ref

datatype limit_reached = MaxNumOfTransactions | MaxBytes | AllTransactionsIncluded

record transaction_consumer =
  co_tx_receiver :: "transactions_guard list"
  co_max_transactions_in_block_bytes :: nat
  co_max_num_transactions_in_block :: nat
  co_pending_transactions :: "transactions_guard option"
  co_block_status_subscribers :: "(block_ref, nat list) fmap"

definition consumer_new :: "node_context \<Rightarrow> transaction_consumer option" where
  "consumer_new ctx = do {
     rust_assert (max_num_transactions_in_block (ctx_protocol_config ctx) - 1 <
       txn_index_max - NUM_RESERVED_TRANSACTION_INDICES);
     Some \<lparr>co_tx_receiver = [],
       co_max_transactions_in_block_bytes = max_transactions_in_block_bytes (ctx_protocol_config ctx),
       co_max_num_transactions_in_block = max_num_transactions_in_block (ctx_protocol_config ctx),
       co_pending_transactions = None, co_block_status_subscribers = fmempty\<rparr>
   }"

section \<open>Taking transactions for a block\<close>

text \<open>The variables that the closure \<open>handle_txs\<close> of \<open>next\<close> captures.\<close>

record proposal_batch =
  pb_transactions :: "transaction list"
  pb_acks :: "(nat \<times> transaction_index list) list"
  pb_total_bytes :: nat
  pb_limit_reached :: limit_reached

definition batch_empty :: proposal_batch where
  "batch_empty = \<lparr>pb_transactions = [], pb_acks = [], pb_total_bytes = 0, pb_limit_reached = AllTransactionsIncluded\<rparr>"

definition handle_txs :: "transaction_consumer \<Rightarrow> transactions_guard \<Rightarrow> proposal_batch
    \<Rightarrow> proposal_batch \<times> transactions_guard option" where
  "handle_txs co t pb =
     (let num = length (tg_transactions t); bytes = sum_list (map length (tg_transactions t)) in
      if num = 0 then (pb\<lparr>pb_acks := pb_acks pb @ [(tg_included_in_block_ack t, [PING_TRANSACTION_INDEX])]\<rparr>, None)
      else if pb_total_bytes pb + bytes > co_max_transactions_in_block_bytes co
      then (pb\<lparr>pb_limit_reached := MaxBytes\<rparr>, Some t)
      else if length (pb_transactions pb) + num > co_max_num_transactions_in_block co
      then (pb\<lparr>pb_limit_reached := MaxNumOfTransactions\<rparr>, Some t)
      else let start = as_txn_index (length (pb_transactions pb)) in
        (pb\<lparr>pb_total_bytes := pb_total_bytes pb + bytes,
            pb_acks := pb_acks pb @ [(tg_included_in_block_ack t, [start..<as_txn_index (start + as_txn_index num)])],
            pb_transactions := pb_transactions pb @ tg_transactions t\<rparr>, None))"

text \<open>The loop that receives bundles until one does not fit or the channel is empty.\<close>

fun pull_txs :: "transaction_consumer \<Rightarrow> transactions_guard list \<Rightarrow> proposal_batch
    \<Rightarrow> proposal_batch \<times> transactions_guard option \<times> transactions_guard list" where
  "pull_txs co [] pb = (pb, None, [])"
| "pull_txs co (t # ts) pb = (case handle_txs co t pb of
     (pb', None) \<Rightarrow> pull_txs co ts pb'
   | (pb', Some t') \<Rightarrow> (pb', Some t', ts))"

text \<open>A pending bundle that does not fit into an empty block is dropped (\<open>debug_fatal!\<close> logs it).\<close>

definition consumer_next :: "transaction_consumer \<Rightarrow> transaction_consumer \<times> proposal_batch" where
  "consumer_next co =
     (let pb1 = (case co_pending_transactions co of None \<Rightarrow> batch_empty | Some t \<Rightarrow> fst (handle_txs co t batch_empty));
          (pb2, pending, rest) = pull_txs co (co_tx_receiver co) pb1
      in (co\<lparr>co_pending_transactions := pending, co_tx_receiver := rest\<rparr>, pb2))"

text \<open>The callback that \<open>next\<close> returns: what each submitter receives, and who waits for the status.\<close>

definition ack_one :: "block_ref \<Rightarrow> nat \<times> transaction_index list \<Rightarrow> transaction_consumer \<Rightarrow> transaction_consumer" where
  "ack_one r = (\<lambda>(ack, _) co. co\<lparr>co_block_status_subscribers := fmupd r
     ((case fmlookup (co_block_status_subscribers co) r of Some ss \<Rightarrow> ss | None \<Rightarrow> []) @ [ack])
     (co_block_status_subscribers co)\<rparr>)"

definition ack_transactions :: "block_ref \<Rightarrow> proposal_batch \<Rightarrow> transaction_consumer
    \<Rightarrow> transaction_consumer \<times> (nat \<times> block_ref \<times> transaction_index list) list" where
  "ack_transactions r pb co = (fold (ack_one r) (pb_acks pb) co, map (\<lambda>(ack, is). (ack, r, is)) (pb_acks pb))"

section \<open>Block status\<close>

definition notify_sequenced :: "block_ref \<Rightarrow> (block_ref, nat list) fmap \<times> (nat \<times> block_status) list
    \<Rightarrow> (block_ref, nat list) fmap \<times> (nat \<times> block_status) list" where
  "notify_sequenced r = (\<lambda>(subs, sent). case fmlookup subs r of
     None \<Rightarrow> (subs, sent)
   | Some ss \<Rightarrow> (fmdrop r subs, sent @ map (\<lambda>s. (s, Sequenced r)) ss))"

function notify_collected :: "round \<Rightarrow> (block_ref, nat list) fmap \<times> (nat \<times> block_status) list
    \<Rightarrow> (block_ref, nat list) fmap \<times> (nat \<times> block_status) list" where
  "notify_collected gc (subs, sent) = (case fs_first (fmdom subs) of
     None \<Rightarrow> (subs, sent)
   | Some r \<Rightarrow> if br_round r \<le> gc
       then notify_collected gc (fmdrop r subs, sent @ map (\<lambda>s. (s, GarbageCollected r)) (the (fmlookup subs r)))
       else (subs, sent))"
  by pat_completeness auto
termination
proof (relation "measure (\<lambda>(_, subs, _). fcard (fmdom subs))")
  fix gc r and subs :: "(block_ref, nat list) fmap" and sent :: "(nat \<times> block_status) list"
  assume "fs_first (fmdom subs) = Some r"
  then have "r |\<in>| fmdom subs" by (auto dest: fs_first_SomeD)
  then have "fcard (fmdom (fmdrop r subs)) < fcard (fmdom subs)" by (intro pfsubset_fcard_mono) auto
  then show "((gc, fmdrop r subs, sent @ map (\<lambda>s. (s, GarbageCollected r)) (the (fmlookup subs r))), gc, subs, sent)
      \<in> measure (\<lambda>(_, subs, _). fcard (fmdom subs))" by simp
qed simp

declare notify_collected.simps [simp del]

definition notify_own_blocks_status :: "block_ref list \<Rightarrow> round \<Rightarrow> transaction_consumer
    \<Rightarrow> transaction_consumer \<times> (nat \<times> block_status) list" where
  "notify_own_blocks_status committed_blocks gc co =
     (let (subs, sent) = notify_collected gc (fold notify_sequenced committed_blocks (co_block_status_subscribers co, []))
      in (co\<lparr>co_block_status_subscribers := subs\<rparr>, sent))"

section \<open>The client\<close>

datatype client_error =
    ConsensusShuttingDown string
  | OversizedTransaction nat nat
  | OversizedTransactionBundleBytes nat nat
  | OversizedTransactionBundleCount nat nat

record transaction_client =
  cl_max_transaction_size :: nat
  cl_max_transactions_in_block_bytes :: nat
  cl_max_transactions_in_block_count :: nat

definition client_new :: "node_context \<Rightarrow> transaction_client" where
  "client_new ctx = \<lparr>cl_max_transaction_size = max_transaction_size_bytes (ctx_protocol_config ctx),
     cl_max_transactions_in_block_bytes = max_transactions_in_block_bytes (ctx_protocol_config ctx),
     cl_max_transactions_in_block_count = max_num_transactions_in_block (ctx_protocol_config ctx)\<rparr>"

fun check_bundle :: "transaction_client \<Rightarrow> nat \<Rightarrow> transaction list \<Rightarrow> client_error option" where
  "check_bundle cl bundle_size [] = None"
| "check_bundle cl bundle_size (t # ts) =
     (if length t > cl_max_transaction_size cl then Some (OversizedTransaction (length t) (cl_max_transaction_size cl))
      else let size = bundle_size + length t in
        if size > cl_max_transactions_in_block_bytes cl
        then Some (OversizedTransactionBundleBytes size (cl_max_transactions_in_block_bytes cl))
        else check_bundle cl size ts)"

text \<open>
  \<open>submit_no_wait\<close> with the acknowledgement \<open>ack\<close>. The send waits while the channel is full, so a
  submission takes effect only when there is room.
\<close>

definition submit_no_wait :: "transaction_client \<Rightarrow> nat \<Rightarrow> transaction list \<Rightarrow> transaction_consumer
    \<Rightarrow> client_error + transaction_consumer" where
  "submit_no_wait cl ack ts co =
     (if length ts > cl_max_transactions_in_block_count cl
      then Inl (OversizedTransactionBundleCount (length ts) (cl_max_transactions_in_block_count cl))
      else case check_bundle cl 0 ts of
        Some e \<Rightarrow> Inl e
      | None \<Rightarrow> Inr (co\<lparr>co_tx_receiver := co_tx_receiver co @ [\<lparr>tg_transactions = ts, tg_included_in_block_ack = ack\<rparr>]\<rparr>))"

section \<open>What a block takes\<close>

definition bundles :: "transaction_consumer \<Rightarrow> transactions_guard list" where
  "bundles co = (case co_pending_transactions co of None \<Rightarrow> [] | Some t \<Rightarrow> [t]) @ co_tx_receiver co"

abbreviation bytes_of :: "transaction list \<Rightarrow> nat" where
  "bytes_of ts \<equiv> sum_list (map length ts)"

definition fits :: "transaction_consumer \<Rightarrow> transaction list \<Rightarrow> bool" where
  "fits co ts \<longleftrightarrow> bytes_of ts \<le> co_max_transactions_in_block_bytes co \<and> length ts \<le> co_max_num_transactions_in_block co"

text \<open>The position of each bundle in the block, from transaction \<open>n\<close> on.\<close>

fun placed :: "nat \<Rightarrow> transactions_guard list \<Rightarrow> (nat \<times> transaction_index list) list" where
  "placed n [] = []"
| "placed n (t # ts) = (tg_included_in_block_ack t,
     if tg_transactions t = [] then [PING_TRANSACTION_INDEX] else [n..<n + length (tg_transactions t)]) #
     placed (n + length (tg_transactions t)) ts"

lemma placed_append: "placed n (xs @ ys) = placed n xs @ placed (n + length (concat (map tg_transactions xs))) ys"
  by (induction xs arbitrary: n) (simp_all add: add.assoc)

lemma map_fst_placed [simp]: "map fst (placed n ts) = map tg_included_in_block_ack ts"
  by (induction ts arbitrary: n) simp_all

lemma placed_nth:
  assumes "(a, is) \<in> set (placed (length pre) ts)"
  shows "\<exists>t \<in> set ts. tg_included_in_block_ack t = a \<and>
    (if tg_transactions t = [] then is = [PING_TRANSACTION_INDEX]
     else map (\<lambda>i. (pre @ concat (map tg_transactions ts)) ! i) is = tg_transactions t \<and>
       (\<forall>i \<in> set is. i < length (pre @ concat (map tg_transactions ts))))"
  using assms
proof (induction ts arbitrary: pre)
  case (Cons t ts)
  show ?case
  proof (cases "(a, is) \<in> set (placed (length (pre @ tg_transactions t)) ts)")
    case True
    from Cons.IH[OF this] show ?thesis by auto
  next
    case False
    then have "a = tg_included_in_block_ack t" "is = (if tg_transactions t = [] then [PING_TRANSACTION_INDEX]
        else [length pre..<length pre + length (tg_transactions t)])" using Cons.prems by auto
    moreover have "map (\<lambda>i. (pre @ tg_transactions t @ xs) ! i) [length pre..<length pre + length (tg_transactions t)] = tg_transactions t"
      for xs by (intro nth_equalityI) (auto simp: nth_append)
    ultimately show ?thesis by auto
  qed
qed simp

definition holds :: "transaction_consumer \<Rightarrow> transactions_guard list \<Rightarrow> proposal_batch \<Rightarrow> bool" where
  "holds co gs pb \<longleftrightarrow> pb_transactions pb = concat (map tg_transactions gs) \<and> pb_total_bytes pb = bytes_of (pb_transactions pb) \<and>
     pb_acks pb = placed 0 gs \<and> fits co (pb_transactions pb)"

abbreviation limits_ok :: "transaction_consumer \<Rightarrow> bool" where
  "limits_ok co \<equiv> co_max_num_transactions_in_block co - 1 < txn_index_max - NUM_RESERVED_TRANSACTION_INDICES"

lemma handle_txs_holds:
  assumes "limits_ok co" "holds co gs pb"
  shows "handle_txs co t pb = (if fits co (pb_transactions pb @ tg_transactions t)
      then (pb\<lparr>pb_total_bytes := bytes_of (pb_transactions pb @ tg_transactions t), pb_acks := placed 0 (gs @ [t]),
              pb_transactions := concat (map tg_transactions (gs @ [t]))\<rparr>, None)
      else (pb\<lparr>pb_limit_reached := if bytes_of (pb_transactions pb @ tg_transactions t) > co_max_transactions_in_block_bytes co
              then MaxBytes else MaxNumOfTransactions\<rparr>, Some t))"
proof (cases "tg_transactions t = []")
  case True
  then show ?thesis using assms(2) by (auto simp: handle_txs_def holds_def placed_append fits_def intro!: proposal_batch.equality)
next
  case False
  have small: "as_txn_index n = n" if "n \<le> co_max_num_transactions_in_block co" for n
    using that assms(1) by (simp add: as_txn_index_def txn_index_max_def NUM_RESERVED_TRANSACTION_INDICES_def)
  show ?thesis
    using False assms(2) small[of "length (pb_transactions pb)"] small[of "length (tg_transactions t)"]
      small[of "length (pb_transactions pb) + length (tg_transactions t)"]
    by (auto simp: handle_txs_def holds_def placed_append fits_def Let_def intro!: proposal_batch.equality)
qed

lemma handle_txs_next:
  assumes "limits_ok co" "holds co gs pb"
  shows "handle_txs co t pb = (pb', None) \<Longrightarrow> holds co (gs @ [t]) pb'"
    and "handle_txs co t pb = (pb', Some t') \<Longrightarrow> t' = t \<and> holds co gs pb' \<and> \<not> fits co (concat (map tg_transactions (gs @ [t])))"
  using assms(2) unfolding handle_txs_holds[OF assms] by (auto simp: holds_def split: if_splits)

lemma pull_txs_holds:
  assumes "limits_ok co" "holds co gs pb" "pull_txs co ts pb = (pb', pending, rest)"
  shows "\<exists>us. ts = us @ (case pending of None \<Rightarrow> [] | Some t \<Rightarrow> [t]) @ rest \<and> holds co (gs @ us) pb' \<and>
     (pending = None \<longrightarrow> rest = []) \<and>
     (\<forall>t. pending = Some t \<longrightarrow> \<not> fits co (concat (map tg_transactions (gs @ us @ [t]))))"
  using assms(2,3)
proof (induction ts arbitrary: gs pb)
  case (Cons t ts)
  obtain pb1 r where r: "handle_txs co t pb = (pb1, r)" by (cases "handle_txs co t pb")
  show ?case
  proof (cases r)
    case None
    with r have "holds co (gs @ [t]) pb1" using handle_txs_next(1)[OF assms(1) Cons.prems(1)] by simp
    from Cons.IH[OF this] Cons.prems(2) r None obtain us where
      "ts = us @ (case pending of None \<Rightarrow> [] | Some t \<Rightarrow> [t]) @ rest" "holds co (gs @ t # us) pb'"
      "pending = None \<longrightarrow> rest = []" "\<forall>u. pending = Some u \<longrightarrow> \<not> fits co (concat (map tg_transactions (gs @ t # us @ [u])))"
      by auto
    then show ?thesis by (intro exI[of _ "t # us"]) auto
  next
    case (Some t')
    with r have "t' = t \<and> holds co gs pb1 \<and> \<not> fits co (concat (map tg_transactions (gs @ [t])))"
      using handle_txs_next(2)[OF assms(1) Cons.prems(1)] by simp
    then show ?thesis using Cons.prems(2) r Some by (intro exI[of _ "[]"]) auto
  qed
qed auto

lemma consumer_next_takes:
  assumes "limits_ok co" "\<forall>t \<in> set (bundles co). fits co (tg_transactions t)" "consumer_next co = (co', pb)"
  shows "\<exists>us. bundles co = us @ bundles co' \<and> holds co us pb \<and> (bundles co \<noteq> [] \<longrightarrow> us \<noteq> []) \<and>
     (\<forall>t ts. bundles co' = t # ts \<longrightarrow> \<not> fits co (concat (map tg_transactions (us @ [t]))))"
proof -
  let ?pend = "case co_pending_transactions co of None \<Rightarrow> [] | Some t \<Rightarrow> [t]"
  let ?pb = "case co_pending_transactions co of None \<Rightarrow> batch_empty | Some t \<Rightarrow> fst (handle_txs co t batch_empty)"
  have empty: "holds co [] batch_empty" by (simp add: holds_def batch_empty_def fits_def)
  have pb: "holds co ?pend ?pb"
  proof (cases "co_pending_transactions co")
    case (Some t)
    then have "fits co (tg_transactions t)" using assms(2) by (simp add: bundles_def)
    then have "snd (handle_txs co t batch_empty) = None"
      using handle_txs_holds[OF assms(1) empty, of t] by (simp add: batch_empty_def)
    then show ?thesis using Some handle_txs_next(1)[OF assms(1) empty, of t] by (metis append_Nil option.simps(5) prod.collapse)
  qed (use empty in simp)
  obtain pb2 pending rest where pull: "pull_txs co (co_tx_receiver co) ?pb = (pb2, pending, rest)"
    by (cases "pull_txs co (co_tx_receiver co) ?pb")
  from pull_txs_holds[OF assms(1) pb pull] obtain us where us: "co_tx_receiver co = us @ (case pending of None \<Rightarrow> [] | Some t \<Rightarrow> [t]) @ rest"
      "holds co (?pend @ us) pb2" "pending = None \<longrightarrow> rest = []"
      "\<forall>t. pending = Some t \<longrightarrow> \<not> fits co (concat (map tg_transactions (?pend @ us @ [t])))" by auto
  have co': "co' = co\<lparr>co_pending_transactions := pending, co_tx_receiver := rest\<rparr>" "pb = pb2"
    using assms(3) pull by (auto simp: consumer_next_def Let_def)
  have rest: "bundles co' = (case pending of None \<Rightarrow> [] | Some t \<Rightarrow> [t]) @ rest" using co' by (simp add: bundles_def)
  have "?pend @ us \<noteq> []" if some: "bundles co \<noteq> []"
  proof
    assume nil: "?pend @ us = []"
    then obtain t where t: "pending = Some t" using some us(1,3) by (auto simp: bundles_def split: option.splits)
    have "\<not> fits co (concat (map tg_transactions (?pend @ us @ [t])))" using us(4) t by blast
    then have "\<not> fits co (tg_transactions t)" using nil by simp
    moreover have "t \<in> set (bundles co)" using us(1) t by (simp add: bundles_def)
    ultimately show False using assms(2) by blast
  qed
  moreover have "\<forall>t ts. bundles co' = t # ts \<longrightarrow> \<not> fits co (concat (map tg_transactions ((?pend @ us) @ [t])))"
    using us(3,4) rest by (auto split: option.splits)
  ultimately show ?thesis using us(1,2) rest co'(2) by (intro exI[of _ "?pend @ us"]) (auto simp: bundles_def)
qed

section \<open>Runs of a pool\<close>

text \<open>
  A pool with the bundles submitted so far and what their submitters have received. A submission takes
  effect when the channel has room; a proposal takes transactions and acknowledges them.
\<close>

inductive pool_run :: "node_context \<Rightarrow> transaction_consumer \<Rightarrow> transactions_guard list
    \<Rightarrow> (nat \<times> block_ref \<times> transaction_index list) list \<Rightarrow> bool" for ctx where
  pool_new: "consumer_new ctx = Some co \<Longrightarrow> pool_run ctx co [] []"
| pool_submit: "pool_run ctx co subs acks \<Longrightarrow> length (co_tx_receiver co) < MAX_PENDING_TRANSACTIONS \<Longrightarrow>
    submit_no_wait (client_new ctx) ack ts co = Inr co' \<Longrightarrow>
    pool_run ctx co' (subs @ [\<lparr>tg_transactions = ts, tg_included_in_block_ack = ack\<rparr>]) acks"
| pool_propose: "pool_run ctx co subs acks \<Longrightarrow> consumer_next co = (co1, pb) \<Longrightarrow> ack_transactions r pb co1 = (co', out) \<Longrightarrow>
    pool_run ctx co' subs (acks @ out)"
| pool_notify: "pool_run ctx co subs acks \<Longrightarrow> notify_own_blocks_status committed gc co = (co', sent) \<Longrightarrow>
    pool_run ctx co' subs acks"

definition pool_ok :: "protocol_config \<Rightarrow> transaction_consumer \<Rightarrow> bool" where
  "pool_ok pc co \<longleftrightarrow> limits_ok co \<and> co_max_transactions_in_block_bytes co = max_transactions_in_block_bytes pc \<and>
     co_max_num_transactions_in_block co = max_num_transactions_in_block pc \<and>
     (\<forall>t \<in> set (bundles co). fits co (tg_transactions t) \<and>
        (\<forall>x \<in> set (tg_transactions t). length x \<le> max_transaction_size_bytes pc))"

lemma check_bundle_None:
  "check_bundle cl n ts = None \<longleftrightarrow> (\<forall>t \<in> set ts. length t \<le> cl_max_transaction_size cl) \<and>
     (ts \<noteq> [] \<longrightarrow> n + bytes_of ts \<le> cl_max_transactions_in_block_bytes cl)"
proof (induction ts arbitrary: n)
  case (Cons t ts)
  show ?case using Cons.IH[of "n + length t"] by (cases ts) (auto simp: Let_def not_less add.assoc)
qed simp

lemma submit_accepts:
  "submit_no_wait (client_new ctx) ack ts co = Inr co' \<longleftrightarrow>
     length ts \<le> max_num_transactions_in_block (ctx_protocol_config ctx) \<and>
     bytes_of ts \<le> max_transactions_in_block_bytes (ctx_protocol_config ctx) \<and>
     (\<forall>t \<in> set ts. length t \<le> max_transaction_size_bytes (ctx_protocol_config ctx)) \<and>
     co' = co\<lparr>co_tx_receiver := co_tx_receiver co @ [\<lparr>tg_transactions = ts, tg_included_in_block_ack = ack\<rparr>]\<rparr>"
proof -
  have "check_bundle (client_new ctx) 0 ts = None \<longleftrightarrow>
      (\<forall>t \<in> set ts. length t \<le> max_transaction_size_bytes (ctx_protocol_config ctx)) \<and>
      bytes_of ts \<le> max_transactions_in_block_bytes (ctx_protocol_config ctx)"
    unfolding check_bundle_None by (cases "ts = []") (simp_all add: client_new_def)
  then show ?thesis
    by (auto simp: submit_no_wait_def client_new_def[of ctx] split: option.splits)
qed

lemma pool_ok_mono:
  assumes "pool_ok pc co" "set (bundles co') \<subseteq> set (bundles co)"
    and "co_max_transactions_in_block_bytes co' = co_max_transactions_in_block_bytes co"
    and "co_max_num_transactions_in_block co' = co_max_num_transactions_in_block co"
  shows "pool_ok pc co'"
  using assms by (auto simp: pool_ok_def fits_def)

lemma ack_one_same:
  "co_tx_receiver (fold (ack_one r) acks co) = co_tx_receiver co"
  "co_pending_transactions (fold (ack_one r) acks co) = co_pending_transactions co"
  "co_max_transactions_in_block_bytes (fold (ack_one r) acks co) = co_max_transactions_in_block_bytes co"
  "co_max_num_transactions_in_block (fold (ack_one r) acks co) = co_max_num_transactions_in_block co"
  by (induction acks arbitrary: co) (auto simp: ack_one_def split: prod.splits)

lemma bundles_cong:
  "co_tx_receiver co' = co_tx_receiver co \<Longrightarrow> co_pending_transactions co' = co_pending_transactions co \<Longrightarrow> bundles co' = bundles co"
  by (simp add: bundles_def)

lemma consumer_next_limits:
  assumes "consumer_next co = (co', pb)"
  shows "co_max_transactions_in_block_bytes co' = co_max_transactions_in_block_bytes co"
    "co_max_num_transactions_in_block co' = co_max_num_transactions_in_block co"
  using assms by (auto simp: consumer_next_def Let_def split: prod.splits)

lemma pool_run_ok:
  assumes "pool_run ctx co subs acks"
  shows "pool_ok (ctx_protocol_config ctx) co \<and>
     map tg_included_in_block_ack subs = map fst acks @ map tg_included_in_block_ack (bundles co)"
  using assms
proof (induction rule: pool_run.induct)
  case (pool_new co)
  then show ?case by (auto simp: consumer_new_def pool_ok_def bundles_def bind_eq_Some_conv)
next
  case (pool_submit co subs acks ack ts co')
  note sub = pool_submit.hyps(3)[unfolded submit_accepts]
  have co': "bundles co' = bundles co @ [\<lparr>tg_transactions = ts, tg_included_in_block_ack = ack\<rparr>]"
      "co_max_transactions_in_block_bytes co' = co_max_transactions_in_block_bytes co"
      "co_max_num_transactions_in_block co' = co_max_num_transactions_in_block co"
    using sub by (simp_all add: bundles_def)
  have "pool_ok (ctx_protocol_config ctx) co'"
    using pool_submit.IH sub[THEN conjunct1] sub[THEN conjunct2, THEN conjunct1] sub[THEN conjunct2, THEN conjunct2, THEN conjunct1]
    by (auto simp: pool_ok_def fits_def co')
  then show ?case using pool_submit.IH co'(1) by simp
next
  case (pool_propose co subs acks co1 pb r co' out)
  have ok: "pool_ok (ctx_protocol_config ctx) co" using pool_propose.IH by simp
  obtain us where us: "bundles co = us @ bundles co1" "holds co us pb"
    using consumer_next_takes[OF _ _ pool_propose.hyps(2)] ok by (auto simp: pool_ok_def)
  have co': "co' = fold (ack_one r) (pb_acks pb) co1" "map fst out = map fst (pb_acks pb)"
    using pool_propose.hyps(3) by (auto simp: ack_transactions_def)
  have same: "bundles co' = bundles co1" unfolding co'(1) by (intro bundles_cong) (simp_all add: ack_one_same)
  have "pool_ok (ctx_protocol_config ctx) co'"
    by (rule pool_ok_mono[OF ok]) (simp_all add: us(1) same, simp_all add: co'(1) consumer_next_limits[OF pool_propose.hyps(2)] ack_one_same)
  then show ?case using pool_propose.IH us same co'(2) by (simp add: holds_def)
next
  case (pool_notify co subs acks committed gc co' sent)
  then have "bundles co' = bundles co" "co_max_transactions_in_block_bytes co' = co_max_transactions_in_block_bytes co"
      "co_max_num_transactions_in_block co' = co_max_num_transactions_in_block co"
    by (auto simp: notify_own_blocks_status_def bundles_def split: prod.splits)
  then show ?case using pool_notify.IH pool_ok_mono[of "ctx_protocol_config ctx" co co'] by simp
qed

section \<open>Who learns what\<close>

definition waiting_for :: "(block_ref, nat list) fmap \<Rightarrow> block_ref \<Rightarrow> nat list" where
  "waiting_for subs r = (case fmlookup subs r of None \<Rightarrow> [] | Some ss \<Rightarrow> ss)"

abbreviation told :: "(block_ref \<Rightarrow> block_status) \<Rightarrow> (block_ref, nat list) fmap \<Rightarrow> block_ref list \<Rightarrow> (nat \<times> block_status) list" where
  "told st subs rs \<equiv> concat (map (\<lambda>r. map (\<lambda>s. (s, st r)) (waiting_for subs r)) rs)"

lemma told_cong: "(\<And>r. r \<in> set rs \<Longrightarrow> fmlookup subs r = fmlookup subs' r) \<Longrightarrow> told st subs rs = told st subs' rs"
  by (intro arg_cong[where f = concat] map_cong) (simp_all add: waiting_for_def)

lemma notify_sequenced_all:
  assumes "distinct rs"
  shows "fold notify_sequenced rs (subs, sent) = (fmfilter (\<lambda>r. r \<notin> set rs) subs, sent @ told Sequenced subs rs)"
  using assms
proof (induction rs arbitrary: subs sent)
  case (Cons r rs)
  have "notify_sequenced r (subs, sent) = (fmdrop r subs, sent @ told Sequenced subs [r])"
  proof (cases "fmlookup subs r")
    case None
    then have "fmdrop r subs = subs" by (intro fmap_ext) auto
    with None show ?thesis by (simp add: notify_sequenced_def waiting_for_def)
  qed (simp add: notify_sequenced_def waiting_for_def)
  moreover have "told Sequenced (fmdrop r subs) rs = told Sequenced subs rs"
    by (rule told_cong) (use Cons.prems in auto)
  moreover have "fmfilter (\<lambda>x. x \<notin> set rs) (fmdrop r subs) = fmfilter (\<lambda>x. x \<notin> set (r # rs)) subs"
    by (intro fmap_ext) auto
  ultimately show ?case using Cons by simp
next
  case Nil
  have "fmfilter (\<lambda>r. True) subs = subs" by (intro fmap_ext) simp
  then show ?case by simp
qed

lemma fs_range_first:
  assumes "fs_first s = Some r" "P r"
  shows "fs_range P s = r # fs_range P (s |-| {|r|})"
proof (rule sorted_distinct_set_unique)
  note r = fs_first_SomeD[OF assms(1)]
  show "sorted (fs_range P s)" using sorted_fs_range by (rule strict_sorted_imp_sorted)
  have "sorted (fs_range P (s |-| {|r|}))" using sorted_fs_range by (rule strict_sorted_imp_sorted)
  then show "sorted (r # fs_range P (s |-| {|r|}))" using r by auto
qed (use fs_first_SomeD[OF assms(1)] assms(2) in auto)

lemma notify_collected_all:
  "notify_collected gc (subs, sent) = (fmfilter (\<lambda>r. gc < br_round r) subs,
     sent @ told GarbageCollected subs (fs_range (\<lambda>r. br_round r \<le> gc) (fmdom subs)))"
proof (induction gc "(subs, sent)" arbitrary: subs sent rule: notify_collected.induct)
  case (1 gc subs sent)
  show ?case
  proof (cases "\<exists>r. fs_first (fmdom subs) = Some r \<and> br_round r \<le> gc")
    case True
    then obtain r where r: "fs_first (fmdom subs) = Some r" "br_round r \<le> gc" by blast
    let ?rs = "fs_range (\<lambda>r. br_round r \<le> gc) (fmdom (fmdrop r subs))"
    have "fmlookup subs r \<noteq> None" using fs_first_SomeD[OF r(1)] by (auto simp: fmlookup_dom_iff)
    then have "map (\<lambda>s. (s, GarbageCollected r)) (the (fmlookup subs r)) = told GarbageCollected subs [r]"
      by (auto simp: waiting_for_def)
    moreover have "told GarbageCollected (fmdrop r subs) ?rs = told GarbageCollected subs ?rs" by (rule told_cong) auto
    moreover have "fs_range (\<lambda>r. br_round r \<le> gc) (fmdom subs) = r # ?rs" using fs_range_first[OF r(1), of "\<lambda>r. br_round r \<le> gc"] r(2) by simp
    moreover have "fmfilter (\<lambda>x. gc < br_round x) (fmdrop r subs) = fmfilter (\<lambda>x. gc < br_round x) subs"
      using r(2) by (intro fmap_ext) auto
    ultimately show ?thesis using 1 r by (subst notify_collected.simps) simp
  next
    case False
    have above: "gc < br_round x" if x: "x |\<in>| fmdom subs" for x
    proof -
      obtain r where r: "fs_first (fmdom subs) = Some r" using x by (cases "fs_first (fmdom subs)") auto
      then have "\<not> br_round r \<le> gc" "r \<le> x" using False fs_first_SomeD[OF r] x by auto
      then show ?thesis using block_ref_le_round[of r x] by simp
    qed
    have "fmfilter (\<lambda>r. gc < br_round r) subs = subs" using above by (intro fmap_ext) (auto intro!: fmdom_notD[symmetric])
    moreover have "set (fs_range (\<lambda>r. br_round r \<le> gc) (fmdom subs)) = {}" by (auto dest!: above)
    ultimately show ?thesis using False by (subst notify_collected.simps) (auto split: option.splits)
  qed
qed

section \<open>Properties\<close>

text \<open>
  C36. No submitted bundle is lost, repeated or overtaken, and proposals stay valid. In every run of
  the pool, the accepted bundles are, in the order of submission, the acknowledged ones, those the
  next proposal takes and those still waiting; when a bundle waits the proposal takes at least one.
  The transactions taken pass the check that the block verifier of every peer runs, and each submitter
  gets the exact positions of its transactions in the block. For an empty bundle it gets the ping
  index, where the comment on \<open>submit\<close> announces an empty list of indices.
\<close>

theorem pool_delivers_in_order:
  assumes "pool_run ctx co subs acks" and "consumer_next co = (co', pb)"
  shows "map tg_included_in_block_ack subs =
       map fst acks @ map fst (pb_acks pb) @ map tg_included_in_block_ack (bundles co') \<and>
     (bundles co \<noteq> [] \<longrightarrow> pb_acks pb \<noteq> []) \<and>
     check_transactions (ctx_protocol_config ctx) (pb_transactions pb) = ok () \<and>
     (\<forall>(a, is) \<in> set (pb_acks pb). \<exists>t \<in> set (bundles co). tg_included_in_block_ack t = a \<and>
        (if tg_transactions t = [] then is = [PING_TRANSACTION_INDEX]
         else map (\<lambda>i. pb_transactions pb ! i) is = tg_transactions t \<and> (\<forall>i \<in> set is. i < length (pb_transactions pb))))"
proof -
  have ok: "pool_ok (ctx_protocol_config ctx) co"
    and subs: "map tg_included_in_block_ack subs = map fst acks @ map tg_included_in_block_ack (bundles co)"
    using pool_run_ok[OF assms(1)] by auto
  obtain us where us: "bundles co = us @ bundles co'" "holds co us pb" "bundles co \<noteq> [] \<longrightarrow> us \<noteq> []"
    using consumer_next_takes[OF _ _ assms(2)] ok by (auto simp: pool_ok_def)
  have pb: "pb_transactions pb = concat (map tg_transactions us)" "pb_acks pb = placed 0 us" "fits co (pb_transactions pb)"
    using us(2) by (auto simp: holds_def)
  have order: "map tg_included_in_block_ack subs =
      map fst acks @ map fst (pb_acks pb) @ map tg_included_in_block_ack (bundles co')"
    using subs us(1) pb(2) by simp
  have progress: "bundles co \<noteq> [] \<longrightarrow> pb_acks pb \<noteq> []" using us(3) pb(2) by (cases us) auto
  have valid: "check_transactions (ctx_protocol_config ctx) (pb_transactions pb) = ok ()"
    unfolding check_transactions_iff using ok pb(1,3) us(1) by (auto simp: valid_transactions_def pool_ok_def fits_def)
  have placed: "\<exists>t \<in> set (bundles co). tg_included_in_block_ack t = a \<and>
      (if tg_transactions t = [] then is = [PING_TRANSACTION_INDEX]
       else map (\<lambda>i. pb_transactions pb ! i) is = tg_transactions t \<and> (\<forall>i \<in> set is. i < length (pb_transactions pb)))"
    if "(a, is) \<in> set (pb_acks pb)" for a "is"
    using placed_nth[of a "is" "[]" us] that pb(1,2) us(1) by auto
  show ?thesis by (intro conjI ballI order progress valid) (clarify, erule placed)
qed

definition pool_ctx :: node_context where
  "pool_ctx = \<lparr>ctx_epoch_start_timestamp_ms = 0, ctx_own_index = 0, ctx_committee = committee4,
     ctx_parameters = parameters_default,
     ctx_protocol_config = \<lparr>pc_consensus_gc_depth = Some 3, pc_consensus_bad_nodes_stake_threshold = Some 20,
       pc_consensus_max_transactions_in_block_bytes = Some 4, pc_consensus_max_num_transactions_in_block = Some 3,
       pc_consensus_max_transaction_size_bytes = Some 2, pc_mysticeti_num_leaders_per_round = Some 1,
       pc_mysticeti_fastpath = False\<rparr>\<rparr>"

theorem pool_delivers_in_order_witness:
  "\<exists>co co' pb. pool_run pool_ctx co [\<lparr>tg_transactions = [[1, 2], [3]], tg_included_in_block_ack = 7\<rparr>,
       \<lparr>tg_transactions = [[4, 5]], tg_included_in_block_ack = 8\<rparr>] [] \<and> consumer_next co = (co', pb) \<and>
     [7, 8] = map fst (pb_acks pb) @ map tg_included_in_block_ack (bundles co') \<and> pb_acks pb \<noteq> [] \<and>
     check_transactions (ctx_protocol_config pool_ctx) (pb_transactions pb) = ok ()"
proof -
  let ?b1 = "\<lparr>tg_transactions = [[1, 2], [3]], tg_included_in_block_ack = 7\<rparr>"
  let ?b2 = "\<lparr>tg_transactions = [[4, 5]], tg_included_in_block_ack = 8\<rparr>"
  let ?co = "\<lambda>q. \<lparr>co_tx_receiver = q, co_max_transactions_in_block_bytes = 4, co_max_num_transactions_in_block = 3,
     co_pending_transactions = None, co_block_status_subscribers = fmempty\<rparr>"
  have lim: "max_num_transactions_in_block (ctx_protocol_config pool_ctx) = 3"
      "max_transactions_in_block_bytes (ctx_protocol_config pool_ctx) = 4"
      "max_transaction_size_bytes (ctx_protocol_config pool_ctx) = 2"
    by (simp_all add: pool_ctx_def max_num_transactions_in_block_def max_transactions_in_block_bytes_def max_transaction_size_bytes_def)
  have "pool_run pool_ctx (?co []) [] []"
    by (rule pool_new) (simp add: consumer_new_def lim txn_index_max_def NUM_RESERVED_TRANSACTION_INDICES_def)
  then have "pool_run pool_ctx (?co [?b1]) ([] @ [?b1]) []"
    by (rule pool_submit) (simp_all add: submit_accepts lim MAX_PENDING_TRANSACTIONS_def)
  then have run: "pool_run pool_ctx (?co [?b1, ?b2]) (([] @ [?b1]) @ [?b2]) []"
    by (rule pool_submit) (simp_all add: submit_accepts lim MAX_PENDING_TRANSACTIONS_def)
  obtain co' pb where "consumer_next (?co [?b1, ?b2]) = (co', pb)" by (cases "consumer_next (?co [?b1, ?b2])")
  with pool_delivers_in_order[OF run this] run show ?thesis
    by (intro exI[of _ "?co [?b1, ?b2]"] exI[of _ co'] exI[of _ pb]) (simp add: bundles_def)
qed

text \<open>
  C37. Every submitter learns the fate of its block exactly once. After a commit, the subscribers of
  each committed own block are told that it was sequenced, then in block order those of the other
  blocks at or below the garbage collection round that theirs was collected; exactly these are
  removed, and all other subscribers keep waiting.
\<close>

theorem status_told_once:
  assumes "distinct committed" and "notify_own_blocks_status committed gc co = (co', sent)"
  shows "sent = told Sequenced (co_block_status_subscribers co) committed @
       told GarbageCollected (co_block_status_subscribers co)
         (fs_range (\<lambda>r. br_round r \<le> gc \<and> r \<notin> set committed) (fmdom (co_block_status_subscribers co))) \<and>
     (\<forall>r. fmlookup (co_block_status_subscribers co') r =
        (if r \<in> set committed \<or> br_round r \<le> gc then None else fmlookup (co_block_status_subscribers co) r))"
proof -
  let ?subs = "co_block_status_subscribers co"
  let ?left = "fmfilter (\<lambda>r. r \<notin> set committed) ?subs"
  have range: "fs_range (\<lambda>r. br_round r \<le> gc) (fmdom ?left) = fs_range (\<lambda>r. br_round r \<le> gc \<and> r \<notin> set committed) (fmdom ?subs)"
    unfolding fs_range_def by (rule arg_cong[where f = sorted_list_of_fset]) auto
  have "told GarbageCollected ?left (fs_range (\<lambda>r. br_round r \<le> gc \<and> r \<notin> set committed) (fmdom ?subs)) =
      told GarbageCollected ?subs (fs_range (\<lambda>r. br_round r \<le> gc \<and> r \<notin> set committed) (fmdom ?subs))"
    by (rule told_cong) auto
  then show ?thesis using assms(2)
    by (auto simp: notify_own_blocks_status_def notify_sequenced_all[OF assms(1)] notify_collected_all range[simplified])
qed

theorem status_told_once_witness:
  "let co = \<lparr>co_tx_receiver = [], co_max_transactions_in_block_bytes = 4, co_max_num_transactions_in_block = 3,
       co_pending_transactions = None, co_block_status_subscribers = fmupd (BlockRef 2 0 5) [8]
         (fmupd (BlockRef 9 0 6) [9] fmempty)\<rparr>
   in told Sequenced (co_block_status_subscribers co) [BlockRef 9 0 6] = [(9, Sequenced (BlockRef 9 0 6))] \<and>
     (\<forall>r. fmlookup (co_block_status_subscribers (fst (notify_own_blocks_status [BlockRef 9 0 6] 3 co))) r =
       (if r \<in> set [BlockRef 9 0 6] \<or> br_round r \<le> 3 then None else fmlookup (co_block_status_subscribers co) r))"
  unfolding Let_def
  by (rule conjI, simp add: waiting_for_def, rule status_told_once[THEN conjunct2, OF _ prod.collapse[symmetric]]) simp

end
