(* ===== verification/Core.thy ===== *)
theory Core
  imports AncestorState BlockManager TransactionCertifier TransactionPool UniversalCommitter
begin

text \<open>
  The core of the authority (\<open>core/src/core.rs\<close>): when it proposes a block, which ancestors it
  chooses, how it builds, accepts and persists the block, and which synced commits it takes next.

  The shared objects that \<open>Core\<close> reaches through \<open>Arc<RwLock>\<close> are fields of its record. What the core
  is given and what changes from call to call are the records \<open>core_env\<close> and \<open>core_inputs\<close>: the clocks,
  the gauge of the quorum commit index, the delay of the adaptive pacing and the epoch change data.
  Channels are the lists of what was sent.
\<close>

record core_env =
  ce_crypto :: crypto
  ce_serialize :: "signed_block \<Rightarrow> bytes option"
  ce_block_signer :: bytes
  ce_rng :: rng

record core_inputs =
  in_now :: nat
  in_delay_clock_ms :: nat
  in_block_clock_ms :: nat
  in_quorum_commit_index :: commit_index
  in_adaptive_delay_ms :: nat
  in_epoch_change_proposal :: "bytes option"
  in_epoch_change_votes :: "bytes list"

record core_signals =
  sig_block_broadcast :: "extended_block list"
  sig_new_round :: round

record core =
  core_context :: node_context
  core_transaction_consumer :: transaction_consumer
  core_transaction_acks :: "(nat \<times> block_ref \<times> transaction_index list) list"
  core_transaction_certifier :: certifier_state
  core_certified_blocks :: "certified_block list"
  core_block_manager :: block_manager
  core_propagation_delay :: round
  core_decider :: universal_committer
  core_last_signaled_round :: round
  core_last_included_ancestors :: "block_ref option list"
  core_last_decided_leader :: slot
  core_leader_schedule :: leader_schedule
  core_signals_sent :: core_signals
  core_dag_state :: dag_state
  core_last_known_proposed_round :: "round option"
  core_ancestor_state_manager :: ancestor_state_manager
  core_round_tracker :: peer_round_tracker

abbreviation core_committee :: "core \<Rightarrow> committee" where
  "core_committee co \<equiv> ctx_committee (core_context co)"

definition MAX_COMMIT_VOTES_PER_BLOCK :: nat where
  "MAX_COMMIT_VOTES_PER_BLOCK = 100"

section \<open>Reads\<close>

definition last_proposed_block :: "core \<Rightarrow> verified_block option" where
  "last_proposed_block co = get_last_proposed_block (core_dag_state co)"

definition last_proposed_round :: "core \<Rightarrow> round option" where
  "last_proposed_round co = map_option vb_round (last_proposed_block co)"

definition last_proposed_timestamp_ms :: "core \<Rightarrow> block_timestamp_ms option" where
  "last_proposed_timestamp_ms co = map_option vb_timestamp_ms (last_proposed_block co)"

definition core_leaders :: "core_env \<Rightarrow> core \<Rightarrow> round \<Rightarrow> slot list option" where
  "core_leaders e co rnd = map_option (map (Slot rnd))
     (get_leaders (ce_rng e) (core_leader_schedule co) (core_decider co) rnd)"

definition first_leader :: "core_env \<Rightarrow> core \<Rightarrow> round \<Rightarrow> authority_index option" where
  "first_leader e co rnd = do {
     slots \<leftarrow> core_leaders e co rnd;
     (case slots of [] \<Rightarrow> None | s # _ \<Rightarrow> Some (slot_authority s))
   }"

text \<open>The search stops at the first leader that is not there.\<close>

fun all_slots_cached :: "dag_state \<Rightarrow> slot list \<Rightarrow> bool option" where
  "all_slots_cached ds [] = Some True"
| "all_slots_cached ds (s # ss) = do {
     found \<leftarrow> contains_cached_block_at_slot ds s;
     if found then all_slots_cached ds ss else Some False
   }"

definition leaders_exist :: "core_env \<Rightarrow> core \<Rightarrow> round \<Rightarrow> bool option" where
  "leaders_exist e co rnd = do {
     slots \<leftarrow> core_leaders e co rnd;
     all_slots_cached (core_dag_state co) slots
   }"

definition get_missing_blocks :: "core \<Rightarrow> block_ref fset" where
  "get_missing_blocks co = missing_blocks (core_block_manager co)"

section \<open>Whether to propose\<close>

text \<open>
  The percentages are computed in \<open>f64\<close>. For 32-bit commit indices \<open>lag / quorum * 100 > 10\<close> holds
  exactly when \<open>10 * lag > quorum\<close>: a ratio other than one tenth differs from it by more than the
  rounding errors, and one tenth gives exactly \<open>10.0\<close>. The severe lag and the hysteresis of the
  source only select log messages.
\<close>

definition MODERATE_LAG_THRESHOLD :: nat where
  "MODERATE_LAG_THRESHOLD = 100"

definition should_skip_consensus :: "commit_index \<Rightarrow> commit_index \<Rightarrow> bool" where
  "should_skip_consensus local_commit_index quorum_commit_index =
     (let lag = quorum_commit_index - local_commit_index
      in lag > MODERATE_LAG_THRESHOLD \<or> (quorum_commit_index > 0 \<and> 10 * lag > quorum_commit_index))"

definition should_propose :: "core_inputs \<Rightarrow> core \<Rightarrow> bool" where
  "should_propose i co =
     (let clock_round = threshold_clock_round (core_dag_state co) in
      if should_skip_consensus (last_commit_index (core_dag_state co)) (in_quorum_commit_index i) then False
      else if core_propagation_delay co > p_propagation_delay_stop_proposal_threshold (ctx_parameters (core_context co))
      then False
      else case core_last_known_proposed_round co of
          None \<Rightarrow> False
        | Some last_known \<Rightarrow> clock_round > last_known)"

definition set_propagation_delay :: "round \<Rightarrow> core \<Rightarrow> core" where
  "set_propagation_delay delay co = co\<lparr>core_propagation_delay := delay\<rparr>"

definition set_last_known_proposed_round :: "round \<Rightarrow> core \<Rightarrow> core option" where
  "set_last_known_proposed_round rnd co = do {
     rust_assert (core_last_known_proposed_round co = None);
     Some (co\<lparr>core_last_known_proposed_round := Some rnd\<rparr>)
   }"

section \<open>Choosing the ancestors\<close>

text \<open>
  The closure over all authorities: the included ancestors, the pending ones with their scores, and
  the references of excluded and equivocating blocks.
\<close>

type_synonym scored_block = "64 word \<times> verified_block"

definition consider_ancestor :: "core \<Rightarrow> ancestor_state list \<Rightarrow> verified_block \<times> block_ref list
    \<Rightarrow> verified_block list \<times> scored_block list \<times> block_ref fset
    \<Rightarrow> (verified_block list \<times> scored_block list \<times> block_ref fset) option" where
  "consider_ancestor co states = (\<lambda>(ancestor, equivocating) (included, pending, excluded).
     if vb_author ancestor = ctx_own_index (core_context co) then Some (included, pending, excluded)
     else do {
       last_included \<leftarrow> vec_get (core_last_included_ancestors co) (vb_author ancestor);
       if (case last_included of Some r \<Rightarrow> br_round r \<ge> vb_round ancestor | None \<Rightarrow> False)
       then Some (included, pending, excluded)
       else do {
         state \<leftarrow> vec_get states (vb_author ancestor);
         let excluded' = excluded |\<union>| fset_of_list equivocating;
         Some (case state of
             Include \<Rightarrow> (included @ [ancestor], pending, excluded')
           | Exclude score \<Rightarrow> (included, pending @ [(score, ancestor)], excluded'))
       }
     })"

text \<open>Pending ancestors of the parent round are taken until the parents are a quorum.\<close>

definition fill_parent :: "committee \<Rightarrow> round \<Rightarrow> scored_block
    \<Rightarrow> stake_aggregator \<times> verified_block list \<times> scored_block list
    \<Rightarrow> (stake_aggregator \<times> verified_block list \<times> scored_block list) option" where
  "fill_parent c quorum_round = (\<lambda>(score, ancestor) (parents, to_propose, excluded). do {
     _ \<leftarrow> committee_authority c (vb_author ancestor);
     if \<not> aggregator_reached_threshold QuorumThreshold parents c \<and> vb_round ancestor = quorum_round
     then do {
       (parents', _) \<leftarrow> aggregator_add QuorumThreshold parents (vb_author ancestor) c;
       Some (parents', to_propose @ [ancestor], excluded)
     } else Some (parents, to_propose, excluded @ [(score, ancestor)])
   })"

text \<open>
  The others are replaced by their last block that a quorum has accepted, when there is one that is
  not included yet. The state holds the last included ancestors of the core.
\<close>

definition include_accepted :: "committee \<Rightarrow> dag_state \<Rightarrow> quorum_round list \<Rightarrow> round \<Rightarrow> scored_block
    \<Rightarrow> block_ref option list \<times> verified_block list \<times> block_ref fset
    \<Rightarrow> (block_ref option list \<times> verified_block list \<times> block_ref fset) option" where
  "include_accepted c ds accepted_quorum_rounds quorum_round = (\<lambda>(_, ancestor) (last_included, to_propose, excluded). do {
     let a = vb_author ancestor;
     _ \<leftarrow> committee_authority c a;
     (low, _) \<leftarrow> vec_get accepted_quorum_rounds a;
     let accepted_low_quorum_round = min low quorum_round;
     last \<leftarrow> vec_get last_included a;
     let last_included_round = (case last of Some r \<Rightarrow> br_round r | None \<Rightarrow> GENESIS_ROUND);
     if vb_round ancestor \<le> last_included_round then Some (last_included, to_propose, excluded)
     else if last_included_round \<ge> accepted_low_quorum_round
     then Some (last_included, to_propose, finsert (reference ancestor) excluded)
     else do {
       (chosen, excluded') \<leftarrow> (if vb_round ancestor \<le> accepted_low_quorum_round
         then Some (Some ancestor, excluded)
         else do {
           earlier \<leftarrow> get_last_cached_block_in_range ds a (last_included_round + 1) (accepted_low_quorum_round + 1);
           Some (earlier, finsert (reference ancestor) excluded)
         });
       (case chosen of
          None \<Rightarrow> Some (last_included, to_propose, excluded')
        | Some b \<Rightarrow> do {
            last_included' \<leftarrow> vec_set last_included a (Some (reference b));
            Some (last_included', to_propose @ [b], excluded')
          })
     }
   })"

definition smart_ancestors_to_propose :: "round \<Rightarrow> bool \<Rightarrow> core
    \<Rightarrow> (core \<times> verified_block list \<times> block_ref fset) option" where
  "smart_ancestors_to_propose clock_round smart_select co = do {
     let ds = core_dag_state co;
     let c = core_committee co;
     all_ancestors \<leftarrow> get_last_cached_block_per_authority ds clock_round;
     rust_assert (length all_ancestors = committee_size c);
     accepted_quorum_rounds \<leftarrow> compute_accepted_quorum_rounds (core_round_tracker co);
     asm \<leftarrow> update_all_ancestors_state accepted_quorum_rounds ds (core_ancestor_state_manager co);
     let co1 = co\<lparr>core_ancestor_state_manager := asm\<rparr>;
     let quorum_round = clock_round - 1;
     own \<leftarrow> last_proposed_block co;
     (included, pending, excluded) \<leftarrow>
       try_fold (consider_ancestor co (get_ancestor_states asm)) all_ancestors ([own], [], {||});
     parents \<leftarrow> try_fold (\<lambda>b agg. map_option fst (aggregator_add QuorumThreshold agg (vb_author b) c))
       (filter (\<lambda>b. vb_round b = quorum_round) included) aggregator_new;
     if smart_select \<and> \<not> aggregator_reached_threshold QuorumThreshold parents c then Some (co1, [], {||})
     else do {
       (parents', to_propose, rest) \<leftarrow> try_fold (fill_parent c quorum_round)
         (sort_key (\<lambda>(score, _). - uint score) pending) (parents, included, []);
       (last_included, to_propose', excluded') \<leftarrow>
         try_fold (include_accepted c ds accepted_quorum_rounds quorum_round) rest
           (core_last_included_ancestors co, to_propose, excluded);
       rust_assert (aggregator_reached_threshold QuorumThreshold parents' c);
       Some (co1\<lparr>core_last_included_ancestors := last_included\<rparr>, to_propose', excluded')
     }
   }"

section \<open>Creating a block\<close>

text \<open>The proposal is too soon after the last one.\<close>

definition too_soon :: "core_inputs \<Rightarrow> core \<Rightarrow> bool option" where
  "too_soon i co = do {
     last_ts \<leftarrow> last_proposed_timestamp_ms co;
     Some (in_delay_clock_ms i - last_ts <
       p_min_round_delay_ms (ctx_parameters (core_context co)) + in_adaptive_delay_ms i)
   }"

definition ready_to_propose :: "core_env \<Rightarrow> core_inputs \<Rightarrow> bool \<Rightarrow> round \<Rightarrow> core \<Rightarrow> bool option" where
  "ready_to_propose e i force quorum_round co =
     (if force then Some True
      else do {
        exist \<leftarrow> leaders_exist e co quorum_round;
        if \<not> exist then Some False
        else do {
          soon \<leftarrow> too_soon i co;
          Some (\<not> soon)
        }
      })"

definition record_included :: "verified_block \<Rightarrow> block_ref option list \<Rightarrow> block_ref option list option" where
  "record_included b last_included = vec_set last_included (vb_author b) (Some (reference b))"

text \<open>The reject votes on the blocks that the proposed block newly includes in its history.\<close>

definition link_ancestor :: "verified_block \<Rightarrow> dag_state \<times> block_ref list \<Rightarrow> (dag_state \<times> block_ref list) option" where
  "link_ancestor b = (\<lambda>(ds, refs). do {
     (ds', new) \<leftarrow> link_causal_history (reference b) ds;
     Some (ds', refs @ new)
   })"

definition own_transaction_votes :: "verified_block list \<Rightarrow> core \<Rightarrow> (core \<times> block_transaction_votes list) option" where
  "own_transaction_votes ancestors co =
     (if pc_mysticeti_fastpath (ctx_protocol_config (core_context co)) then do {
        (ds', new_causal_history) \<leftarrow> try_fold link_ancestor ancestors (core_dag_state co, []);
        votes \<leftarrow> get_own_votes (core_transaction_certifier co) new_causal_history;
        Some (co\<lparr>core_dag_state := ds'\<rparr>, votes)
      } else Some (co, []))"

definition proposal_block :: "core_inputs \<Rightarrow> node_context \<Rightarrow> round \<Rightarrow> block_ref list \<Rightarrow> transaction list
    \<Rightarrow> commit_vote list \<Rightarrow> block_transaction_votes list \<Rightarrow> block" where
  "proposal_block i ctx clock_round ancestors transactions commit_votes transaction_votes =
     set_epoch_change_votes (in_epoch_change_votes i) (set_epoch_change_proposal (in_epoch_change_proposal i)
       (if pc_mysticeti_fastpath (ctx_protocol_config ctx)
        then V2 (block_v2_new (c_epoch (ctx_committee ctx)) clock_round (ctx_own_index ctx) (in_block_clock_ms i)
          ancestors transactions commit_votes transaction_votes [])
        else V1 (block_v1_new (c_epoch (ctx_committee ctx)) clock_round (ctx_own_index ctx) (in_block_clock_ms i)
          ancestors transactions commit_votes [])))"

definition expect_ok :: "'a fallible \<Rightarrow> 'a option" where
  "expect_ok r = (case r of Some (Inr x) \<Rightarrow> Some x | _ \<Rightarrow> None)"

text \<open>The own block counts as voted for before it is broadcast.\<close>

definition add_own_votes :: "verified_block \<Rightarrow> core \<Rightarrow> core option" where
  "add_own_votes b co =
     (if pc_mysticeti_fastpath (ctx_protocol_config (core_context co)) then do {
        (cs, certified) \<leftarrow> add_voted_blocks [(b, [])] (core_transaction_certifier co);
        (ds, _) \<leftarrow> link_causal_history (reference b) (core_dag_state co);
        Some (co\<lparr>core_transaction_certifier := cs, core_certified_blocks := core_certified_blocks co @ certified,
                 core_dag_state := ds\<rparr>)
      } else Some co)"

text \<open>From the chosen ancestors on: the block is built, accepted, persisted and acknowledged.\<close>

definition create_block :: "core_env \<Rightarrow> core_inputs \<Rightarrow> round \<Rightarrow> verified_block list \<Rightarrow> block_ref list \<Rightarrow> core
    \<Rightarrow> (core \<times> extended_block) option" where
  "create_block e i clock_round ancestors excluded_ancestors co = do {
     last_included \<leftarrow> try_fold record_included ancestors (core_last_included_ancestors co);
     leader \<leftarrow> first_leader e co (clock_round - 1);
     _ \<leftarrow> committee_authority (core_committee co) leader;
     _ \<leftarrow> try_map (\<lambda>b. committee_authority (core_committee co) (vb_author b)) ancestors;
     let (consumer, batch) = consumer_next (core_transaction_consumer co);
     let (ds1, commit_votes) = take_commit_votes MAX_COMMIT_VOTES_PER_BLOCK (core_dag_state co);
     let co1 = co\<lparr>core_last_included_ancestors := last_included, core_transaction_consumer := consumer,
       core_dag_state := ds1\<rparr>;
     (co2, transaction_votes) \<leftarrow> own_transaction_votes ancestors co1;
     let block = proposal_block i (core_context co) clock_round (map reference ancestors) (pb_transactions batch)
       commit_votes transaction_votes;
     signed \<leftarrow> expect_ok (signed_block_new (ce_crypto e) block (ce_block_signer e));
     serialized \<leftarrow> ce_serialize e signed;
     let b = new_verified (cry_hash (ce_crypto e)) signed serialized;
     _ \<leftarrow> last_proposed_block co2;
     ((bm, ds2), accepted, missing) \<leftarrow>
       try_accept_blocks (in_now i) [b] (core_block_manager co2, core_dag_state co2);
     rust_assert (length accepted = 1);
     rust_assert (missing = {||});
     co3 \<leftarrow> add_own_votes b (co2\<lparr>core_block_manager := bm, core_dag_state := ds2\<rparr>);
     ds3 \<leftarrow> flush (core_dag_state co3);
     let (consumer', acks) = ack_transactions (reference b) batch (core_transaction_consumer co3);
     let eb = \<lparr>eb_block = b, eb_excluded_ancestors = excluded_ancestors\<rparr>;
     tracker \<leftarrow> update_from_verified_block eb (core_round_tracker co3);
     Some (co3\<lparr>core_dag_state := ds3, core_transaction_consumer := consumer',
       core_transaction_acks := core_transaction_acks co3 @ acks, core_round_tracker := tracker\<rparr>, eb)
   }"

definition try_new_block :: "core_env \<Rightarrow> core_inputs \<Rightarrow> bool \<Rightarrow> core \<Rightarrow> (core \<times> extended_block option) option" where
  "try_new_block e i force co = do {
     let clock_round = threshold_clock_round (core_dag_state co);
     last_round \<leftarrow> last_proposed_round co;
     if clock_round \<le> last_round then Some (co, None)
     else do {
       ready \<leftarrow> ready_to_propose e i force (clock_round - 1) co;
       if \<not> ready then Some (co, None)
       else do {
         (co1, ancestors, excluded) \<leftarrow> smart_ancestors_to_propose clock_round (\<not> force) co;
         if ancestors = [] then do {
           rust_assert (\<not> force);
           Some (co1, None)
         } else do {
           let excluded_ancestors = take (committee_size (core_committee co) * 2) (sorted_list_of_fset excluded);
           (co2, eb) \<leftarrow> create_block e i clock_round ancestors excluded_ancestors co1;
           Some (co2, Some eb)
         }
       }
     }
   }"

section \<open>Signals\<close>

text \<open>A broadcast fails when every receiver is gone; \<open>reached\<close> says whether there is one.\<close>

definition signal_new_block :: "bool \<Rightarrow> extended_block \<Rightarrow> core \<Rightarrow> core fallible" where
  "signal_new_block reached eb co =
     (if committee_size (core_committee co) > 1 then
        if vb_round (eb_block eb) = GENESIS_ROUND then ok co
        else if reached then ok (co\<lparr>core_signals_sent := (core_signals_sent co)
          \<lparr>sig_block_broadcast := sig_block_broadcast (core_signals_sent co) @ [eb]\<rparr>\<rparr>)
        else err Shutdown
      else ok co)"

definition signal_new_round :: "round \<Rightarrow> core_signals \<Rightarrow> core_signals" where
  "signal_new_round rnd s = s\<lparr>sig_new_round := rnd\<rparr>"

definition try_signal_new_round :: "core \<Rightarrow> core" where
  "try_signal_new_round co =
     (let new_clock_round = threshold_clock_round (core_dag_state co) in
      if new_clock_round \<le> core_last_signaled_round co then co
      else co\<lparr>core_signals_sent := signal_new_round new_clock_round (core_signals_sent co),
              core_last_signaled_round := new_clock_round\<rparr>)"

section \<open>Synced commits\<close>

definition filter_new_commits :: "certified_commit list \<Rightarrow> core \<Rightarrow> certified_commit list consensus_result" where
  "filter_new_commits commits co =
     (let last_index = last_commit_index (core_dag_state co);
          new = filter (\<lambda>c. tc_index (cc_commit c) > last_index) commits
      in case new of
           [] \<Rightarrow> Inr []
         | c # _ \<Rightarrow> if tc_index (cc_commit c) \<noteq> last_index + 1
             then Inl (UnexpectedCertifiedCommitIndex (last_index + 1) (tc_index (cc_commit c)))
             else Inr new)"

definition certified_leader :: "core \<Rightarrow> certified_commit \<Rightarrow> (decided_leader \<times> certified_commit) option" where
  "certified_leader co commit = do {
     leader \<leftarrow> (case cc_blocks commit of [] \<Rightarrow> None | bs \<Rightarrow> Some (last bs));
     rust_assert (reference leader = tc_leader (cc_commit commit));
     _ \<leftarrow> update_metrics (core_context co) (DCommit leader False);
     Some (DCommit leader False, commit)
   }"

text \<open>The selected leaders, and the certified commits that are left.\<close>

definition try_select_certified_leaders :: "certified_commit list \<Rightarrow> nat \<Rightarrow> core
    \<Rightarrow> ((decided_leader \<times> certified_commit) list \<times> certified_commit list) option" where
  "try_select_certified_leaders certified_commits limit co = do {
     rust_assert (limit > 0);
     if certified_commits = [] then Some ([], [])
     else do {
       let (to_commit, left) = (if length certified_commits \<ge> limit
         then (take limit certified_commits, drop limit certified_commits) else (certified_commits, []));
       selected \<leftarrow> try_map (certified_leader co) to_commit;
       Some (selected, left)
     }
   }"

definition check_block_refs :: "block_ref list \<Rightarrow> core \<Rightarrow> (core \<times> block_ref fset) option" where
  "check_block_refs refs co = do {
     (bm, missing) \<leftarrow> try_find_blocks (core_dag_state co) refs (core_block_manager co);
     Some (co\<lparr>core_block_manager := bm\<rparr>, missing)
   }"

end
