(* ===== verification/DagReads.thy ===== *)
theory DagReads
  imports DagInv
begin

text \<open>
  The reads of the DAG state that a proposal uses: the last block of an authority, and the last
  cached block of every authority below a round.
\<close>

lemma genesis_block_author:
  assumes "genesis_inv ds" "r |\<in>| fmdom (ds_genesis ds)"
  shows "br_round r = 0" "br_author r < ds_size ds"
  using assms by (auto simp: genesis_inv_def one_per_authority_def fmlookup_dom_iff)

text \<open>The genesis blocks in the order of their references: entry \<open>a\<close> is the one of authority \<open>a\<close>.\<close>

lemma genesis_listed:
  assumes inv: "genesis_inv ds"
  shows "map (\<lambda>b. br_author (reference b)) (map snd (fm_range (\<lambda>_. True) (ds_genesis ds))) = [0..<ds_size ds]"
    and "a < ds_size ds \<Longrightarrow> lookup_block ds (reference (map snd (fm_range (\<lambda>_. True) (ds_genesis ds)) ! a)) =
      Some (map snd (fm_range (\<lambda>_. True) (ds_genesis ds)) ! a)"
    and "a < ds_size ds \<Longrightarrow> vb_round (map snd (fm_range (\<lambda>_. True) (ds_genesis ds)) ! a) = 0"
proof -
  let ?rs = "fs_range (\<lambda>_. True) (fmdom (ds_genesis ds))"
  let ?bs = "map snd (fm_range (\<lambda>_. True) (ds_genesis ds))"
  have gen: "fmlookup (ds_genesis ds) r = Some (the (fmlookup (ds_genesis ds) r)) \<and>
      reference (the (fmlookup (ds_genesis ds) r)) = r" if "r |\<in>| fmdom (ds_genesis ds)" for r
    using inv that by (auto simp: genesis_inv_def fmlookup_dom_iff)
  have bs: "?bs = map (\<lambda>r. the (fmlookup (ds_genesis ds) r)) ?rs" by (simp add: fm_range_def comp_def)
  have refs: "map reference ?bs = ?rs" unfolding bs using gen by (auto simp: comp_def intro!: map_idI)
  have less: "br_author r < br_author r'" if "r |\<in>| fmdom (ds_genesis ds)" "r' |\<in>| fmdom (ds_genesis ds)" "r < r'" for r r'
  proof -
    have "br_author r' \<noteq> br_author r" using inv that by (auto simp: genesis_inv_def one_per_authority_def)
    then show ?thesis using that genesis_block_author[OF inv] by (auto simp: block_ref_less_iff)
  qed
  have "sorted_wrt (<) (map br_author ?rs)"
    unfolding sorted_wrt_map using sorted_fs_range[of "\<lambda>_. True" "fmdom (ds_genesis ds)"]
    by (rule sorted_wrt_mono_rel[rotated]) (use less in auto)
  moreover have "set (map br_author ?rs) = {0..<ds_size ds}"
    using inv genesis_block_author(2)[OF inv] by (fastforce simp: genesis_inv_def)
  ultimately have "map br_author ?rs = [0..<ds_size ds]"
    by (intro sorted_distinct_set_unique) (auto simp: strict_sorted_iff)
  then show listed: "map (\<lambda>b. br_author (reference b)) ?bs = [0..<ds_size ds]"
    using arg_cong[OF refs, of "map br_author"] by (simp only: list.map_comp comp_def)
  have len: "length ?bs = ds_size ds" using arg_cong[OF listed, of length] by simp
  show "lookup_block ds (reference (?bs ! a)) = Some (?bs ! a)" "vb_round (?bs ! a) = 0" if a: "a < ds_size ds"
  proof -
    have "?bs ! a \<in> set ?bs" using a len by (metis nth_mem)
    then obtain r where r: "r |\<in>| fmdom (ds_genesis ds)" "?bs ! a = the (fmlookup (ds_genesis ds) r)"
      unfolding bs by auto
    then have "reference (?bs ! a) = r" "fmlookup (ds_genesis ds) r = Some (?bs ! a)" using gen[OF r(1)] by simp_all
    then show "lookup_block ds (reference (?bs ! a)) = Some (?bs ! a)" "vb_round (?bs ! a) = 0"
      using genesis_block_author(1)[OF inv r(1)] by (auto simp: lookup_block_def GENESIS_ROUND_def)
  qed
qed

text \<open>A loop over the elements with their positions.\<close>

lemma try_fold_enumerate:
  assumes "I 0 s" and "\<And>i s. i < length xs \<Longrightarrow> I i s \<Longrightarrow> \<exists>s'. f (i, xs ! i) s = Some s' \<and> I (Suc i) s'"
  shows "\<exists>s'. try_fold f (List.enumerate 0 xs) s = Some s' \<and> I (length xs) s'"
  using assms(2)
proof (induction xs rule: rev_induct)
  case Nil
  then show ?case using assms(1) by simp
next
  case (snoc x xs)
  have "\<exists>s'. f (i, xs ! i) s = Some s' \<and> I (Suc i) s'" if "i < length xs" "I i s" for i s
    using snoc.prems[of i s] that by (simp add: nth_append)
  from snoc.IH[OF this] obtain s1 where s1: "try_fold f (List.enumerate 0 xs) s = Some s1" "I (length xs) s1" by blast
  moreover obtain s2 where "f (length xs, x) s1 = Some s2" "I (Suc (length xs)) s2"
    using snoc.prems[of "length xs" s1] s1(2) by auto
  ultimately show ?case by (simp add: enumerate_snoc)
qed

section \<open>The last block of every authority\<close>

text \<open>The block \<open>b\<close> is the last one of \<open>a\<close> below \<open>end_round\<close>, and \<open>eq\<close> are those it equivocates with.\<close>

definition last_below :: "dag_state \<Rightarrow> round \<Rightarrow> authority_index \<Rightarrow> verified_block \<Rightarrow> block_ref list \<Rightarrow> bool" where
  "last_below ds end_round a b eq \<longleftrightarrow> lookup_block ds (reference b) = Some b \<and> vb_author b = a \<and> vb_round b < end_round \<and>
     (\<forall>r. r |\<in>| ds_recent_refs ds ! a \<and> br_round r < end_round \<and> ds_evicted_rounds ds ! a < br_round r \<longrightarrow> r \<le> reference b) \<and>
     set eq = {r. r |\<in>| ds_recent_refs ds ! a \<and> ds_evicted_rounds ds ! a < br_round r \<and> br_round r = vb_round b \<and> r \<noteq> reference b}"

lemma cached_lookup:
  assumes "cache_inv ds" "a < ds_size ds" "r |\<in>| ds_recent_refs ds ! a"
  shows "\<exists>bi. fmlookup (ds_recent_blocks ds) r = Some bi \<and> reference (bi_block bi) = r \<and>
     lookup_block ds r = Some (bi_block bi)" "br_author r = a" "0 < br_round r"
proof -
  obtain bi where bi: "fmlookup (ds_recent_blocks ds) r = Some bi" "br_author r = a"
    using assms by (auto simp: cache_inv_def fmlookup_dom_iff)
  then have "reference (bi_block bi) = r" "0 < br_round r" using assms(1) by (auto simp: cache_inv_def)
  with bi show "\<exists>bi. fmlookup (ds_recent_blocks ds) r = Some bi \<and> reference (bi_block bi) = r \<and>
     lookup_block ds r = Some (bi_block bi)" "br_author r = a" "0 < br_round r"
    by (auto simp: lookup_block_def GENESIS_ROUND_def)
qed

text \<open>The range of references that the walk for one authority covers.\<close>

lemma cached_range:
  assumes "cache_inv ds" "a < ds_size ds" "r |\<in>| ds_recent_refs ds ! a"
  shows "BlockRef (ev + 1) a digest_min \<le> r \<and> r < BlockRef end_round a digest_min \<longleftrightarrow>
     ev < br_round r \<and> br_round r < end_round"
proof -
  have "\<not> br_digest r < digest_min" "digest_min \<le> br_digest r" by (simp_all add: not_less)
  then show ?thesis using cached_lookup(2)[OF assms] by (auto simp: block_ref_le_iff block_ref_less_iff)
qed

text \<open>Walking down, the references of the first round seen come first.\<close>

lemma takeWhile_same_round:
  assumes "sorted_wrt (>) (r # rs)"
  shows "set (takeWhile (\<lambda>k. \<not> br_round k < br_round r) rs) = {k \<in> set rs. br_round k = br_round r}"
proof -
  have rs: "sorted_wrt (>) rs" "\<forall>k \<in> set rs. k < r" using assms by simp_all
  have le: "br_round y \<le> br_round x" if "y < x" for x y using that by (auto simp: block_ref_less_iff)
  have down: "sorted_wrt (\<lambda>x y. br_round y \<le> br_round x) rs"
    by (rule sorted_wrt_mono_rel[OF le rs(1)])
  have "set (takeWhile (\<lambda>k. \<not> br_round k < n) rs) = {k \<in> set rs. \<not> br_round k < n}" for n
    using down
  proof (induction rs)
    case (Cons k ks)
    then show ?case by (cases "br_round k < n") (auto dest: order.strict_trans1)
  qed simp
  then show ?thesis using rs(2) le by (auto simp: not_less le_antisym)
qed

lemma last_cached_of_authority_ok:
  assumes inv: "dag_inv ds" and a: "a < ds_size ds" and ev: "ds_evicted_rounds ds ! a < end_round - 1"
    and s: "length blocks = ds_size ds" "length equivs = ds_size ds" "equivs ! a = []"
    and gen: "lookup_block ds (reference (blocks ! a)) = Some (blocks ! a)" "vb_author (blocks ! a) = a"
      "vb_round (blocks ! a) = 0"
  shows "\<exists>b eq. last_cached_of_authority ds end_round (a, ds_recent_refs ds ! a) (blocks, equivs) =
     Some (blocks[a := b], equivs[a := eq]) \<and> last_below ds end_round a b eq"
proof -
  let ?ev = "ds_evicted_rounds ds ! a"
  let ?P = "\<lambda>k. BlockRef (?ev + 1) a digest_min \<le> k \<and> k < BlockRef end_round a digest_min"
  let ?rng = "fs_range ?P (ds_recent_refs ds ! a)"
  have c: "cache_inv ds" using inv by (simp add: dag_inv_def)
  note cl = cached_lookup[OF c a] and cr = cached_range[OF c a]
  have idx: "to_authority_index (ds_committee ds) a = Some a" "vec_get (ds_evicted_rounds ds) a = Some ?ev"
    using c a by (simp_all add: to_authority_index_def is_valid_index_def cache_inv_def)
  have rng: "set ?rng = {r. r |\<in>| ds_recent_refs ds ! a \<and> ?ev < br_round r \<and> br_round r < end_round}" using cr by auto
  show ?thesis
  proof (cases "rev ?rng")
    case Nil
    then have none: "\<not> (r |\<in>| ds_recent_refs ds ! a \<and> ?ev < br_round r \<and> br_round r < end_round)" for r
      using rng by (metis (mono_tags, lifting) empty_iff empty_set mem_Collect_eq rev_is_Nil_conv)
    have "last_below ds end_round a (blocks ! a) []"
      using none gen ev cl(3) by (auto simp: last_below_def)
    moreover have "last_cached_of_authority ds end_round (a, ds_recent_refs ds ! a) (blocks, equivs) = Some (blocks, equivs)"
      using Nil idx ev by (simp add: last_cached_of_authority_def)
    moreover have "blocks[a := blocks ! a] = blocks" "equivs[a := []] = equivs" using s(3) by (metis list_update_id)+
    ultimately show ?thesis by metis
  next
    case (Cons r rs)
    have "set (r # rs) = set ?rng" using Cons by (metis set_rev)
    then have mem: "set (r # rs) = {r. r |\<in>| ds_recent_refs ds ! a \<and> ?ev < br_round r \<and> br_round r < end_round}"
      unfolding rng .
    have desc: "sorted_wrt (>) (r # rs)"
      using sorted_fs_range[of ?P "ds_recent_refs ds ! a"] Cons by (metis sorted_wrt_rev rev_rev_ident)
    obtain bi where bi: "fmlookup (ds_recent_blocks ds) r = Some bi" "reference (bi_block bi) = r"
        "lookup_block ds r = Some (bi_block bi)" "br_author r = a"
      using cl(1,2)[of r] mem by auto
    have top: "k \<le> r" if "k \<in> set (r # rs)" for k using desc that by (auto simp: less_imp_le)
    let ?eq = "takeWhile (\<lambda>k. \<not> br_round k < br_round r) rs"
    have "r \<notin> set rs" using desc by auto
    then have e0: "set ?eq = {k \<in> set (r # rs). br_round k = br_round r \<and> k \<noteq> r}"
      using takeWhile_same_round[OF desc] by auto
    have memI: "k \<in> set (r # rs) \<longleftrightarrow> k |\<in>| ds_recent_refs ds ! a \<and> ?ev < br_round k \<and> br_round k < end_round" for k
      unfolding mem by simp
    have lt: "br_round r < end_round" using memI[of r] by simp
    have "k \<in> set ?eq \<longleftrightarrow> k |\<in>| ds_recent_refs ds ! a \<and> ?ev < br_round k \<and> br_round k = br_round r \<and> k \<noteq> r" for k
      unfolding e0 mem_Collect_eq memI using lt by auto
    then have eq: "set ?eq = {k. k |\<in>| ds_recent_refs ds ! a \<and> ?ev < br_round k \<and> br_round k = br_round r \<and> k \<noteq> r}"
      by blast
    have vb: "vb_author (bi_block bi) = a" "vb_round (bi_block bi) = br_round r"
      using arg_cong[OF bi(2), of br_author] arg_cong[OF bi(2), of br_round] bi(4) by simp_all
    have "last_below ds end_round a (bi_block bi) ?eq"
      unfolding last_below_def bi(2) vb eq
    proof (intro conjI allI impI)
      show "k \<le> r"
        if "k |\<in>| ds_recent_refs ds ! a \<and> br_round k < end_round \<and> ?ev < br_round k" for k
        using top[of k] memI[of k] that by simp
    qed (use bi(3) lt in simp_all)
    moreover have "last_cached_of_authority ds end_round (a, ds_recent_refs ds ! a) (blocks, equivs) =
        Some (blocks[a := bi_block bi], equivs[a := ?eq])"
      using Cons idx ev bi(1) s a by (simp add: last_cached_of_authority_def)
    ultimately show ?thesis by blast
  qed
qed

text \<open>The read of all authorities, when no block of the round before \<open>end_round\<close> was evicted.\<close>

lemma get_last_cached_block_per_authority_ok:
  assumes inv: "dag_inv ds" and ev: "\<forall>a < ds_size ds. 1 < end_round \<longrightarrow> ds_evicted_rounds ds ! a < end_round - 1"
    and pos: "0 < end_round"
  shows "\<exists>all. get_last_cached_block_per_authority ds end_round = Some all \<and> length all = ds_size ds \<and>
     (\<forall>a < ds_size ds. last_below ds end_round a (fst (all ! a)) (snd (all ! a)))"
proof -
  let ?bs = "map snd (fm_range (\<lambda>_. True) (ds_genesis ds))"
  let ?es = "replicate (ds_size ds) []"
  have g: "genesis_inv ds" and c: "cache_inv ds" using inv by (simp_all add: dag_inv_def)
  note G = genesis_listed[OF g]
  have len: "length ?bs = ds_size ds" using arg_cong[OF G(1), of length] by simp
  have auth: "vb_author (?bs ! a) = a" if "a < ds_size ds" for a
    using arg_cong[OF G(1), of "\<lambda>xs. xs ! a"] that len by simp
  have pos0: "0 < br_round r" if "a < ds_size ds" "r |\<in>| ds_recent_refs ds ! a" for a r
    using cached_lookup(3)[OF c that] .
  show ?thesis
  proof (cases "end_round = 1")
    case True
    have "last_below ds end_round a (?bs ! a) []" if "a < ds_size ds" for a
      using G(2,3)[OF that] auth[OF that] pos0[OF that] True by (fastforce simp: last_below_def)
    then show ?thesis using True len
      by (auto simp: get_last_cached_block_per_authority_def GENESIS_ROUND_def)
  next
    case False
    let ?I = "\<lambda>i (bs, es). length bs = ds_size ds \<and> length es = ds_size ds \<and>
       (\<forall>a < i. a < ds_size ds \<longrightarrow> last_below ds end_round a (bs ! a) (es ! a)) \<and>
       (\<forall>a. i \<le> a \<and> a < ds_size ds \<longrightarrow> bs ! a = ?bs ! a \<and> es ! a = [])"
    have "\<exists>s'. try_fold (last_cached_of_authority ds end_round) (List.enumerate 0 (ds_recent_refs ds)) (?bs, ?es) = Some s' \<and>
        ?I (length (ds_recent_refs ds)) s'"
    proof (rule try_fold_enumerate)
      show "?I 0 (?bs, ?es)" using len by simp
      fix i s assume i: "i < length (ds_recent_refs ds)" and I: "?I i s"
      obtain bs es where s: "s = (bs, es)" by (cases s)
      have i': "i < ds_size ds" using i c by (simp add: cache_inv_def)
      have eq: "bs ! i = ?bs ! i" "es ! i = []" "length bs = ds_size ds" "length es = ds_size ds" using I s i' by auto
      have "ds_evicted_rounds ds ! i < end_round - 1" using ev i' False pos by auto
      then obtain b q where "last_cached_of_authority ds end_round (i, ds_recent_refs ds ! i) (bs, es) =
          Some (bs[i := b], es[i := q])" "last_below ds end_round i b q"
        using last_cached_of_authority_ok[OF inv i', of end_round bs es] eq G(2,3)[OF i'] auth[OF i'] by auto
      then show "\<exists>s'. last_cached_of_authority ds end_round (i, ds_recent_refs ds ! i) s = Some s' \<and> ?I (Suc i) s'"
        using I s i' by (auto simp: nth_list_update less_Suc_eq)
    qed
    then obtain bs es where "try_fold (last_cached_of_authority ds end_round) (List.enumerate 0 (ds_recent_refs ds)) (?bs, ?es) =
        Some (bs, es)" "length bs = ds_size ds" "length es = ds_size ds"
        "\<forall>a < ds_size ds. last_below ds end_round a (bs ! a) (es ! a)"
      using c by (auto simp: cache_inv_def)
    then show ?thesis using False pos by (auto simp: get_last_cached_block_per_authority_def GENESIS_ROUND_def)
  qed
qed

section \<open>Single reads\<close>

lemma get_last_block_for_authority_ok:
  assumes inv: "dag_inv ds" and a: "a < ds_size ds"
  shows "\<exists>b. get_last_block_for_authority ds a = Some b \<and> lookup_block ds (reference b) = Some b \<and> vb_author b = a \<and>
     (\<forall>r. r |\<in>| ds_recent_refs ds ! a \<longrightarrow> r \<le> reference b) \<and> (ds_recent_refs ds ! a = {||} \<longrightarrow> vb_round b = 0)"
proof -
  have g: "genesis_inv ds" and c: "cache_inv ds" using inv by (simp_all add: dag_inv_def)
  have refs: "vec_get (ds_recent_refs ds) a = Some (ds_recent_refs ds ! a)" using c a by (simp add: cache_inv_def)
  show ?thesis
  proof (cases "fs_last (ds_recent_refs ds ! a)")
    case None
    obtain b where b: "get_last_block_for_authority ds a = Some b" using get_last_block_ok[OF g c a] by blast
    then obtain r where "find (\<lambda>(r, _). br_author r = a) (fm_range (\<lambda>_. True) (ds_genesis ds)) = Some (r, b)"
      using None refs by (auto simp: get_last_block_for_authority_def)
    then have r: "fmlookup (ds_genesis ds) r = Some b" "br_author r = a"
      by (auto simp: find_Some_iff set_fm_range dest!: nth_mem)
    then have "reference b = r" "br_round r = 0" using g by (auto simp: genesis_inv_def)
    then show ?thesis using b r None by (auto simp: lookup_block_def GENESIS_ROUND_def)
  next
    case (Some r)
    note r = fs_last_SomeD[OF Some]
    obtain bi where "fmlookup (ds_recent_blocks ds) r = Some bi" "reference (bi_block bi) = r"
        "lookup_block ds r = Some (bi_block bi)" "br_author r = a"
      using cached_lookup(1,2)[OF c a] r by blast
    then show ?thesis using r Some refs by (auto simp: get_last_block_for_authority_def)
  qed
qed

lemma get_last_cached_block_in_range_ok:
  assumes inv: "dag_inv ds" and a: "a < ds_size ds"
  shows "\<exists>x. get_last_cached_block_in_range ds a start_round end_round = Some x \<and>
     (\<forall>b. x = Some b \<longrightarrow> lookup_block ds (reference b) = Some b \<and> vb_author b = a \<and>
        start_round \<le> vb_round b \<and> vb_round b < end_round)"
proof -
  have c: "cache_inv ds" using inv by (simp add: dag_inv_def)
  have refs: "vec_get (ds_recent_refs ds) a = Some (ds_recent_refs ds ! a)" using c a by (simp add: cache_inv_def)
  let ?P = "\<lambda>k. BlockRef start_round a digest_min \<le> k \<and> k < BlockRef end_round 0 digest_min"
  show ?thesis
  proof (cases "fs_range ?P (ds_recent_refs ds ! a)")
    case Nil
    then show ?thesis using refs by (auto simp: get_last_cached_block_in_range_def)
  next
    case (Cons r rs)
    let ?l = "last (r # rs)"
    have "?l \<in> set (fs_range ?P (ds_recent_refs ds ! a))" unfolding Cons by (rule last_in_set) simp
    then have l: "?l |\<in>| ds_recent_refs ds ! a" "start_round \<le> br_round ?l" "br_round ?l < end_round"
      by (auto simp: ref_lt_round block_ref_le_iff simp del: last.simps)
    obtain bi where bi: "fmlookup (ds_recent_blocks ds) ?l = Some bi" "reference (bi_block bi) = ?l"
        "lookup_block ds ?l = Some (bi_block bi)" "br_author ?l = a"
      using cached_lookup(1,2)[OF c a l(1)] by blast
    have vb: "vb_author (bi_block bi) = a" "vb_round (bi_block bi) = br_round ?l"
      using arg_cong[OF bi(2), of br_author] arg_cong[OF bi(2), of br_round] bi(4) by simp_all
    have "start_round < end_round" using l(2,3) by simp
    then have "get_last_cached_block_in_range ds a start_round end_round = Some (Some (bi_block bi))"
      unfolding get_last_cached_block_in_range_def refs using Cons bi(1) by (simp del: last.simps)
    then show ?thesis using vb l(2,3) bi(2,3) by (simp del: last.simps)
  qed
qed

end
