(* ===== verification/ProposalAncestors.thy ===== *)
theory ProposalAncestors
  imports Core DagReads BlockManagerProperties
begin

text \<open>
  Choosing the ancestors of a proposal: the threshold clock vouches for a quorum of known blocks in
  the round below it, and the selection keeps such a quorum.
\<close>

section \<open>The parents are there\<close>

text \<open>Every block of the DAG has a quorum of parents.\<close>

definition well_parented :: "committee \<Rightarrow> dag_view \<Rightarrow> bool" where
  "well_parented c G \<longleftrightarrow> (\<forall>r b. G r = Some b \<and> 0 < br_round r \<longrightarrow>
     quorum c \<le> stake_of c (br_author ` {x \<in> set (vb_ancestors b). Suc (br_round x) = br_round r}))"

text \<open>The garbage collection round leaves the parents of the next proposal alone.\<close>

definition parents_kept :: "dag_state \<Rightarrow> bool" where
  "parents_kept ds \<longleftrightarrow> 1 < threshold_clock_round ds \<longrightarrow> gc_round ds < threshold_clock_round ds - 1"

lemma quorum_le_members: "committee_wf c \<Longrightarrow> quorum c \<le> stake_of c (members c)"
  by (auto simp: committee_wf_def)

lemma known_author:
  assumes "dag_ok G ds" "r \<in> known ds"
  shows "br_author r \<in> members (ds_committee ds)"
  using assms sourcesD(2)[OF dag_okD(2)[OF assms(1)] dag_okD(6)[OF assms(1)]] by (auto simp: members_def)

lemma clock_has_parents:
  assumes ok: "dag_ok G ds" and wp: "well_parented (ds_committee ds) G" and ns: "no_single_quorum (ds_committee ds)"
    and kept: "parents_kept ds"
  shows "0 < threshold_clock_round ds"
    and "quorum (ds_committee ds) \<le> stake_of (ds_committee ds) (br_author ` {r \<in> known ds. Suc (br_round r) = threshold_clock_round ds})"
proof -
  let ?c = "ds_committee ds" and ?R = "threshold_clock_round ds" and ?S = "proper_refs ds"
  let ?P = "br_author ` {r \<in> known ds. Suc (br_round r) = threshold_clock_round ds}"
  have inv: "dag_inv ds" using dag_okD(1)[OF ok] .
  have wf: "committee_wf ?c" and gen: "\<forall>a < ds_size ds. \<exists>r. r |\<in>| fmdom (ds_genesis ds) \<and> br_author r = a"
    using inv by (auto simp: dag_inv_def genesis_inv_def)
  have clk: "clock_inv ?c 1 ?S (ds_threshold_clock ds)" using inv ns by (simp add: dag_inv_def clock_ok_def)
  then show pos: "0 < ?R" by (simp add: clock_inv_def threshold_clock_round_def)
  have mem: "?P \<subseteq> members ?c" using known_author[OF ok] by blast
  show "quorum ?c \<le> stake_of ?c ?P"
  proof (cases "?R = 1")
    case True
    have "members ?c \<subseteq> ?P"
    proof
      fix a assume "a \<in> members ?c"
      then obtain r where r: "r |\<in>| fmdom (ds_genesis ds)" "br_author r = a" using gen by (auto simp: members_def)
      then obtain b where "fmlookup (ds_genesis ds) r = Some b" by (auto simp: fmlookup_dom_iff)
      then have "br_round r = 0" "lookup_block ds r = Some b"
        using inv by (auto simp: dag_inv_def genesis_inv_def lookup_block_def GENESIS_ROUND_def)
      then show "a \<in> ?P" using r(2) True by (auto simp: image_iff)
    qed
    then have "?P = members ?c" using mem by blast
    then show ?thesis using quorum_le_members[OF wf] by simp
  next
    case False
    then have R: "1 < ?R" "gc_round ds < ?R - 1" using pos kept by (auto simp: parents_kept_def)
    have "authors_at ?S ?R \<noteq> {} \<or> quorum ?c \<le> stake_of ?c (authors_at ?S (?R - 1))"
      using clk R(1) by (simp add: clock_inv_def threshold_clock_round_def)
    then show ?thesis
    proof
      assume "authors_at ?S ?R \<noteq> {}"
      then obtain r b where r: "lookup_block ds r = Some b" "br_round r = ?R" by (auto simp: authors_at_def)
      have "quorum ?c \<le> stake_of ?c (br_author ` {x \<in> set (vb_ancestors b). Suc (br_round x) = br_round r})"
        using wp[unfolded well_parented_def, rule_format, of r b] dag_okD(6)[OF ok r(1)] r(2) pos by simp
      also have "\<dots> \<le> stake_of ?c ?P"
      proof (rule stake_of_mono[OF image_mono mem], rule subsetI)
        fix x assume x: "x \<in> {x \<in> set (vb_ancestors b). Suc (br_round x) = br_round r}"
        then have "Suc (gc_round ds) \<le> br_round x" using R r(2) by auto
        then have "lookup_block ds x \<noteq> None" using dag_okD(5)[OF ok] r(1) x by (auto simp: causal_def)
        then show "x \<in> {r \<in> known ds. Suc (br_round r) = ?R}" using x r(2) by auto
      qed
      finally show ?thesis .
    next
      assume "quorum ?c \<le> stake_of ?c (authors_at ?S (?R - 1))"
      also have "\<dots> \<le> stake_of ?c ?P"
        unfolding authors_at_def using R(1) by (intro stake_of_mono mem image_mono) auto
      finally show ?thesis .
    qed
  qed
qed

lemma evicted_le_gc:
  assumes "dag_inv ds" "a < ds_size ds"
  shows "ds_evicted_rounds ds ! a \<le> gc_round ds"
  using assms unfolding dag_inv_def evict_inv_def eviction_round_def by fastforce

text \<open>A known block above the garbage collection round is cached.\<close>

lemma known_cached:
  assumes inv: "dag_inv ds" and r: "lookup_block ds r = Some b" "gc_round ds < br_round r"
  shows "\<exists>bi. fmlookup (ds_recent_blocks ds) r = Some bi \<and> bi_block bi = b"
    and "br_author r < ds_size ds" "r |\<in>| ds_recent_refs ds ! br_author r"
proof -
  have c: "cache_inv ds" and s: "store_inv ds" using inv by (simp_all add: dag_inv_def)
  have "fmlookup (ds_recent_blocks ds) r \<noteq> None"
  proof
    assume n: "fmlookup (ds_recent_blocks ds) r = None"
    then have m: "mem_lookup (ds_store ds) r = Some b" using r by (simp add: lookup_block_def GENESIS_ROUND_def)
    then have "br_author r < ds_size ds" "br_round r \<le> ds_evicted_rounds ds ! br_author r"
      using s n unfolding store_inv_def by blast+
    then show False using evicted_le_gc[OF inv] r(2) by fastforce
  qed
  then obtain bi where bi: "fmlookup (ds_recent_blocks ds) r = Some bi" by blast
  moreover have "bi_block bi = b" using bi r by (simp add: lookup_block_def GENESIS_ROUND_def)
  ultimately show "\<exists>bi. fmlookup (ds_recent_blocks ds) r = Some bi \<and> bi_block bi = b" by blast
  show "br_author r < ds_size ds" using c bi unfolding cache_inv_def by blast
  then show "r |\<in>| ds_recent_refs ds ! br_author r" using c bi by (auto simp: cache_inv_def fmdomI)
qed

text \<open>The last block of an authority that has a known block in the parent round is in that round.\<close>

lemma last_below_parent:
  assumes inv: "dag_inv ds" and kept: "parents_kept ds" and R: "R = threshold_clock_round ds" "0 < R"
    and r: "lookup_block ds r \<noteq> None" "Suc (br_round r) = R" and l: "last_below ds R (br_author r) b eq"
  shows "Suc (vb_round b) = R"
proof (cases "R = 1")
  case True
  then show ?thesis using l by (simp add: last_below_def)
next
  case False
  have gc: "gc_round ds < br_round r" using kept False R r(2) by (auto simp: parents_kept_def)
  obtain b' where b': "lookup_block ds r = Some b'" using r(1) by blast
  have "ds_evicted_rounds ds ! br_author r < br_round r"
    using evicted_le_gc[OF inv known_cached(2)[OF inv b' gc]] gc by simp
  then have "r \<le> reference b" using l known_cached(3)[OF inv b' gc] r(2) by (simp add: last_below_def)
  then have "br_round r \<le> vb_round b" using block_ref_le_round by fastforce
  moreover have "vb_round b < R" using l by (simp add: last_below_def)
  ultimately show ?thesis using r(2) by simp
qed

section \<open>The three passes\<close>

text \<open>The block has not been included before (a core never re-includes an ancestor).\<close>

definition newer :: "block_ref option list \<Rightarrow> verified_block \<Rightarrow> bool" where
  "newer last_included b \<longleftrightarrow> (case last_included ! vb_author b of Some r \<Rightarrow> br_round r < vb_round b | None \<Rightarrow> True)"

fun score_of :: "ancestor_state \<Rightarrow> 64 word" where
  "score_of Include = 0"
| "score_of (Exclude s) = s"

lemma consider_ancestors:
  fixes co states
  defines "fresh \<equiv> \<lambda>b. vb_author b \<noteq> ctx_own_index (core_context co) \<and> newer (core_last_included_ancestors co) b"
  assumes "\<forall>x \<in> set xs. vb_author (fst x) < length (core_last_included_ancestors co) \<and> vb_author (fst x) < length states"
  shows "\<exists>exc'. try_fold (consider_ancestor co states) xs (inc, pend, exc) = Some
     (inc @ map fst (filter (\<lambda>x. fresh (fst x) \<and> states ! vb_author (fst x) = Include) xs),
      pend @ map (\<lambda>x. (score_of (states ! vb_author (fst x)), fst x))
        (filter (\<lambda>x. fresh (fst x) \<and> states ! vb_author (fst x) \<noteq> Include) xs), exc') \<and>
     fset exc' \<subseteq> fset exc \<union> \<Union> (set ` snd ` set xs)"
  using assms(2)
proof (induction xs arbitrary: inc pend exc)
  case (Cons x xs)
  obtain b eq where x: "x = (b, eq)" by (cases x)
  have len: "vb_author b < length (core_last_included_ancestors co)" "vb_author b < length states" using Cons.prems x by auto
  have dec: "(case core_last_included_ancestors co ! vb_author b of Some r \<Rightarrow> br_round r \<ge> vb_round b | None \<Rightarrow> False) \<longleftrightarrow>
      \<not> newer (core_last_included_ancestors co) b" by (auto simp: newer_def split: option.split)
  show ?case
  proof (cases "fresh b")
    case False
    then have "consider_ancestor co states x (inc, pend, exc) = Some (inc, pend, exc)"
      using len dec by (auto simp: consider_ancestor_def x fresh_def)
    then show ?thesis using Cons.IH[of inc pend exc] Cons.prems False x by fastforce
  next
    case True
    then have "consider_ancestor co states x (inc, pend, exc) = Some (case states ! vb_author b of
        Include \<Rightarrow> (inc @ [b], pend, exc |\<union>| fset_of_list eq)
      | Exclude s \<Rightarrow> (inc, pend @ [(s, b)], exc |\<union>| fset_of_list eq))"
      using len dec by (auto simp: consider_ancestor_def x fresh_def Let_def)
    then show ?thesis
      using Cons.IH[of "inc @ [b]" pend "exc |\<union>| fset_of_list eq"]
        Cons.IH[of inc "pend @ [(score_of (states ! vb_author b), b)]" "exc |\<union>| fset_of_list eq"] Cons.prems True x
      by (cases "states ! vb_author b") (fastforce simp: fset_of_list.rep_eq)+
  qed
qed simp

lemma reached_iff:
  "aggregator_inv c a \<Longrightarrow> aggregator_reached_threshold QuorumThreshold a c \<longleftrightarrow> quorum c \<le> stake_of c (fset (sa_votes a))"
  by (simp add: aggregator_reached_threshold_def is_threshold_unat aggregator_inv_def quorum_def)

lemma count_parents:
  assumes "committee_wf c" "aggregator_inv c agg" "\<forall>b \<in> set bs. vb_author b \<in> members c"
  shows "\<exists>agg'. try_fold (\<lambda>b agg. map_option fst (aggregator_add QuorumThreshold agg (vb_author b) c)) bs agg = Some agg' \<and>
     aggregator_inv c agg' \<and> fset (sa_votes agg') = fset (sa_votes agg) \<union> vb_author ` set bs"
  using assms(2,3)
proof (induction bs arbitrary: agg)
  case (Cons b bs)
  obtain a1 where "aggregator_add QuorumThreshold agg (vb_author b) c = Some (a1, quorum c \<le> stake_of c (fset (sa_votes a1)))"
      "aggregator_inv c a1" "fset (sa_votes a1) = insert (vb_author b) (fset (sa_votes agg))"
    using qc.add_ok[OF assms(1) Cons.prems(1), of "vb_author b"] Cons.prems(2) by auto
  then show ?case using Cons.IH[of a1] Cons.prems(2) by auto
qed simp

lemma fill_parents:
  assumes wf: "committee_wf c" and "aggregator_inv c agg" "\<forall>p \<in> set ps. vb_author (snd p) \<in> members c"
  shows "\<exists>agg' taken rest. try_fold (fill_parent c q) ps (agg, tp, ex) = Some (agg', tp @ taken, ex @ rest) \<and>
     aggregator_inv c agg' \<and> fset (sa_votes agg') = fset (sa_votes agg) \<union> vb_author ` set taken \<and>
     mset (map snd ps) = mset taken + mset (map snd rest) \<and> (\<forall>b \<in> set taken. vb_round b = q) \<and>
     (quorum c \<le> stake_of c (fset (sa_votes agg')) \<or> (\<forall>p \<in> set rest. vb_round (snd p) \<noteq> q))"
  using assms(2,3)
proof (induction ps arbitrary: agg tp ex)
  case (Cons p ps)
  obtain s b where p: "p = (s, b)" by (cases p)
  have b: "vb_author b \<in> members c" using Cons.prems p by simp
  then have auth: "\<exists>x. committee_authority c (vb_author b) = Some x"
    by (simp add: committee_authority_def members_def committee_size_def)
  let ?reached = "\<lambda>a. quorum c \<le> stake_of c (fset (sa_votes a))"
  have ps: "\<forall>p \<in> set ps. vb_author (snd p) \<in> members c" using Cons.prems by simp
  show ?case
  proof (cases "\<not> ?reached agg \<and> vb_round b = q")
    case True
    obtain a1 where a1: "aggregator_add QuorumThreshold agg (vb_author b) c = Some (a1, ?reached a1)"
        "aggregator_inv c a1" "fset (sa_votes a1) = insert (vb_author b) (fset (sa_votes agg))"
      using qc.add_ok[OF wf Cons.prems(1) b] by auto
    then have step: "fill_parent c q p (agg, tp, ex) = Some (a1, tp @ [b], ex)"
      using True auth reached_iff[OF Cons.prems(1)] by (auto simp: fill_parent_def p)
    obtain agg' taken rest where IH: "try_fold (fill_parent c q) ps (a1, tp @ [b], ex) = Some (agg', (tp @ [b]) @ taken, ex @ rest)"
        "aggregator_inv c agg'" "fset (sa_votes agg') = fset (sa_votes a1) \<union> vb_author ` set taken"
        "mset (map snd ps) = mset taken + mset (map snd rest)" "\<forall>b \<in> set taken. vb_round b = q"
        "?reached agg' \<or> (\<forall>p \<in> set rest. vb_round (snd p) \<noteq> q)"
      using Cons.IH[OF a1(2) ps, of "tp @ [b]" ex] by blast
    have "try_fold (fill_parent c q) (p # ps) (agg, tp, ex) = Some (agg', tp @ (b # taken), ex @ rest)"
      using step IH(1) by simp
    moreover have "fset (sa_votes agg') = fset (sa_votes agg) \<union> vb_author ` set (b # taken)" using IH(3) a1(3) by auto
    moreover have "mset (map snd (p # ps)) = mset (b # taken) + mset (map snd rest)" using IH(4) p by simp
    ultimately show ?thesis using IH(2,5,6) True by (intro exI[of _ agg'] exI[of _ "b # taken"] exI[of _ rest]) simp
  next
    case False
    then have step: "fill_parent c q p (agg, tp, ex) = Some (agg, tp, ex @ [p])"
      using auth reached_iff[OF Cons.prems(1)] by (auto simp: fill_parent_def p)
    obtain agg' taken rest where IH: "try_fold (fill_parent c q) ps (agg, tp, ex @ [p]) = Some (agg', tp @ taken, (ex @ [p]) @ rest)"
        "aggregator_inv c agg'" "fset (sa_votes agg') = fset (sa_votes agg) \<union> vb_author ` set taken"
        "mset (map snd ps) = mset taken + mset (map snd rest)" "\<forall>b \<in> set taken. vb_round b = q"
        "?reached agg' \<or> (\<forall>p \<in> set rest. vb_round (snd p) \<noteq> q)"
      using Cons.IH[OF Cons.prems(1) ps, of tp "ex @ [p]"] by blast
    have "?reached agg'" if "?reached agg"
    proof -
      have "stake_of c (fset (sa_votes agg)) \<le> stake_of c (fset (sa_votes agg'))"
        using IH(2,3) by (intro stake_of_mono) (auto simp: aggregator_inv_def)
      then show ?thesis using that by simp
    qed
    then have "?reached agg' \<or> (\<forall>p \<in> set (p # rest). vb_round (snd p) \<noteq> q)" using IH(6) False p by auto
    moreover have "try_fold (fill_parent c q) (p # ps) (agg, tp, ex) = Some (agg', tp @ taken, ex @ (p # rest))"
      using step IH(1) by simp
    moreover have "mset (map snd (p # ps)) = mset taken + mset (map snd (p # rest))" using IH(4) by simp
    ultimately show ?thesis using IH(2,3,5) by (intro exI[of _ agg'] exI[of _ taken] exI[of _ "p # rest"]) simp
  qed
qed (auto simp: reached_iff)

text \<open>A block that may be added to a proposal for a round above \<open>q\<close>.\<close>

definition addable :: "dag_state \<Rightarrow> round \<Rightarrow> block_ref option list \<Rightarrow> verified_block \<Rightarrow> bool" where
  "addable ds q last_included b \<longleftrightarrow> lookup_block ds (reference b) = Some b \<and> vb_round b \<le> q \<and> newer last_included b"

lemma include_one:
  assumes inv: "dag_inv ds" and a: "vb_author b < ds_size ds" and len: "length li = ds_size ds" "length qrs = ds_size ds"
    and b: "lookup_block ds (reference b) = Some b"
  shows "\<exists>li' added exc'. include_accepted (ds_committee ds) ds qrs q (s, b) (li, tp, exc) = Some (li', tp @ added, exc') \<and>
     fset exc' \<subseteq> insert (reference b) (fset exc) \<and>
     (added = [] \<and> li' = li \<or> (\<exists>x. added = [x] \<and> li' = li[vb_author b := Some (reference x)] \<and>
        vb_author x = vb_author b \<and> addable ds q li x))"
proof -
  let ?a = "vb_author b"
  let ?last = "case li ! ?a of Some r \<Rightarrow> br_round r | None \<Rightarrow> GENESIS_ROUND"
  let ?low = "min (fst (qrs ! ?a)) q"
  have auth: "\<exists>x. committee_authority (ds_committee ds) ?a = Some x"
    using a by (simp add: committee_authority_def committee_size_def)
  obtain low high where qr: "qrs ! ?a = (low, high)" by (cases "qrs ! ?a")
  obtain e where e: "get_last_cached_block_in_range ds ?a (?last + 1) (?low + 1) = Some e"
      "\<forall>x. e = Some x \<longrightarrow> lookup_block ds (reference x) = Some x \<and> vb_author x = ?a \<and> ?last + 1 \<le> vb_round x \<and> vb_round x < ?low + 1"
    using get_last_cached_block_in_range_ok[OF inv a, of "?last + 1" "?low + 1"] by blast
  have new: "newer li x" if "vb_author x = ?a" "?last < vb_round x" for x
    using that by (auto simp: newer_def split: option.splits)
  let ?r = "include_accepted (ds_committee ds) ds qrs q (s, b) (li, tp, exc)"
  consider "vb_round b \<le> ?last \<or> ?low \<le> ?last" | "?last < vb_round b" "?last < ?low" "vb_round b \<le> ?low"
    | "?last < ?low" "?low < vb_round b" by linarith
  then show ?thesis
  proof cases
    case 1
    then have "?r = Some (li, tp, if vb_round b \<le> ?last then exc else finsert (reference b) exc)"
      using auth a len qr by (auto simp: include_accepted_def Let_def)
    then show ?thesis by (intro exI[of _ li] exI[of _ "[]"]) auto
  next
    case 2
    then have "?r = Some (li[?a := Some (reference b)], tp @ [b], exc)"
      using auth a len qr by (auto simp: include_accepted_def Let_def)
    moreover have "addable ds q li b" using 2 b new[of b] by (simp add: addable_def)
    ultimately show ?thesis by (intro exI[of _ "li[?a := Some (reference b)]"] exI[of _ "[b]"]) auto
  next
    case 3
    have "?r = (case e of None \<Rightarrow> Some (li, tp, finsert (reference b) exc)
        | Some x \<Rightarrow> Some (li[?a := Some (reference x)], tp @ [x], finsert (reference b) exc))"
      using auth a len qr 3 e(1) by (auto simp: include_accepted_def Let_def split: option.split)
    moreover have "addable ds q li x" "vb_author x = ?a" if "e = Some x" for x
      using e(2) that new[of x] by (auto simp: addable_def)
    ultimately show ?thesis
    proof (cases e)
      case None
      then show ?thesis using \<open>?r = _\<close> by (intro exI[of _ li] exI[of _ "[]"]) auto
    next
      case (Some x)
      then show ?thesis using \<open>?r = _\<close> \<open>\<And>x. e = Some x \<Longrightarrow> addable ds q li x\<close> \<open>\<And>x. e = Some x \<Longrightarrow> vb_author x = ?a\<close>
        by (intro exI[of _ "li[?a := Some (reference x)]"] exI[of _ "[x]"]) auto
    qed
  qed
qed

lemma include_rest:
  assumes inv: "dag_inv ds" and q: "length qrs = ds_size ds"
  shows "length li = ds_size ds \<Longrightarrow> distinct (map (\<lambda>p. vb_author (snd p)) ps) \<Longrightarrow>
     \<forall>p \<in> set ps. vb_author (snd p) < ds_size ds \<and> lookup_block ds (reference (snd p)) = Some (snd p) \<Longrightarrow>
     \<exists>li' added exc'. try_fold (include_accepted (ds_committee ds) ds qrs q) ps (li, tp, exc) = Some (li', tp @ added, exc') \<and>
       length li' = ds_size ds \<and> distinct (map vb_author added) \<and> vb_author ` set added \<subseteq> (\<lambda>p. vb_author (snd p)) ` set ps \<and>
       (\<forall>x \<in> set added. addable ds q li x) \<and> fset exc' \<subseteq> fset exc \<union> (\<lambda>p. reference (snd p)) ` set ps \<and>
       (\<forall>i < ds_size ds. li' ! i = li ! i \<or> (\<exists>x \<in> set added. i = vb_author x \<and> li' ! i = Some (reference x)))"
proof (induction ps arbitrary: li tp exc)
  case (Cons p ps)
  obtain s b where p: "p = (s, b)" by (cases p)
  have b: "vb_author b < ds_size ds" "lookup_block ds (reference b) = Some b" using Cons.prems p by auto
  obtain li1 add1 exc1 where 1: "include_accepted (ds_committee ds) ds qrs q p (li, tp, exc) = Some (li1, tp @ add1, exc1)"
      "fset exc1 \<subseteq> insert (reference b) (fset exc)" "add1 = [] \<and> li1 = li \<or> (\<exists>x. add1 = [x] \<and>
        li1 = li[vb_author b := Some (reference x)] \<and> vb_author x = vb_author b \<and> addable ds q li x)"
    using include_one[OF inv b(1) Cons.prems(1) q b(2), of q s tp exc] p by blast
  have len: "length li1 = ds_size ds" using 1(3) Cons.prems(1) by auto
  have same: "li1 ! i = li ! i" if "i \<noteq> vb_author b" for i using 1(3) that by auto
  obtain li' added exc' where 2: "try_fold (include_accepted (ds_committee ds) ds qrs q) ps (li1, tp @ add1, exc1) =
        Some (li', (tp @ add1) @ added, exc')" "length li' = ds_size ds" "distinct (map vb_author added)"
      "vb_author ` set added \<subseteq> (\<lambda>p. vb_author (snd p)) ` set ps" "\<forall>x \<in> set added. addable ds q li1 x"
      "fset exc' \<subseteq> fset exc1 \<union> (\<lambda>p. reference (snd p)) ` set ps"
      "\<forall>i < ds_size ds. li' ! i = li1 ! i \<or> (\<exists>x \<in> set added. i = vb_author x \<and> li' ! i = Some (reference x))"
    using Cons.IH[OF len, of "tp @ add1" exc1] Cons.prems(2,3) by auto
  have nb: "vb_author b \<notin> vb_author ` set added" using 2(4) Cons.prems(2) p by auto
  have add1: "\<forall>x \<in> set add1. vb_author x = vb_author b \<and> addable ds q li x" "length add1 \<le> 1" using 1(3) by auto
  have "distinct (map vb_author (add1 @ added))" using 1(3) 2(3) nb by auto
  moreover have "vb_author ` set (add1 @ added) \<subseteq> (\<lambda>p. vb_author (snd p)) ` set (p # ps)" using 2(4) add1 p by auto
  moreover have "\<forall>x \<in> set (add1 @ added). addable ds q li x"
  proof
    fix x assume "x \<in> set (add1 @ added)"
    then consider "x \<in> set add1" | "x \<in> set added" by auto
    then show "addable ds q li x"
    proof cases
      case 2
      then have "vb_author x \<noteq> vb_author b" using nb by (metis imageI)
      then show ?thesis using \<open>\<forall>x \<in> set added. addable ds q li1 x\<close> 2 same by (auto simp: addable_def newer_def)
    qed (use add1 in blast)
  qed
  moreover have "fset exc' \<subseteq> fset exc \<union> (\<lambda>p. reference (snd p)) ` set (p # ps)" using 1(2) 2(6) p by auto
  moreover have "li' ! i = li ! i \<or> (\<exists>x \<in> set (add1 @ added). i = vb_author x \<and> li' ! i = Some (reference x))"
    if "i < ds_size ds" for i
  proof -
    have "li1 ! i = li ! i \<or> (\<exists>x \<in> set add1. i = vb_author x \<and> li1 ! i = Some (reference x))"
      using 1(3) that Cons.prems(1) by (auto simp: nth_list_update)
    moreover have "li' ! i = li1 ! i \<or> (\<exists>x \<in> set added. i = vb_author x \<and> li' ! i = Some (reference x))" using 2(7) that by blast
    ultimately show ?thesis unfolding set_append Bex_def Un_iff by metis
  qed
  ultimately show ?case using 1(1) 2(1,2) by (intro exI[of _ li'] exI[of _ "add1 @ added"] exI[of _ exc']) simp
qed auto

section \<open>The selection\<close>

text \<open>
  A core that is ready to propose. Its shared objects satisfy their invariants; the ancestors it has
  included so far are below its last proposed block, as the block it built on them.
\<close>

definition proposer_ok :: "dag_view \<Rightarrow> core \<Rightarrow> bool" where
  "proposer_ok G co \<longleftrightarrow> manager_ok G (core_block_manager co) (core_dag_state co) \<and>
     ds_context (core_dag_state co) = core_context co \<and> well_parented (core_committee co) G \<and>
     no_single_quorum (core_committee co) \<and> parents_kept (core_dag_state co) \<and>
     tracker_ok (core_round_tracker co) \<and> rt_context (core_round_tracker co) = core_context co \<and>
     exclusion_inv (core_ancestor_state_manager co) \<and> am_context (core_ancestor_state_manager co) = core_context co \<and>
     length (rs_scores_per_authority (am_propagation_scores (core_ancestor_state_manager co))) \<le> committee_size (core_committee co) \<and>
     length (core_last_included_ancestors co) = committee_size (core_committee co) \<and>
     (\<forall>a < committee_size (core_committee co). \<forall>r b. core_last_included_ancestors co ! a = Some r \<and>
        last_proposed_block co = Some b \<longrightarrow> br_round r < vb_round b)"

lemma proposer_okD:
  assumes "proposer_ok G co"
  shows "manager_ok G (core_block_manager co) (core_dag_state co)" "dag_ok G (core_dag_state co)"
    and "dag_inv (core_dag_state co)" "ds_context (core_dag_state co) = core_context co"
    and "well_parented (core_committee co) G" "no_single_quorum (core_committee co)" "parents_kept (core_dag_state co)"
    and "tracker_ok (core_round_tracker co)" "rt_context (core_round_tracker co) = core_context co"
    and "exclusion_inv (core_ancestor_state_manager co)" "am_context (core_ancestor_state_manager co) = core_context co"
    and "length (rs_scores_per_authority (am_propagation_scores (core_ancestor_state_manager co))) \<le> committee_size (core_committee co)"
    and "length (core_last_included_ancestors co) = committee_size (core_committee co)"
    and "a < committee_size (core_committee co) \<Longrightarrow> core_last_included_ancestors co ! a = Some r \<Longrightarrow>
      last_proposed_block co = Some b \<Longrightarrow> br_round r < vb_round b"
    and "committee_wf (core_committee co)" "ctx_own_index (core_context co) < committee_size (core_committee co)"
proof -
  show m: "manager_ok G (core_block_manager co) (core_dag_state co)" and ctx: "ds_context (core_dag_state co) = core_context co"
    using assms by (simp_all add: proposer_ok_def)
  show "dag_ok G (core_dag_state co)" by (rule manager_okD(1)[OF m])
  then show inv: "dag_inv (core_dag_state co)" by (rule dag_okD(1))
  show "committee_wf (core_committee co)" "ctx_own_index (core_context co) < committee_size (core_committee co)"
    using inv ctx by (auto simp: dag_inv_def genesis_inv_def)
qed (use assms in \<open>auto simp: proposer_ok_def\<close>)

lemma last_proposed_ok:
  assumes "proposer_ok G co"
  shows "\<exists>own. last_proposed_block co = Some own \<and> lookup_block (core_dag_state co) (reference own) = Some own \<and>
     vb_author own = ctx_own_index (core_context co) \<and>
     (\<forall>r. r |\<in>| ds_recent_refs (core_dag_state co) ! ctx_own_index (core_context co) \<longrightarrow> r \<le> reference own)"
  using get_last_block_for_authority_ok[OF proposer_okD(3)[OF assms], of "ctx_own_index (core_context co)"]
    proposer_okD(4,16)[OF assms] by (auto simp: last_proposed_block_def get_last_proposed_block_def)

text \<open>The ancestors of a block for round \<open>R\<close> that follows the own block \<open>own\<close>.\<close>

definition good_ancestors :: "dag_state \<Rightarrow> round \<Rightarrow> verified_block \<Rightarrow> block_ref option list \<Rightarrow> verified_block list \<Rightarrow> bool" where
  "good_ancestors ds R own last_included anc \<longleftrightarrow> anc \<noteq> [] \<and> hd anc = own \<and> distinct (map vb_author anc) \<and>
     (\<forall>b \<in> set anc. lookup_block ds (reference b) = Some b \<and> vb_round b < R) \<and>
     (\<forall>b \<in> set (tl anc). newer last_included b) \<and>
     quorum (ds_committee ds) \<le> stake_of (ds_committee ds) (vb_author ` {b \<in> set anc. Suc (vb_round b) = R})"

text \<open>Every authority that has a block in the parent round offers one that the core may include.\<close>

lemma parent_offered:
  assumes ok: "proposer_ok G co" and R: "R = threshold_clock_round (core_dag_state co)"
    and own: "last_proposed_block co = Some own" "vb_round own < R"
    and r: "r \<in> known (core_dag_state co)" "Suc (br_round r) = R"
    and l: "last_below (core_dag_state co) R (br_author r) b eq"
  shows "br_author r = ctx_own_index (core_context co) \<Longrightarrow> Suc (vb_round own) = R"
    and "br_author r \<noteq> ctx_own_index (core_context co) \<Longrightarrow> Suc (vb_round b) = R \<and> newer (core_last_included_ancestors co) b"
proof -
  let ?ds = "core_dag_state co"
  note d = proposer_okD[OF ok]
  have pos: "0 < R" using r(2) by simp
  have gc: "gc_round ?ds < br_round r" if "R \<noteq> 1" using d(7) that R r(2) by (auto simp: parents_kept_def)
  obtain own' where own': "last_proposed_block co = Some own'"
      "\<forall>r. r |\<in>| ds_recent_refs ?ds ! ctx_own_index (core_context co) \<longrightarrow> r \<le> reference own'"
    using last_proposed_ok[OF ok] by blast
  then have le: "r \<le> reference own" if "r |\<in>| ds_recent_refs ?ds ! ctx_own_index (core_context co)" for r using own(1) that by simp
  obtain b' where b': "lookup_block ?ds r = Some b'" using r(1) by blast
  show "Suc (vb_round own) = R" if "br_author r = ctx_own_index (core_context co)"
  proof (cases "R = 1")
    case False
    have "r \<le> reference own" using known_cached(3)[OF d(3) b' gc[OF False]] that le by simp
    then show ?thesis using block_ref_le_round[of r "reference own"] own(2) r(2) by simp
  qed (use own(2) in simp)
  have "Suc (vb_round b) = R" by (rule last_below_parent[OF d(3,7) R pos _ r(2) l]) (use r(1) in auto)
  moreover have "newer (core_last_included_ancestors co) b"
  proof -
    have "vb_author b = br_author r" "br_author r < committee_size (core_committee co)"
      using l known_author[OF d(2) r(1)] d(4) by (simp_all add: last_below_def members_def)
    then show ?thesis using d(14)[OF _ _ own(1), of "br_author r"] own(2) \<open>Suc (vb_round b) = R\<close>
      by (fastforce simp: newer_def split: option.split)
  qed
  ultimately show "br_author r \<noteq> ctx_own_index (core_context co) \<Longrightarrow> Suc (vb_round b) = R \<and> newer (core_last_included_ancestors co) b"
    by blast
qed

text \<open>One candidate per authority, split by a predicate.\<close>

lemma candidates_split:
  fixes all :: "(verified_block \<times> block_ref list) list"
  assumes "\<forall>a < length all. vb_author (fst (all ! a)) = a"
  shows "distinct (map vb_author (map fst (filter P all)))"
    and "vb_author ` fst ` set (filter P all) \<inter> vb_author ` fst ` set (filter (\<lambda>x. Q x \<and> \<not> P x) all) = {}"
proof -
  have "map (\<lambda>x. vb_author (fst x)) all = [0..<length all]" using assms by (intro nth_equalityI) simp_all
  then have d: "distinct (map (\<lambda>x. vb_author (fst x)) all)" by simp
  then show "distinct (map vb_author (map fst (filter P all)))" by (simp add: comp_def distinct_map_filter)
  have "inj_on (\<lambda>x. vb_author (fst x)) (set all)" using d by (simp add: distinct_map)
  then show "vb_author ` fst ` set (filter P all) \<inter> vb_author ` fst ` set (filter (\<lambda>x. Q x \<and> \<not> P x) all) = {}"
    by (auto dest: inj_onD)
qed

text \<open>The candidates: the last blocks of the other authorities that have not been included yet.\<close>

definition candidates :: "core \<Rightarrow> (verified_block \<times> block_ref list) list \<Rightarrow> verified_block set" where
  "candidates co all = {b \<in> fst ` set all. vb_author b \<noteq> ctx_own_index (core_context co) \<and> newer (core_last_included_ancestors co) b}"

definition read_all :: "core \<Rightarrow> round \<Rightarrow> (verified_block \<times> block_ref list) list \<Rightarrow> bool" where
  "read_all co R all \<longleftrightarrow> length all = committee_size (core_committee co) \<and>
     (\<forall>a < committee_size (core_committee co). last_below (core_dag_state co) R a (fst (all ! a)) (snd (all ! a)))"

lemma read_all_member:
  assumes "read_all co R all" "x \<in> set all"
  shows "last_below (core_dag_state co) R (vb_author (fst x)) (fst x) (snd x)" "vb_author (fst x) < committee_size (core_committee co)"
  using assms by (auto simp: read_all_def in_set_conv_nth last_below_def)

lemma candidate_ok:
  assumes "read_all co R all" "b \<in> candidates co all"
  shows "vb_author b < committee_size (core_committee co)" "lookup_block (core_dag_state co) (reference b) = Some b" "vb_round b < R"
    and "vb_author b \<noteq> ctx_own_index (core_context co)" "newer (core_last_included_ancestors co) b"
  using assms read_all_member[OF assms(1)] by (auto simp: candidates_def last_below_def)

text \<open>A count that has all candidates of the parent round, and the own block of it, is a quorum.\<close>

lemma parents_counted:
  assumes ok: "proposer_ok G co" and R: "R = threshold_clock_round (core_dag_state co)"
    and own: "last_proposed_block co = Some own" "vb_round own < R" and all: "read_all co R all"
    and V: "V \<subseteq> members (core_committee co)" "Suc (vb_round own) = R \<Longrightarrow> ctx_own_index (core_context co) \<in> V"
      "\<And>b. b \<in> candidates co all \<Longrightarrow> Suc (vb_round b) = R \<Longrightarrow> vb_author b \<in> V"
  shows "quorum (core_committee co) \<le> stake_of (core_committee co) V"
proof -
  let ?ds = "core_dag_state co" and ?c = "core_committee co"
  note d = proposer_okD[OF ok]
  have "br_author ` {r \<in> known ?ds. Suc (br_round r) = R} \<subseteq> V"
  proof
    fix a assume "a \<in> br_author ` {r \<in> known ?ds. Suc (br_round r) = R}"
    then obtain r where r: "r \<in> known ?ds" "Suc (br_round r) = R" "a = br_author r" by blast
    have a: "a < committee_size ?c" using known_author[OF d(2) r(1)] r(3) d(4) by (simp add: members_def)
    then have l: "last_below ?ds R (br_author r) (fst (all ! a)) (snd (all ! a))" "fst (all ! a) \<in> fst ` set all"
      using all r(3) by (simp_all add: read_all_def)
    then have "vb_author (fst (all ! a)) = a" using r(3) by (simp add: last_below_def)
    then show "a \<in> V"
      using parent_offered[OF ok R own r(1,2) l(1)] V(2) V(3)[of "fst (all ! a)"] r(3) l(2)
      by (cases "a = ctx_own_index (core_context co)") (auto simp: candidates_def)
  qed
  from stake_of_mono[OF this V(1)] clock_has_parents(2)[OF d(2) _ _ d(7)] show ?thesis
    using d(4,5,6) R by simp
qed

lemma first_pass:
  assumes ok: "proposer_ok G co" and own: "last_proposed_block co = Some own"
    and all: "read_all co R all" and st: "length states = committee_size (core_committee co)"
  shows "\<exists>inc pend exc agg. try_fold (consider_ancestor co states) all ([own], [], {||}) = Some (own # inc, pend, exc) \<and>
     try_fold (\<lambda>b agg. map_option fst (aggregator_add QuorumThreshold agg (vb_author b) (core_committee co)))
        (filter (\<lambda>b. vb_round b = q) (own # inc)) aggregator_new = Some agg \<and>
     set inc \<union> snd ` set pend = candidates co all \<and> distinct (map vb_author (inc @ map snd pend)) \<and>
     aggregator_inv (core_committee co) agg \<and> fset (sa_votes agg) = vb_author ` {b \<in> set (own # inc). vb_round b = q} \<and>
     (\<forall>r. r |\<in>| exc \<longrightarrow> br_author r < committee_size (core_committee co))"
proof -
  let ?c = "core_committee co" and ?n = "committee_size (core_committee co)"
  let ?fresh = "\<lambda>b. vb_author b \<noteq> ctx_own_index (core_context co) \<and> newer (core_last_included_ancestors co) b"
  let ?P = "\<lambda>x. ?fresh (fst x) \<and> states ! vb_author (fst x) = Include"
  let ?Q = "\<lambda>x. ?fresh (fst x) \<and> states ! vb_author (fst x) \<noteq> Include"
  note d = proposer_okD[OF ok]
  define inc where "inc = map fst (filter ?P all)"
  define pend where "pend = map (\<lambda>x. (score_of (states ! vb_author (fst x)), fst x)) (filter ?Q all)"
  have "\<forall>x \<in> set all. vb_author (fst x) < length (core_last_included_ancestors co) \<and> vb_author (fst x) < length states"
    using read_all_member(2)[OF all] d(13) st by simp
  then obtain exc where exc: "try_fold (consider_ancestor co states) all ([own], [], {||}) = Some (own # inc, pend, exc)"
      "fset exc \<subseteq> \<Union> (set ` snd ` set all)"
    using consider_ancestors[of all co states "[own]" "[]" "{||}"] unfolding inc_def pend_def by auto
  have pend_map: "map snd pend = map fst (filter (\<lambda>x. ?fresh (fst x) \<and> \<not> ?P x) all)"
    unfolding pend_def by (auto simp: comp_def intro!: arg_cong[where f = "map fst"] filter_cong)
  have cand: "set inc \<union> snd ` set pend = candidates co all"
    unfolding set_map[symmetric] pend_map inc_def candidates_def by auto
  have authors: "\<forall>a < length all. vb_author (fst (all ! a)) = a" using all by (simp add: read_all_def last_below_def)
  have dist: "distinct (map vb_author (inc @ map snd pend))"
    using candidates_split(1)[OF authors, of ?P] candidates_split(2)[OF authors, of ?P "\<lambda>x. ?fresh (fst x)"]
      candidates_split(1)[OF authors, of "\<lambda>x. ?fresh (fst x) \<and> \<not> ?P x"]
    unfolding inc_def pend_map map_append distinct_append set_map by blast
  have "vb_author own = ctx_own_index (core_context co)" using last_proposed_ok[OF ok] own by auto
  then have "\<forall>b \<in> set (filter (\<lambda>b. vb_round b = q) (own # inc)). vb_author b \<in> members ?c"
    using candidate_ok(1)[OF all] cand d(16) by (auto simp: members_def)
  from count_parents[OF d(15) aggregator_inv_new this] obtain agg where
    "try_fold (\<lambda>b agg. map_option fst (aggregator_add QuorumThreshold agg (vb_author b) ?c))
       (filter (\<lambda>b. vb_round b = q) (own # inc)) aggregator_new = Some agg" "aggregator_inv ?c agg"
    "fset (sa_votes agg) = vb_author ` {b \<in> set (own # inc). vb_round b = q}"
    unfolding qc.voters_empty set_filter by auto
  moreover have "br_author r < ?n" if r: "r |\<in>| exc" for r
  proof -
    obtain x where "x \<in> set all" "r \<in> set (snd x)" using exc(2) r by blast
    then have "vb_author (fst x) < ?n" "r |\<in>| ds_recent_refs (core_dag_state co) ! vb_author (fst x)"
      using read_all_member[OF all] by (auto simp: last_below_def)
    then show ?thesis using cached_lookup(2)[of "core_dag_state co" "vb_author (fst x)" r] d(3,4) by (simp add: dag_inv_def)
  qed
  ultimately show ?thesis using exc(1) cand dist by blast
qed

lemma selection_good:
  assumes own: "lookup_block ds (reference own) = Some own" "vb_round own < R" "vb_author own \<in> members (ds_committee ds)"
    and bs: "\<And>b. b \<in> set bs \<Longrightarrow> vb_author b < ds_size ds \<and> lookup_block ds (reference b) = Some b \<and> vb_round b < R \<and>
      vb_author b \<noteq> vb_author own \<and> newer li b" "distinct (map vb_author bs)"
    and V: "V \<subseteq> vb_author ` {b \<in> set (own # bs). Suc (vb_round b) = R}" "quorum (ds_committee ds) \<le> stake_of (ds_committee ds) V"
  shows "good_ancestors ds R own li (own # bs)"
proof -
  have "vb_author ` {b \<in> set (own # bs). Suc (vb_round b) = R} \<subseteq> members (ds_committee ds)"
    using own(3) bs(1) by (auto simp: members_def)
  from order_trans[OF V(2) stake_of_mono[OF V(1) this]]
  have "quorum (ds_committee ds) \<le> stake_of (ds_committee ds) (vb_author ` {b \<in> set (own # bs). Suc (vb_round b) = R})" .
  moreover have "distinct (map vb_author (own # bs))" using bs by force
  ultimately show ?thesis unfolding good_ancestors_def using own bs(1) by simp
qed

lemma later_passes:
  assumes ok: "proposer_ok G co" and R: "R = threshold_clock_round (core_dag_state co)"
    and own: "last_proposed_block co = Some own" "vb_round own < R" and all: "read_all co R all"
    and cand: "set inc \<union> snd ` set pend = candidates co all" "distinct (map vb_author (inc @ map snd pend))"
    and agg: "aggregator_inv (core_committee co) agg" "fset (sa_votes agg) = vb_author ` {b \<in> set (own # inc). vb_round b = R - 1}"
    and qrs: "length qrs = committee_size (core_committee co)"
  shows "\<exists>agg' tp rest li anc exc'. try_fold (fill_parent (core_committee co) (R - 1)) pend (agg, own # inc, []) = Some (agg', tp, rest) \<and>
     try_fold (include_accepted (core_committee co) (core_dag_state co) qrs (R - 1)) rest
       (core_last_included_ancestors co, tp, exc) = Some (li, anc, exc') \<and>
     aggregator_reached_threshold QuorumThreshold agg' (core_committee co) \<and>
     good_ancestors (core_dag_state co) R own (core_last_included_ancestors co) anc \<and>
     length li = committee_size (core_committee co) \<and>
     (\<forall>i < committee_size (core_committee co). li ! i = core_last_included_ancestors co ! i \<or>
        (\<exists>x \<in> set anc. i = vb_author x \<and> li ! i = Some (reference x))) \<and>
     fset exc' \<subseteq> fset exc \<union> reference ` candidates co all"
proof -
  let ?ds = "core_dag_state co" and ?c = "core_committee co" and ?n = "committee_size (core_committee co)"
  let ?li = "core_last_included_ancestors co"
  note d = proposer_okD[OF ok] and ca = candidate_ok[OF all]
  have pos: "0 < R" using own(2) by simp
  have c: "ds_committee ?ds = ?c" "ds_size ?ds = ?n" using d(4) by simp_all
  have ownb: "lookup_block ?ds (reference own) = Some own" "vb_author own = ctx_own_index (core_context co)"
    using last_proposed_ok[OF ok] own(1) by auto
  have "\<forall>p \<in> set pend. vb_author (snd p) \<in> members ?c" using ca(1) cand(1) by (auto simp: members_def)
  then obtain agg' taken rest where fill: "try_fold (fill_parent ?c (R - 1)) pend (agg, own # inc, []) = Some (agg', (own # inc) @ taken, [] @ rest)"
      "aggregator_inv ?c agg'" "fset (sa_votes agg') = fset (sa_votes agg) \<union> vb_author ` set taken"
      "mset (map snd pend) = mset taken + mset (map snd rest)" "\<forall>b \<in> set taken. vb_round b = R - 1"
      "quorum ?c \<le> stake_of ?c (fset (sa_votes agg')) \<or> (\<forall>p \<in> set rest. vb_round (snd p) \<noteq> R - 1)"
    using fill_parents[OF d(15) agg(1), of pend "R - 1" "own # inc" "[]"] by blast
  have tr: "snd ` set pend = set taken \<union> snd ` set rest" using arg_cong[OF fill(4), of set_mset] by simp
  have dist: "distinct (map vb_author (inc @ taken @ map snd rest))"
    using cand(2) fill(4) by (metis (no_types, lifting) mset_append mset_eq_imp_distinct_iff mset_map)
  have rest_mem: "\<forall>p \<in> set rest. vb_author (snd p) < ds_size ?ds \<and> lookup_block ?ds (reference (snd p)) = Some (snd p)"
  proof
    fix p assume "p \<in> set rest"
    then have "snd p \<in> candidates co all" using cand(1) tr by auto
    then show "vb_author (snd p) < ds_size ?ds \<and> lookup_block ?ds (reference (snd p)) = Some (snd p)" using ca(1,2) c(2) by simp
  qed
  have li: "length ?li = ds_size ?ds" "length qrs = ds_size ?ds" "distinct (map (\<lambda>p. vb_author (snd p)) rest)"
    using d(13) qrs dist c(2) by (simp_all add: comp_def)
  obtain li added exc' where inc: "try_fold (include_accepted ?c ?ds qrs (R - 1)) rest (?li, (own # inc) @ taken, exc) =
        Some (li, ((own # inc) @ taken) @ added, exc')"
      "length li = ds_size ?ds" "distinct (map vb_author added)" "vb_author ` set added \<subseteq> (\<lambda>p. vb_author (snd p)) ` set rest"
      "\<forall>x \<in> set added. addable ?ds (R - 1) ?li x" "fset exc' \<subseteq> fset exc \<union> (\<lambda>p. reference (snd p)) ` set rest"
      "\<forall>i < ds_size ?ds. li ! i = ?li ! i \<or> (\<exists>x \<in> set added. i = vb_author x \<and> li ! i = Some (reference x))"
    using include_rest[OF d(3) li(2,1,3) rest_mem, of "R - 1" "(own # inc) @ taken" exc] unfolding c(1) by blast
  have reached: "quorum ?c \<le> stake_of ?c (fset (sa_votes agg'))"
  proof (cases "\<forall>p \<in> set rest. vb_round (snd p) \<noteq> R - 1")
    case True
    show ?thesis
    proof (rule parents_counted[OF ok R own all])
      show "fset (sa_votes agg') \<subseteq> members ?c" using fill(2) by (simp add: aggregator_inv_def)
      show "ctx_own_index (core_context co) \<in> fset (sa_votes agg')" if "Suc (vb_round own) = R"
        unfolding fill(3) agg(2) ownb(2)[symmetric] using that by auto
      show "vb_author b \<in> fset (sa_votes agg')" if "b \<in> candidates co all" "Suc (vb_round b) = R" for b
      proof -
        have "b \<in> set inc \<union> (set taken \<union> snd ` set rest)" using that(1) unfolding cand(1)[symmetric] tr .
        moreover have "b \<notin> snd ` set rest" "vb_round b = R - 1" using True that(2) by auto
        ultimately show ?thesis unfolding fill(3) agg(2) by auto
      qed
    qed
  qed (use fill(6) in blast)
  let ?bs = "inc @ taken @ added"
  have subs: "set inc \<subseteq> candidates co all" "set taken \<subseteq> candidates co all" "snd ` set rest \<subseteq> candidates co all"
    using cand(1) unfolding tr by blast+
  have sub: "vb_author ` set added \<subseteq> vb_author ` snd ` set rest" using inc(4) by (simp add: image_image)
  have chosen: "vb_author b < ?n \<and> lookup_block ?ds (reference b) = Some b \<and> vb_round b < R \<and>
      vb_author b \<noteq> ctx_own_index (core_context co) \<and> newer ?li b" if b: "b \<in> set ?bs" for b
  proof (cases "b \<in> set added")
    case True
    then have "vb_author b \<in> vb_author ` candidates co all" using sub image_mono[OF subs(3), of vb_author] by blast
    then obtain b' where "b' \<in> candidates co all" "vb_author b = vb_author b'" by blast
    then show ?thesis using ca[of b'] inc(5) True pos by (auto simp: addable_def)
  next
    case False
    then have "b \<in> candidates co all" using b subs(1,2) by auto
    then show ?thesis using ca[of b] by simp
  qed
  have dj: "vb_author ` set inc \<inter> vb_author ` snd ` set rest = {}" "vb_author ` set taken \<inter> vb_author ` snd ` set rest = {}"
    using dist by (auto simp: image_image)
  have "vb_author ` set inc \<inter> vb_author ` set added = {}" "vb_author ` set taken \<inter> vb_author ` set added = {}"
    using Int_mono[OF subset_refl sub, of "vb_author ` set inc"] Int_mono[OF subset_refl sub, of "vb_author ` set taken"]
    unfolding dj subset_empty by blast+
  then have "distinct (map vb_author ?bs)" using dist inc(3) by (simp add: image_Un Int_Un_distrib)
  moreover have "fset (sa_votes agg') \<subseteq> vb_author ` {b \<in> set (own # ?bs). Suc (vb_round b) = R}"
    unfolding fill(3) agg(2) using fill(5) pos by auto
  moreover have "vb_author own \<in> members (ds_committee ?ds)" using d(16) ownb(2) c by (simp add: members_def)
  ultimately have "good_ancestors ?ds R own ?li (own # ?bs)"
    using chosen reached unfolding ownb(2)[symmetric] c[symmetric] by (intro selection_good[OF ownb(1) own(2)])
  moreover have "fset exc' \<subseteq> fset exc \<union> reference ` candidates co all"
    using inc(6) subs(3) by (auto simp: image_subset_iff)
  moreover have "\<forall>i < ?n. li ! i = ?li ! i \<or> (\<exists>x \<in> set (own # ?bs). i = vb_author x \<and> li ! i = Some (reference x))"
    using inc(7) c(2) by (metis UnCI list.set_intros(2) set_append)
  ultimately show ?thesis
    using fill(1) inc(1,2) reached_iff[OF fill(2)] reached c(2)
    by (intro exI[of _ agg'] exI[of _ "(own # inc) @ taken"] exI[of _ rest] exI[of _ li] exI[of _ "own # ?bs"] exI[of _ exc']) simp
qed

lemma smart_ancestors_ok:
  assumes ok: "proposer_ok G co" and R: "R = threshold_clock_round (core_dag_state co)"
    and own: "last_proposed_block co = Some own" "vb_round own < R"
  shows "\<exists>asm li anc exc. smart_ancestors_to_propose R smart co =
       Some (co\<lparr>core_ancestor_state_manager := asm, core_last_included_ancestors := li\<rparr>, anc, exc) \<and>
     exclusion_inv asm \<and> same_setup (core_ancestor_state_manager co) asm \<and>
     (anc = [] \<longrightarrow> smart \<and> li = core_last_included_ancestors co) \<and>
     (anc \<noteq> [] \<longrightarrow> good_ancestors (core_dag_state co) R own (core_last_included_ancestors co) anc) \<and>
     length li = committee_size (core_committee co) \<and>
     (\<forall>i < committee_size (core_committee co). li ! i = core_last_included_ancestors co ! i \<or>
        (\<exists>x \<in> set anc. i = vb_author x \<and> li ! i = Some (reference x))) \<and>
     (\<forall>r. r |\<in>| exc \<longrightarrow> br_author r < committee_size (core_committee co))"
proof -
  let ?ds = "core_dag_state co" and ?c = "core_committee co" and ?n = "committee_size (core_committee co)"
  let ?li = "core_last_included_ancestors co"
  note d = proposer_okD[OF ok]
  have pos: "0 < R" using own(2) by simp
  have "\<forall>a < ds_size ?ds. 1 < R \<longrightarrow> ds_evicted_rounds ?ds ! a < R - 1"
    using evicted_le_gc[OF d(3)] d(7) R by (fastforce simp: parents_kept_def)
  then obtain all where all: "get_last_cached_block_per_authority ?ds R = Some all" "read_all co R all"
    using get_last_cached_block_per_authority_ok[OF d(3) _ pos] d(4) by (auto simp: read_all_def)
  obtain qrs where qrs: "compute_accepted_quorum_rounds (core_round_tracker co) = Some qrs" "length qrs = ?n"
    using d(8,9) quorum_rounds_ok[OF d(15) matrix_highest(1)]
    by (auto simp: compute_accepted_quorum_rounds_def tracker_ok_def Let_def)
  obtain asm where asm: "update_all_ancestors_state qrs ?ds (core_ancestor_state_manager co) = Some asm"
      "exclusion_inv asm" "same_setup (core_ancestor_state_manager co) asm"
    using update_all_ok[OF d(10), of qrs ?ds] qrs(2) d(11,12) by auto
  have "length (get_ancestor_states asm) = ?n"
    using asm(2,3) d(11) by (simp add: get_ancestor_states_def exclusion_inv_def same_setup_def)
  from first_pass[OF ok own(1) all(2) this, of "R - 1"] obtain inc pend exc agg where
    fst: "try_fold (consider_ancestor co (get_ancestor_states asm)) all ([own], [], {||}) = Some (own # inc, pend, exc)"
      "try_fold (\<lambda>b agg. map_option fst (aggregator_add QuorumThreshold agg (vb_author b) ?c))
        (filter (\<lambda>b. vb_round b = R - 1) (own # inc)) aggregator_new = Some agg"
      "set inc \<union> snd ` set pend = candidates co all" "distinct (map vb_author (inc @ map snd pend))"
      "aggregator_inv ?c agg" "fset (sa_votes agg) = vb_author ` {b \<in> set (own # inc). vb_round b = R - 1}"
      "\<forall>r. r |\<in>| exc \<longrightarrow> br_author r < ?n"
    by (elim exE conjE) (rule that, assumption+)
  define ps where "ps = sort_key (\<lambda>(score, _). - uint score) pend"
  have "mset (map snd ps) = mset (map snd pend)" by (simp add: ps_def)
  then have ps: "set inc \<union> snd ` set ps = candidates co all" "distinct (map vb_author (inc @ map snd ps))"
    using fst(3,4) unfolding map_append by (simp add: ps_def, metis mset_append mset_eq_imp_distinct_iff mset_map)
  have small: "read_all co R all \<and> length all = ?n" using all(2) by (simp add: read_all_def)
  note run = smart_ancestors_to_propose_def Let_def all(1) small qrs(1) asm(1) own(1) fst(1,2) ps_def[symmetric]
  show ?thesis
  proof (cases "smart \<and> \<not> aggregator_reached_threshold QuorumThreshold agg ?c")
    case True
    then have "smart_ancestors_to_propose R smart co = Some (co\<lparr>core_ancestor_state_manager := asm, core_last_included_ancestors := ?li\<rparr>, [], {||})"
      by (simp add: run del: filter.simps One_nat_def)
    then show ?thesis using asm(2,3) True d(13) by blast
  next
    case False
    from later_passes[OF ok R own all(2) ps fst(5,6) qrs(2), of exc] obtain agg' tp rest li anc exc' where
      late: "try_fold (fill_parent ?c (R - 1)) ps (agg, own # inc, []) = Some (agg', tp, rest)"
        "try_fold (include_accepted ?c ?ds qrs (R - 1)) rest (?li, tp, exc) = Some (li, anc, exc')"
        "aggregator_reached_threshold QuorumThreshold agg' ?c" "good_ancestors ?ds R own ?li anc" "length li = ?n"
        "\<forall>i < ?n. li ! i = ?li ! i \<or> (\<exists>x \<in> set anc. i = vb_author x \<and> li ! i = Some (reference x))"
        "fset exc' \<subseteq> fset exc \<union> reference ` candidates co all"
      by (elim exE conjE) (rule that, assumption+)
    have "smart_ancestors_to_propose R smart co = Some (co\<lparr>core_ancestor_state_manager := asm, core_last_included_ancestors := li\<rparr>, anc, exc')"
      using False late(1,2,3) by (auto simp add: run simp del: filter.simps One_nat_def)
    moreover have "\<forall>r. r |\<in>| exc' \<longrightarrow> br_author r < ?n" using late(7) fst(7) candidate_ok(1)[OF all(2)] by auto
    moreover have "anc \<noteq> []" using late(4) by (simp add: good_ancestors_def)
    ultimately show ?thesis using asm(2,3) late(4,5,6) by blast
  qed
qed

end
