(* ===== verification/ProposalCreation.thy ===== *)
theory ProposalCreation
  imports ProposalAncestors DagTraversal CertifierSafety BlockVerifier
begin

text \<open>
  Creating a block: from a state in which the core may propose, \<open>create_block\<close> reaches none of its
  panics, and the block it returns is valid for every verifier of the committee, accepted, persisted
  and the last proposed one.
\<close>

section \<open>When the core may create a block\<close>

text \<open>
  What the core is given: keys that fit, a serializer that does not fail and a leader in every round.
\<close>

definition signs :: "crypto \<Rightarrow> bytes \<Rightarrow> bytes \<Rightarrow> bool" where
  "signs k signer key \<longleftrightarrow> (\<forall>b. \<exists>bs m sig. cry_block_bytes k b = Inr bs \<and> cry_intent_bytes k (cry_hash k bs) = Inr m \<and>
     cry_parse_signature k (cry_sign k signer m) = Inr sig \<and> cry_verify k key m sig = Inr ())"

definition env_ok :: "core_env \<Rightarrow> node_context \<Rightarrow> leader_schedule \<Rightarrow> bool" where
  "env_ok e ctx sch \<longleftrightarrow>
     signs (ce_crypto e) (ce_block_signer e) (a_protocol_key (c_authorities (ctx_committee ctx) ! ctx_own_index ctx)) \<and>
     (\<forall>sb. ce_serialize e sb \<noteq> None) \<and> pc_mysticeti_num_leaders_per_round (ctx_protocol_config ctx) = Some 1 \<and>
     (\<forall>rnd. \<exists>a \<in> members (ctx_committee ctx). schedule_elect_leader (ce_rng e) ctx sch rnd 0 = Some a)"

text \<open>
  Nobody refers to a block of the authority in that round yet: its digest is the hash of a block that
  does not exist.
\<close>

definition unreferenced :: "core_env \<Rightarrow> dag_view \<Rightarrow> round \<Rightarrow> authority_index \<Rightarrow> bool" where
  "unreferenced e G R a \<longleftrightarrow> (\<forall>r b sb s. G r = Some b \<and> ce_serialize e sb = Some s \<longrightarrow>
     BlockRef R a (cry_hash (ce_crypto e) s) \<notin> set (vb_ancestors b))"

text \<open>With the fast path, the certifier has an entry for every known block above its round.\<close>

definition votes_kept :: "dag_view \<Rightarrow> core \<Rightarrow> bool" where
  "votes_kept G co \<longleftrightarrow> (let cs = core_transaction_certifier co in certifier_ok (core_committee co) G cs \<and>
     (\<forall>r \<in> known (core_dag_state co). cs_gc_round cs < br_round r \<longrightarrow> fmlookup (cs_votes cs) r \<noteq> None))"

text \<open>
  The whole state: the last proposed block is the newest own block of the DAG \<open>G\<close>, the block manager
  waits only for ancestors above the garbage collection round, and that round is below the clock.
\<close>

definition creator_ok :: "core_env \<Rightarrow> dag_view \<Rightarrow> core \<Rightarrow> bool" where
  "creator_ok e G co \<longleftrightarrow> proposer_ok G co \<and> env_ok e (core_context co) (core_leader_schedule co) \<and>
     core_decider co = core_committer (core_context co) \<and>
     pool_ok (ctx_protocol_config (core_context co)) (core_transaction_consumer co) \<and>
     gc_clean (gc_round (core_dag_state co)) (core_block_manager co) \<and>
     gc_round (core_dag_state co) < threshold_clock_round (core_dag_state co) \<and>
     (\<forall>p r. last_proposed_block co = Some p \<and> G r \<noteq> None \<and> br_author r = ctx_own_index (core_context co) \<longrightarrow>
        br_round r \<le> vb_round p) \<and>
     unreferenced e G (threshold_clock_round (core_dag_state co)) (ctx_own_index (core_context co)) \<and>
     (pc_mysticeti_fastpath (ctx_protocol_config (core_context co)) \<longrightarrow> votes_kept G co)"

lemma creator_okD:
  assumes "creator_ok e G co"
  shows "proposer_ok G co" "env_ok e (core_context co) (core_leader_schedule co)"
    and "core_decider co = core_committer (core_context co)"
    and "pool_ok (ctx_protocol_config (core_context co)) (core_transaction_consumer co)"
    and "gc_clean (gc_round (core_dag_state co)) (core_block_manager co)"
    and "gc_round (core_dag_state co) < threshold_clock_round (core_dag_state co)"
    and "last_proposed_block co = Some p \<Longrightarrow> G r \<noteq> None \<Longrightarrow> br_author r = ctx_own_index (core_context co) \<Longrightarrow> br_round r \<le> vb_round p"
    and "unreferenced e G (threshold_clock_round (core_dag_state co)) (ctx_own_index (core_context co))"
    and "pc_mysticeti_fastpath (ctx_protocol_config (core_context co)) \<Longrightarrow> votes_kept G co"
  using assms by (auto simp: creator_ok_def)

text \<open>A verifier of the same committee, limits and genesis blocks.\<close>

definition same_rules :: "core \<Rightarrow> signed_block_verifier \<Rightarrow> bool" where
  "same_rules co v \<longleftrightarrow> ctx_committee (sv_context v) = core_committee co \<and>
     ctx_protocol_config (sv_context v) = ctx_protocol_config (core_context co) \<and> sv_genesis v = fmdom (ds_genesis (core_dag_state co))"

text \<open>What the creation of the block \<open>b\<close> has changed.\<close>

definition proposed :: "core_env \<Rightarrow> dag_view \<Rightarrow> core \<Rightarrow> core \<Rightarrow> verified_block \<Rightarrow> bool" where
  "proposed e G co co' b \<longleftrightarrow> G (reference b) = None \<and> vb_author b = ctx_own_index (core_context co) \<and>
     vb_round b = threshold_clock_round (core_dag_state co) \<and>
     (\<forall>v. same_rules co v \<longrightarrow> verify_block (ce_crypto e) v (vb_block b) = ok ()) \<and>
     manager_ok (G(reference b \<mapsto> b)) (core_block_manager co') (core_dag_state co') \<and>
     lookup_block (core_dag_state co') = (lookup_block (core_dag_state co))(reference b \<mapsto> b) \<and>
     mem_lookup (ds_store (core_dag_state co')) (reference b) = Some b \<and> last_proposed_block co' = Some b"

section \<open>The new block in the DAG\<close>

text \<open>The DAG with the new own block is one the manager has worked in all along.\<close>

lemma manager_ok_extend:
  assumes ok: "manager_ok G bm ds" and new: "G (reference b) = None" "0 < vb_round b" "vb_author b = ds_own_index ds"
    and anc: "\<forall>x \<in> set (vb_ancestors b). x \<in> known ds \<and> br_round x < vb_round b"
    and own: "\<forall>r. G r \<noteq> None \<and> br_author r = ds_own_index ds \<longrightarrow> br_round r < vb_round b"
  shows "manager_ok (G(reference b \<mapsto> b)) bm ds"
proof -
  let ?G = "G(reference b \<mapsto> b)"
  note m = manager_okD[OF ok] and d = dag_okD[OF manager_okD(1)[OF ok]]
  have n: "vb_author b < ds_size ds" using d(1) new(3) by (simp add: dag_inv_def genesis_inv_def)
  have x: "br_author x < ds_size ds \<and> G x \<noteq> None" if "x \<in> known ds" for x
    using that d(6)[of x] sourcesD(2)[OF d(2)] by auto
  have "sources (ds_committee ds) (ds_own_index ds) ?G" unfolding sources_def
  proof (intro allI impI)
    fix r b' assume r: "?G r = Some b'"
    show "reference b' = r \<and> br_author r < ds_size ds \<and>
        (\<forall>x \<in> set (vb_ancestors b'). br_author x < ds_size ds \<and> br_round x < br_round r \<and> (br_round x = 0 \<longrightarrow> ?G x \<noteq> None)) \<and>
        (\<forall>r'. ?G r' \<noteq> None \<and> br_author r = ds_own_index ds \<and> slot_of_ref r' = slot_of_ref r \<longrightarrow> r' = r)"
    proof (cases "r = reference b")
      case True
      then have "b' = b" using r by simp
      moreover have "r' = r" if "?G r' \<noteq> None" "slot_of_ref r' = slot_of_ref r" for r'
        using that own[rule_format, of r'] True new(3) by (cases "r' = r") (auto simp: slot_of_ref_def)
      moreover have "br_author y < ds_size ds \<and> br_round y < br_round r \<and> (br_round y = 0 \<longrightarrow> ?G y \<noteq> None)"
        if "y \<in> set (vb_ancestors b)" for y
      proof -
        have "y \<in> known ds" "br_round y < vb_round b" using anc that by blast+
        then show ?thesis using x[of y] True by simp
      qed
      moreover have "br_author r < ds_size ds" using True n by simp
      ultimately show ?thesis using True by blast
    next
      case False
      then have g: "G r = Some b'" using r by simp
      have "r' = r" if "?G r' \<noteq> None" "br_author r = ds_own_index ds" "slot_of_ref r' = slot_of_ref r" for r'
        using that sourcesD(7)[OF d(2) g] own[rule_format, of r] g by (cases "r' = reference b") (auto simp: slot_of_ref_def)
      moreover have "?G y \<noteq> None" if "y \<in> set (vb_ancestors b')" "br_round y = 0" for y
        using sourcesD(6)[OF d(2) g that] by simp
      ultimately show ?thesis using sourcesD(1,2,4,5)[OF d(2) g] by blast
    qed
  qed
  moreover have "lookup_block ds \<subseteq>\<^sub>m ?G" unfolding map_le_def
  proof
    fix r assume "r \<in> known ds"
    then obtain b' where "lookup_block ds r = Some b'" by auto
    then show "lookup_block ds r = ?G r" using d(6)[of r b'] new(1) by auto
  qed
  moreover have "\<forall>r. br_round r = 0 \<longrightarrow> lookup_block ds r = ?G r" using d(4) new(2) by auto
  ultimately have "dag_ok ?G ds" using d(1,5) by (simp add: dag_ok_def)
  moreover have "waiting ?G (gc_round ds) (known ds) {} bm"
    using m(2) new(1) by (auto simp: waiting_def parked_def)
  ultimately show ?thesis using m(3,4) by (simp add: manager_ok_def)
qed

text \<open>A block that nobody refers to makes nothing else deliverable.\<close>

lemma deliverable_own:
  assumes ok: "manager_ok G bm ds" and td: "gc_clean (gc_round ds) bm"
    and unref: "\<forall>r b. G r = Some b \<longrightarrow> d \<notin> set (vb_ancestors b)"
    and r: "deliverable G (gc_round ds) (known ds) (suspended bm \<union> {d}) r"
  shows "r \<in> insert d (known ds)"
  using r
proof induction
  case (deliverable_received r b)
  show ?case
  proof (rule ccontr)
    assume n: "r \<notin> insert d (known ds)"
    then obtain su where su: "fmlookup (bm_suspended_blocks bm) r = Some su" using deliverable_received(1) by (auto dest: fmdomE)
    have p: "parked G (gc_round ds) (known ds) {} bm r su" using manager_okD(2)[OF ok] su by (simp add: waiting_def)
    obtain x where x: "x |\<in>| su_missing_ancestors su" using parkedD(5)[OF p] by auto
    obtain rs where rs: "fmlookup (bm_missing_ancestors bm) x = Some rs" using parkedD(7)[OF p x] by blast
    have gc: "gc_round ds < br_round x" using td rs by (simp add: gc_clean_def)
    have "x \<notin> known ds" using manager_okD(2)[OF ok] rs by (auto simp: waiting_def awaited_def)
    moreover have xb: "x \<in> set (vb_ancestors b)" using parkedD(6)[OF p x] parkedD(1)[OF p] deliverable_received(2) by simp
    ultimately have "x = d" using deliverable_received.IH[OF xb gc] by simp
    then show False using unref deliverable_received(2) xb by blast
  qed
qed simp

lemma lookup_grown:
  assumes ok: "dag_ok G ds" "dag_ok G ds'" and b: "G (reference b) = Some b" and k: "known ds' = insert (reference b) (known ds)"
  shows "lookup_block ds' = (lookup_block ds)(reference b \<mapsto> b)"
proof
  fix r
  note d = dag_okD(6)[OF ok(1), of r] and d' = dag_okD(6)[OF ok(2), of r]
  have m: "r \<in> known ds' \<longleftrightarrow> r = reference b \<or> r \<in> known ds" using k by blast
  show "lookup_block ds' r = ((lookup_block ds)(reference b \<mapsto> b)) r"
  proof (cases "r = reference b")
    case True
    then obtain b' where b': "lookup_block ds' r = Some b'" using m by auto
    show ?thesis using d'[OF b'] b b' unfolding True by simp
  next
    case False
    then have "lookup_block ds' r = None \<longleftrightarrow> lookup_block ds r = None" using m unfolding domIff by blast
    then have "lookup_block ds' r = lookup_block ds r"
      using d d' by (cases "lookup_block ds' r"; cases "lookup_block ds r") simp_all
    then show ?thesis using False by simp
  qed
qed

text \<open>
  The own block is accepted alone: its ancestors are known, and no suspended block can wait for it.
\<close>

lemma own_block_accepted:
  assumes ok: "manager_ok G bm ds" and cl: "gc_clean (gc_round ds) bm" and b: "G (reference b) = Some b"
    and new: "reference b \<notin> known ds" "reference b \<notin> suspended bm" "gc_round ds < vb_round b"
    and anc: "set (vb_ancestors b) \<subseteq> known ds" and unref: "\<forall>r b'. G r = Some b' \<longrightarrow> reference b \<notin> set (vb_ancestors b')"
  shows "\<exists>bm' ds'. try_accept_blocks now [b] (bm, ds) = Some ((bm', ds'), [b], {||}) \<and> manager_ok G bm' ds' \<and>
     gc_clean (gc_round ds) bm' \<and> gc_round ds' = gc_round ds \<and> ds_context ds' = ds_context ds \<and>
     lookup_block ds' = (lookup_block ds)(reference b \<mapsto> b)"
proof -
  let ?R = "{reference b} \<inter> {r. gc_round ds < br_round r}"
  obtain bm' ds' acc missing where
    1: "try_accept_blocks now [b] (bm, ds) = Some ((bm', ds'), acc, missing)" "progress False G bm ds acc ?R bm' ds'"
    using try_accept_blocks_ok[OF ok, of "[b]" now] b by auto
  note p = progressD[OF 1(2)]
  have R: "?R = {reference b}" using new(3) by auto
  have "missing = {||}"
  proof -
    obtain bm1 where bm1: "update_block_received_metrics b bm = Some bm1" "manager_ok G bm1 ds" "same_tables bm bm1"
      using update_block_received_metrics_ok[OF ok b] by blast
    have "needed ds b = []" using anc by (auto simp: needed_def filter_empty_conv)
    then have "try_accept_one_block now ds b bm1 = Some (received ds b bm1, Accepted b)"
      using try_accept_one_block_eq[OF bm1(2) b, of now] new bm1(3) by (simp add: same_tables_def)
    then show ?thesis using 1(1) bm1(1)
      by (auto simp: try_accept_blocks_def try_accept_blocks_internal_def try_accept_step_def split: bind_splits)
  qed
  moreover have k: "known ds' = insert (reference b) (known ds)"
  proof
    show "known ds' \<subseteq> insert (reference b) (known ds)"
      unfolding progress_known[OF 1(2) ok cl] R using deliverable_own[OF ok cl unref] by blast
    have "deliverable G (gc_round ds) (known ds) (suspended bm \<union> ?R) (reference b)"
    proof (rule deliverable_received[where b = b])
      show "deliverable G (gc_round ds) (known ds) (suspended bm \<union> ?R) x" if "x \<in> set (vb_ancestors b)" for x
        using that anc by (intro deliverable_known) blast
    qed (use R b in auto)
    then show "insert (reference b) (known ds) \<subseteq> known ds'"
      unfolding progress_known[OF 1(2) ok cl] by (auto intro: deliverable_known)
  qed
  moreover have "acc = [b]"
  proof -
    have im: "reference ` set acc = {reference b}" using p(3,6) k new(1) by auto
    then have l: "length acc = 1" using distinct_card[OF p(5)] by simp
    then obtain b' where b': "acc = [b']" by (auto simp: length_Suc_conv)
    have r: "reference b' = reference b" using im b' by simp
    have "G (reference b') = Some b'" by (rule p(7)) (simp add: b')
    from this[unfolded r b] show ?thesis using b' by simp
  qed
  moreover have "lookup_block ds' = (lookup_block ds)(reference b \<mapsto> b)"
    by (rule lookup_grown[OF manager_okD(1)[OF ok] manager_okD(1)[OF p(1)] b k])
  ultimately show ?thesis using 1(1) p(1,10,11) gc_clean_listed[OF cl p(9)] by blast
qed

section \<open>Linking and votes\<close>

text \<open>Linking the history of a known block never leaves the cache.\<close>

lemma cached_history:
  assumes ok: "dag_ok G ds"
  shows "cached_above (gc_round ds) (ds_recent_blocks ds)"
  unfolding cached_above_def
proof (intro allI impI ballI)
  fix r bi x
  assume r: "fmlookup (ds_recent_blocks ds) r = Some bi" and x: "x \<in> set (vb_ancestors (bi_block bi))" "gc_round ds < br_round x"
  note d = dag_okD[OF ok]
  have "0 < br_round r" using d(1) r by (simp add: dag_inv_def cache_inv_def)
  then have "lookup_block ds r = Some (bi_block bi)" using r by (simp add: lookup_block_def GENESIS_ROUND_def)
  then have "lookup_block ds x \<noteq> None" using d(5) x unfolding causal_def by (meson Suc_leI)
  then obtain b where "lookup_block ds x = Some b" by blast
  then show "fmlookup (ds_recent_blocks ds) x \<noteq> None" using known_cached(1)[OF d(1) _ x(2)] by auto
qed

lemma link_known:
  assumes ok: "manager_ok G bm ds" and root: "root \<in> known ds"
  shows "\<exists>ds' new. link_causal_history root ds = Some (ds', new) \<and> manager_ok G bm ds' \<and> same_frame ds ds' \<and>
     lookup_block ds' = lookup_block ds \<and> set new \<subseteq> known ds"
proof -
  note d = dag_okD[OF manager_okD(1)[OF ok]]
  let ?m = "ds_recent_blocks ds"
  have "\<forall>x \<in> set [root]. gc_round ds < br_round x \<longrightarrow> fmlookup ?m x \<noteq> None"
    using root known_cached(1)[OF d(1)] by fastforce
  from link_loop_spec[OF cached_history[OF manager_okD(1)[OF ok]] this, of "[]"] obtain m' new where
    l: "link_loop (gc_round ds) [root] ?m [] = Some (m', new)" "same_blocks ?m m'"
      "\<forall>r. included m' r \<longleftrightarrow> included ?m r \<or> r \<in> set new" by auto
  let ?ds = "ds\<lparr>ds_recent_blocks := m'\<rparr>"
  have ex: "link_causal_history root ds = Some (?ds, new)" using l(1) by (simp add: link_causal_history_def)
  have inv: "dag_inv ?ds" "lookup_block ?ds = lookup_block ds" using link_causal_history_inv[OF d(1) ex] by auto
  have "manager_ok G bm ?ds"
    by (rule manager_ok_dag_exec[OF ok, of "OpLink root" 0]) (simp_all add: ex)
  moreover have "set new \<subseteq> known ds"
  proof
    fix r assume "r \<in> set new"
    then have "included m' r" using l(3) by blast
    then obtain bi where bi: "fmlookup m' r = Some bi" by (auto simp: included_def split: option.splits)
    have "0 < br_round r" using inv(1) bi by (simp add: dag_inv_def cache_inv_def)
    then have "lookup_block ?ds r = Some (bi_block bi)" using bi by (simp add: lookup_block_def GENESIS_ROUND_def)
    then show "r \<in> known ds" unfolding inv(2) by blast
  qed
  ultimately show ?thesis using ex inv(2) by (auto simp: same_frame_def)
qed

lemma same_frame_gc: "same_frame ds ds' \<Longrightarrow> gc_round ds' = gc_round ds"
  by (auto simp: same_frame_def intro: gc_round_cong)

lemma link_ancestors_known:
  assumes ok: "manager_ok G bm ds" and bs: "\<forall>b \<in> set bs. reference b \<in> known ds"
  shows "\<exists>ds' new. try_fold link_ancestor bs (ds, []) = Some (ds', new) \<and> manager_ok G bm ds' \<and> same_frame ds ds' \<and>
     lookup_block ds' = lookup_block ds \<and> set new \<subseteq> known ds"
proof -
  let ?I = "\<lambda>(ds', new). manager_ok G bm ds' \<and> same_frame ds ds' \<and> lookup_block ds' = lookup_block ds \<and> set new \<subseteq> known ds"
  have "\<exists>s'. try_fold link_ancestor bs (ds, []) = Some s' \<and> ?I s'"
  proof (rule try_fold_total)
    fix b s assume b: "b \<in> set bs" and "?I s"
    obtain ds1 new1 where s: "s = (ds1, new1)" by (cases s)
    with \<open>?I s\<close> have I: "manager_ok G bm ds1" "same_frame ds ds1" "lookup_block ds1 = lookup_block ds" "set new1 \<subseteq> known ds" by auto
    have "reference b \<in> known ds1" using bs b I(3) by simp
    from link_known[OF I(1) this] obtain ds2 new2 where
      2: "link_causal_history (reference b) ds1 = Some (ds2, new2)" "manager_ok G bm ds2" "same_frame ds1 ds2"
        "lookup_block ds2 = lookup_block ds1" "set new2 \<subseteq> known ds1" by blast
    have "link_ancestor b s = Some (ds2, new1 @ new2)" using 2(1) s by (simp add: link_ancestor_def)
    moreover have "same_frame ds ds2" using I(2) 2(3) by (simp add: same_frame_def)
    moreover have "set (new1 @ new2) \<subseteq> known ds" using I(3,4) 2(5) by simp
    ultimately show "\<exists>s'. link_ancestor b s = Some s' \<and> ?I s'" using 2(2,4) I(3) by simp
  qed (use ok in simp)
  then show ?thesis by auto
qed

lemma get_own_votes_total:
  assumes "\<forall>r \<in> set refs. cs_gc_round cs < br_round r \<longrightarrow> fmlookup (cs_votes cs) r \<noteq> None"
  shows "\<exists>votes. get_own_votes cs refs = Some votes"
proof -
  have "\<exists>s'. try_fold (own_votes_on cs) refs [] = Some s' \<and> True"
    by (rule try_fold_total) (use assms in \<open>auto simp: own_votes_on_def not_le\<close>)
  then show ?thesis by (simp add: get_own_votes_def)
qed

text \<open>The certifier does not mind a block it has not seen.\<close>

lemma certifier_ok_extend:
  assumes ok: "certifier_ok c G cs" and b: "G (reference b) = None" "vb_author b \<in> members c"
  shows "certifier_ok c (G(reference b \<mapsto> b)) cs"
proof -
  let ?G = "G(reference b \<mapsto> b)"
  have sub: "?G r = Some x" if "G r = Some x" for r x using that b(1) by auto
  have "rejecters c G r i \<subseteq> rejecters c ?G r i" for r i unfolding rejecters_def using sub by blast
  moreover have "accepters c G r i \<subseteq> accepters c ?G r i" for r i unfolding accepters_def using sub by blast
  ultimately have "vote_info_ok c ?G r vi" if "vote_info_ok c G r vi" for r vi
    using that sub unfolding vote_info_ok_def by (meson subset_trans)
  moreover have "block_world c ?G" using ok b(2) by (auto simp: certifier_ok_def block_world_def)
  ultimately show ?thesis using ok by (simp add: certifier_ok_def entries_ok_def)
qed

lemma outputs_ok_none: "outputs_ok c G cs []"
  by (simp add: outputs_ok_def)

section \<open>The block is valid\<close>

lemma proposal_block_fields [simp]:
  "block_epoch (proposal_block i ctx R anc txs cvs tvs) = c_epoch (ctx_committee ctx)"
  "block_round (proposal_block i ctx R anc txs cvs tvs) = R"
  "block_author (proposal_block i ctx R anc txs cvs tvs) = ctx_own_index ctx"
  "block_ancestors (proposal_block i ctx R anc txs cvs tvs) = anc"
  "block_transactions (proposal_block i ctx R anc txs cvs tvs) = txs"
  by (simp_all add: proposal_block_def block_v1_new_def block_v2_new_def)

lemma signed_ok:
  assumes "signs k signer (a_protocol_key (c_authorities c ! block_author b))" "block_author b < committee_size c"
  shows "\<exists>sb. signed_block_new k b signer = ok sb \<and> sb_inner sb = b \<and>
     (\<forall>ctx. ctx_committee ctx = c \<longrightarrow> verify_signature k ctx sb = ok ())"
proof -
  obtain bs m sig where "cry_block_bytes k b = Inr bs" "cry_intent_bytes k (cry_hash k bs) = Inr m"
     "cry_parse_signature k (cry_sign k signer m) = Inr sig"
     "cry_verify k (a_protocol_key (c_authorities c ! block_author b)) m sig = Inr ()"
    using assms(1) unfolding signs_def by blast
  then show ?thesis using assms(2)
    by (simp add: signed_block_new_def compute_block_signature_def compute_inner_block_digest_def map_err_def
      verify_signature_def verify_block_signature_def is_valid_index_def committee_authority_def committee_size_def Let_def)
qed

lemma record_included_total:
  assumes "\<forall>b \<in> set bs. vb_author b < length li"
  shows "\<exists>li'. try_fold record_included bs li = Some li' \<and> length li' = length li"
  by (rule try_fold_total[where I = "\<lambda>l. length l = length li"])
    (use assms in \<open>auto simp: record_included_def vec_set_def\<close>)

lemma one_leader:
  assumes "pc_mysticeti_num_leaders_per_round (ctx_protocol_config ctx) = Some 1" "schedule_elect_leader g ctx sch rnd 0 = Some a"
  shows "get_leaders g sch (core_committer ctx) rnd = Some [a]"
proof -
  have "rnd mod 3 = 0 \<or> rnd mod 3 = 1 \<or> rnd mod 3 = 2" by presburger
  then show ?thesis
    using assms(2) elect_leader_pipeline[of 0 g sch ctx rnd] elect_leader_pipeline[of 1 g sch ctx rnd] elect_leader_pipeline[of 2 g sch ctx rnd]
    by (elim disjE) (simp_all add: get_leaders_def core_committers[OF assms(1)] List.map_filter_simps)
qed

lemma one_leader_slot:
  assumes "env_ok e (core_context co) (core_leader_schedule co)" "core_decider co = core_committer (core_context co)"
  shows "\<exists>a \<in> members (core_committee co). core_leaders e co rnd = Some [Slot rnd a]"
proof -
  obtain a where "a \<in> members (core_committee co)" "schedule_elect_leader (ce_rng e) (core_context co) (core_leader_schedule co) rnd 0 = Some a"
    using assms(1) unfolding env_ok_def by blast
  then show ?thesis using one_leader assms by (auto simp: core_leaders_def env_ok_def)
qed

lemma pool_valid:
  assumes ok: "pool_ok pc co" and nx: "consumer_next co = (co', pb)"
  shows "valid_transactions pc (pb_transactions pb)"
proof -
  obtain us where us: "bundles co = us @ bundles co'" "holds co us pb"
    using consumer_next_takes[OF _ _ nx] ok by (auto simp: pool_ok_def)
  then show ?thesis using ok by (auto simp: valid_transactions_def pool_ok_def fits_def holds_def)
qed

lemma proposal_valid:
  assumes ok: "creator_ok e G co" and anc: "good_ancestors (core_dag_state co) R own li anc"
    and own: "vb_author own = ctx_own_index (core_context co)" and v: "same_rules co v"
    and sb: "sb_inner sb = proposal_block i (core_context co) R (map reference anc) txs cvs tvs" "0 < R"
      "verify_signature k (sv_context v) sb = ok ()"
    and txs: "valid_transactions (ctx_protocol_config (core_context co)) txs"
  shows "verify_block k v sb = ok ()"
proof -
  let ?c = "core_committee co" and ?ds = "core_dag_state co"
  have p: "proposer_ok G co" using ok by (simp add: creator_ok_def)
  note d = proposer_okD[OF p] and g = anc[unfolded good_ancestors_def]
  have known: "br_author (reference b) \<in> members ?c \<and> (vb_round b = 0 \<longrightarrow> reference b |\<in>| fmdom (ds_genesis ?ds))"
    if "b \<in> set anc" for b
  proof -
    have l: "lookup_block ?ds (reference b) = Some b" using g that by blast
    then have "br_author (reference b) \<in> members ?c" using known_author[OF d(2), of "reference b"] d(4) by auto
    moreover have "reference b |\<in>| fmdom (ds_genesis ?ds)" if "vb_round b = 0"
      using l that by (simp add: lookup_block_def GENESIS_ROUND_def fmdomI)
    ultimately show ?thesis by blast
  qed
  have "br_author ` {x \<in> set (map reference anc). Suc (br_round x) = R} = vb_author ` {b \<in> set anc. Suc (vb_round b) = R}"
    by force
  then have q: "quorum ?c \<le> stake_of ?c (br_author ` {x \<in> set (map reference anc). Suc (br_round x) = R})"
    using g d(4) by simp
  have "map br_author (map reference anc) = map vb_author anc" by simp
  then have va: "valid_ancestors ?c (fmdom (ds_genesis ?ds)) (sb_inner sb)"
    using g known own sb(1) by (auto simp: valid_ancestors_def hd_map GENESIS_ROUND_def comp_def)
  have "ctx_own_index (core_context co) \<in> members ?c" using d(16) by (simp add: members_def)
  then have "valid_block k v sb"
    using v va q sb txs by (simp add: valid_block_def same_rules_def parents_of_def Let_def)
  moreover have "committee_wf (ctx_committee (sv_context v))" using v d(15) by (simp add: same_rules_def)
  ultimately show ?thesis by (simp add: verify_block_iff)
qed

section \<open>The steps keep the known blocks\<close>

definition unchanged :: "dag_view \<Rightarrow> block_manager \<Rightarrow> dag_state \<Rightarrow> dag_state \<Rightarrow> bool" where
  "unchanged G bm ds ds' \<longleftrightarrow> manager_ok G bm ds' \<and> same_frame ds ds' \<and> lookup_block ds' = lookup_block ds"

lemma unchanged_trans: "unchanged G bm ds ds1 \<Longrightarrow> unchanged G bm ds1 ds2 \<Longrightarrow> unchanged G bm ds ds2"
  by (auto simp: unchanged_def same_frame_def)

lemma take_votes_unchanged:
  assumes ok: "manager_ok G bm ds"
  shows "unchanged G bm ds (fst (take_commit_votes n ds))"
proof -
  have "manager_ok G bm (fst (take_commit_votes n ds))"
    by (rule manager_ok_dag_exec[OF ok, of "OpTakeVotes n" 0]) simp_all
  then show ?thesis
    by (auto simp: unchanged_def same_frame_def take_commit_votes_def lookup_block_def fun_eq_iff split: prod.split option.split)
qed

lemma flush_unchanged:
  assumes ok: "manager_ok G bm ds"
  shows "\<exists>ds'. flush ds = Some ds' \<and> unchanged G bm ds ds' \<and>
    (\<forall>r. 0 < br_round r \<longrightarrow> mem_lookup (ds_store ds') r = lookup_block ds r)"
proof -
  obtain ds' where f: "flush ds = Some ds'" "lookup_block ds' = lookup_block ds" "same_frame ds ds'"
      "\<forall>r. 0 < br_round r \<longrightarrow> mem_lookup (ds_store ds') r = lookup_block ds' r"
    using flush_spec[OF dag_okD(1)[OF manager_okD(1)[OF ok]]] by blast
  have "manager_ok G bm ds'" by (rule manager_ok_dag_exec[OF ok, of OpFlush 0]) (simp_all add: f)
  then show ?thesis using f by (simp add: unchanged_def)
qed

lemma own_transaction_votes_ok:
  assumes ok: "manager_ok G (core_block_manager co) (core_dag_state co)"
    and anc: "\<forall>b \<in> set anc. reference b \<in> known (core_dag_state co)"
    and fp: "pc_mysticeti_fastpath (ctx_protocol_config (core_context co)) \<longrightarrow> votes_kept G co"
  shows "\<exists>ds' votes. own_transaction_votes anc co = Some (co\<lparr>core_dag_state := ds'\<rparr>, votes) \<and>
     unchanged G (core_block_manager co) (core_dag_state co) ds'"
proof (cases "pc_mysticeti_fastpath (ctx_protocol_config (core_context co))")
  case True
  obtain ds' new where l: "try_fold link_ancestor anc (core_dag_state co, []) = Some (ds', new)"
      "manager_ok G (core_block_manager co) ds'" "same_frame (core_dag_state co) ds'"
      "lookup_block ds' = lookup_block (core_dag_state co)" "set new \<subseteq> known (core_dag_state co)"
    using link_ancestors_known[OF ok anc] by blast
  have "\<forall>r \<in> set new. cs_gc_round (core_transaction_certifier co) < br_round r \<longrightarrow>
      fmlookup (cs_votes (core_transaction_certifier co)) r \<noteq> None"
    using fp True l(5) unfolding votes_kept_def Let_def by blast
  from get_own_votes_total[OF this] obtain votes where "get_own_votes (core_transaction_certifier co) new = Some votes" by blast
  then have "own_transaction_votes anc co = Some (co\<lparr>core_dag_state := ds'\<rparr>, votes)"
    using l(1) True by (simp add: own_transaction_votes_def)
  then show ?thesis using l(2-4) unfolding unchanged_def by blast
next
  case False
  then have "own_transaction_votes anc co = Some (co\<lparr>core_dag_state := core_dag_state co\<rparr>, [])"
    by (simp add: own_transaction_votes_def)
  then show ?thesis using ok same_frame_refl unfolding unchanged_def by blast
qed

lemma add_own_votes_ok:
  assumes ok: "manager_ok G (core_block_manager co) (core_dag_state co)"
    and b: "G (reference b) = Some b" "reference b \<in> known (core_dag_state co)"
    and fp: "pc_mysticeti_fastpath (ctx_protocol_config (core_context co)) \<longrightarrow>
      certifier_ok (core_committee co) G (core_transaction_certifier co)"
  shows "\<exists>cs out ds'. add_own_votes b co = Some (co\<lparr>core_transaction_certifier := cs, core_certified_blocks := out, core_dag_state := ds'\<rparr>) \<and>
     unchanged G (core_block_manager co) (core_dag_state co) ds' \<and>
     (pc_mysticeti_fastpath (ctx_protocol_config (core_context co)) \<longrightarrow> certifier_ok (core_committee co) G cs)"
proof (cases "pc_mysticeti_fastpath (ctx_protocol_config (core_context co))")
  case True
  obtain cs out where c: "add_voted_blocks [(b, [])] (core_transaction_certifier co) = Some (cs, out)"
      "certifier_ok (core_committee co) G cs"
    using add_voted_blocks_ok[OF fp[rule_format, OF True] outputs_ok_none, of "[(b, [])]"] b(1) by auto
  obtain ds' new where l: "link_causal_history (reference b) (core_dag_state co) = Some (ds', new)"
      "unchanged G (core_block_manager co) (core_dag_state co) ds'"
    using link_known[OF ok b(2)] unfolding unchanged_def by blast
  have "add_own_votes b co = Some (co\<lparr>core_transaction_certifier := cs,
      core_certified_blocks := core_certified_blocks co @ out, core_dag_state := ds'\<rparr>)"
    using c(1) l(1) True by (simp add: add_own_votes_def)
  then show ?thesis using c(2) l(2) by blast
next
  case False
  then have "add_own_votes b co = Some (co\<lparr>core_transaction_certifier := core_transaction_certifier co,
      core_certified_blocks := core_certified_blocks co, core_dag_state := core_dag_state co\<rparr>)"
    by (simp add: add_own_votes_def)
  then show ?thesis using ok False same_frame_refl unfolding unchanged_def by blast
qed

text \<open>The newest own block is the last proposed one.\<close>

lemma newest_own:
  assumes ok: "manager_ok G bm ds" and b: "lookup_block ds (reference b) = Some b" "vb_author b = ds_own_index ds"
      "gc_round ds < vb_round b"
    and max: "\<forall>r. G r \<noteq> None \<and> br_author r = ds_own_index ds \<and> r \<noteq> reference b \<longrightarrow> br_round r < vb_round b"
  shows "get_last_proposed_block ds = Some b"
proof -
  note d = dag_okD[OF manager_okD(1)[OF ok]]
  have "ds_own_index ds < ds_size ds" using d(1) by (simp add: dag_inv_def genesis_inv_def)
  then obtain l where l: "get_last_block_for_authority ds (ds_own_index ds) = Some l" "lookup_block ds (reference l) = Some l"
      "vb_author l = ds_own_index ds" "\<forall>r. r |\<in>| ds_recent_refs ds ! ds_own_index ds \<longrightarrow> r \<le> reference l"
    using get_last_block_for_authority_ok[OF d(1)] by blast
  have "reference b |\<in>| ds_recent_refs ds ! br_author (reference b)" using known_cached(3)[OF d(1) b(1)] b(3) by simp
  then have "reference b \<le> reference l" using l(4) b(2) by simp
  then have "vb_round b \<le> vb_round l" using block_ref_le_round[of "reference b" "reference l"] by simp
  then have e: "reference l = reference b" using max[rule_format, of "reference l"] d(6)[OF l(2)] l(3) by fastforce
  have "Some l = Some b" using l(2) b(1) unfolding e by (simp only:)
  then show ?thesis using l(1) by (simp add: get_last_proposed_block_def)
qed

section \<open>The block is persisted\<close>

lemma extended_view:
  assumes ok: "manager_ok G bm ds" and b: "G (reference b) = None" "0 < vb_round b" "vb_author b = ds_own_index ds"
    and anc: "\<forall>x \<in> set (vb_ancestors b). x \<in> known ds \<and> br_round x < vb_round b"
    and own: "\<forall>r. G r \<noteq> None \<and> br_author r = ds_own_index ds \<longrightarrow> br_round r < vb_round b"
    and unref: "\<forall>r b'. G r = Some b' \<longrightarrow> reference b \<notin> set (vb_ancestors b')"
  shows "manager_ok (G(reference b \<mapsto> b)) bm ds" "reference b \<notin> known ds" "reference b \<notin> suspended bm"
    and "\<forall>r b'. (G(reference b \<mapsto> b)) r = Some b' \<longrightarrow> reference b \<notin> set (vb_ancestors b')"
proof -
  show "manager_ok (G(reference b \<mapsto> b)) bm ds" by (rule manager_ok_extend[OF ok b anc own])
  show "reference b \<notin> known ds" using dag_okD(6)[OF manager_okD(1)[OF ok], of "reference b"] b(1) by auto
  show "reference b \<notin> suspended bm"
  proof
    assume "reference b \<in> suspended bm"
    then obtain su where "fmlookup (bm_suspended_blocks bm) (reference b) = Some su" by auto
    then show False using manager_okD(2)[OF ok] b(1) by (auto simp: waiting_def parked_def)
  qed
  show "\<forall>r b'. (G(reference b \<mapsto> b)) r = Some b' \<longrightarrow> reference b \<notin> set (vb_ancestors b')"
  proof (intro allI impI)
    fix r b' assume r: "(G(reference b \<mapsto> b)) r = Some b'"
    show "reference b \<notin> set (vb_ancestors b')"
    proof (cases "r = reference b")
      case True
      then have "b' = b" using r by simp
      then show ?thesis using anc[rule_format, of "reference b"] by auto
    next
      case False
      then have "G r = Some b'" using r by simp
      then show ?thesis using unref by blast
    qed
  qed
qed

lemma persist_block:
  assumes ok: "manager_ok G (core_block_manager co) (core_dag_state co)" "gc_clean (gc_round (core_dag_state co)) (core_block_manager co)"
    and ctx: "ds_context (core_dag_state co) = core_context co"
    and b: "G (reference b) = None" "vb_author b = ctx_own_index (core_context co)" "gc_round (core_dag_state co) < vb_round b"
    and anc: "\<forall>x \<in> set (vb_ancestors b). x \<in> known (core_dag_state co) \<and> br_round x < vb_round b"
    and own: "\<forall>r. G r \<noteq> None \<and> br_author r = ctx_own_index (core_context co) \<longrightarrow> br_round r < vb_round b"
    and unref: "\<forall>r b'. G r = Some b' \<longrightarrow> reference b \<notin> set (vb_ancestors b')"
    and fp: "pc_mysticeti_fastpath (ctx_protocol_config (core_context co)) \<longrightarrow>
      certifier_ok (core_committee co) G (core_transaction_certifier co)"
  shows "\<exists>bm ds1 cs out ds2 ds3. try_accept_blocks now [b] (core_block_manager co, core_dag_state co) = Some ((bm, ds1), [b], {||}) \<and>
     add_own_votes b (co\<lparr>core_block_manager := bm, core_dag_state := ds1\<rparr>) = Some (co\<lparr>core_block_manager := bm,
       core_transaction_certifier := cs, core_certified_blocks := out, core_dag_state := ds2\<rparr>) \<and>
     flush ds2 = Some ds3 \<and> manager_ok (G(reference b \<mapsto> b)) bm ds3 \<and> get_last_proposed_block ds3 = Some b \<and>
     lookup_block ds3 = (lookup_block (core_dag_state co))(reference b \<mapsto> b) \<and> mem_lookup (ds_store ds3) (reference b) = Some b"
proof -
  let ?ds = "core_dag_state co" and ?bm = "core_block_manager co" and ?G = "G(reference b \<mapsto> b)" and ?own = "ctx_own_index (core_context co)"
  have pos: "0 < vb_round b" using b(3) by simp
  note v = extended_view[OF ok(1) b(1) pos _ anc _ unref, unfolded ctx, OF b(2) own]
  have gb: "?G (reference b) = Some b" by simp
  have sub: "set (vb_ancestors b) \<subseteq> known ?ds" using anc by blast
  obtain bm ds1 where 1: "try_accept_blocks now [b] (?bm, ?ds) = Some ((bm, ds1), [b], {||})" "manager_ok ?G bm ds1"
      "gc_round ds1 = gc_round ?ds" "ds_context ds1 = ds_context ?ds" "lookup_block ds1 = (lookup_block ?ds)(reference b \<mapsto> b)"
    using own_block_accepted[OF v(1) ok(2) gb v(2,3) b(3) sub v(4), of now] by blast
  let ?co1 = "co\<lparr>core_block_manager := bm, core_dag_state := ds1\<rparr>"
  have "br_author (reference b) \<in> members (core_committee co)"
    using known_author[OF manager_okD(1)[OF 1(2)], of "reference b"] 1(4,5) ctx by simp
  then have fp': "pc_mysticeti_fastpath (ctx_protocol_config (core_context ?co1)) \<longrightarrow>
      certifier_ok (core_committee ?co1) ?G (core_transaction_certifier ?co1)"
    using fp certifier_ok_extend[where G = G and b = b] b(1) by simp
  obtain cs out ds2 where 2: "add_own_votes b ?co1 = Some (?co1\<lparr>core_transaction_certifier := cs,
      core_certified_blocks := out, core_dag_state := ds2\<rparr>)" "unchanged ?G bm ds1 ds2"
    using add_own_votes_ok[where G = ?G and b = b and co = ?co1] fp' gb 1(2,5) by auto
  obtain ds3 where 3: "flush ds2 = Some ds3" "unchanged ?G bm ds2 ds3"
      "\<forall>r. 0 < br_round r \<longrightarrow> mem_lookup (ds_store ds3) r = lookup_block ds2 r"
    using flush_unchanged 2(2) unfolding unchanged_def by blast
  have u: "unchanged ?G bm ds1 ds3" by (rule unchanged_trans[OF 2(2) 3(2)])
  have lk: "lookup_block ds3 = (lookup_block ?ds)(reference b \<mapsto> b)" "lookup_block ds2 (reference b) = Some b"
    using u 2(2) 1(5) by (simp_all add: unchanged_def)
  have m: "manager_ok ?G bm ds3" and sf: "same_frame ds1 ds3" using u by (simp_all add: unchanged_def)
  have f: "gc_round ds3 = gc_round ?ds" "ds_context ds3 = core_context co"
    using same_frame_gc[OF sf] 1(3,4) sf ctx by (simp_all add: same_frame_def)
  have last: "get_last_proposed_block ds3 = Some b"
  proof (rule newest_own[OF m])
    show "\<forall>r. ?G r \<noteq> None \<and> br_author r = ds_own_index ds3 \<and> r \<noteq> reference b \<longrightarrow> br_round r < vb_round b"
      unfolding f using own by simp
  qed (use lk f b in simp_all)
  have stored: "mem_lookup (ds_store ds3) (reference b) = Some b" using 3(3) lk(2) pos by simp
  have "?co1\<lparr>core_transaction_certifier := cs, core_certified_blocks := out, core_dag_state := ds2\<rparr> =
      co\<lparr>core_block_manager := bm, core_transaction_certifier := cs, core_certified_blocks := out, core_dag_state := ds2\<rparr>" by simp
  then have "add_own_votes b ?co1 = Some (co\<lparr>core_block_manager := bm, core_transaction_certifier := cs,
      core_certified_blocks := out, core_dag_state := ds2\<rparr>)" using 2(1) by simp
  with 1(1) 3(1) m last lk(1) stored show ?thesis by blast
qed

section \<open>The whole creation\<close>

lemma first_leader_ok:
  assumes "env_ok e (core_context co) (core_leader_schedule co)" "core_decider co = core_committer (core_context co)"
  shows "\<exists>a au. first_leader e co rnd = Some a \<and> committee_authority (core_committee co) a = Some au"
  using one_leader_slot[OF assms, of rnd] by (auto simp: first_leader_def members_def committee_authority_def committee_size_def)

lemma built_block:
  assumes ok: "creator_ok e G co" and own: "last_proposed_block co = Some own" "vb_round own < R"
    and R: "R = threshold_clock_round (core_dag_state co)"
  shows "\<exists>sb s b. expect_ok (signed_block_new (ce_crypto e) (proposal_block i (core_context co) R refs txs cvs tvs) (ce_block_signer e)) = Some sb \<and>
     ce_serialize e sb = Some s \<and> b = new_verified (cry_hash (ce_crypto e)) sb s \<and> vb_block b = sb \<and>
     sb_inner sb = proposal_block i (core_context co) R refs txs cvs tvs \<and>
     (\<forall>v. same_rules co v \<longrightarrow> verify_signature (ce_crypto e) (sv_context v) sb = ok ()) \<and>
     vb_author b = ctx_own_index (core_context co) \<and> vb_round b = R \<and> vb_ancestors b = refs \<and>
     (\<forall>r b'. G r = Some b' \<longrightarrow> reference b \<notin> set (vb_ancestors b')) \<and> G (reference b) = None \<and>
     (\<forall>r. G r \<noteq> None \<and> br_author r = ctx_own_index (core_context co) \<longrightarrow> br_round r < vb_round b)"
proof -
  let ?block = "proposal_block i (core_context co) R refs txs cvs tvs" and ?c = "core_committee co"
  note k = creator_okD[OF ok] and d = proposer_okD[OF creator_okD(1)[OF ok]]
  have "signs (ce_crypto e) (ce_block_signer e) (a_protocol_key (c_authorities ?c ! block_author ?block))"
    using k(2) by (simp add: env_ok_def)
  from signed_ok[OF this] d(16) obtain sb where
    sb: "signed_block_new (ce_crypto e) ?block (ce_block_signer e) = ok sb" "sb_inner sb = ?block"
      "\<forall>ctx. ctx_committee ctx = ?c \<longrightarrow> verify_signature (ce_crypto e) ctx sb = ok ()" by auto
  obtain s where s: "ce_serialize e sb = Some s" using k(2) unfolding env_ok_def by blast
  let ?b = "new_verified (cry_hash (ce_crypto e)) sb s"
  have f: "vb_author ?b = ctx_own_index (core_context co)" "vb_round ?b = R" "vb_ancestors ?b = refs"
      "vb_digest ?b = cry_hash (ce_crypto e) s" "vb_block ?b = sb"
    using sb(2) by (simp_all add: new_verified_def vb_author_def vb_round_def vb_ancestors_def inner_def)
  have "\<forall>r b'. G r = Some b' \<longrightarrow> reference ?b \<notin> set (vb_ancestors b')"
    using k(8) s unfolding unreferenced_def reference_def f R by blast
  moreover have "expect_ok (signed_block_new (ce_crypto e) ?block (ce_block_signer e)) = Some sb"
    using sb(1) by (simp add: expect_ok_def ok_def)
  moreover have "\<forall>v. same_rules co v \<longrightarrow> verify_signature (ce_crypto e) (sv_context v) sb = ok ()"
    using sb(3) by (simp add: same_rules_def)
  moreover have mine: "\<forall>r. G r \<noteq> None \<and> br_author r = ctx_own_index (core_context co) \<longrightarrow> br_round r < vb_round ?b"
    using k(7)[OF own(1)] own(2) f(2) by fastforce
  moreover have "G (reference ?b) = None" using mine[rule_format, of "reference ?b"] f(1) by fastforce
  ultimately show ?thesis using s f(1,2,3,5) sb(2) by blast
qed

text \<open>What \<open>create_block\<close> gathers before it builds the block.\<close>

lemma gathered:
  assumes ok: "creator_ok e G co"
    and co1: "co1 = co\<lparr>core_ancestor_state_manager := asm, core_last_included_ancestors := li\<rparr>"
      "length li = committee_size (core_committee co)"
    and known: "\<forall>b \<in> set anc. reference b \<in> known (core_dag_state co) \<and> vb_author b < committee_size (core_committee co)"
  shows "\<exists>li' a au xs cons batch ds1 cvs ds2 tvs. try_fold record_included anc li = Some li' \<and>
     first_leader e co1 rnd = Some a \<and> committee_authority (core_committee co) a = Some au \<and>
     try_map (\<lambda>b. committee_authority (core_committee co) (vb_author b)) anc = Some xs \<and>
     consumer_next (core_transaction_consumer co) = (cons, batch) \<and>
     take_commit_votes MAX_COMMIT_VOTES_PER_BLOCK (core_dag_state co) = (ds1, cvs) \<and>
     own_transaction_votes anc (co1\<lparr>core_last_included_ancestors := li', core_transaction_consumer := cons, core_dag_state := ds1\<rparr>) =
       Some (co1\<lparr>core_last_included_ancestors := li', core_transaction_consumer := cons, core_dag_state := ds2\<rparr>, tvs) \<and>
     unchanged G (core_block_manager co) (core_dag_state co) ds2"
proof -
  let ?ds = "core_dag_state co" and ?c = "core_committee co"
  note k = creator_okD[OF ok] and d = proposer_okD[OF creator_okD(1)[OF ok]]
  obtain li' where li': "try_fold record_included anc li = Some li'"
    using record_included_total[of anc li] known co1(2) by auto
  obtain a au where leader: "first_leader e co1 rnd = Some a" "committee_authority ?c a = Some au"
    using first_leader_ok[of e co1 rnd] k(2,3) co1(1) by auto
  obtain xs where auths: "try_map (\<lambda>b. committee_authority ?c (vb_author b)) anc = Some xs"
    using try_map_total[of anc "\<lambda>b. committee_authority ?c (vb_author b)" "\<lambda>b. c_authorities ?c ! vb_author b"] known
    by (auto simp: committee_authority_def committee_size_def)
  obtain cons batch where nx: "consumer_next (core_transaction_consumer co) = (cons, batch)"
    by (cases "consumer_next (core_transaction_consumer co)")
  obtain ds1 cvs where tk: "take_commit_votes MAX_COMMIT_VOTES_PER_BLOCK ?ds = (ds1, cvs)"
    by (cases "take_commit_votes MAX_COMMIT_VOTES_PER_BLOCK ?ds")
  have u1: "unchanged G (core_block_manager co) ?ds ds1"
    using take_votes_unchanged[OF d(1), of MAX_COMMIT_VOTES_PER_BLOCK] tk by simp
  let ?co1 = "co1\<lparr>core_last_included_ancestors := li', core_transaction_consumer := cons, core_dag_state := ds1\<rparr>"
  have lk1: "lookup_block ds1 = lookup_block ?ds" "manager_ok G (core_block_manager co) ds1" using u1 by (simp_all add: unchanged_def)
  have "\<exists>ds2 tvs. own_transaction_votes anc ?co1 = Some (?co1\<lparr>core_dag_state := ds2\<rparr>, tvs) \<and>
      unchanged G (core_block_manager ?co1) (core_dag_state ?co1) ds2"
    by (rule own_transaction_votes_ok) (use co1(1) lk1 known k(9) in \<open>auto simp: votes_kept_def Let_def\<close>)
  then obtain ds2 tvs where ov: "own_transaction_votes anc ?co1 = Some (?co1\<lparr>core_dag_state := ds2\<rparr>, tvs)"
      "unchanged G (core_block_manager co) ds1 ds2" using co1(1) by auto
  have eq: "?co1\<lparr>core_dag_state := ds2\<rparr> =
      co1\<lparr>core_last_included_ancestors := li', core_transaction_consumer := cons, core_dag_state := ds2\<rparr>" by simp
  show ?thesis using li' leader auths nx tk ov(1)[unfolded eq] unchanged_trans[OF u1 ov(2)] by blast
qed

lemma ancestor_known:
  assumes "dag_ok G ds" "good_ancestors ds R own li anc" "b \<in> set anc"
  shows "reference b \<in> known ds" "vb_author b < ds_size ds" "vb_round b < R"
proof -
  have l: "lookup_block ds (reference b) = Some b" and R: "vb_round b < R" using assms(2,3) unfolding good_ancestors_def by blast+
  show k: "reference b \<in> known ds" using l by blast
  show "vb_author b < ds_size ds" using known_author[OF assms(1) k] by (simp add: members_def)
  show "vb_round b < R" by (rule R)
qed

lemma last_proposed_total:
  assumes "manager_ok G bm ds"
  shows "\<exists>p. get_last_proposed_block ds = Some p"
proof -
  have inv: "dag_inv ds" using dag_okD(1)[OF manager_okD(1)[OF assms]] .
  then have "ds_own_index ds < ds_size ds" by (simp add: dag_inv_def genesis_inv_def)
  then show ?thesis using get_last_block_for_authority_ok[OF inv] by (auto simp: get_last_proposed_block_def)
qed

lemma tracker_total:
  assumes "tracker_ok tr" "rt_context tr = ctx" "vb_author (eb_block eb) < committee_size (ctx_committee ctx)"
    and "\<forall>x \<in> set (vb_ancestors (eb_block eb)). br_author x < committee_size (ctx_committee ctx)"
    and "\<forall>x \<in> set (eb_excluded_ancestors eb). br_author x < committee_size (ctx_committee ctx)"
  shows "\<exists>tr'. update_from_verified_block eb tr = Some tr'"
proof -
  have "\<forall>x \<in> set (vb_ancestors (eb_block eb) @ eb_excluded_ancestors eb). br_author x < committee_size (ctx_committee (rt_context tr))"
    using assms(2,4,5) by auto
  then show ?thesis using update_from_verified_block_ok[OF assms(1) refl, of eb] assms(2,3) by blast
qed

lemma create_block_ok:
  assumes ok: "creator_ok e G co" and own: "last_proposed_block co = Some own" "vb_round own < R"
    and R: "R = threshold_clock_round (core_dag_state co)"
    and co1: "co1 = co\<lparr>core_ancestor_state_manager := asm, core_last_included_ancestors := li\<rparr>"
      "length li = committee_size (core_committee co)"
    and anc: "good_ancestors (core_dag_state co) R own li0 anc"
    and exc: "\<forall>r \<in> set exc. br_author r < committee_size (core_committee co)"
  shows "\<exists>co' eb. create_block e i R anc exc co1 = Some (co', eb) \<and> eb_excluded_ancestors eb = exc \<and>
     vb_ancestors (eb_block eb) = map reference anc \<and> proposed e G co co' (eb_block eb)"
proof -
  let ?ds = "core_dag_state co" and ?c = "core_committee co" and ?own = "ctx_own_index (core_context co)"
  note k = creator_okD[OF ok] and d = proposer_okD[OF creator_okD(1)[OF ok]] and g = anc[unfolded good_ancestors_def]
  have known: "reference b \<in> known ?ds \<and> vb_author b < committee_size ?c \<and> vb_round b < R" if "b \<in> set anc" for b
    using ancestor_known[OF d(2) anc that] d(4) by simp
  obtain li' a au xs cons batch ds1 cvs ds2 tvs where
    1: "try_fold record_included anc li = Some li'" "first_leader e co1 (R - 1) = Some a" "committee_authority ?c a = Some au"
      "try_map (\<lambda>b. committee_authority ?c (vb_author b)) anc = Some xs" "consumer_next (core_transaction_consumer co) = (cons, batch)"
      "take_commit_votes MAX_COMMIT_VOTES_PER_BLOCK ?ds = (ds1, cvs)"
      "own_transaction_votes anc (co1\<lparr>core_last_included_ancestors := li', core_transaction_consumer := cons, core_dag_state := ds1\<rparr>) =
         Some (co1\<lparr>core_last_included_ancestors := li', core_transaction_consumer := cons, core_dag_state := ds2\<rparr>, tvs)"
      "unchanged G (core_block_manager co) ?ds ds2"
    using gathered[OF ok co1, of anc "R - 1"] known by blast
  let ?co2 = "co1\<lparr>core_last_included_ancestors := li', core_transaction_consumer := cons, core_dag_state := ds2\<rparr>"
  let ?block = "proposal_block i (core_context co) R (map reference anc) (pb_transactions batch) cvs tvs"
  obtain sb s b where
    2: "expect_ok (signed_block_new (ce_crypto e) ?block (ce_block_signer e)) = Some sb" "ce_serialize e sb = Some s"
      "b = new_verified (cry_hash (ce_crypto e)) sb s" "vb_block b = sb" "sb_inner sb = ?block"
      "\<forall>v. same_rules co v \<longrightarrow> verify_signature (ce_crypto e) (sv_context v) sb = ok ()"
      "vb_author b = ?own" "vb_round b = R" "vb_ancestors b = map reference anc"
      "\<forall>r b'. G r = Some b' \<longrightarrow> reference b \<notin> set (vb_ancestors b')" "G (reference b) = None"
      "\<forall>r. G r \<noteq> None \<and> br_author r = ?own \<longrightarrow> br_round r < vb_round b"
    using built_block[OF ok own R] by blast
  have sf: "manager_ok G (core_block_manager co) ds2" "gc_round ds2 = gc_round ?ds" "ds_context ds2 = core_context co"
      "lookup_block ds2 = lookup_block ?ds"
    using 1(8) same_frame_gc[of ?ds ds2] d(4) by (simp_all add: unchanged_def same_frame_def)
  have above: "\<forall>x \<in> set (vb_ancestors b). x \<in> known (core_dag_state ?co2) \<and> br_round x < vb_round b" using known 2(8,9) sf(4) by auto
  have fp: "pc_mysticeti_fastpath (ctx_protocol_config (core_context ?co2)) \<longrightarrow>
      certifier_ok (core_committee ?co2) G (core_transaction_certifier ?co2)" using k(9) co1(1) by (simp add: votes_kept_def Let_def)
  obtain bm ds3 cs out ds4 ds5 where
    3: "try_accept_blocks (in_now i) [b] (core_block_manager co, ds2) = Some ((bm, ds3), [b], {||})"
      "add_own_votes b (?co2\<lparr>core_block_manager := bm, core_dag_state := ds3\<rparr>) = Some (?co2\<lparr>core_block_manager := bm,
       core_transaction_certifier := cs, core_certified_blocks := out, core_dag_state := ds4\<rparr>)"
      "flush ds4 = Some ds5" "manager_ok (G(reference b \<mapsto> b)) bm ds5" "get_last_proposed_block ds5 = Some b"
      "lookup_block ds5 = (lookup_block ?ds)(reference b \<mapsto> b)" "mem_lookup (ds_store ds5) (reference b) = Some b"
    using persist_block[where co = ?co2 and now = "in_now i", OF _ _ _ _ _ _ above _ 2(10) fp] sf k(5,6) 2(7,8,11,12) co1(1) R by auto
  have own2: "\<exists>p. last_proposed_block ?co2 = Some p" using last_proposed_total[OF sf(1)] by (simp add: last_proposed_block_def)
  let ?eb = "\<lparr>eb_block = b, eb_excluded_ancestors = exc\<rparr>"
  obtain tr where tr: "update_from_verified_block ?eb (core_round_tracker co) = Some tr"
    using tracker_total[OF d(8,9), of ?eb] d(16) known exc 2(7,9) by auto
  obtain cons' acks where ack: "ack_transactions (reference b) batch cons = (cons', acks)"
    by (cases "ack_transactions (reference b) batch cons")
  let ?co' = "?co2\<lparr>core_block_manager := bm, core_transaction_certifier := cs, core_certified_blocks := out, core_dag_state := ds5,
    core_transaction_consumer := cons', core_transaction_acks := core_transaction_acks co @ acks, core_round_tracker := tr\<rparr>"
  have "create_block e i R anc exc co1 = Some (?co', ?eb)"
    using 1 2(1-3) 3(1-3) own2 tr ack co1(1) by (auto simp: create_block_def rust_assert_def)
  moreover have "\<forall>v. same_rules co v \<longrightarrow> verify_block (ce_crypto e) v (vb_block b) = ok ()"
  proof (intro allI impI)
    fix v assume v: "same_rules co v"
    have "vb_author own = ?own" using last_proposed_ok[OF k(1)] own(1) by auto
    from proposal_valid[OF ok anc this v 2(5) _ _ pool_valid[OF k(4) 1(5)]] 2(6) v own(2)
    show "verify_block (ce_crypto e) v (vb_block b) = ok ()" unfolding 2(4) by simp
  qed
  then have "proposed e G co ?co' b"
    using 2(7,8,11) 3(4-7) R unfolding proposed_def by (simp add: last_proposed_block_def)
  ultimately show ?thesis using 2(9) by fastforce
qed

lemma leaders_exist_total:
  assumes ok: "creator_ok e G co" and R: "R = threshold_clock_round (core_dag_state co)"
  shows "\<exists>found. leaders_exist e co (R - 1) = Some found"
proof -
  let ?ds = "core_dag_state co"
  note k = creator_okD[OF ok] and d = proposer_okD[OF creator_okD(1)[OF ok]]
  obtain a where a: "a \<in> members (core_committee co)" "core_leaders e co (R - 1) = Some [Slot (R - 1) a]"
    using one_leader_slot[OF k(2,3)] by blast
  have n: "a < ds_size ?ds" using a(1) d(4) by (simp add: members_def)
  have "ds_evicted_rounds ?ds ! a < R - 1" if "R - 1 \<noteq> 0"
    using evicted_le_gc[OF d(3) n] d(7) that R by (simp add: parents_kept_def)
  moreover have "a < length (ds_evicted_rounds ?ds)" "a < length (ds_recent_refs ?ds)"
    using d(3) n by (simp_all add: dag_inv_def cache_inv_def)
  ultimately have "\<exists>found. contains_cached_block_at_slot ?ds (Slot (R - 1) a) = Some found"
    by (cases "R - 1 = 0") (auto simp: contains_cached_block_at_slot_def GENESIS_ROUND_def rust_assert_def vec_get_def)
  then show ?thesis using a(2) by (auto simp: leaders_exist_def)
qed

lemma ready_total:
  assumes ok: "creator_ok e G co" and R: "R = threshold_clock_round (core_dag_state co)"
  shows "\<exists>ready. ready_to_propose e i force (R - 1) co = Some ready \<and> (force \<longrightarrow> ready)"
proof -
  obtain found where "leaders_exist e co (R - 1) = Some found" using leaders_exist_total[OF assms] by blast
  moreover obtain own where "last_proposed_block co = Some own" using last_proposed_ok[OF creator_okD(1)[OF ok]] by blast
  ultimately show ?thesis by (auto simp: ready_to_propose_def too_soon_def last_proposed_timestamp_ms_def)
qed

lemma try_new_block_ok:
  assumes ok: "creator_ok e G co" and own: "last_proposed_block co = Some own"
    and R: "R = threshold_clock_round (core_dag_state co)"
  shows "\<exists>co' res. try_new_block e i force co = Some (co', res) \<and>
     (res = None \<longrightarrow> core_dag_state co' = core_dag_state co \<and> core_block_manager co' = core_block_manager co \<and> (force \<longrightarrow> R \<le> vb_round own)) \<and>
     (\<forall>eb. res = Some eb \<longrightarrow> vb_round own < R \<and> hd (vb_ancestors (eb_block eb)) = reference own \<and> proposed e G co co' (eb_block eb))"
proof -
  have last: "last_proposed_round co = Some (vb_round own)" using own by (simp add: last_proposed_round_def)
  obtain ready where ready: "ready_to_propose e i force (R - 1) co = Some ready" "force \<longrightarrow> ready"
    using ready_total[OF ok R] by blast
  show ?thesis
  proof (cases "R \<le> vb_round own \<or> \<not> ready")
    case True
    then have "try_new_block e i force co = Some (co, None)" using ready last R by (auto simp: try_new_block_def Let_def)
    then show ?thesis using True ready(2) by auto
  next
    case False
    then have lt: "vb_round own < R" and ready': "ready_to_propose e i force (R - 1) co = Some True" using ready by auto
    obtain asm li anc exc where sel: "smart_ancestors_to_propose R (\<not> force) co =
          Some (co\<lparr>core_ancestor_state_manager := asm, core_last_included_ancestors := li\<rparr>, anc, exc)"
        "anc = [] \<longrightarrow> \<not> force" "anc \<noteq> [] \<longrightarrow> good_ancestors (core_dag_state co) R own (core_last_included_ancestors co) anc"
        "length li = committee_size (core_committee co)" "\<forall>r. r |\<in>| exc \<longrightarrow> br_author r < committee_size (core_committee co)"
      using smart_ancestors_ok[OF creator_okD(1)[OF ok] R own lt, of "\<not> force"] by blast
    let ?co1 = "co\<lparr>core_ancestor_state_manager := asm, core_last_included_ancestors := li\<rparr>"
    let ?exc = "take (committee_size (core_committee co) * 2) (sorted_list_of_fset exc)"
    have start: "try_new_block e i force co = (if anc = [] then do { rust_assert (\<not> force); Some (?co1, None) }
        else do { (co2, eb) \<leftarrow> create_block e i R anc ?exc ?co1; Some (co2, Some eb) })"
      using lt last ready' sel(1) R by (simp add: try_new_block_def Let_def)
    show ?thesis
    proof (cases "anc = []")
      case True
      then show ?thesis using sel(2) start by (simp add: rust_assert_def)
    next
      case False
      have "\<forall>r \<in> set ?exc. br_author r < committee_size (core_committee co)" using sel(5) by (auto dest: in_set_takeD)
      from create_block_ok[OF ok own lt R refl sel(4) _ this] sel(3) False obtain co' eb where
        "create_block e i R anc ?exc ?co1 = Some (co', eb)" "vb_ancestors (eb_block eb) = map reference anc"
        "proposed e G co co' (eb_block eb)" by blast
      moreover have "hd anc = own" using sel(3) False by (simp add: good_ancestors_def)
      ultimately show ?thesis using start False lt by (simp add: hd_map)
    qed
  qed
qed

end
