(* ===== verification/ProposalProperties.thy ===== *)
theory ProposalProperties
  imports ProposalCreation
begin

text \<open>
  Properties of the proposals of an authority, with a core on the example committee.
\<close>

section \<open>An example\<close>

definition example_core :: "ancestor_state_manager \<Rightarrow> transaction_consumer \<Rightarrow> core" where
  "example_core asm consumer = \<lparr>core_context = example_ctx, core_transaction_consumer = consumer,
     core_transaction_acks = [], core_transaction_certifier = certifier_state_new example_ctx, core_certified_blocks = [],
     core_block_manager = block_manager_new example_ctx, core_propagation_delay = 0,
     core_decider = core_committer example_ctx, core_last_signaled_round = 0,
     core_last_included_ancestors = replicate 4 None, core_last_decided_leader = Slot 0 0,
     core_leader_schedule = leader_schedule_new swap_table_default,
     core_signals_sent = \<lparr>sig_block_broadcast = [], sig_new_round = 0\<rparr>,
     core_dag_state = fresh_state example_ctx 7 example_genesis, core_last_known_proposed_round = Some 0,
     core_ancestor_state_manager = asm, core_round_tracker = round_tracker_new example_ctx\<rparr>"

definition example_consumer :: transaction_consumer where
  "example_consumer = \<lparr>co_tx_receiver = [\<lparr>tg_transactions = [[1, 2], [3]], tg_included_in_block_ack = 5\<rparr>],
     co_max_transactions_in_block_bytes = 512 * 1024, co_max_num_transactions_in_block = 512,
     co_pending_transactions = None, co_block_status_subscribers = fmempty\<rparr>"

lemma example_ancestor_manager:
  "\<exists>asm. ancestor_manager_new example_ctx = Some asm \<and> exclusion_inv asm \<and> am_context asm = example_ctx \<and>
     rs_scores_per_authority (am_propagation_scores asm) = []"
proof -
  have bad: "pc_consensus_bad_nodes_stake_threshold (ctx_protocol_config example_ctx) = Some 20" "(20 :: nat) \<le> 33"
    by (simp_all add: example_ctx_def example_config_def)
  then obtain asm where "ancestor_manager_new example_ctx = Some asm" by (simp add: ancestor_manager_new_def)
  then show ?thesis using ancestor_manager_new_ok[OF _ example_ctx_ok(1) bad] by blast
qed

lemma example_proposer:
  assumes "exclusion_inv asm" "am_context asm = example_ctx" "rs_scores_per_authority (am_propagation_scores asm) = []"
  shows "proposer_ok (example_dag n) (example_core asm consumer)"
    and "\<exists>own. last_proposed_block (example_core asm consumer) = Some own \<and> vb_round own = 0"
    and "threshold_clock_round (core_dag_state (example_core asm consumer)) = 1"
proof -
  let ?co = "example_core asm consumer" and ?ds = "fresh_state example_ctx 7 example_genesis"
  have c: "ctx_committee example_ctx = committee4" "committee_size committee4 = 4" by (simp_all add: example_ctx_def)
  have f: "core_context ?co = example_ctx" "core_dag_state ?co = ?ds" "core_ancestor_state_manager ?co = asm"
      "core_block_manager ?co = block_manager_new example_ctx" "core_round_tracker ?co = round_tracker_new example_ctx"
      "core_last_included_ancestors ?co = replicate 4 None" by (simp_all add: example_core_def)
  show clock: "threshold_clock_round (core_dag_state ?co) = 1"
    unfolding f by (simp add: threshold_clock_round_def fresh_state_def)
  have "well_parented committee4 (example_dag n)"
    using bft_dagD(8)[OF example_dag_bft[of n]] unfolding well_parented_def by blast
  moreover have "no_single_quorum committee4"
    by (simp add: no_single_quorum_def committee4_members committee4_weight quorum_def) (simp add: committee4_def)
  moreover have "tracker_ok (round_tracker_new example_ctx)" by (rule tracker_ok_new[OF example_ctx_ok(1,2)])
  moreover have "parents_kept ?ds" using clock f(2) by (simp add: parents_kept_def)
  ultimately show "proposer_ok (example_dag n) ?co"
    unfolding proposer_ok_def f c using example_manager(1) assms c
    by (simp add: fresh_state_def round_tracker_new_def Let_def)
  have inv: "dag_inv ?ds" by (rule fresh_inv(1)[OF example_genesis_blocks example_ctx_ok])
  have "ds_recent_refs ?ds ! 0 = {||}" "ds_context ?ds = example_ctx" "ctx_own_index example_ctx = 0"
    using c by (simp_all add: fresh_state_def) (simp add: example_ctx_def)
  then show "\<exists>own. last_proposed_block ?co = Some own \<and> vb_round own = 0"
    using get_last_block_for_authority_ok[OF inv, of 0] c by (auto simp: last_proposed_block_def get_last_proposed_block_def f)
qed

definition example_env :: core_env where
  "example_env = \<lparr>ce_crypto = toy_crypto, ce_serialize = example_ser,
     ce_block_signer = a_protocol_key (c_authorities committee4 ! 0), ce_rng = example_rng\<rparr>"

lemma example_env_ok: "env_ok example_env example_ctx (leader_schedule_new swap_table_default)"
proof -
  have "signs toy_crypto key key" for key by (simp add: signs_def toy_crypto_def)
  moreover have "schedule_elect_leader example_rng example_ctx (leader_schedule_new swap_table_default) r 0 = Some 0" for r
    by (simp add: schedule_elect_leader_def elect_leader_stake_based_def example_rng_def example_ctx_def
      committee_size_def committee4_def committee_authorities_def swap_def swap_table_default_def leader_schedule_new_def)
  ultimately show ?thesis
    by (simp add: env_ok_def example_env_def example_ctx_def example_config_def example_ser_def members_def committee4_def committee_size_def)
qed

lemma example_creator:
  assumes "exclusion_inv asm" "am_context asm = example_ctx" "rs_scores_per_authority (am_propagation_scores asm) = []"
  shows "creator_ok example_env (example_dag 0) (example_core asm example_consumer)"
proof -
  let ?co = "example_core asm example_consumer"
  have f: "core_context ?co = example_ctx" "core_leader_schedule ?co = leader_schedule_new swap_table_default"
      "core_decider ?co = core_committer example_ctx" "core_transaction_consumer ?co = example_consumer"
      "core_block_manager ?co = block_manager_new example_ctx" "core_dag_state ?co = fresh_state example_ctx 7 example_genesis"
    by (simp_all add: example_core_def)
  have "gc_clean 0 (block_manager_new example_ctx)" using example_manager(2) by (auto simp: gc_clean_def tidy_def)
  moreover have "pool_ok (ctx_protocol_config example_ctx) example_consumer"
    by (auto simp: pool_ok_def example_consumer_def example_ctx_def example_config_def bundles_def fits_def
      max_transaction_size_bytes_def max_num_transactions_in_block_def max_transactions_in_block_bytes_def
      txn_index_max_def NUM_RESERVED_TRANSACTION_INDICES_def)
  moreover have "br_round r \<le> 0 \<and> vb_ancestors b = []" if "example_dag 0 r = Some b" for r b
    using that by (auto simp: example_dag_iff)
  then have "unreferenced example_env (example_dag 0) R a" "\<forall>r. example_dag 0 r \<noteq> None \<longrightarrow> br_round r = 0" for R a
    by (auto simp: unreferenced_def)
  moreover have "\<not> pc_mysticeti_fastpath (ctx_protocol_config example_ctx)" by (simp add: example_ctx_def example_config_def)
  ultimately show ?thesis
    using example_proposer(1)[OF assms, of 0 example_consumer] example_proposer(3)[OF assms, of example_consumer] example_env_ok example_manager(3)
    unfolding creator_ok_def f by auto
qed

definition example_inputs :: core_inputs where
  "example_inputs = \<lparr>in_now = 9, in_delay_clock_ms = 1000, in_block_clock_ms = 1000, in_quorum_commit_index = 0,
     in_adaptive_delay_ms = 0, in_epoch_change_proposal = None, in_epoch_change_votes = []\<rparr>"

section \<open>Properties\<close>

text \<open>
  C8. A proposal has good ancestors. When the threshold clock is above the last proposed block, the
  selection never panics; in particular its last assertion holds, because the clock vouches for a
  quorum of known blocks in the round below. It returns either nothing, only in the smart mode and
  without touching the included ancestors, or a list that starts with the own last block, has at
  most one block per authority, only known blocks of lower rounds, no block that was included
  before, and a quorum of parents. The excluded references belong to committee members.
\<close>

theorem proposal_ancestors_good:
  assumes "proposer_ok G co" "last_proposed_block co = Some own"
    and "vb_round own < threshold_clock_round (core_dag_state co)"
  shows "\<exists>co' anc exc. smart_ancestors_to_propose (threshold_clock_round (core_dag_state co)) smart co = Some (co', anc, exc) \<and>
     core_dag_state co' = core_dag_state co \<and> exclusion_inv (core_ancestor_state_manager co') \<and>
     (anc = [] \<longrightarrow> smart \<and> core_last_included_ancestors co' = core_last_included_ancestors co) \<and>
     (anc \<noteq> [] \<longrightarrow> hd anc = own \<and> distinct (map vb_author anc) \<and>
        (\<forall>b \<in> set anc. lookup_block (core_dag_state co) (reference b) = Some b \<and>
           vb_round b < threshold_clock_round (core_dag_state co)) \<and>
        (\<forall>b \<in> set (tl anc). newer (core_last_included_ancestors co) b) \<and>
        quorum (core_committee co) \<le> stake_of (core_committee co)
          (vb_author ` {b \<in> set anc. Suc (vb_round b) = threshold_clock_round (core_dag_state co)})) \<and>
     (\<forall>r. r |\<in>| exc \<longrightarrow> br_author r \<in> members (core_committee co))"
proof -
  obtain asm li anc exc where sel: "smart_ancestors_to_propose (threshold_clock_round (core_dag_state co)) smart co =
        Some (co\<lparr>core_ancestor_state_manager := asm, core_last_included_ancestors := li\<rparr>, anc, exc)"
      "exclusion_inv asm" "anc = [] \<longrightarrow> smart \<and> li = core_last_included_ancestors co"
      "anc \<noteq> [] \<longrightarrow> good_ancestors (core_dag_state co) (threshold_clock_round (core_dag_state co)) own (core_last_included_ancestors co) anc"
      "\<forall>r. r |\<in>| exc \<longrightarrow> br_author r < committee_size (core_committee co)"
    using smart_ancestors_ok[OF assms(1) refl assms(2,3)] by blast
  show ?thesis
    unfolding sel(1) using sel(2-5) proposer_okD(4)[OF assms(1)] by (simp add: good_ancestors_def members_def)
qed

theorem proposal_ancestors_good_witness:
  "\<exists>co co' own anc exc. last_proposed_block co = Some own \<and> smart_ancestors_to_propose 1 False co = Some (co', anc, exc) \<and>
     anc \<noteq> [] \<and> hd anc = own \<and> quorum committee4 \<le> stake_of committee4 (vb_author ` {b \<in> set anc. vb_round b = 0})"
proof -
  obtain asm where asm: "exclusion_inv asm" "am_context asm = example_ctx" "rs_scores_per_authority (am_propagation_scores asm) = []"
    using example_ancestor_manager by blast
  let ?co = "example_core asm example_consumer"
  obtain own where own: "last_proposed_block ?co = Some own" "vb_round own = 0" using example_proposer(2)[OF asm] by blast
  have clock: "threshold_clock_round (core_dag_state ?co) = 1" by (rule example_proposer(3)[OF asm])
  have c: "core_committee ?co = committee4" by (simp add: example_core_def example_ctx_def)
  have lt: "vb_round own < threshold_clock_round (core_dag_state ?co)" using own(2) clock by simp
  obtain co' anc exc where "smart_ancestors_to_propose 1 False ?co = Some (co', anc, exc)" "anc \<noteq> []" "hd anc = own"
      "quorum committee4 \<le> stake_of committee4 (vb_author ` {b \<in> set anc. Suc (vb_round b) = 1})"
    using proposal_ancestors_good[OF example_proposer(1)[OF asm, of 0] own(1) lt, of False] unfolding clock c by auto
  moreover have "{b \<in> set anc. Suc (vb_round b) = 1} = {b \<in> set anc. vb_round b = 0}" by auto
  ultimately show ?thesis
    using own(1) by (intro exI[of _ ?co] exI[of _ co'] exI[of _ own] exI[of _ anc] exI[of _ exc]) simp
qed

text \<open>
  C9. Proposing is safe and live. From a state in which the core may propose, \<open>try_new_block\<close> never
  panics. It returns nothing without touching the DAG, and a forced call does so only when the clock
  has not passed the last proposed block. Otherwise the new block is for the clock round, the first of
  this authority there, and follows the last proposed one; it passes \<open>verify_block\<close> at every node with
  the same committee, limits and genesis blocks; it alone is added to the known blocks, is in the store,
  is now the last proposed block, and the state stays consistent with the DAG that has it.
\<close>

theorem new_block_correct:
  assumes "creator_ok e G co" and "last_proposed_block co = Some own"
  shows "\<exists>co' res. try_new_block e i force co = Some (co', res) \<and>
     (res = None \<longrightarrow> core_dag_state co' = core_dag_state co \<and> core_block_manager co' = core_block_manager co \<and>
        (force \<longrightarrow> threshold_clock_round (core_dag_state co) \<le> vb_round own)) \<and>
     (\<forall>eb b. res = Some eb \<and> b = eb_block eb \<longrightarrow>
        vb_round own < vb_round b \<and> vb_round b = threshold_clock_round (core_dag_state co) \<and>
        vb_author b = ctx_own_index (core_context co) \<and> hd (vb_ancestors b) = reference own \<and>
        (\<forall>r. G r \<noteq> None \<longrightarrow> slot_of_ref r \<noteq> slot_of_ref (reference b)) \<and>
        (\<forall>v. same_rules co v \<longrightarrow> verify_block (ce_crypto e) v (vb_block b) = ok ()) \<and>
        lookup_block (core_dag_state co') = (lookup_block (core_dag_state co))(reference b \<mapsto> b) \<and>
        mem_lookup (ds_store (core_dag_state co')) (reference b) = Some b \<and> last_proposed_block co' = Some b \<and>
        manager_ok (G(reference b \<mapsto> b)) (core_block_manager co') (core_dag_state co'))"
proof -
  obtain co' res where r: "try_new_block e i force co = Some (co', res)"
      "res = None \<longrightarrow> core_dag_state co' = core_dag_state co \<and> core_block_manager co' = core_block_manager co \<and>
        (force \<longrightarrow> threshold_clock_round (core_dag_state co) \<le> vb_round own)"
      "\<forall>eb. res = Some eb \<longrightarrow> vb_round own < threshold_clock_round (core_dag_state co) \<and>
        hd (vb_ancestors (eb_block eb)) = reference own \<and> proposed e G co co' (eb_block eb)"
    using try_new_block_ok[OF assms refl] by blast
  show ?thesis
  proof (cases res)
    case None
    then show ?thesis using r(1,2) by auto
  next
    case (Some eb)
    then have p: "vb_round own < threshold_clock_round (core_dag_state co)" "hd (vb_ancestors (eb_block eb)) = reference own"
        "proposed e G co co' (eb_block eb)" using r(3) by auto
    note q = p(3)[unfolded proposed_def]
    have "slot_of_ref x \<noteq> slot_of_ref (reference (eb_block eb))" if "G x \<noteq> None" for x
      using creator_okD(7)[OF assms that] p(1) q by (auto simp: slot_of_ref_def)
    then show ?thesis using r(1) Some p(1,2) q by (intro exI[of _ co'] exI[of _ res]) simp
  qed
qed

theorem new_block_correct_witness:
  "\<exists>co co' eb v. creator_ok example_env (example_dag 0) co \<and> same_rules co v \<and>
     try_new_block example_env example_inputs True co = Some (co', Some eb) \<and> vb_round (eb_block eb) = 1 \<and> vb_author (eb_block eb) = 0 \<and>
     verify_block toy_crypto v (vb_block (eb_block eb)) = ok () \<and>
     mem_lookup (ds_store (core_dag_state co')) (reference (eb_block eb)) = Some (eb_block eb)"
proof -
  obtain asm where asm: "exclusion_inv asm" "am_context asm = example_ctx" "rs_scores_per_authority (am_propagation_scores asm) = []"
    using example_ancestor_manager by blast
  let ?co = "example_core asm example_consumer"
  obtain own where own: "last_proposed_block ?co = Some own" "vb_round own = 0" using example_proposer(2)[OF asm] by blast
  have clock: "threshold_clock_round (core_dag_state ?co) = 1" by (rule example_proposer(3)[OF asm])
  have c: "ctx_own_index (core_context ?co) = 0" "ce_crypto example_env = toy_crypto"
    by (simp_all add: example_core_def example_ctx_def example_env_def)
  have ok: "creator_ok example_env (example_dag 0) ?co" by (rule example_creator[OF asm])
  let ?v = "verifier4\<lparr>sv_context := core_context ?co, sv_genesis := fmdom (ds_genesis (core_dag_state ?co))\<rparr>"
  have v: "same_rules ?co ?v" by (simp add: same_rules_def)
  obtain co' res where t: "try_new_block example_env example_inputs True ?co = Some (co', res)"
      "res = None \<longrightarrow> threshold_clock_round (core_dag_state ?co) \<le> vb_round own"
      "\<forall>eb. res = Some eb \<longrightarrow> vb_round (eb_block eb) = 1 \<and> vb_author (eb_block eb) = 0 \<and>
         verify_block toy_crypto ?v (vb_block (eb_block eb)) = ok () \<and>
         mem_lookup (ds_store (core_dag_state co')) (reference (eb_block eb)) = Some (eb_block eb)"
    using new_block_correct[OF ok own(1), of example_inputs True] v unfolding clock c by blast
  have "res \<noteq> None" using t(2) own(2) clock by auto
  then obtain eb where "res = Some eb" by blast
  then show ?thesis using t ok v by blast
qed

end
