(* ===== verification/Spec2Isabelle.thy ===== *)
theory Spec2Isabelle
  imports LinearizerProperties VerifiedDag CommitVoteMonitor CertifierProperties ProposalProperties
begin

text \<open>
  A verification development of the consensus core of the repository: the crates
  \<open>config\<close>, \<open>types\<close> and \<open>core\<close> under \<open>src/metanode/meta-consensus\<close>. File names below are relative to
  \<open>core/src\<close> unless they name another crate.

  \<^bold>\<open>The program.\<close> Authorities with stakes exchange signed blocks. A block refers to earlier blocks, its
  parents being a quorum of the round before, so the blocks form a DAG. The block verifier checks
  received blocks; the block manager holds them back until their history has arrived and then puts
  them into the DAG state, which caches recent blocks over a store and drives a threshold clock. The
  commit rule decides from the DAG alone which leader block of each round is committed; the
  linearizer turns committed leaders into commits, which give scores to the leader schedule. When
  the clock advances, the core proposes a block of its own from the transaction pool. The
  transaction certifier certifies the transactions of a block before it is committed, from the votes
  in the blocks above it.

  \<^bold>\<open>Conventions.\<close> A struct is a record, an enum a datatype, a function one definition on explicit state.
  A panic of the source is \<open>None\<close>; a \<open>Result\<close> that may also panic is of type \<open>fallible\<close>. Stakes and scores
  are 64-bit words and wrap around, digests are 256-bit words; rounds and indices are natural numbers
  and \<open>saturating_sub\<close> is their subtraction. Maps and sets are \<open>fmap\<close> and \<open>fset\<close>, iterated in key order.
  State shared through \<open>Arc<RwLock>\<close> is an argument and a result, a channel is the list of what was
  sent, clocks are arguments. Metrics and logs are left out, but the panics of the reads they make
  are kept.

  \<^bold>\<open>Theories and sources.\<close>
  \<^item> \<open>Prelude\<close>: panicking reads and loops, words, ordered iteration; the shared lemmas.
  \<^item> \<open>Committee\<close> (\<open>config/src/committee.rs\<close>), \<open>StakeAggregator\<close> (\<open>stake_aggregator.rs\<close>), \<open>QuorumWalk\<close>: stakes,
    thresholds and vote counting. The locale \<open>quorum_system\<close> gives the intersection of quorums, the locale
    \<open>vote_counter\<close> exact counting; both are interpreted on the committee and the aggregator.
  \<^item> \<open>Block\<close>, \<open>Commit\<close>, \<open>ConsensusError\<close> (\<open>block.rs\<close>, \<open>commit.rs\<close>, \<open>error.rs\<close>, \<open>context.rs\<close>, \<open>types/src/block.rs\<close>,
    \<open>config/src/parameters.rs\<close>): the data. \<open>ThresholdClock\<close> (\<open>threshold_clock.rs\<close>), \<open>LeaderScoring\<close>
    (\<open>leader_scoring.rs\<close>) and \<open>Store\<close> (\<open>storage/mod.rs\<close>, \<open>storage/mem_store.rs\<close>, with the locale \<open>block_store\<close>): the
    clock's round is determined by the accepted blocks, unless an authority alone is a quorum; scores
    are exact; reads return what was written, except the scan for the last blocks of an author.
  \<^item> \<open>DagState\<close> (\<open>dag_state.rs\<close>) with \<open>DagInv\<close> (the invariant: cache, index, store, eviction and clock agree
    on one set of known blocks), \<open>DagRecovery\<close> (start and runs), \<open>DagTraversal\<close> (the two traversals, and
    a restart that panics) and \<open>DagReads\<close> (the reads of a proposal).
  \<^item> \<open>LeaderSchedule\<close> (\<open>leader_schedule.rs\<close>): good and bad nodes, and when an election panics.
    \<open>BaseCommitter\<close> and \<open>UniversalCommitter\<close> (\<open>base_committer.rs\<close>, \<open>universal_committer.rs\<close>) with \<open>CommitterSafety\<close> (why two views decide alike; the locale
    \<open>commit_rule\<close>), \<open>CommitterProperties\<close> and \<open>ExampleDag\<close>.
  \<^item> \<open>Linearizer\<close> (\<open>linearizer.rs\<close>) with \<open>LinearizerSafety\<close>, \<open>CommitTimestamp\<close>, \<open>CommitChain\<close>, \<open>ListDag\<close> and
    \<open>LinearizerProperties\<close>: sub-dags (exactly the open history of the leader and the uncommitted blocks of
    its round), the median timestamp, the chain of commits, and the two ways in
    which committing all blocks of the leader round breaks them.
  \<^item> \<open>BlockVerifier\<close> (\<open>block_verifier.rs\<close>, the signatures of \<open>block.rs\<close>) and \<open>VerifiedDag\<close>: verified blocks are
    the DAG the other components assume.
  \<^item> \<open>BlockManager\<close> (\<open>block_manager.rs\<close>) with \<open>BlockManagerInv\<close>, \<open>BlockManagerSafety\<close>, \<open>BlockManagerGc\<close> and
    \<open>BlockManagerProperties\<close>: exactly the blocks whose history has arrived are accepted, in any order.
  \<^item> \<open>RoundTracker\<close> (\<open>round_tracker.rs\<close>), \<open>AncestorState\<close> (\<open>ancestor.rs\<close>), \<open>CommitVoteMonitor\<close>
    (\<open>commit_vote_monitor.rs\<close>): quorum values of rounds and commits, and the bounded exclusion of slow
    authorities.
  \<^item> \<open>TransactionCertifier\<close> (\<open>transaction_certifier.rs\<close>) with \<open>CertifierSafety\<close> and \<open>CertifierProperties\<close>: outputs
    are justified by blocks and nodes never disagree. \<open>TransactionPool\<close> (\<open>transaction.rs\<close>): bundles are
    delivered in order and acknowledged once.
  \<^item> \<open>Core\<close> (\<open>core.rs\<close>) with \<open>DagReads\<close>, \<open>ProposalAncestors\<close>, \<open>ProposalCreation\<close> and \<open>ProposalProperties\<close>: a proposal
    always has a quorum of known parents, which rests on the clock, the DAG state, the ancestor states
    and the round tracker; creating a block never panics, and the block is valid for every peer, stored
    and the only one of its round, which rests on the block verifier, the block manager, the transaction
    pool and the certifier as well.
  \<^item> This theory: agreement of the commit sequences of two nodes.

  \<^bold>\<open>Hypotheses.\<close> Serialization, hashing, signatures, the transaction verifier and the seeded random
  generator are external crates: they are fields of \<open>crypto\<close>, \<open>transaction_verifier\<close> and \<open>rng\<close> or arguments, and
  what the code needs of them is a named hypothesis with a witness. Safety across nodes assumes that
  the faulty authorities hold less stake than the validity threshold and that the others follow
  the protocol (\<open>bft_dag\<close>); the clock is exact when no single authority is a quorum. A proposer
  (\<open>creator_ok\<close>) knows its newest own block, and nobody refers to its next block before it exists.

  \<^bold>\<open>Termination.\<close> No definition uses fuel. Loops are structural or have a termination proof: the marking
  traversals by the number of unmarked blocks, eviction and garbage collection by the size of the
  map, unsuspending by the number of suspended blocks. \<open>linked_loop\<close> and \<open>find_in_ancestors\<close> end only when
  references point to lower rounds; they are partial functions, and that they return is proved.

  \<^bold>\<open>Not modelled.\<close> In \<open>core.rs\<close>: the commit loop \<open>try_commit\<close>, the entry points that call it, and the
  construction of the core; the commit rule, the linearizer and the schedule update it calls are
  modelled. \<open>commit_finalizer.rs\<close> and \<open>commit_observer.rs\<close>; the adaptive delay, whose result is an input of
  the proposal. The synchronizer, the commit syncer, the network services, the node and core threads
  and the leader timer are asynchronous tasks over \<open>tokio\<close> and \<open>tonic\<close> channels. The RocksDB store
  wraps an external database; its trait is modelled by the in-memory store. The protocol
  configuration is generated by macros; the values read are fields of \<open>protocol_config\<close>. The epoch
  change, the node executable, the client and the infrastructure crates are outside the consensus core.
\<close>

section \<open>Agreement\<close>

text \<open>
  C1. Two nodes never decide differently. Take any two nodes of an epoch (same committee, faulty
  authorities below the validity threshold, one leader per round, the same leader schedule), each
  with its own part of the DAG, its own last decided slot and its own highest round. \<open>try_decide\<close>
  returns on both without a panic; each result decides consecutive rounds from the one after the
  last decided slot, without gaps; and wherever both decide a round, they decide the same slot in
  the same way: both skip it or both commit the same block, whether by the direct or the indirect
  rule.
\<close>

theorem committers_agree:
  assumes "bft_dag c F G" and "node_view c G ds1" and "node_view c G ds2"
    and "ctx_committee ctx1 = c" and "ctx_committee ctx2 = c"
    and "pc_mysticeti_num_leaders_per_round (ctx_protocol_config ctx1) = Some 1"
    and "pc_mysticeti_num_leaders_per_round (ctx_protocol_config ctx2) = Some 1"
    and "\<forall>r. \<exists>a \<in> members c. schedule_elect_leader g ctx1 sch r 0 = Some a"
    and "last_commit_round ds1 \<le> slot_round last1" and "last_commit_round ds2 \<le> slot_round last2"
  shows "\<exists>xs ys. try_decide g sch (core_committer ctx1) ds1 last1 = Some xs \<and>
     try_decide g sch (core_committer ctx2) ds2 last2 = Some ys \<and>
     map (slot_round \<circ> decided_slot) xs = [Suc (slot_round last1)..<Suc (slot_round last1) + length xs] \<and>
     map (slot_round \<circ> decided_slot) ys = [Suc (slot_round last2)..<Suc (slot_round last2) + length ys] \<and>
     (\<forall>x \<in> set xs. \<forall>y \<in> set ys. slot_round (decided_slot x) = slot_round (decided_slot y) \<longrightarrow>
        decided_slot x = decided_slot y \<and> into_committed_block x = into_committed_block y)"
proof -
  obtain leader where leader: "\<And>r. schedule_elect_leader g ctx1 sch r 0 = Some (leader r) \<and> leader r \<in> members c"
    using assms(8) by metis
  have "schedule_elect_leader g ctx2 sch r 0 = schedule_elect_leader g ctx1 sch r 0" for r
    using assms(4,5) by (simp add: schedule_elect_leader_def elect_leader_stake_based_def)
  with leader have leader2: "\<And>r. schedule_elect_leader g ctx2 sch r 0 = Some (leader r) \<and> leader r \<in> members c"
    by simp
  let ?sl = "\<lambda>r. Slot r (leader r)"
  obtain sts xs where xs: "node_run ctx1 ds1 ?sl last1 = Some sts"
      "try_decide g sch (core_committer ctx1) ds1 last1 = Some xs" "length xs \<le> length sts"
      "\<forall>i < length xs. decided_slot (xs ! i) = ?sl (Suc (slot_round last1) + i) \<and> is_decided (sts ! i) \<and>
         into_committed_block (xs ! i) = verdict (sts ! i)"
    using try_decide_ok[OF assms(1,2,4,6) leader assms(9)] by blast
  obtain sts' ys where ys: "node_run ctx2 ds2 ?sl last2 = Some sts'"
      "try_decide g sch (core_committer ctx2) ds2 last2 = Some ys" "length ys \<le> length sts'"
      "\<forall>i < length ys. decided_slot (ys ! i) = ?sl (Suc (slot_round last2) + i) \<and> is_decided (sts' ! i) \<and>
         into_committed_block (ys ! i) = verdict (sts' ! i)"
    using try_decide_ok[OF assms(1,3,5,7) leader2 assms(10)] by blast
  have same: "sts ! i = sts' ! j"
    if ij: "i < length sts" "j < length sts'" "Suc (slot_round last1) + i = Suc (slot_round last2) + j"
      "is_decided (sts ! i)" "is_decided (sts' ! j)" for i j
    using node_runs_agree[OF assms(1-5) xs(1) ys(1)] assms(9,10) ij by simp
  have rounds: "map (slot_round \<circ> decided_slot) zs = [lo..<lo + length zs]"
    if "\<forall>i < length zs. decided_slot (zs ! i) = ?sl (lo + i)" for zs lo
    using that by (intro nth_equalityI) auto
  have "decided_slot x = decided_slot y \<and> into_committed_block x = into_committed_block y"
    if xy: "x \<in> set xs" "y \<in> set ys" "slot_round (decided_slot x) = slot_round (decided_slot y)" for x y
  proof -
    obtain i j where ij: "i < length xs" "x = xs ! i" "j < length ys" "y = ys ! j"
      using xy(1,2) by (metis in_set_conv_nth)
    then have "Suc (slot_round last1) + i = Suc (slot_round last2) + j"
      using xy(3) ij xs(4) ys(4) by simp
    then show ?thesis using ij xs(3,4) ys(3,4) same[of i j] by auto
  qed
  then show ?thesis using xs(2,4) ys(2,4) rounds by blast
qed

theorem committers_agree_witness:
  "\<exists>ds1 ds2 xs ys. ds_highest_accepted_round ds1 = 4 \<and> ds_highest_accepted_round ds2 = 6 \<and>
     try_decide example_rng example_schedule (core_committer example_ctx) ds1 (Slot 0 0) = Some xs \<and>
     try_decide example_rng example_schedule (core_committer example_ctx) ds2 (Slot 1 1) = Some ys \<and>
     (\<forall>x \<in> set xs. \<forall>y \<in> set ys. slot_round (decided_slot x) = slot_round (decided_slot y) \<longrightarrow>
        decided_slot x = decided_slot y \<and> into_committed_block x = into_committed_block y)"
proof -
  obtain ds1 where ds1: "node_view committee4 (example_dag 4) ds1" "ds_last_commit ds1 = None"
      "ds_highest_accepted_round ds1 = 4"
    using example_state[of 4] by blast
  obtain ds2 where ds2: "node_view committee4 (example_dag 6) ds2" "ds_last_commit ds2 = None"
      "ds_highest_accepted_round ds2 = 6"
    using example_state[of 6] by blast
  have nv1: "node_view committee4 (example_dag 6) ds1"
    by (rule node_view_mono[OF ds1(1) example_dag_mono]) simp
  have leader: "\<forall>r. \<exists>a \<in> members committee4. schedule_elect_leader example_rng example_ctx example_schedule r 0 = Some a"
    using example_leader by (auto simp: committee4_members)
  have ctx: "ctx_committee example_ctx = committee4"
      "pc_mysticeti_num_leaders_per_round (ctx_protocol_config example_ctx) = Some 1"
    by (simp_all add: example_ctx_def example_config_def)
  show ?thesis
    using committers_agree[OF example_dag_bft nv1 ds2(1) ctx(1) ctx(1) ctx(2) ctx(2) leader,
        of "Slot 0 0" "Slot 1 1"] ds1(3) ds2(3) example_open[OF ds1(2)] example_open[OF ds2(2)]
    by auto
qed

end
